(* ===== verification/Zelox_Prelude.thy ===== *)
theory Zelox_Prelude
  imports
    Main
    "HOL-Library.Word"
    "HOL-Library.AList"
    "HOL-Library.Multiset"
begin

text \<open>
  Shared material of the development: the names of the machine types, the error type of the
  execution crate, the containers the Rust code uses (\<open>IndexMap\<close> as an association list in
  insertion order, \<open>IndexSet\<close> as a duplicate-free list in insertion order), collecting a
  vector of results, and one locale for the invariants of the actors and operators, which all
  are folds of a step over a list of events.
\<close>

named_theorems inv_intros \<open>an operation keeps a component's invariant\<close>
named_theorems frame_simps \<open>what an operation leaves unchanged\<close>

section \<open>Machine types and errors\<close>

type_synonym u64 = "64 word"
type_synonym u16 = "16 word"
type_synonym time = nat

text \<open>
  \<open>ExecutionError\<close> of \<open>zelox-execution/src/error.rs\<close>. The payload of a formatted message is
  the source's format string, with the interpolated values left as the source writes them.
\<close>

datatype execution_error =
    DataFusionError string
  | InvalidArgument string
  | JsonError string
  | IoError string
  | TonicTransportError string
  | TonicStatusError string
  | KubernetesError string
  | InternalError string

type_synonym 'a execution_result = "execution_error + 'a"

text \<open>The errors of DataFusion that the code raises with \<open>internal_err!\<close> and \<open>plan_err!\<close>.\<close>

datatype df_error = DF_Internal string | DF_Plan string

type_synonym 'a df_result = "df_error + 'a"

definition usize_max :: nat where
  "usize_max = 2 ^ 64 - 1"

text \<open>\<open>usize::saturating_add\<close>; \<open>saturating_sub\<close> is the subtraction of \<open>nat\<close>.\<close>

definition saturating_add :: "nat \<Rightarrow> nat \<Rightarrow> nat" where
  "saturating_add a b = min (a + b) usize_max"

text \<open>\<open>usize::div_ceil\<close>; a zero divisor panics, which is \<open>None\<close>.\<close>

definition div_ceil :: "nat \<Rightarrow> nat \<Rightarrow> nat option" where
  "div_ceil a b = (if b = 0 then None else Some ((a + b - 1) div b))"

lemma div_ceil_pos: "0 < b \<Longrightarrow> div_ceil a b = Some ((a + b - 1) div b)"
  by (simp add: div_ceil_def)

lemma div_ceil_enough: "0 < b \<Longrightarrow> div_ceil a b = Some q \<Longrightarrow> a \<le> q * b"
proof -
  assume b: "0 < b" and q: "div_ceil a b = Some q"
  have "a + b - 1 < (q + 1) * b"
    using q b by (auto simp: div_ceil_def intro: dividend_less_div_times)
  then show ?thesis using b by (simp add: algebra_simps)
qed

lemma div_ceil_le: "div_ceil a b = Some q \<Longrightarrow> q \<le> a"
proof -
  assume q: "div_ceil a b = Some q"
  then have b: "0 < b" by (simp add: div_ceil_def split: if_splits)
  then have "a + b - 1 < Suc a * b" by (cases b) auto
  then have "(a + b - 1) div b < Suc a" by (rule less_mult_imp_div_less)
  then show "q \<le> a" using q b by (simp add: div_ceil_def)
qed

lemma div_ceil_tight: "div_ceil a b = Some q \<Longrightarrow> 0 < q \<Longrightarrow> (q - 1) * b < a"
proof -
  assume q: "div_ceil a b = Some q" and pos: "0 < q"
  then have b: "0 < b" by (simp add: div_ceil_def split: if_splits)
  have "q = (a + b - 1) div b" using q b by (simp add: div_ceil_def)
  then have "q * b \<le> a + b - 1" by (simp add: div_times_less_eq_dividend)
  moreover have "(q - 1) * b + b = q * b" using pos by (cases q) auto
  moreover have "0 < a" using div_ceil_le [OF q] pos by simp
  ultimately show ?thesis using b by linarith
qed

section \<open>Containers\<close>

subsection \<open>Indexed sets\<close>

definition is_insert :: "'a \<Rightarrow> 'a list \<Rightarrow> 'a list" where
  "is_insert x xs = (if x \<in> set xs then xs else xs @ [x])"

definition is_extend :: "'a list \<Rightarrow> 'a list \<Rightarrow> 'a list" where
  "is_extend xs ys = foldl (\<lambda>acc y. is_insert y acc) xs ys"

text \<open>\<open>IndexSet::swap_remove\<close>: the last element takes the place of the removed one.\<close>

fun swap_remove :: "'a \<Rightarrow> 'a list \<Rightarrow> 'a list" where
  "swap_remove x [] = []"
| "swap_remove x (y # ys) =
     (if x = y then (if ys = [] then [] else last ys # butlast ys) else y # swap_remove x ys)"

lemma set_is_insert [simp]: "set (is_insert x xs) = insert x (set xs)"
  by (auto simp: is_insert_def)

lemma distinct_is_insert [simp]: "distinct (is_insert x xs) = distinct xs"
  by (auto simp: is_insert_def)

lemma set_is_extend [simp]: "set (is_extend xs ys) = set xs \<union> set ys"
  by (induction ys arbitrary: xs) (auto simp: is_extend_def)

lemma distinct_is_extend [simp]: "distinct (is_extend xs ys) = distinct xs"
  by (induction ys arbitrary: xs) (auto simp: is_extend_def)

lemma is_extend_simps [simp]:
  "is_extend xs [] = xs"
  "is_extend xs (y # ys) = is_extend (is_insert y xs) ys"
  by (simp_all add: is_extend_def)

lemma mset_last_butlast: "ys \<noteq> [] \<Longrightarrow> mset (last ys # butlast ys) = mset ys"
  by (cases ys rule: rev_cases) auto

lemma mset_swap_remove: "x \<in> set xs \<Longrightarrow> mset (swap_remove x xs) = mset xs - {#x#}"
proof (induction xs)
  case Nil
  then show ?case by simp
next
  case (Cons y ys)
  show ?case
  proof (cases "x = y")
    case True
    then show ?thesis using mset_last_butlast [of ys] by auto
  next
    case False
    with Cons show ?thesis by auto
  qed
qed

lemma swap_remove_absent [simp]: "x \<notin> set xs \<Longrightarrow> swap_remove x xs = xs"
  by (induction xs) auto

lemma mset_swap_remove1: "mset (swap_remove x xs) = mset (remove1 x xs)"
  by (cases "x \<in> set xs") (simp_all add: mset_swap_remove remove1_idem)

lemma set_swap_remove_remove1: "set (swap_remove x xs) = set (remove1 x xs)"
  by (rule mset_eq_setD) (rule mset_swap_remove1)

lemma set_swap_remove [simp]: "distinct xs \<Longrightarrow> set (swap_remove x xs) = set xs - {x}"
  by (simp add: set_swap_remove_remove1)

lemma set_swap_remove_subset: "set (swap_remove x xs) \<subseteq> set xs"
  by (simp add: set_swap_remove_remove1 set_remove1_subset)

lemma distinct_swap_remove [simp]: "distinct xs \<Longrightarrow> distinct (swap_remove x xs)"
  by (subst mset_eq_imp_distinct_iff [OF mset_swap_remove1]) simp

subsection \<open>Indexed maps\<close>

text \<open>
  An \<open>IndexMap\<close> is an association list whose keys are distinct. \<open>insert\<close> is
  \<^const>\<open>AList.update\<close> (an existing key keeps its position, a new one goes to the end) and
  writing through \<open>get_mut\<close> is \<^const>\<open>AList.map_entry\<close>.
\<close>

type_synonym ('k, 'v) index_map = "('k \<times> 'v) list"

abbreviation im_keys :: "('k, 'v) index_map \<Rightarrow> 'k list" where
  "im_keys m \<equiv> map fst m"

abbreviation im_values :: "('k, 'v) index_map \<Rightarrow> 'v list" where
  "im_values m \<equiv> map snd m"

abbreviation im_get :: "('k, 'v) index_map \<Rightarrow> 'k \<Rightarrow> 'v option" where
  "im_get m k \<equiv> map_of m k"

abbreviation im_insert :: "'k \<Rightarrow> 'v \<Rightarrow> ('k, 'v) index_map \<Rightarrow> ('k, 'v) index_map" where
  "im_insert k v m \<equiv> AList.update k v m"

abbreviation im_modify :: "'k \<Rightarrow> ('v \<Rightarrow> 'v) \<Rightarrow> ('k, 'v) index_map \<Rightarrow> ('k, 'v) index_map" where
  "im_modify k f m \<equiv> AList.map_entry k f m"

lemma im_get_insert [simp]:
  "im_get (im_insert k v m) k' = (if k' = k then Some v else im_get m k')"
  by (simp add: update_conv')

lemma im_get_modify [simp]:
  "im_get (im_modify k f m) k' = (if k' = k then map_option f (im_get m k') else im_get m k')"
  by (induction m) auto

lemma im_keys_modify [simp]: "im_keys (im_modify k f m) = im_keys m"
  by (induction m) auto

lemma im_insert_fresh: "k \<notin> set (im_keys m) \<Longrightarrow> im_insert k v m = m @ [(k, v)]"
  by (induction m) auto

lemma im_get_Some_in: "im_get m k = Some v \<Longrightarrow> (k, v) \<in> set m"
  by (rule map_of_SomeD)

lemma set_im_modify:
  "distinct (im_keys m) \<Longrightarrow>
   (k', v') \<in> set (im_modify k f m) \<longleftrightarrow>
     (if k' = k then \<exists>v. (k, v) \<in> set m \<and> v' = f v else (k', v') \<in> set m)"
proof -
  assume d: "distinct (im_keys m)"
  then have "(k', v') \<in> set (im_modify k f m) \<longleftrightarrow> im_get (im_modify k f m) k' = Some v'"
    by (metis im_keys_modify map_of_eq_Some_iff)
  with d show ?thesis by auto
qed

lemma im_modify_absent [simp]: "k \<notin> set (im_keys m) \<Longrightarrow> im_modify k f m = m"
  by (induction m) auto

lemma im_get_map_values:
  "im_get (map (\<lambda>(k, v). (k, f k v)) m) k = map_option (f k) (im_get m k)"
  by (induction m) auto

lemma im_insert_in_place:
  "distinct (im_keys m) \<Longrightarrow> im_get m k = Some v \<Longrightarrow>
   im_insert k (f v) m = map (\<lambda>(k', v'). (k', if k' = k then f v' else v')) m"
proof (induction m)
  case (Cons a m)
  have "k \<notin> set (im_keys m) \<Longrightarrow> map (\<lambda>(k', v'). (k', if k' = k then f v' else v')) m = m"
    by (induction m) auto
  with Cons show ?case by (cases a) auto
qed simp

lemma im_modify_in_place:
  "distinct (im_keys m) \<Longrightarrow> im_modify k f m = map (\<lambda>(k', v'). (k', if k' = k then f v' else v')) m"
proof (induction m)
  case (Cons a m)
  have "k \<notin> set (im_keys m) \<Longrightarrow> map (\<lambda>(k', v'). (k', if k' = k then f v' else v')) m = m"
    by (induction m) auto
  with Cons show ?case by (cases a) auto
qed simp

text \<open>\<open>Vec::remove\<close> at an index in range.\<close>

definition remove_at :: "nat \<Rightarrow> 'a list \<Rightarrow> 'a list" where
  "remove_at i xs = take i xs @ drop (Suc i) xs"

lemma set_remove_at: "i < length xs \<Longrightarrow> set xs = insert (xs ! i) (set (remove_at i xs))"
  unfolding remove_at_def by (metis Un_insert_right id_take_nth_drop list.set(2) set_append)

section \<open>Collecting results\<close>

text \<open>\<open>iter.map(f).collect::<Result<Vec<_>, _>>()\<close>: the first error ends the iteration.\<close>

fun collect_results :: "('a \<Rightarrow> 'e + 'b) \<Rightarrow> 'a list \<Rightarrow> 'e + 'b list" where
  "collect_results f [] = Inr []"
| "collect_results f (x # xs) =
     (case f x of Inl e \<Rightarrow> Inl e
      | Inr y \<Rightarrow> (case collect_results f xs of Inl e \<Rightarrow> Inl e | Inr ys \<Rightarrow> Inr (y # ys)))"

lemma collect_results_same:
  "(\<And>x. x \<in> set xs \<Longrightarrow> f x = g x) \<Longrightarrow> collect_results f xs = collect_results g xs"
  by (induction xs) (auto cong: sum.case_cong)

lemma collect_results_cong [fundef_cong]:
  "xs = ys \<Longrightarrow> (\<And>x. x \<in> set ys \<Longrightarrow> f x = g x) \<Longrightarrow> collect_results f xs = collect_results g ys"
  by (erule ssubst) (rule collect_results_same)

lemma collect_results_Inr:
  "collect_results f xs = Inr ys \<longleftrightarrow> list_all2 (\<lambda>x y. f x = Inr y) xs ys"
proof (induction xs arbitrary: ys)
  case Nil
  then show ?case by auto
next
  case (Cons x xs)
  show ?case
    by (cases "f x"; cases "collect_results f xs")
      (auto simp: list_all2_Cons1 Cons.IH [symmetric])
qed

lemma collect_results_total:
  "(\<And>x. x \<in> set xs \<Longrightarrow> f x = Inr (g x)) \<Longrightarrow> collect_results f xs = Inr (map g xs)"
  by (induction xs) auto

lemma collect_results_Inl_elem:
  "collect_results f xs = Inl e \<Longrightarrow> \<exists>x \<in> set xs. f x = Inl e"
  by (induction xs) (auto split: sum.splits)

section \<open>Folds\<close>

lemma foldl_map_arg: "foldl (\<lambda>acc x. f acc (g x)) acc xs = foldl f acc (map g xs)"
  by (induction xs arbitrary: acc) auto

lemma foldl_cong_set:
  "(\<And>x acc. x \<in> set xs \<Longrightarrow> f acc x = g acc x) \<Longrightarrow> foldl f acc xs = foldl g acc xs"
  by (induction xs arbitrary: acc) auto

lemma foldl_filter: "foldl (\<lambda>acc x. if P x then f acc x else acc) acc xs = foldl f acc (filter P xs)"
  by (induction xs arbitrary: acc) auto

lemma foldl_concat: "foldl (\<lambda>acc x. foldl f acc (g x)) acc xs = foldl f acc (concat (map g xs))"
  by (induction xs arbitrary: acc) auto

text \<open>What every step of a fold keeps, the fold keeps.\<close>

lemma foldl_inv:
  "P acc \<Longrightarrow> (\<And>acc x. x \<in> set xs \<Longrightarrow> P acc \<Longrightarrow> P (f acc x)) \<Longrightarrow> P (foldl f acc xs)"
  by (induction xs arbitrary: acc) auto

lemma distinct_concat_disjoint:
  "distinct (concat (map f xs)) \<Longrightarrow> i < k \<Longrightarrow> k < length xs \<Longrightarrow> set (f (xs ! i)) \<inter> set (f (xs ! k)) = {}"
proof (induction xs arbitrary: i k)
  case (Cons y ys)
  from Cons.prems(2) obtain m where k: "k = Suc m" by (cases k) auto
  with Cons.prems(3) have "set (f (ys ! m)) \<subseteq> (\<Union>a \<in> set ys. set (f a))" by (auto intro: nth_mem)
  then show ?case
    using Cons.prems Cons.IH [of "i - 1" m] k by (cases i) auto
qed simp

lemma distinct_concat_index:
  assumes "distinct (concat (map f xs))" and "i < length xs" "k < length xs"
    and "x \<in> set (f (xs ! i))" "x \<in> set (f (xs ! k))"
  shows "i = k"
  using assms distinct_concat_disjoint [OF assms(1), of i k] distinct_concat_disjoint [OF assms(1), of k i]
  by (metis disjoint_iff linorder_neqE_nat)

section \<open>Invariants and progress of components\<close>

text \<open>
  Every actor and operator of the program handles one event at a time. What an event keeps
  holds after every sequence of events, and an order that every event follows orders the states
  at any two moments.
\<close>

locale step_invariant =
  fixes step :: "'s \<Rightarrow> 's \<Rightarrow> bool"
    and inv :: "'s \<Rightarrow> bool"
  assumes step_inv: "inv s \<Longrightarrow> step s t \<Longrightarrow> inv t"
begin

lemma run_inv: "step\<^sup>*\<^sup>* s t \<Longrightarrow> inv s \<Longrightarrow> inv t"
  by (induction rule: rtranclp_induct) (auto intro: step_inv)

end

locale step_monotone = step_invariant step inv for step :: "'s \<Rightarrow> 's \<Rightarrow> bool" and inv +
  fixes le :: "'s \<Rightarrow> 's \<Rightarrow> bool"
  assumes le_refl: "le s s"
    and le_trans: "le s t \<Longrightarrow> le t u \<Longrightarrow> le s u"
    and step_le: "inv s \<Longrightarrow> step s t \<Longrightarrow> le s t"
begin

lemma run_le:
  assumes "step\<^sup>*\<^sup>* s t" and "inv s"
  shows "le s t"
  using assms
proof (induction rule: rtranclp_induct)
  case base
  show ?case by (rule le_refl)
next
  case (step t u)
  then show ?case by (meson run_inv le_trans step_le)
qed

end

end
