(* ===== verification/Ids.thy ===== *)
theory Ids
  imports Zelox_Prelude
begin

text \<open>
  Identifiers of \<open>zelox-execution/src/id.rs\<close>: the generator of job and worker ids, the keys of
  task attempts and of task streams. The interface \<open>id_source\<close> says what the job scheduler and
  the worker pool rely on: an id that is handed out has never been handed out before, so that
  inserting under it never replaces an entry.
\<close>

section \<open>Id generation\<close>

type_synonym job_id = u64
type_synonym worker_id = u64

definition id_first :: u64 where
  "id_first = 1"

text \<open>\<open>checked_add(1)\<close> on \<open>u64\<close>: the largest value has no successor.\<close>

definition id_next :: "u64 \<Rightarrow> u64 execution_result" where
  "id_next v = (if v = - 1 then Inl (InternalError ''ID overflow'') else Inr (v + 1))"

record id_generator =
  next_value :: u64

definition id_generator_new :: id_generator where
  "id_generator_new = \<lparr>next_value = id_first\<rparr>"

text \<open>The generator's state changes only when the successor exists (\<open>?\<close> returns before).\<close>

definition id_generator_next :: "id_generator \<Rightarrow> (u64 \<times> id_generator) execution_result" where
  "id_generator_next g =
     (let value = next_value g in
      case id_next value of
        Inl e \<Rightarrow> Inl e
      | Inr v \<Rightarrow> Inr (value, g\<lparr>next_value := v\<rparr>))"

text \<open>
  The ids a generator never hands out again: those below its next value, that is 0 (which it
  never hands out) and every id handed out so far.
\<close>

definition issued :: "id_generator \<Rightarrow> u64 set" where
  "issued g = {i. i < next_value g}"

section \<open>Keys\<close>

record task_key =
  tk_job_id :: job_id
  tk_stage :: nat
  tk_partition :: nat
  tk_attempt :: nat

record task_stream_key =
  sk_job_id :: job_id
  sk_stage :: nat
  sk_partition :: nat
  sk_attempt :: nat
  sk_channel :: nat

definition task_key_from_stream :: "task_stream_key \<Rightarrow> task_key" where
  "task_key_from_stream k =
     \<lparr>tk_job_id = sk_job_id k, tk_stage = sk_stage k, tk_partition = sk_partition k,
      tk_attempt = sk_attempt k\<rparr>"

section \<open>The interface of the generator\<close>

locale id_source =
  fixes nxt :: "'g \<Rightarrow> 'e + ('i \<times> 'g)"
    and used :: "'g \<Rightarrow> 'i set"
  assumes nxt_fresh: "nxt g = Inr (i, g') \<Longrightarrow> i \<notin> used g"
    and nxt_used: "nxt g = Inr (i, g') \<Longrightarrow> used g' = insert i (used g)"
begin

text \<open>A table whose keys were all handed out gains a new key, and keeps every entry.\<close>

lemma insert_fresh:
  assumes "set (im_keys m) \<subseteq> used g" and "nxt g = Inr (i, g')"
  shows "im_insert i v m = m @ [(i, v)]"
  using assms by (intro im_insert_fresh) (auto dest: nxt_fresh)

lemma insert_keys_used:
  assumes "set (im_keys m) \<subseteq> used g" and "nxt g = Inr (i, g')"
  shows "set (im_keys (im_insert i v m)) \<subseteq> used g'"
  using assms by (auto simp: insert_fresh nxt_used)

lemma insert_keys_distinct:
  assumes "set (im_keys m) \<subseteq> used g" and "nxt g = Inr (i, g')" and "distinct (im_keys m)"
  shows "distinct (im_keys (im_insert i v m))"
  using assms nxt_fresh [OF assms(2)] by (auto simp: insert_fresh)

end

lemma word_less_succ: "v \<noteq> - 1 \<Longrightarrow> v < v + (1 :: 'a :: len word)"
  using inc_less_eq_triv_imp not_le by blast

lemma id_generator_next_Inr:
  assumes "id_generator_next g = Inr (i, g')"
  shows "i = next_value g" and "next_value g' = i + 1" and "i < i + 1"
  using assms
  by (auto simp: id_generator_next_def id_next_def Let_def word_less_succ split: if_splits)

lemma id_generator_next_Inl:
  "id_generator_next g = Inl e \<longleftrightarrow> next_value g = - 1 \<and> e = InternalError ''ID overflow''"
  by (auto simp: id_generator_next_def id_next_def Let_def)

lemma word_less_succ_iff: "v < v + 1 \<Longrightarrow> i < v + 1 \<longleftrightarrow> i = v \<or> i < (v :: 'a :: len word)"
  by (metis less_inc_imp_less_eq order.strict_trans order_le_neq_trans)

interpretation ids: id_source id_generator_next issued
proof
  fix g i g'
  assume n: "id_generator_next g = Inr (i, g')"
  note id_generator_next_Inr [OF n]
  then show "i \<notin> issued g" and "issued g' = insert i (issued g)"
    by (auto simp: issued_def word_less_succ_iff)
qed

end
