(* ===== verification/Job_Graph.thy ===== *)
theory Job_Graph
  imports Zelox_Prelude
begin

text \<open>
  The job graph of \<open>zelox-execution/src/job_graph/mod.rs\<close>: the stages of a job, how a stage
  reads its inputs and how it distributes its output. An \<open>Arc<dyn ExecutionPlan>\<close> of the
  source is a DataFusion plan; the control plane reads only its partition count and its schema,
  so a plan is a record of these two and an opaque identity. Schemas and physical expressions
  are opaque identities as well.
\<close>

type_synonym schema = nat
type_synonym physical_expr = nat

record exec_plan =
  plan_id :: nat
  partition_count :: nat
  plan_schema :: schema

datatype task_placement = Placement_Driver | Placement_Worker

datatype input_mode = Forward | Merge | Shuffle | Broadcast

datatype output_mode = Pipelined | Blocking

datatype output_distribution = Hash "physical_expr list" nat | RoundRobin nat

record stage_input =
  si_stage :: nat
  si_mode :: input_mode

record stage =
  st_inputs :: "stage_input list"
  st_plan :: exec_plan
  st_group :: string
  st_mode :: output_mode
  st_distribution :: output_distribution
  st_placement :: task_placement

record job_graph =
  g_stages :: "stage list"
  g_schema :: schema

fun channels :: "output_distribution \<Rightarrow> nat" where
  "channels (Hash ks n) = n"
| "channels (RoundRobin n) = n"

abbreviation stage_partitions :: "stage \<Rightarrow> nat" where
  "stage_partitions s \<equiv> partition_count (st_plan s)"

text \<open>How many times the output of a stage is read: the number of replicas it must keep.\<close>

fun input_replicas :: "input_mode \<Rightarrow> nat \<Rightarrow> nat" where
  "input_replicas Forward n = 1"
| "input_replicas Shuffle n = 1"
| "input_replicas Merge n = n"
| "input_replicas Broadcast n = n"

definition replicas :: "job_graph \<Rightarrow> nat \<Rightarrow> nat" where
  "replicas g s =
     (let n = sum_list (concat (map (\<lambda>x.
          map (\<lambda>i. input_replicas (si_mode i) (stage_partitions x))
            (filter (\<lambda>i. si_stage i = s) (st_inputs x))) (g_stages g)))
      in max n 1)"

fun show_placement :: "task_placement \<Rightarrow> string" where
  "show_placement Placement_Driver = ''Driver''"
| "show_placement Placement_Worker = ''Worker''"

fun show_input_mode :: "input_mode \<Rightarrow> string" where
  "show_input_mode Forward = ''Forward''"
| "show_input_mode Merge = ''Merge''"
| "show_input_mode Shuffle = ''Shuffle''"
| "show_input_mode Broadcast = ''Broadcast''"

fun show_output_mode :: "output_mode \<Rightarrow> string" where
  "show_output_mode Pipelined = ''Pipelined''"
| "show_output_mode Blocking = ''Blocking''"

section \<open>Well-formed graphs\<close>

text \<open>
  The guarantee stated at \<open>JobGraph::stages\<close>: the stages are in topological order, every input
  refers to an earlier stage.
\<close>

definition topological :: "job_graph \<Rightarrow> bool" where
  "topological g \<longleftrightarrow>
     (\<forall>s < length (g_stages g). \<forall>i \<in> set (st_inputs (g_stages g ! s)). si_stage i < s)"

definition inputs_in_range :: "job_graph \<Rightarrow> bool" where
  "inputs_in_range g \<longleftrightarrow>
     (\<forall>x \<in> set (g_stages g). \<forall>i \<in> set (st_inputs x). si_stage i < length (g_stages g))"

lemma topological_inputs_in_range: "topological g \<Longrightarrow> inputs_in_range g"
  unfolding topological_def inputs_in_range_def
proof (intro ballI)
  fix x i
  assume "x \<in> set (g_stages g)" and i: "i \<in> set (st_inputs x)"
  then obtain s where s: "s < length (g_stages g)" "x = g_stages g ! s"
    by (auto simp: in_set_conv_nth)
  assume "\<forall>s < length (g_stages g). \<forall>i \<in> set (st_inputs (g_stages g ! s)). si_stage i < s"
  with s i have "si_stage i < s" by blast
  with s show "si_stage i < length (g_stages g)" by simp
qed

lemma replicas_pos: "0 < replicas g s"
  by (simp add: replicas_def Let_def)

section \<open>An example\<close>

text \<open>A two-stage job: two worker tasks whose outputs a third task on the driver merges.\<close>

definition example_stage :: "stage_input list \<Rightarrow> nat \<Rightarrow> task_placement \<Rightarrow> stage" where
  "example_stage ins n pl = \<lparr>st_inputs = ins, st_plan = \<lparr>plan_id = 0, partition_count = n, plan_schema = 7\<rparr>,
     st_group = ''default'', st_mode = Pipelined, st_distribution = RoundRobin 1, st_placement = pl\<rparr>"

definition example_graph :: job_graph where
  "example_graph = \<lparr>g_stages = [example_stage [] 2 Placement_Worker,
     example_stage [\<lparr>si_stage = 0, si_mode = Merge\<rparr>] 1 Placement_Driver], g_schema = 7\<rparr>"

end
