(* ===== verification/Task_Types.thy ===== *)
theory Task_Types
  imports Ids Job_Graph
begin

text \<open>
  The data the driver's components exchange: task regions, task sets and assignments of
  \<open>task/scheduling.rs\<close>, task definitions of \<open>task/definition.rs\<close>, the events of
  \<open>driver/event.rs\<close> and what a handler asks of its actor context (sending an event, sending
  one after a delay, spawning an asynchronous call).
\<close>

section \<open>Regions, sets and assignments\<close>

datatype task_output_kind = Out_Local | Out_Remote

record task_set_entry =
  te_key :: task_key
  te_output :: task_output_kind

record task_set =
  ts_entries :: "task_set_entry list"

record task_region =
  tr_tasks :: "(task_placement \<times> task_set) list"

definition ts_tasks :: "task_set \<Rightarrow> task_key list" where
  "ts_tasks s = map te_key (ts_entries s)"

definition ts_local_streams :: "task_set \<Rightarrow> task_key list" where
  "ts_local_streams s = map te_key (filter (\<lambda>e. te_output e = Out_Local) (ts_entries s))"

definition ts_remote_streams :: "task_set \<Rightarrow> task_key list" where
  "ts_remote_streams s = map te_key (filter (\<lambda>e. te_output e = Out_Remote) (ts_entries s))"

definition ts_contains :: "task_set \<Rightarrow> task_key \<Rightarrow> bool" where
  "ts_contains s k = list_ex (\<lambda>e. te_key e = k) (ts_entries s)"

definition tr_contains :: "task_region \<Rightarrow> task_key \<Rightarrow> bool" where
  "tr_contains r k = list_ex (\<lambda>(_, s). ts_contains s k) (tr_tasks r)"

datatype task_assignment = Assign_Driver | Assign_Worker worker_id nat

record task_set_assignment =
  ta_set :: task_set
  ta_assignment :: task_assignment

datatype task_stream_assignment = Stream_Driver | Stream_Worker worker_id

definition region_keys :: "task_region \<Rightarrow> task_key list" where
  "region_keys r = concat (map (\<lambda>(_, s). ts_tasks s) (tr_tasks r))"

lemma ts_contains_iff [simp]: "ts_contains s k \<longleftrightarrow> k \<in> set (ts_tasks s)"
  by (auto simp: ts_contains_def ts_tasks_def list_ex_iff)

lemma tr_contains_iff [simp]: "tr_contains r k \<longleftrightarrow> k \<in> set (region_keys r)"
  by (auto simp: tr_contains_def region_keys_def list_ex_iff split: prod.splits)

lemma ts_streams_subset:
  "set (ts_local_streams s) \<subseteq> set (ts_tasks s)"
  "set (ts_remote_streams s) \<subseteq> set (ts_tasks s)"
  by (auto simp: ts_local_streams_def ts_remote_streams_def ts_tasks_def)

section \<open>Task definitions\<close>

type_synonym bytes = "nat list"

record task_input_key =
  ik_partition :: nat
  ik_attempt :: nat
  ik_channel :: nat

datatype task_input_locator =
    Input_Driver nat "task_input_key list list"
  | Input_Worker nat "(worker_id \<times> task_input_key) list list"
  | Input_Remote string nat "task_input_key list list"

record task_input =
  ti_locator :: task_input_locator

datatype task_output_distribution = Out_Hash "bytes list" nat | Out_RoundRobin nat

datatype task_output_locator = Out_Locator_Local nat | Out_Locator_Remote string

record task_output =
  to_distribution :: task_output_distribution
  to_locator :: task_output_locator

record task_definition =
  td_plan :: bytes
  td_inputs :: "task_input list"
  td_output :: task_output

section \<open>Events and effects\<close>

datatype common_error_cause =
    Cause_Unknown string
  | Cause_Internal string
  | Cause_Execution string
  | Cause_Of execution_error

datatype task_status = Status_Running | Status_Succeeded | Status_Failed | Status_Canceled

record worker_location =
  wl_worker_id :: worker_id
  wl_host :: string
  wl_port :: u16

datatype local_stream_storage = Storage_Memory nat | Storage_Disk

type_synonym task_context = nat

text \<open>
  \<open>DriverEvent\<close>, less the reply channels, which are the effects \<open>Reply\<close> below, and \<open>ObserveState\<close>, which only reads. The event
  \<open>ExecuteJob\<close> carries what \<open>JobGraph::try_new\<close> returns for the plan.
\<close>

datatype driver_event =
    ServerReady u16
  | RegisterWorker worker_id string u16
  | WorkerHeartbeat worker_id
  | WorkerKnownPeers worker_id "worker_id list"
  | ProbePendingWorker worker_id
  | ProbeIdleWorker worker_id time
  | ProbeLostWorker worker_id time
  | ExecuteJob "job_graph execution_result" task_context
  | CleanUpJob job_id
  | UpdateTask task_key task_status "string option" "common_error_cause option" "u64 option"
  | ProbePendingTask task_key
  | ProbePendingLocalStream task_stream_key
  | CreateLocalStream task_stream_key local_stream_storage schema
  | CreateRemoteStream string task_stream_key schema
  | FetchDriverStream task_stream_key
  | FetchWorkerStream worker_id task_stream_key schema
  | FetchRemoteStream string task_stream_key schema
  | Shutdown bool

datatype retry_strategy =
    Retry_Fixed nat time
  | Retry_ExponentialBackoff nat time time nat

record worker_launch_options =
  lo_enable_tls :: bool
  lo_driver_external_host :: string
  lo_driver_external_port :: u16
  lo_worker_heartbeat_interval :: time
  lo_task_stream_buffer :: nat
  lo_task_stream_creation_timeout :: time
  lo_shuffle_spill_dir :: string
  lo_rpc_retry_strategy :: retry_strategy

text \<open>
  A \<open>TaskStreamSource\<close>: the receiver of a channel, named by the channel, or a stream that asks a
  worker for its batches when it is polled. The items of a channel are batches or errors; a
  \<open>TaskStreamError\<close> keeps the cause it was made from, and a record batch is the list of its rows.
\<close>

type_synonym channel = nat

datatype task_stream_source =
    Source_Receiver channel
  | Source_Worker worker_id task_stream_key schema

datatype task_stream_error =
    Stream_Unknown string
  | Stream_Cause common_error_cause
  | Stream_External execution_error

record record_batch =
  rb_rows :: "nat list"

definition num_rows :: "record_batch \<Rightarrow> nat" where
  "num_rows b = length (rb_rows b)"

type_synonym stream_item = "task_stream_error + record_batch"

text \<open>
  The sinks of \<open>stream_manager/local.rs\<close>: the senders of the replicas of a memory stream with
  their overflow buffers, and the writer of a disk stream with what it has written.
\<close>

record replica_sender =
  rs_senders :: "channel option list"
  rs_overflow :: "stream_item list list"

datatype spill_path = Spill_Path (spill_dir: string) u64 nat nat nat

record disk_sink =
  dk_path :: spill_path
  dk_written :: "record_batch list"
  dk_pending_senders :: "channel list"

datatype task_stream_sink = Sink_Memory replica_sender | Sink_Disk disk_sink

text \<open>The asynchronous calls the handlers spawn; what the callee does is outside the driver.\<close>

datatype async_call =
    Call_LaunchWorker worker_id worker_launch_options
  | Call_StopWorker worker_id
  | Call_RunTask worker_id task_key task_definition "worker_location list"
  | Call_StopTask worker_id task_key
  | Call_CleanUpJob worker_id job_id "nat option"
  | Call_MonitorTask task_key
  | Call_SignalTask task_key
  | Call_JobOutput job_id
  | Call_OutputStream job_id task_stream_key "task_stream_source execution_result"
  | Call_OutputError job_id common_error_cause

datatype reply =
    Reply_Registered "unit execution_result"
  | Reply_Job "job_id execution_result"
  | Reply_Sink "task_stream_sink execution_result"
  | Reply_Source "task_stream_source execution_result"

datatype effect =
    Send driver_event
  | SendWithDelay driver_event time
  | Spawn async_call
  | TrySend channel task_stream_error
  | Reply reply

text \<open>The two clocks a handler reads: \<open>tokio::time::Instant::now\<close> and \<open>chrono::Utc::now\<close>.\<close>

record clock =
  instant_now :: time
  utc_now :: time

end
