(* ===== verification/Topology.thy ===== *)
theory Topology
  imports Task_Types
begin

text \<open>
  \<open>JobTopology::try_new\<close> of \<open>driver/job_scheduler/topology.rs\<close>: the consumers of every stage,
  the components of stages connected by pipelined output, found by a breadth-first search, the
  task regions a component is cut into, and the dependencies between regions. The main results:
  the regions partition the tasks of the job, and a region depends on another one only where a
  producer has blocking output.
\<close>

section \<open>Model\<close>

record task_topology =
  tt_stage :: nat
  tt_partition :: nat

record task_region_topology =
  rt_tasks :: "task_topology list"
  rt_dependencies :: "nat list"

record job_topology =
  jt_regions :: "task_region_topology list"
  jt_consumers :: "nat list list"

text \<open>All pairs of a stage and one of its inputs, in the order of the nested loops.\<close>

definition input_edges :: "job_graph \<Rightarrow> (nat \<times> stage_input) list" where
  "input_edges g =
     concat (map (\<lambda>(s, x). map (Pair s) (st_inputs x)) (enumerate 0 (g_stages g)))"

definition link_edge ::
  "job_graph \<Rightarrow> nat list list \<times> nat list list \<Rightarrow> nat \<times> stage_input \<Rightarrow> nat list list \<times> nat list list"
where
  "link_edge g cadj e =
     (let (cons, adj) = cadj; (s, i) = e; p = si_stage i in
      (cons[p := cons ! p @ [s]],
       if st_mode (g_stages g ! p) = Pipelined
       then (let adj1 = adj[s := adj ! s @ [p]] in adj1[p := adj1 ! p @ [s]])
       else adj))"

definition link_stages :: "job_graph \<Rightarrow> nat list list \<times> nat list list" where
  "link_stages g =
     (let n = length (g_stages g) in
      foldl (link_edge g) (replicate n [], replicate n []) (input_edges g))"

definition final_schemas_ok :: "job_graph \<Rightarrow> nat list list \<Rightarrow> bool" where
  "final_schemas_ok g cons =
     list_all (\<lambda>(s, c). c = [] \<longrightarrow> plan_schema (st_plan (g_stages g ! s)) = g_schema g)
       (enumerate 0 cons)"

text \<open>The breadth-first search over the pipelined adjacency.\<close>

fun visit_neighbors :: "nat list \<Rightarrow> bool list \<Rightarrow> nat list \<Rightarrow> bool list \<times> nat list" where
  "visit_neighbors [] vis q = (vis, q)"
| "visit_neighbors (v # vs) vis q =
     (if v < length vis \<and> \<not> vis ! v then visit_neighbors vs (vis[v := True]) (q @ [v])
      else visit_neighbors vs vis q)"

definition neighbors_of :: "nat list list \<Rightarrow> nat \<Rightarrow> nat list" where
  "neighbors_of adj u = (if u < length adj then adj ! u else [])"

lemma count_list_update_True:
  "v < length vis \<Longrightarrow> \<not> vis ! v \<Longrightarrow> Suc (count_list (vis[v := True]) False) = count_list vis False"
  by (induction vis arbitrary: v) (auto simp: nth_Cons split: nat.splits)

lemma visit_neighbors_measure:
  "visit_neighbors vs vis q = (vis', q') \<Longrightarrow>
   count_list vis' False + length q' = count_list vis False + length q"
proof (induction vs vis q rule: visit_neighbors.induct)
  case (2 v vs vis q)
  then show ?case
    using count_list_update_True [of v vis] by (auto split: if_splits)
qed simp

function bfs :: "nat list list \<Rightarrow> bool list \<Rightarrow> nat list \<Rightarrow> nat list \<Rightarrow> bool list \<times> nat list" where
  "bfs adj vis [] cpt = (vis, cpt)"
| "bfs adj vis (u # q) cpt =
     (let vq = visit_neighbors (neighbors_of adj u) vis q
      in bfs adj (fst vq) (snd vq) (cpt @ [u]))"
  by pat_completeness auto
termination
  by (relation "measure (\<lambda>(adj, vis, q, cpt). count_list vis False + length q)")
    (auto simp: visit_neighbors_measure [OF surjective_pairing])

fun find_components :: "nat list list \<Rightarrow> nat list \<Rightarrow> bool list \<Rightarrow> nat list list" where
  "find_components adj [] vis = []"
| "find_components adj (s # ss) vis =
     (if vis ! s then find_components adj ss vis
      else (let (vis', cpt) = bfs adj (vis[s := True]) [s] []
            in cpt # find_components adj ss vis'))"

definition all_forward :: "job_graph \<Rightarrow> nat list \<Rightarrow> bool" where
  "all_forward g cpt =
     list_all (\<lambda>u. list_all (\<lambda>i. si_stage i \<in> set cpt \<longrightarrow> si_mode i = Forward)
       (st_inputs (g_stages g ! u))) cpt"

definition region_of_tasks :: "task_topology list \<Rightarrow> task_region_topology" where
  "region_of_tasks ts = \<lparr>rt_tasks = ts, rt_dependencies = []\<rparr>"

definition component_regions ::
  "job_graph \<Rightarrow> nat list \<Rightarrow> task_region_topology list execution_result" where
  "component_regions g cpt =
     (if all_forward g cpt then
        (case remdups (map (\<lambda>c. stage_partitions (g_stages g ! c)) cpt) of
           [n] \<Rightarrow> Inr (map (\<lambda>p. region_of_tasks
                     (map (\<lambda>s. \<lparr>tt_stage = s, tt_partition = p\<rparr>) cpt)) [0..<n])
         | _ \<Rightarrow> Inl (InternalError
             ''task region with all forward inputs must have the same partition count''))
      else Inr [region_of_tasks (concat (map (\<lambda>s.
             map (\<lambda>p. \<lparr>tt_stage = s, tt_partition = p\<rparr>)
               [0..<stage_partitions (g_stages g ! s)]) cpt))])"

definition task_to_region :: "task_region_topology list \<Rightarrow> task_topology \<Rightarrow> nat option" where
  "task_to_region regions =
     foldl (\<lambda>m (r, region). foldl (\<lambda>m t. m(t \<mapsto> r)) m (rt_tasks region))
       Map.empty (enumerate 0 regions)"

definition input_tasks :: "job_graph \<Rightarrow> task_topology \<Rightarrow> stage_input \<Rightarrow> task_topology list" where
  "input_tasks g t i =
     (if si_mode i = Forward then [\<lparr>tt_stage = si_stage i, tt_partition = tt_partition t\<rparr>]
      else map (\<lambda>p. \<lparr>tt_stage = si_stage i, tt_partition = p\<rparr>)
             [0..<stage_partitions (g_stages g ! si_stage i)])"

definition region_dependencies ::
  "job_graph \<Rightarrow> (task_topology \<Rightarrow> nat option) \<Rightarrow> nat \<Rightarrow> task_topology list \<Rightarrow> nat list" where
  "region_dependencies g t2r r ts =
     is_extend [] (filter (\<lambda>d. d \<noteq> r) (List.map_filter t2r
       (concat (map (\<lambda>t. concat (map (input_tasks g t) (st_inputs (g_stages g ! tt_stage t)))) ts))))"

text \<open>
  An input that refers to a stage outside the graph makes the first loop index out of bounds:
  the function panics, which is \<open>None\<close>. No other index of the function can be out of bounds.
\<close>

definition job_topology_try_new :: "job_graph \<Rightarrow> job_topology execution_result option" where
  "job_topology_try_new g =
     (if \<not> list_all (\<lambda>x. list_all (\<lambda>i. si_stage i < length (g_stages g)) (st_inputs x)) (g_stages g)
      then None
      else Some (
        let n = length (g_stages g); (cons, adj) = link_stages g in
        if \<not> final_schemas_ok g cons then
          Inl (InternalError ''the job graph must have final stages with the same schema'')
        else
          (case collect_results (component_regions g)
                  (find_components adj [0..<n] (replicate n False)) of
             Inl e \<Rightarrow> Inl e
           | Inr rss \<Rightarrow>
               let regions = concat rss; t2r = task_to_region regions in
               Inr \<lparr>jt_regions = map (\<lambda>(r, region).
                        region\<lparr>rt_dependencies := region_dependencies g t2r r (rt_tasks region)\<rparr>)
                      (enumerate 0 regions),
                    jt_consumers = cons\<rparr>)))"

section \<open>The breadth-first search\<close>

definition marked :: "bool list \<Rightarrow> nat set" where
  "marked vis = {v. v < length vis \<and> vis ! v}"

lemma marked_update [simp]: "v < length vis \<Longrightarrow> marked (vis[v := True]) = insert v (marked vis)"
  by (auto simp: marked_def nth_list_update split: if_splits)

lemma marked_replicate [simp]: "marked (replicate n False) = {}"
  by (auto simp: marked_def)

lemma visit_neighbors_spec:
  "visit_neighbors vs vis q = (vis', q') \<Longrightarrow>
   length vis' = length vis \<and>
   (\<exists>new. q' = q @ new \<and> distinct new \<and> marked vis' = marked vis \<union> set new \<and>
          set new = (set vs \<inter> {..<length vis}) - marked vis)"
proof (induction vs vis q rule: visit_neighbors.induct)
  case (1 vis q)
  then show ?case by simp
next
  case (2 v vs vis q)
  show ?case
  proof (cases "v < length vis \<and> \<not> vis ! v")
    case True
    with 2(3) have "visit_neighbors vs (vis[v := True]) (q @ [v]) = (vis', q')" by simp
    from 2(1) [OF True this] obtain new where new:
      "length vis' = length vis" "q' = (q @ [v]) @ new" "distinct new"
      "marked vis' = insert v (marked vis) \<union> set new"
      "set new = (set vs \<inter> {..<length vis}) - insert v (marked vis)"
      using True by auto
    have "v \<notin> marked vis" using True by (simp add: marked_def)
    with new True show ?thesis by (intro conjI exI [of _ "v # new"]) auto
  next
    case False
    with 2(3) have "visit_neighbors vs vis q = (vis', q')" by simp
    from 2(2) [OF False this] False show ?thesis by (auto simp: marked_def)
  qed
qed

text \<open>What holds between two rounds of the search.\<close>

definition bfs_inv :: "nat list list \<Rightarrow> nat set \<Rightarrow> bool list \<Rightarrow> nat list \<Rightarrow> nat list \<Rightarrow> bool" where
  "bfs_inv adj V vis q cpt \<longleftrightarrow>
     distinct (cpt @ q) \<and> V \<inter> set (cpt @ q) = {} \<and> marked vis = V \<union> set (cpt @ q) \<and>
     (\<forall>u \<in> set cpt. set (neighbors_of adj u) \<inter> {..<length vis} \<subseteq> marked vis)"

lemma bfs_inv_step:
  assumes inv: "bfs_inv adj V vis (u # q) cpt"
    and vn: "visit_neighbors (neighbors_of adj u) vis q = (vis', q')"
  shows "bfs_inv adj V vis' q' (cpt @ [u])" and "length vis' = length vis"
proof -
  from visit_neighbors_spec [OF vn] obtain new where new:
    "length vis' = length vis" "q' = q @ new" "distinct new" "marked vis' = marked vis \<union> set new"
    "set new = (set (neighbors_of adj u) \<inter> {..<length vis}) - marked vis"
    by blast
  show "length vis' = length vis" by (fact new(1))
  from inv have old: "\<And>w. w \<in> set cpt \<Longrightarrow>
      set (neighbors_of adj w) \<inter> {..<length vis} \<subseteq> marked vis"
    unfolding bfs_inv_def by blast
  have "\<forall>w \<in> set (cpt @ [u]). set (neighbors_of adj w) \<inter> {..<length vis'} \<subseteq> marked vis'"
  proof
    fix w assume "w \<in> set (cpt @ [u])"
    then show "set (neighbors_of adj w) \<inter> {..<length vis'} \<subseteq> marked vis'"
      using old [of w] new(1,4,5) by auto
  qed
  with inv new show "bfs_inv adj V vis' q' (cpt @ [u])"
    unfolding bfs_inv_def by auto
qed

lemma bfs_inv_result:
  "bfs_inv adj V vis q cpt \<Longrightarrow> bfs adj vis q cpt = (vis', cpt') \<Longrightarrow>
   bfs_inv adj V vis' [] cpt' \<and> length vis' = length vis \<and> set (cpt @ q) \<subseteq> set cpt'"
proof (induction adj vis q cpt rule: bfs.induct)
  case (1 adj vis cpt)
  then show ?case by simp
next
  case (2 adj vis u q cpt)
  let ?vq = "visit_neighbors (neighbors_of adj u) vis q"
  have vq: "?vq = (fst ?vq, snd ?vq)" by simp
  from visit_neighbors_spec [OF vq] have "set q \<subseteq> set (snd ?vq)" by auto
  moreover have "bfs adj (fst ?vq) (snd ?vq) (cpt @ [u]) = (vis', cpt')"
    using 2(3) by (simp add: Let_def)
  ultimately show ?case
    using 2(1) [OF refl bfs_inv_step(1) [OF 2(2) vq]] bfs_inv_step(2) [OF 2(2) vq] by auto
qed

section \<open>Components\<close>

definition symmetric_adj :: "nat list list \<Rightarrow> bool" where
  "symmetric_adj adj \<longleftrightarrow>
     (\<forall>u < length adj. \<forall>v < length adj. v \<in> set (adj ! u) \<longrightarrow> u \<in> set (adj ! v))"

definition closed_under :: "nat list list \<Rightarrow> nat set \<Rightarrow> bool" where
  "closed_under adj V \<longleftrightarrow>
     (\<forall>u \<in> V. \<forall>v \<in> set (neighbors_of adj u). v < length adj \<longrightarrow> v \<in> V)"

lemma bfs_component:
  assumes run: "bfs adj (vis[s := True]) [s] [] = (vis', cpt)"
    and len: "length vis = length adj" and s: "s < length adj" "\<not> vis ! s"
    and cl: "closed_under adj (marked vis)" and sym: "symmetric_adj adj"
  shows "length vis' = length adj" and "distinct cpt" and "s \<in> set cpt"
    and "set cpt \<inter> marked vis = {}" and "marked vis' = marked vis \<union> set cpt"
    and "closed_under adj (marked vis')" and "closed_under adj (set cpt)"
proof -
  have "s \<notin> marked vis" using s by (simp add: marked_def)
  then have "bfs_inv adj (marked vis) (vis[s := True]) [s] []"
    using s len by (simp add: bfs_inv_def)
  from bfs_inv_result [OF this run] have
    inv: "bfs_inv adj (marked vis) vis' [] cpt" and l: "length vis' = length adj"
    and "set ([] @ [s]) \<subseteq> set cpt"
    using len by simp_all
  then show "s \<in> set cpt" by simp
  show "length vis' = length adj" by (fact l)
  from inv show "distinct cpt" and m: "marked vis' = marked vis \<union> set cpt"
    and dis: "set cpt \<inter> marked vis = {}"
    by (auto simp: bfs_inv_def)
  from inv l have nb: "\<And>u v. u \<in> set cpt \<Longrightarrow> v \<in> set (neighbors_of adj u) \<Longrightarrow> v < length adj \<Longrightarrow>
      v \<in> marked vis'"
    by (auto simp: bfs_inv_def)
  show "closed_under adj (marked vis')"
    using cl nb m by (auto simp: closed_under_def)
  show "closed_under adj (set cpt)"
    unfolding closed_under_def
  proof (intro ballI impI)
    fix u v
    assume u: "u \<in> set cpt" and v: "v \<in> set (neighbors_of adj u)" "v < length adj"
    have "u < length adj" using u m l by (auto simp: marked_def)
    with v sym have "u \<in> set (neighbors_of adj v)"
      by (auto simp: symmetric_adj_def neighbors_of_def split: if_splits)
    then have "v \<notin> marked vis"
      using cl u dis \<open>u < length adj\<close> by (auto simp: closed_under_def)
    with nb [OF u v] m show "v \<in> set cpt" by simp
  qed
qed

lemma find_components_spec:
  assumes "length vis = length adj" and "set ss \<subseteq> {..<length adj}"
    and "closed_under adj (marked vis)" and "symmetric_adj adj"
  shows "distinct (concat (find_components adj ss vis))"
    and "set (concat (find_components adj ss vis)) \<inter> marked vis = {}"
    and "set ss \<subseteq> marked vis \<union> set (concat (find_components adj ss vis))"
    and "set (concat (find_components adj ss vis)) \<subseteq> {..<length adj}"
    and "\<And>c. c \<in> set (find_components adj ss vis) \<Longrightarrow> closed_under adj (set c) \<and> c \<noteq> []"
proof -
  have "distinct (concat (find_components adj ss vis)) \<and>
    set (concat (find_components adj ss vis)) \<inter> marked vis = {} \<and>
    set ss \<subseteq> marked vis \<union> set (concat (find_components adj ss vis)) \<and>
    set (concat (find_components adj ss vis)) \<subseteq> {..<length adj} \<and>
    (\<forall>c \<in> set (find_components adj ss vis). closed_under adj (set c) \<and> c \<noteq> [])"
    using assms
  proof (induction adj ss vis rule: find_components.induct)
    case (1 adj vis)
    then show ?case by simp
  next
    case (2 adj s ss vis)
    show ?case
    proof (cases "vis ! s")
      case True
      with 2 show ?thesis by (auto simp: marked_def)
    next
      case False
      obtain vis' cpt where run: "bfs adj (vis[s := True]) [s] [] = (vis', cpt)"
        by fastforce
      from 2(4) have s: "s < length adj" by simp
      note c = bfs_component [OF run 2(3) s False 2(5) 2(6)]
      have IH: "distinct (concat (find_components adj ss vis')) \<and>
        set (concat (find_components adj ss vis')) \<inter> marked vis' = {} \<and>
        set ss \<subseteq> marked vis' \<union> set (concat (find_components adj ss vis')) \<and>
        set (concat (find_components adj ss vis')) \<subseteq> {..<length adj} \<and>
        (\<forall>c \<in> set (find_components adj ss vis'). closed_under adj (set c) \<and> c \<noteq> [])"
        using 2(2) [OF False run [symmetric] refl c(1)] 2(4) c(6) 2(6) by simp
      have "set cpt \<subseteq> {..<length adj}" using c(1,5) by (auto simp: marked_def)
      moreover have "find_components adj (s # ss) vis = cpt # find_components adj ss vis'"
        using False run by simp
      ultimately show ?thesis using IH c by auto
    qed
  qed
  then show "distinct (concat (find_components adj ss vis))"
    and "set (concat (find_components adj ss vis)) \<inter> marked vis = {}"
    and "set ss \<subseteq> marked vis \<union> set (concat (find_components adj ss vis))"
    and "set (concat (find_components adj ss vis)) \<subseteq> {..<length adj}"
    and "\<And>c. c \<in> set (find_components adj ss vis) \<Longrightarrow> closed_under adj (set c) \<and> c \<noteq> []"
    by blast+
qed

section \<open>Links between stages\<close>

definition links_inv :: "job_graph \<Rightarrow> (nat \<times> stage_input) set \<Rightarrow> nat list list \<times> nat list list \<Rightarrow> bool"
where
  "links_inv g E cadj \<longleftrightarrow>
     length (fst cadj) = length (g_stages g) \<and> length (snd cadj) = length (g_stages g) \<and>
     (\<forall>p < length (g_stages g). set (fst cadj ! p) = {s. \<exists>i. (s, i) \<in> E \<and> si_stage i = p}) \<and>
     (\<forall>u < length (g_stages g). set (snd cadj ! u) =
        {v. \<exists>i. (u, i) \<in> E \<and> si_stage i = v \<and> st_mode (g_stages g ! v) = Pipelined} \<union>
        {v. \<exists>i. (v, i) \<in> E \<and> si_stage i = u \<and> st_mode (g_stages g ! u) = Pipelined})"

lemma links_inv_step:
  assumes "links_inv g E cadj" and "s < length (g_stages g)" and "si_stage i < length (g_stages g)"
  shows "links_inv g (insert (s, i) E) (link_edge g cadj (s, i))"
  using assms
  by (cases cadj) (auto simp: links_inv_def link_edge_def Let_def nth_list_update)

lemma links_inv_foldl:
  assumes "links_inv g E cadj"
    and "\<And>s i. (s, i) \<in> set es \<Longrightarrow> s < length (g_stages g) \<and> si_stage i < length (g_stages g)"
  shows "links_inv g (E \<union> set es) (foldl (link_edge g) cadj es)"
  using assms
proof (induction es arbitrary: E cadj)
  case Nil
  then show ?case by simp
next
  case (Cons e es)
  obtain s i where e: "e = (s, i)" by fastforce
  have "s < length (g_stages g) \<and> si_stage i < length (g_stages g)"
    by (rule Cons.prems(2)) (simp add: e)
  then have "links_inv g (insert (s, i) E) (link_edge g cadj (s, i))"
    by (intro links_inv_step Cons.prems(1)) auto
  moreover have "\<And>s i. (s, i) \<in> set es \<Longrightarrow> s < length (g_stages g) \<and> si_stage i < length (g_stages g)"
    by (meson Cons.prems(2) list.set_intros(2))
  ultimately have "links_inv g (insert (s, i) E \<union> set es)
      (foldl (link_edge g) (link_edge g cadj (s, i)) es)"
    by (rule Cons.IH)
  then show ?case by (simp add: e)
qed

lemma set_input_edges:
  "set (input_edges g) = {(s, i). s < length (g_stages g) \<and> i \<in> set (st_inputs (g_stages g ! s))}"
  by (force simp: input_edges_def in_set_enumerate_eq)

lemma link_stages_inv:
  assumes "inputs_in_range g"
  shows "links_inv g (set (input_edges g)) (link_stages g)"
proof -
  have "links_inv g {} (replicate (length (g_stages g)) [], replicate (length (g_stages g)) [])"
    by (simp add: links_inv_def)
  from links_inv_foldl [OF this, of "input_edges g"] show ?thesis
    using assms by (force simp: set_input_edges link_stages_def Let_def inputs_in_range_def)
qed

lemma link_stages_consumers:
  assumes "inputs_in_range g" and "p < length (g_stages g)"
  shows "set (fst (link_stages g) ! p) =
    {s. s < length (g_stages g) \<and> (\<exists>i \<in> set (st_inputs (g_stages g ! s)). si_stage i = p)}"
  using link_stages_inv [OF assms(1)] assms(2) by (auto simp: links_inv_def set_input_edges)

lemma link_stages_symmetric: "inputs_in_range g \<Longrightarrow> symmetric_adj (snd (link_stages g))"
  using link_stages_inv [of g] by (auto simp: links_inv_def symmetric_adj_def)

lemma link_stages_length:
  "inputs_in_range g \<Longrightarrow> length (fst (link_stages g)) = length (g_stages g)"
  "inputs_in_range g \<Longrightarrow> length (snd (link_stages g)) = length (g_stages g)"
  using link_stages_inv [of g] by (simp_all add: links_inv_def)

lemma link_stages_pipelined:
  assumes "inputs_in_range g" and "s < length (g_stages g)"
    and "i \<in> set (st_inputs (g_stages g ! s))" and "st_mode (g_stages g ! si_stage i) = Pipelined"
  shows "si_stage i \<in> set (neighbors_of (snd (link_stages g)) s)"
  using link_stages_inv [OF assms(1)] assms by (auto simp: links_inv_def neighbors_of_def set_input_edges)

section \<open>Regions\<close>

definition all_tasks :: "job_graph \<Rightarrow> task_topology set" where
  "all_tasks g = {t. tt_stage t < length (g_stages g) \<and>
     tt_partition t < stage_partitions (g_stages g ! tt_stage t)}"

abbreviation tasks_of_regions :: "task_region_topology list \<Rightarrow> task_topology list" where
  "tasks_of_regions rs \<equiv> concat (map rt_tasks rs)"

definition stage_tasks :: "job_graph \<Rightarrow> nat set \<Rightarrow> task_topology set" where
  "stage_tasks g C = {t. tt_stage t \<in> C \<and> tt_partition t < stage_partitions (g_stages g ! tt_stage t)}"

lemma remdups_single: "remdups (map f xs) = [n] \<Longrightarrow> x \<in> set xs \<Longrightarrow> f x = n"
  by (metis image_eqI list.set_map set_remdups singletonD list.set(1) list.simps(15))

lemma distinct_concat_map_inj:
  assumes "distinct xs" and "\<And>x. x \<in> set xs \<Longrightarrow> distinct (f x)"
    and "\<And>x y. x \<in> set xs \<Longrightarrow> y \<in> set xs \<Longrightarrow> x \<noteq> y \<Longrightarrow> set (f x) \<inter> set (f y) = {}"
  shows "distinct (concat (map f xs))"
  using assms by (induction xs) auto

lemma component_regions_cases:
  assumes "component_regions g cpt = Inr rs"
  obtains
    (forward) n where "all_forward g cpt" and "\<And>c. c \<in> set cpt \<Longrightarrow> stage_partitions (g_stages g ! c) = n"
      and "rs = map (\<lambda>p. region_of_tasks (map (\<lambda>s. \<lparr>tt_stage = s, tt_partition = p\<rparr>) cpt)) [0..<n]"
  | (single) "\<not> all_forward g cpt"
      and "rs = [region_of_tasks (concat (map (\<lambda>s. map (\<lambda>p. \<lparr>tt_stage = s, tt_partition = p\<rparr>)
             [0..<stage_partitions (g_stages g ! s)]) cpt))]"
proof (cases "all_forward g cpt")
  case True
  with assms obtain n where n: "remdups (map (\<lambda>c. stage_partitions (g_stages g ! c)) cpt) = [n]"
    and rs: "rs = map (\<lambda>p. region_of_tasks (map (\<lambda>s. \<lparr>tt_stage = s, tt_partition = p\<rparr>) cpt)) [0..<n]"
    by (auto simp: component_regions_def split: list.splits)
  show ?thesis by (rule forward [OF True remdups_single [OF n] rs])
next
  case False
  with assms show ?thesis by (intro single) (auto simp: component_regions_def)
qed

lemma task_topology_eqI:
  "tt_stage t = tt_stage u \<Longrightarrow> tt_partition t = tt_partition u \<Longrightarrow> t = (u :: task_topology)"
  by simp

lemma component_regions_tasks:
  assumes rs: "component_regions g cpt = Inr rs" and d: "distinct cpt"
  shows "distinct (tasks_of_regions rs)" and "set (tasks_of_regions rs) = stage_tasks g (set cpt)"
proof -
  have "distinct (tasks_of_regions rs) \<and> set (tasks_of_regions rs) = stage_tasks g (set cpt)"
    using rs
  proof (cases rule: component_regions_cases)
    case (forward n)
    let ?f = "\<lambda>p. map (\<lambda>s. \<lparr>tt_stage = s, tt_partition = p\<rparr>) cpt"
    have eq: "tasks_of_regions rs = concat (map ?f [0..<n])"
      by (simp add: forward(3) region_of_tasks_def o_def)
    have "distinct (concat (map ?f [0..<n]))"
      using d by (intro distinct_concat_map_inj) (auto simp: distinct_map inj_on_def)
    moreover have "set (concat (map ?f [0..<n])) = stage_tasks g (set cpt)"
      using forward(2) by (force simp: stage_tasks_def intro: task_topology_eqI)
    ultimately show ?thesis by (simp only: eq)
  next
    case single
    let ?f = "\<lambda>s. map (\<lambda>p. \<lparr>tt_stage = s, tt_partition = p\<rparr>) [0..<stage_partitions (g_stages g ! s)]"
    have eq: "tasks_of_regions rs = concat (map ?f cpt)"
      by (simp add: single(2) region_of_tasks_def)
    have "distinct (concat (map ?f cpt))"
      using d by (intro distinct_concat_map_inj) (auto simp: distinct_map inj_on_def)
    moreover have "set (concat (map ?f cpt)) = stage_tasks g (set cpt)"
      by (force simp: stage_tasks_def intro: task_topology_eqI)
    ultimately show ?thesis by (simp only: eq)
  qed
  then show "distinct (tasks_of_regions rs)" and "set (tasks_of_regions rs) = stage_tasks g (set cpt)"
    by auto
qed

text \<open>Within a component, the tasks a task reads from are in its own region.\<close>

lemma component_region_inputs:
  assumes rs: "component_regions g cpt = Inr rs" and r: "\<rho> \<in> set rs" and t: "t \<in> set (rt_tasks \<rho>)"
    and i: "i \<in> set (st_inputs (g_stages g ! tt_stage t))" "si_stage i \<in> set cpt"
    and t': "t' \<in> set (input_tasks g t i)"
      "tt_partition t' < stage_partitions (g_stages g ! tt_stage t')"
  shows "t' \<in> set (rt_tasks \<rho>)"
  using rs
proof (cases rule: component_regions_cases)
  case (forward n)
  then have "tt_stage t \<in> set cpt" using r t by (auto simp: region_of_tasks_def)
  with forward(1) i have "si_mode i = Forward"
    by (auto simp: all_forward_def list_all_iff)
  with t' have "t' = \<lparr>tt_stage = si_stage i, tt_partition = tt_partition t\<rparr>"
    by (simp add: input_tasks_def)
  with forward(3) r t i(2) show ?thesis by (auto simp: region_of_tasks_def)
next
  case single
  from t' have "tt_stage t' = si_stage i" by (auto simp: input_tasks_def split: if_splits)
  with single(2) r t'(2) i(2) show ?thesis
    by (auto simp: region_of_tasks_def intro!: bexI [of _ "si_stage i"] image_eqI [of _ _ "tt_partition t'"])
qed

lemma insert_tasks_region:
  "foldl (\<lambda>m t. m(t \<mapsto> r)) m ts t' = (if t' \<in> set ts then Some r else m t')"
  by (induction ts arbitrary: m) auto

lemma task_to_region_iff:
  "distinct (tasks_of_regions rs) \<Longrightarrow>
   task_to_region rs t = Some d \<longleftrightarrow> d < length rs \<and> t \<in> set (rt_tasks (rs ! d))"
proof (induction rs arbitrary: d rule: rev_induct)
  case Nil
  then show ?case by (simp add: task_to_region_def)
next
  case (snoc x rs)
  have eq: "task_to_region (rs @ [x]) t =
      (if t \<in> set (rt_tasks x) then Some (length rs) else task_to_region rs t)"
    by (simp add: task_to_region_def enumerate_append_eq insert_tasks_region)
  have "d < length rs \<Longrightarrow> t \<in> set (rt_tasks (rs ! d)) \<Longrightarrow> t \<notin> set (rt_tasks x)"
    using snoc.prems nth_mem by fastforce
  with snoc show ?case
    by (auto simp: eq nth_append less_Suc_eq split: if_splits)
qed

lemma job_topology_try_newE:
  assumes "job_topology_try_new g = Some (Inr tp)"
  obtains rss where "inputs_in_range g" and "final_schemas_ok g (fst (link_stages g))"
    and "collect_results (component_regions g) (find_components (snd (link_stages g))
           [0..<length (g_stages g)] (replicate (length (g_stages g)) False)) = Inr rss"
    and "jt_consumers tp = fst (link_stages g)"
    and "jt_regions tp = map (\<lambda>(r, region). region\<lparr>rt_dependencies :=
           region_dependencies g (task_to_region (concat rss)) r (rt_tasks region)\<rparr>)
           (enumerate 0 (concat rss))"
proof -
  obtain cons adj where l: "link_stages g = (cons, adj)" by fastforce
  from assms have "list_all (\<lambda>x. list_all (\<lambda>i. si_stage i < length (g_stages g)) (st_inputs x)) (g_stages g)"
    by (auto simp: job_topology_try_new_def split: if_splits)
  then have "inputs_in_range g" by (simp add: inputs_in_range_def list_all_iff)
  moreover from assms l obtain rss where "final_schemas_ok g cons"
    and "collect_results (component_regions g) (find_components adj
           [0..<length (g_stages g)] (replicate (length (g_stages g)) False)) = Inr rss"
    and "tp = \<lparr>jt_regions = map (\<lambda>(r, region). region\<lparr>rt_dependencies :=
           region_dependencies g (task_to_region (concat rss)) r (rt_tasks region)\<rparr>)
           (enumerate 0 (concat rss)), jt_consumers = cons\<rparr>"
    by (auto simp: job_topology_try_new_def Let_def split: if_splits sum.splits)
  ultimately show ?thesis using that [of rss] by (simp add: l)
qed

lemma components_spec:
  assumes "inputs_in_range g"
  defines "cs \<equiv> find_components (snd (link_stages g)) [0..<length (g_stages g)]
    (replicate (length (g_stages g)) False)"
  shows "distinct (concat cs)" and "set (concat cs) = {..<length (g_stages g)}"
    and "\<And>c. c \<in> set cs \<Longrightarrow> closed_under (snd (link_stages g)) (set c)"
proof -
  let ?n = "length (g_stages g)" and ?adj = "snd (link_stages g)"
  have len: "length ?adj = ?n" by (rule link_stages_length(2) [OF assms(1)])
  have cl: "closed_under ?adj (marked (replicate ?n False))" by (simp add: closed_under_def)
  have l: "length (replicate ?n False) = length ?adj" and r: "set [0..<?n] \<subseteq> {..<length ?adj}"
    by (auto simp: len)
  note s = find_components_spec [OF l r cl link_stages_symmetric [OF assms(1)],
      unfolded marked_replicate len]
  from s(1) show "distinct (concat cs)" by (auto simp: cs_def)
  from s(3,4) show "set (concat cs) = {..<length (g_stages g)}" by (auto simp: cs_def)
  from s(5) show "\<And>c. c \<in> set cs \<Longrightarrow> closed_under (snd (link_stages g)) (set c)"
    by (auto simp: cs_def)
qed

lemma collected_regions_tasks:
  assumes "collect_results (component_regions g) cs = Inr rss" and "distinct (concat cs)"
  shows "distinct (tasks_of_regions (concat rss))"
    and "set (tasks_of_regions (concat rss)) = stage_tasks g (set (concat cs))"
proof -
  from assms(1) have "list_all2 (\<lambda>c rs. component_regions g c = Inr rs) cs rss"
    by (simp add: collect_results_Inr)
  then have "distinct (tasks_of_regions (concat rss)) \<and>
    set (tasks_of_regions (concat rss)) = stage_tasks g (set (concat cs))"
    using assms(2)
  proof (induction rule: list_all2_induct)
    case Nil
    then show ?case by (simp add: stage_tasks_def)
  next
    case (Cons c cs rs rss)
    then have "set c \<inter> set (concat cs) = {}" and d: "distinct c" by auto
    then have "stage_tasks g (set c) \<inter> stage_tasks g (set (concat cs)) = {}"
      by (auto simp: stage_tasks_def)
    moreover have "stage_tasks g (set (concat (c # cs))) =
        stage_tasks g (set c) \<union> stage_tasks g (set (concat cs))"
      by (auto simp: stage_tasks_def)
    ultimately show ?case
      using Cons component_regions_tasks [OF Cons(1) d] by simp
  qed
  then show "distinct (tasks_of_regions (concat rss))"
    and "set (tasks_of_regions (concat rss)) = stage_tasks g (set (concat cs))"
    by auto
qed

lemma topology_region_tasks:
  "tasks_of_regions (map (\<lambda>(r, x). x\<lparr>rt_dependencies := f r x\<rparr>) (enumerate n rs)) = tasks_of_regions rs"
  by (induction rs arbitrary: n) auto

lemma topology_tasks:
  assumes "job_topology_try_new g = Some (Inr tp)"
  shows "distinct (tasks_of_regions (jt_regions tp))"
    and "set (tasks_of_regions (jt_regions tp)) = all_tasks g"
proof -
  from assms have "distinct (tasks_of_regions (jt_regions tp)) \<and>
         set (tasks_of_regions (jt_regions tp)) = all_tasks g"
  proof (cases rule: job_topology_try_newE)
    case (1 rss)
    note c = components_spec [OF 1(1)]
    have "tasks_of_regions (jt_regions tp) = tasks_of_regions (concat rss)"
      unfolding 1(5) by (rule topology_region_tasks)
    moreover have "stage_tasks g {..<length (g_stages g)} = all_tasks g"
      by (auto simp: stage_tasks_def all_tasks_def)
    ultimately show ?thesis
      using collected_regions_tasks [OF 1(3) c(1)] c(2) by metis
  qed
  then show "distinct (tasks_of_regions (jt_regions tp))"
    and "set (tasks_of_regions (jt_regions tp)) = all_tasks g" by auto
qed

text \<open>A region's tasks read from the tasks of the same region wherever the producer is pipelined.\<close>

lemma pipelined_input_same_region:
  assumes r: "inputs_in_range g"
    and rss: "collect_results (component_regions g) (find_components (snd (link_stages g))
           [0..<length (g_stages g)] (replicate (length (g_stages g)) False)) = Inr rss"
    and rho: "\<rho> \<in> set (concat rss)" and t: "t \<in> set (rt_tasks \<rho>)"
    and i: "i \<in> set (st_inputs (g_stages g ! tt_stage t))"
      "st_mode (g_stages g ! si_stage i) = Pipelined"
    and t': "t' \<in> set (input_tasks g t i)" "t' \<in> all_tasks g"
  shows "t' \<in> set (rt_tasks \<rho>)"
proof -
  let ?cs = "find_components (snd (link_stages g)) [0..<length (g_stages g)]
    (replicate (length (g_stages g)) False)"
  from rss have "list_all2 (\<lambda>c rs. component_regions g c = Inr rs) ?cs rss"
    by (simp add: collect_results_Inr)
  with rho obtain c rs where c: "c \<in> set ?cs" and rs: "component_regions g c = Inr rs" "\<rho> \<in> set rs"
    by (auto simp: list_all2_conv_all_nth in_set_conv_nth) (metis nth_mem)
  note spec = components_spec [OF r]
  have "distinct c" using spec(1) c by (auto simp: distinct_concat_iff)
  with component_regions_tasks(2) [OF rs(1)] rs(2) t have ts: "tt_stage t \<in> set c"
    by (auto simp: stage_tasks_def)
  have range: "set c \<subseteq> {..<length (g_stages g)}" using spec(2) c by auto
  have "si_stage i \<in> set (neighbors_of (snd (link_stages g)) (tt_stage t))"
    using ts range i by (intro link_stages_pipelined r) auto
  moreover have "si_stage i < length (g_stages g)"
    using r i(1) ts range nth_mem [of "tt_stage t" "g_stages g"] unfolding inputs_in_range_def by blast
  ultimately have "si_stage i \<in> set c"
    using spec(3) [OF c] ts link_stages_length(2) [OF r] by (auto simp: closed_under_def)
  then show ?thesis
    using component_region_inputs [OF rs t i(1) _ t'(1)] t'(2) by (simp add: all_tasks_def)
qed

lemma set_region_dependencies:
  "set (region_dependencies g t2r r ts) =
     {d. d \<noteq> r \<and> (\<exists>t \<in> set ts. \<exists>i \<in> set (st_inputs (g_stages g ! tt_stage t)).
        \<exists>t' \<in> set (input_tasks g t i). t2r t' = Some d)}"
  by (force simp: region_dependencies_def List.map_filter_def)

text \<open>Region \<open>r\<close> reads from region \<open>d\<close> through an input of one of its tasks.\<close>

definition reads_from :: "job_graph \<Rightarrow> job_topology \<Rightarrow> nat \<Rightarrow> nat \<Rightarrow> stage_input \<Rightarrow> bool" where
  "reads_from g tp r d i \<longleftrightarrow>
     (\<exists>t \<in> set (rt_tasks (jt_regions tp ! r)). i \<in> set (st_inputs (g_stages g ! tt_stage t)) \<and>
        (\<exists>t' \<in> set (input_tasks g t i). t' \<in> set (rt_tasks (jt_regions tp ! d))))"

lemma topology_dependencies:
  assumes tp: "job_topology_try_new g = Some (Inr tp)" and r: "r < length (jt_regions tp)"
  shows "d \<in> set (rt_dependencies (jt_regions tp ! r)) \<longleftrightarrow>
      d \<noteq> r \<and> d < length (jt_regions tp) \<and> (\<exists>i. reads_from g tp r d i)"
    and "reads_from g tp r d i \<Longrightarrow> d < length (jt_regions tp) \<Longrightarrow> d \<noteq> r \<Longrightarrow>
      st_mode (g_stages g ! si_stage i) = Blocking"
proof -
  from tp obtain rss where *: "inputs_in_range g"
    "collect_results (component_regions g) (find_components (snd (link_stages g))
           [0..<length (g_stages g)] (replicate (length (g_stages g)) False)) = Inr rss"
    "jt_regions tp = map (\<lambda>(r, region). region\<lparr>rt_dependencies :=
           region_dependencies g (task_to_region (concat rss)) r (rt_tasks region)\<rparr>)
           (enumerate 0 (concat rss))"
    by (rule job_topology_try_newE)
  have len: "length (jt_regions tp) = length (concat rss)" by (simp add: *(3))
  have nth: "\<And>k. k < length (concat rss) \<Longrightarrow> rt_tasks (jt_regions tp ! k) = rt_tasks (concat rss ! k)"
    by (simp add: *(3) nth_enumerate_eq)
  have dep: "rt_dependencies (jt_regions tp ! r) =
      region_dependencies g (task_to_region (concat rss)) r (rt_tasks (concat rss ! r))"
    using r len by (simp add: *(3) nth_enumerate_eq)
  have dist: "distinct (tasks_of_regions (concat rss))"
    using collected_regions_tasks(1) [OF *(2)] components_spec(1) [OF *(1)] by simp
  note t2r = task_to_region_iff [OF dist]
  show "d \<in> set (rt_dependencies (jt_regions tp ! r)) \<longleftrightarrow>
      d \<noteq> r \<and> d < length (jt_regions tp) \<and> (\<exists>i. reads_from g tp r d i)"
  proof (cases "d < length (concat rss)")
    case True
    then show ?thesis
      using nth [OF True] nth [of r] r len
      unfolding dep set_region_dependencies mem_Collect_eq t2r reads_from_def by auto
  next
    case False
    then show ?thesis by (simp add: dep set_region_dependencies t2r len)
  qed
  assume "reads_from g tp r d i" and d: "d < length (jt_regions tp)" "d \<noteq> r"
  then obtain t t' where t: "t \<in> set (rt_tasks (concat rss ! r))"
    "i \<in> set (st_inputs (g_stages g ! tt_stage t))" and t': "t' \<in> set (input_tasks g t i)"
    "t' \<in> set (rt_tasks (concat rss ! d))"
    using r len nth by (auto simp: reads_from_def)
  have "t' \<in> all_tasks g"
    using topology_tasks(2) [OF tp] t'(2) d(1) len nth [of d]
    by (metis (no_types, lifting) UN_I list.set_map nth_mem set_concat image_eqI)
  have "t' \<notin> set (rt_tasks (concat rss ! r))"
    using t'(2) d r len task_to_region_iff [OF dist, of t'] by (metis option.inject)
  then show "st_mode (g_stages g ! si_stage i) = Blocking"
    using pipelined_input_same_region [OF *(1,2) nth_mem t _ t'(1) \<open>t' \<in> all_tasks g\<close>] r len
    by (cases "st_mode (g_stages g ! si_stage i)") auto
qed

section \<open>Properties\<close>

text \<open>
  C17. The topology of a job covers the job: the regions partition the tasks. Every task of every
  stage (a stage has one task per output partition of its plan) is in exactly one region, once,
  and a region has no other tasks.
\<close>

theorem topology_partitions_tasks:
  assumes "job_topology_try_new g = Some (Inr tp)"
  shows "distinct (tasks_of_regions (jt_regions tp)) \<and> set (tasks_of_regions (jt_regions tp)) = all_tasks g"
  using topology_tasks [OF assms] by simp

lemma example_topology:
  "job_topology_try_new example_graph = Some (Inr (case job_topology_try_new example_graph of
     Some (Inr tp) \<Rightarrow> tp | _ \<Rightarrow> \<lparr>jt_regions = [], jt_consumers = []\<rparr>))"
  by code_simp

theorem topology_partitions_tasks_witness:
  "case job_topology_try_new example_graph of
     Some (Inr tp) \<Rightarrow> set (tasks_of_regions (jt_regions tp)) = all_tasks example_graph \<and>
       length (jt_regions tp) = 1
   | _ \<Rightarrow> False"
proof -
  let ?tp = "case job_topology_try_new example_graph of
     Some (Inr tp) \<Rightarrow> tp | _ \<Rightarrow> \<lparr>jt_regions = [], jt_consumers = []\<rparr>"
  have "length (jt_regions ?tp) = 1" by code_simp
  with topology_partitions_tasks [OF example_topology] example_topology show ?thesis
    by (simp split: option.splits sum.splits)
qed

text \<open>
  C18. A region waits for exactly the regions it reads from, and only across blocking outputs.
  Region \<open>d\<close> is a dependency of region \<open>r\<close> exactly when \<open>d\<close> is another region and some task of
  \<open>r\<close> reads from a task of \<open>d\<close>, and the stage read from then has a blocking output: tasks that
  exchange data while both run are always scheduled together.
\<close>

theorem topology_dependencies_blocking:
  assumes "job_topology_try_new g = Some (Inr tp)" and "r < length (jt_regions tp)"
  shows "(d \<in> set (rt_dependencies (jt_regions tp ! r)) \<longleftrightarrow>
      d \<noteq> r \<and> d < length (jt_regions tp) \<and> (\<exists>i. reads_from g tp r d i)) \<and>
    (\<forall>i. d \<noteq> r \<longrightarrow> d < length (jt_regions tp) \<longrightarrow> reads_from g tp r d i \<longrightarrow>
      st_mode (g_stages g ! si_stage i) = Blocking)"
  using topology_dependencies [OF assms] by blast

text \<open>The example with a blocking producer.\<close>

definition example_blocking :: job_graph where
  "example_blocking = \<lparr>g_stages = [(example_stage [] 2 Placement_Worker)\<lparr>st_mode := Blocking\<rparr>,
     example_stage [\<lparr>si_stage = 0, si_mode = Merge\<rparr>] 1 Placement_Driver], g_schema = 7\<rparr>"

theorem topology_dependencies_blocking_witness:
  "\<exists>tp. job_topology_try_new example_blocking = Some (Inr tp) \<and>
     (0 \<in> set (rt_dependencies (jt_regions tp ! 2)) \<longleftrightarrow> (\<exists>i. reads_from example_blocking tp 2 0 i)) \<and>
     0 \<in> set (rt_dependencies (jt_regions tp ! 2))"
proof -
  let ?tp = "case job_topology_try_new example_blocking of
     Some (Inr tp) \<Rightarrow> tp | _ \<Rightarrow> \<lparr>jt_regions = [], jt_consumers = []\<rparr>"
  have tp: "job_topology_try_new example_blocking = Some (Inr ?tp)" by code_simp
  have d: "0 \<in> set (rt_dependencies (jt_regions ?tp ! 2))" by code_simp
  have r: "2 < length (jt_regions ?tp)" by code_simp
  have "0 < length (jt_regions ?tp)" by code_simp
  with topology_dependencies_blocking [OF tp r, of 0] tp d show ?thesis
    by (intro exI [of _ ?tp]) auto
qed

end
