(* ===== verification/Job_Scheduler.thy ===== *)
theory Job_Scheduler
  imports Topology
begin

text \<open>
  The job scheduler of \<open>driver/job_scheduler/\<close> (\<open>state.rs\<close>, \<open>core.rs\<close>): the descriptors of jobs,
  stages, tasks and task attempts, the update of a task attempt, and \<open>refresh_job\<close>, which
  turns the states of the attempts into actions for the driver. A job's output manager is the
  sending end of one channel per job, so its handle is the job id. The clock is a parameter of
  every operation that reads it.
\<close>

section \<open>State\<close>

datatype task_state =
  Task_Created | Task_Scheduled | Task_Running | Task_Succeeded | Task_Failed | Task_Canceled

datatype stage_state = Stage_Active | Stage_Inactive

datatype task_region_state = Region_Running | Region_Failed | Region_Succeeded

datatype job_state = Job_Running task_context | Job_Draining | Job_Succeeded | Job_Failed | Job_Canceled

fun task_state_status :: "task_state \<Rightarrow> string" where
  "task_state_status Task_Created = ''CREATED''"
| "task_state_status Task_Scheduled = ''SCHEDULED''"
| "task_state_status Task_Running = ''RUNNING''"
| "task_state_status Task_Succeeded = ''SUCCEEDED''"
| "task_state_status Task_Failed = ''FAILED''"
| "task_state_status Task_Canceled = ''CANCELED''"

fun stage_state_status :: "stage_state \<Rightarrow> string" where
  "stage_state_status Stage_Active = ''ACTIVE''"
| "stage_state_status Stage_Inactive = ''INACTIVE''"

fun job_state_status :: "job_state \<Rightarrow> string" where
  "job_state_status (Job_Running _) = ''RUNNING''"
| "job_state_status Job_Draining = ''DRAINING''"
| "job_state_status Job_Succeeded = ''SUCCEEDED''"
| "job_state_status Job_Failed = ''FAILED''"
| "job_state_status Job_Canceled = ''CANCELED''"

fun consolidate :: "task_state \<Rightarrow> task_state \<Rightarrow> task_state" where
  "consolidate Task_Created x = x"
| "consolidate Task_Scheduled Task_Created = Task_Scheduled"
| "consolidate Task_Scheduled x = x"
| "consolidate Task_Running Task_Created = Task_Running"
| "consolidate Task_Running Task_Scheduled = Task_Running"
| "consolidate Task_Running x = x"
| "consolidate Task_Succeeded _ = Task_Succeeded"
| "consolidate Task_Failed _ = Task_Failed"
| "consolidate Task_Canceled _ = Task_Canceled"

fun is_terminal :: "task_state \<Rightarrow> bool" where
  "is_terminal Task_Succeeded = True"
| "is_terminal Task_Failed = True"
| "is_terminal Task_Canceled = True"
| "is_terminal Task_Created = False"
| "is_terminal Task_Scheduled = False"
| "is_terminal Task_Running = False"

record task_attempt =
  at_state :: task_state
  at_messages :: "string list"
  at_cause :: "common_error_cause option"
  at_job_output_fetched :: bool
  at_created_at :: time
  at_stopped_at :: "time option"

record task_descriptor =
  td_attempts :: "task_attempt list"

record stage_descriptor =
  sd_tasks :: "task_descriptor list"
  sd_state :: stage_state
  sd_created_at :: time
  sd_stopped_at :: "time option"

record job_descriptor =
  jd_graph :: job_graph
  jd_topology :: job_topology
  jd_stages :: "stage_descriptor list"
  jd_regions :: "task_region_state list"
  jd_state :: job_state
  jd_created_at :: time
  jd_stopped_at :: "time option"

definition job_descriptor_try_new ::
  "clock \<Rightarrow> job_graph \<Rightarrow> job_state \<Rightarrow> job_descriptor execution_result option" where
  "job_descriptor_try_new ck g st =
     (let stages = map (\<lambda>x. \<lparr>sd_tasks = replicate (stage_partitions x) \<lparr>td_attempts = []\<rparr>,
                             sd_state = Stage_Active, sd_created_at = utc_now ck,
                             sd_stopped_at = None\<rparr>) (g_stages g) in
      case job_topology_try_new g of
        None \<Rightarrow> None
      | Some (Inl e) \<Rightarrow> Some (Inl e)
      | Some (Inr tp) \<Rightarrow> Some (Inr
          \<lparr>jd_graph = g, jd_topology = tp, jd_stages = stages,
           jd_regions = replicate (length (jt_regions tp)) Region_Running,
           jd_state = st, jd_created_at = utc_now ck, jd_stopped_at = None\<rparr>))"

subsection \<open>Snapshots\<close>

record job_snapshot =
  js_snap_job_id :: job_id
  js_snap_status :: string
  js_snap_created_at :: time
  js_snap_stopped_at :: "time option"

record task_snapshot =
  ts_snap_job_id :: job_id
  ts_snap_stage :: nat
  ts_snap_partition :: nat
  ts_snap_attempt :: nat
  ts_snap_status :: string
  ts_snap_created_at :: time
  ts_snap_stopped_at :: "time option"

definition job_snapshot_of :: "job_id \<Rightarrow> job_descriptor \<Rightarrow> job_snapshot" where
  "job_snapshot_of j job =
     \<lparr>js_snap_job_id = j, js_snap_status = job_state_status (jd_state job),
      js_snap_created_at = jd_created_at job, js_snap_stopped_at = jd_stopped_at job\<rparr>"

definition task_snapshots_of :: "job_id \<Rightarrow> job_descriptor \<Rightarrow> task_snapshot list" where
  "task_snapshots_of j job =
     concat (map (\<lambda>(s, stage). concat (map (\<lambda>(p, task). map (\<lambda>(a, attempt).
       \<lparr>ts_snap_job_id = j, ts_snap_stage = s, ts_snap_partition = p, ts_snap_attempt = a,
        ts_snap_status = task_state_status (at_state attempt),
        ts_snap_created_at = at_created_at attempt, ts_snap_stopped_at = at_stopped_at attempt\<rparr>)
       (enumerate 0 (td_attempts task))) (enumerate 0 (sd_tasks stage))))
       (enumerate 0 (jd_stages job)))"

section \<open>The scheduler and its actions\<close>

record job_scheduler_options =
  jo_task_launch_timeout :: time
  jo_task_max_attempts :: nat

text \<open>
  The codec (\<open>RemoteExecutionCodec\<close> together with DataFusion's serialization) is a parameter.
\<close>

record codec =
  encode_plan :: "exec_plan \<Rightarrow> bytes execution_result"
  encode_expr :: "physical_expr \<Rightarrow> bytes execution_result"

record job_scheduler =
  js_options :: job_scheduler_options
  js_jobs :: "(job_id, job_descriptor) index_map"
  js_job_id_generator :: id_generator
  js_codec :: codec

definition job_scheduler_new :: "job_scheduler_options \<Rightarrow> codec \<Rightarrow> job_scheduler" where
  "job_scheduler_new opts cd =
     \<lparr>js_options = opts, js_jobs = [], js_job_id_generator = id_generator_new, js_codec = cd\<rparr>"

datatype job_action =
    ScheduleTaskRegion task_region
  | CancelTask task_key
  | ExtendJobOutput job_id task_stream_key schema
  | FailJobOutput job_id common_error_cause
  | CleanUpStreams job_id "nat option"

subsection \<open>Access to the attempts of a task\<close>

text \<open>
  The source indexes \<open>job.stages[s].tasks[p].attempts\<close>, which panics out of range. The topology
  of a job only names tasks in range (lemma \<open>job_wf_region_task\<close>), so for the jobs of the
  scheduler the two never differ.
\<close>

definition task_in_range :: "stage_descriptor list \<Rightarrow> nat \<Rightarrow> nat \<Rightarrow> bool" where
  "task_in_range sds s p \<longleftrightarrow> s < length sds \<and> p < length (sd_tasks (sds ! s))"

definition attempts_at :: "stage_descriptor list \<Rightarrow> nat \<Rightarrow> nat \<Rightarrow> task_attempt list" where
  "attempts_at sds s p = td_attempts (sd_tasks (sds ! s) ! p)"

definition set_attempts :: "nat \<Rightarrow> nat \<Rightarrow> task_attempt list \<Rightarrow> stage_descriptor list \<Rightarrow> stage_descriptor list"
where
  "set_attempts s p as sds =
     sds[s := (sds ! s)\<lparr>sd_tasks := (sd_tasks (sds ! s))[p := \<lparr>td_attempts = as\<rparr>]\<rparr>]"

definition last_state :: "stage_descriptor list \<Rightarrow> nat \<Rightarrow> nat \<Rightarrow> task_state option" where
  "last_state sds s p =
     (case rev (attempts_at sds s p) of [] \<Rightarrow> None | a # _ \<Rightarrow> Some (at_state a))"

definition get_latest_task_attempt :: "job_descriptor \<Rightarrow> nat \<Rightarrow> nat \<Rightarrow> nat option" where
  "get_latest_task_attempt job s p =
     (if task_in_range (jd_stages job) s p then
        (case attempts_at (jd_stages job) s p of
           [] \<Rightarrow> None
         | as \<Rightarrow> Some (length as - 1))
      else None)"

subsection \<open>Accepting a job and updating a task\<close>

text \<open>\<open>None\<close> is a panic of \<open>JobTopology::try_new\<close>.\<close>

definition accept_job ::
  "clock \<Rightarrow> job_graph execution_result \<Rightarrow> task_context \<Rightarrow> job_scheduler \<Rightarrow>
   (job_id execution_result \<times> job_scheduler \<times> effect list) option" where
  "accept_job ck graph ctx js =
     (case id_generator_next (js_job_id_generator js) of
        Inl e \<Rightarrow> Some (Inl e, js, [])
      | Inr (job_id, gen) \<Rightarrow>
          let js1 = js\<lparr>js_job_id_generator := gen\<rparr> in
          (case graph of
             Inl e \<Rightarrow> Some (Inl e, js1, [])
           | Inr g \<Rightarrow>
               let out = [Spawn (Call_JobOutput job_id)] in
               (case job_descriptor_try_new ck g (Job_Running ctx) of
                  None \<Rightarrow> None
                | Some (Inl e) \<Rightarrow> Some (Inl e, js1, out)
                | Some (Inr job) \<Rightarrow>
                    Some (Inr job_id, js1\<lparr>js_jobs := im_insert job_id job (js_jobs js1)\<rparr>, out))))"

definition update_attempt ::
  "clock \<Rightarrow> task_state \<Rightarrow> string option \<Rightarrow> common_error_cause option \<Rightarrow> task_attempt \<Rightarrow> task_attempt" where
  "update_attempt ck state message cause a =
     (let st = consolidate (at_state a) state in
      a\<lparr>at_state := st,
        at_stopped_at := (if is_terminal st \<and> at_stopped_at a = None then Some (utc_now ck)
                          else at_stopped_at a),
        at_messages := at_messages a @ (case message of None \<Rightarrow> [] | Some m \<Rightarrow> [m]),
        at_cause := (case cause of None \<Rightarrow> at_cause a | Some c \<Rightarrow> Some c)\<rparr>)"

definition update_task_in ::
  "clock \<Rightarrow> task_key \<Rightarrow> task_state \<Rightarrow> string option \<Rightarrow> common_error_cause option \<Rightarrow>
   job_descriptor \<Rightarrow> job_descriptor" where
  "update_task_in ck k state message cause job =
     (let sds = jd_stages job; s = tk_stage k; p = tk_partition k; a = tk_attempt k in
      if task_in_range sds s p \<and> a < length (attempts_at sds s p)
      then job\<lparr>jd_stages := set_attempts s p ((attempts_at sds s p)
             [a := update_attempt ck state message cause (attempts_at sds s p ! a)]) sds\<rparr>
      else job)"

definition update_task ::
  "clock \<Rightarrow> task_key \<Rightarrow> task_state \<Rightarrow> string option \<Rightarrow> common_error_cause option \<Rightarrow>
   job_scheduler \<Rightarrow> job_scheduler" where
  "update_task ck k state message cause js =
     js\<lparr>js_jobs := im_modify (tk_job_id k) (update_task_in ck k state message cause) (js_jobs js)\<rparr>"

definition get_task_state :: "job_scheduler \<Rightarrow> task_key \<Rightarrow> task_state option" where
  "get_task_state js k =
     (case im_get (js_jobs js) (tk_job_id k) of
        None \<Rightarrow> None
      | Some job \<Rightarrow>
          let sds = jd_stages job; s = tk_stage k; p = tk_partition k; a = tk_attempt k in
          if task_in_range sds s p \<and> a < length (attempts_at sds s p)
          then Some (at_state (attempts_at sds s p ! a)) else None)"

subsection \<open>Refreshing a job\<close>

definition region_has_failure :: "stage_descriptor list \<Rightarrow> task_region_topology \<Rightarrow> bool" where
  "region_has_failure sds region =
     list_ex (\<lambda>t. last_state sds (tt_stage t) (tt_partition t) = Some Task_Failed) (rt_tasks region)"

definition cancel_attempt :: "clock \<Rightarrow> task_attempt \<Rightarrow> task_attempt" where
  "cancel_attempt ck a =
     (if is_terminal (at_state a) then a
      else a\<lparr>at_state := Task_Canceled, at_stopped_at := Some (utc_now ck)\<rparr>)"

definition active_attempt_keys :: "job_id \<Rightarrow> nat \<Rightarrow> nat \<Rightarrow> task_attempt list \<Rightarrow> task_key list" where
  "active_attempt_keys j s p as =
     map (\<lambda>(a, _). \<lparr>tk_job_id = j, tk_stage = s, tk_partition = p, tk_attempt = a\<rparr>)
       (filter (\<lambda>(_, x). \<not> is_terminal (at_state x)) (enumerate 0 as))"

definition cancel_task_attempts ::
  "clock \<Rightarrow> job_id \<Rightarrow> stage_descriptor list \<times> job_action list \<Rightarrow> task_topology \<Rightarrow>
   stage_descriptor list \<times> job_action list" where
  "cancel_task_attempts ck j sa t =
     (let (sds, acts) = sa; s = tt_stage t; p = tt_partition t; as = attempts_at sds s p in
      (set_attempts s p (map (cancel_attempt ck) as) sds,
       acts @ map CancelTask (active_attempt_keys j s p as)))"

definition cascade_cancel_region ::
  "clock \<Rightarrow> job_id \<Rightarrow> stage_descriptor list \<times> job_action list \<Rightarrow> task_region_topology \<Rightarrow>
   stage_descriptor list \<times> job_action list" where
  "cascade_cancel_region ck j sa region =
     (if region_has_failure (fst sa) region
      then foldl (cancel_task_attempts ck j) sa (rt_tasks region) else sa)"

definition cascade_cancel_task_attempts ::
  "clock \<Rightarrow> job_id \<Rightarrow> job_descriptor \<Rightarrow> job_descriptor \<times> job_action list" where
  "cascade_cancel_task_attempts ck j job =
     (let (sds, acts) = foldl (cascade_cancel_region ck j) (jd_stages job, [])
                          (jt_regions (jd_topology job))
      in (job\<lparr>jd_stages := sds\<rparr>, acts))"

definition extend_task_output ::
  "job_id \<Rightarrow> schema \<Rightarrow> nat \<Rightarrow> nat \<Rightarrow> stage_descriptor list \<times> job_action list \<Rightarrow> nat \<Rightarrow>
   stage_descriptor list \<times> job_action list" where
  "extend_task_output j sch chans s sa p =
     (let (sds, acts) = sa; as = attempts_at sds s p in
      if as = [] then sa
      else if at_state (last as) \<notin> {Task_Running, Task_Succeeded} \<or> at_job_output_fetched (last as)
      then sa
      else (set_attempts s p (butlast as @ [(last as)\<lparr>at_job_output_fetched := True\<rparr>]) sds,
            acts @ map (\<lambda>c. ExtendJobOutput j
                \<lparr>sk_job_id = j, sk_stage = s, sk_partition = p, sk_attempt = length as - 1,
                 sk_channel = c\<rparr> sch) [0..<chans]))"

definition extend_stage_output ::
  "job_id \<Rightarrow> job_descriptor \<Rightarrow> stage_descriptor list \<times> job_action list \<Rightarrow> nat \<times> stage \<Rightarrow>
   stage_descriptor list \<times> job_action list" where
  "extend_stage_output j job sa sx =
     (let (s, x) = sx in
      if jt_consumers (jd_topology job) ! s \<noteq> [] then sa
      else foldl (extend_task_output j (g_schema (jd_graph job)) (channels (st_distribution x)) s)
             sa [0..<stage_partitions x])"

definition extend_job_output :: "job_id \<Rightarrow> job_descriptor \<Rightarrow> job_descriptor \<times> job_action list" where
  "extend_job_output j job =
     (case jd_state job of
        Job_Running _ \<Rightarrow>
          (let (sds, acts) = foldl (extend_stage_output j job) (jd_stages job, [])
                               (enumerate 0 (g_stages (jd_graph job)))
           in (job\<lparr>jd_stages := sds\<rparr>, acts))
      | _ \<Rightarrow> (job, []))"

definition stage_succeeded :: "job_descriptor \<Rightarrow> stage_descriptor list \<Rightarrow> nat \<Rightarrow> bool" where
  "stage_succeeded job sds c =
     list_all (\<lambda>p. last_state sds c p = Some Task_Succeeded)
       [0..<stage_partitions (g_stages (jd_graph job) ! c)]"

definition clean_up_stage ::
  "clock \<Rightarrow> job_id \<Rightarrow> job_descriptor \<Rightarrow> stage_descriptor list \<times> job_action list \<Rightarrow>
   nat \<times> nat list \<Rightarrow> stage_descriptor list \<times> job_action list" where
  "clean_up_stage ck j job sa sc =
     (let (sds, acts) = sa; (s, cons) = sc in
      if sd_state (sds ! s) = Stage_Inactive then sa
      else if list_all (stage_succeeded job sds) cons \<and> cons \<noteq> []
      then (sds[s := (sds ! s)\<lparr>sd_state := Stage_Inactive, sd_stopped_at := Some (utc_now ck)\<rparr>],
            acts @ [CleanUpStreams j (Some s)])
      else sa)"

definition clean_up_job_by_stage ::
  "clock \<Rightarrow> job_id \<Rightarrow> job_descriptor \<Rightarrow> job_descriptor \<times> job_action list" where
  "clean_up_job_by_stage ck j job =
     (let (sds, acts) = foldl (clean_up_stage ck j job) (jd_stages job, [])
                          (enumerate 0 (jt_consumers (jd_topology job)))
      in (job\<lparr>jd_stages := sds\<rparr>, acts))"

definition task_exhausted :: "nat \<Rightarrow> stage_descriptor list \<Rightarrow> task_topology \<Rightarrow> bool" where
  "task_exhausted max_attempts sds t \<longleftrightarrow>
     (case last_state sds (tt_stage t) (tt_partition t) of
        None \<Rightarrow> False
      | Some st \<Rightarrow> st \<in> {Task_Failed, Task_Canceled}) \<and>
     max_attempts \<le> length (attempts_at sds (tt_stage t) (tt_partition t))"

definition task_succeeded :: "stage_descriptor list \<Rightarrow> task_topology \<Rightarrow> bool" where
  "task_succeeded sds t \<longleftrightarrow> last_state sds (tt_stage t) (tt_partition t) = Some Task_Succeeded"

definition region_state_of :: "nat \<Rightarrow> stage_descriptor list \<Rightarrow> task_region_topology \<Rightarrow> task_region_state"
where
  "region_state_of max_attempts sds region =
     (if list_ex (task_exhausted max_attempts sds) (rt_tasks region) then Region_Failed
      else if list_all (task_succeeded sds) (rt_tasks region) then Region_Succeeded
      else Region_Running)"

definition update_task_regions :: "job_scheduler_options \<Rightarrow> job_descriptor \<Rightarrow> job_descriptor" where
  "update_task_regions opts job =
     job\<lparr>jd_regions := map (region_state_of (jo_task_max_attempts opts) (jd_stages job))
           (jt_regions (jd_topology job))\<rparr>"

subsection \<open>Task regions for the assigner\<close>

record stage_group =
  sg_stages :: "nat list"
  sg_buckets :: "task_set_entry list list"

type_synonym stage_group_key = "task_placement \<times> string"

definition group_key :: "stage \<Rightarrow> stage_group_key" where
  "group_key x = (st_placement x, st_group x)"

definition group_stage ::
  "job_graph \<Rightarrow> (stage_group_key, stage_group) index_map \<Rightarrow> nat \<Rightarrow> (stage_group_key, stage_group) index_map"
where
  "group_stage g m s =
     (let x = g_stages g ! s; k = group_key x;
          grp = (case im_get m k of None \<Rightarrow> \<lparr>sg_stages = [], sg_buckets = []\<rparr> | Some v \<Rightarrow> v);
          n = length (sg_buckets grp); p = stage_partitions x
      in im_insert k \<lparr>sg_stages = is_insert s (sg_stages grp),
           sg_buckets = (if n < p then sg_buckets grp @ replicate (p - n) [] else sg_buckets grp)\<rparr> m)"

fun output_kind :: "output_mode \<Rightarrow> task_output_kind" where
  "output_kind Pipelined = Out_Local"
| "output_kind Blocking = Out_Remote"

definition bucket_task ::
  "job_id \<Rightarrow> job_descriptor \<Rightarrow> (stage_group_key, stage_group) index_map \<Rightarrow> task_topology \<Rightarrow>
   (stage_group_key, stage_group) index_map" where
  "bucket_task j job m t =
     (case get_latest_task_attempt job (tt_stage t) (tt_partition t) of
        None \<Rightarrow> m
      | Some attempt \<Rightarrow>
          let x = g_stages (jd_graph job) ! tt_stage t;
              e = \<lparr>te_key = \<lparr>tk_job_id = j, tk_stage = tt_stage t, tk_partition = tt_partition t,
                             tk_attempt = attempt\<rparr>,
                   te_output = output_kind (st_mode x)\<rparr>
          in im_modify (group_key x) (\<lambda>grp.
               let b = tt_partition t * length (sg_buckets grp) div stage_partitions x
               in grp\<lparr>sg_buckets := (sg_buckets grp)[b := sg_buckets grp ! b @ [e]]\<rparr>) m)"

definition build_task_region :: "job_id \<Rightarrow> job_descriptor \<Rightarrow> task_region_topology \<Rightarrow> task_region" where
  "build_task_region j job region =
     (let stages = is_extend [] (map tt_stage (rt_tasks region));
          groups = foldl (group_stage (jd_graph job)) [] stages;
          filled = foldl (bucket_task j job) groups (rt_tasks region)
      in \<lparr>tr_tasks = concat (map (\<lambda>(k, grp).
            map (\<lambda>entries. (fst k, \<lparr>ts_entries = entries\<rparr>)) (sg_buckets grp)) filled)\<rparr>)"

definition new_attempt :: "clock \<Rightarrow> task_attempt" where
  "new_attempt ck =
     \<lparr>at_state = Task_Created, at_messages = [], at_cause = None, at_job_output_fetched = False,
      at_created_at = utc_now ck, at_stopped_at = None\<rparr>"

definition push_attempt :: "clock \<Rightarrow> stage_descriptor list \<Rightarrow> task_topology \<Rightarrow> stage_descriptor list" where
  "push_attempt ck sds t =
     set_attempts (tt_stage t) (tt_partition t)
       (attempts_at sds (tt_stage t) (tt_partition t) @ [new_attempt ck]) sds"

definition task_active :: "stage_descriptor list \<Rightarrow> task_topology \<Rightarrow> bool" where
  "task_active sds t =
     (case last_state sds (tt_stage t) (tt_partition t) of None \<Rightarrow> False | Some st \<Rightarrow> \<not> is_terminal st)"

definition region_schedulable :: "job_descriptor \<Rightarrow> nat \<times> task_region_topology \<Rightarrow> bool" where
  "region_schedulable job rr \<longleftrightarrow>
     (let (r, region) = rr in
      jd_regions job ! r \<noteq> Region_Succeeded \<and>
      list_all (\<lambda>d. jd_regions job ! d = Region_Succeeded) (rt_dependencies region) \<and>
      \<not> list_ex (task_active (jd_stages job)) (rt_tasks region))"

definition schedule_region ::
  "clock \<Rightarrow> job_id \<Rightarrow> job_descriptor \<times> job_action list \<Rightarrow> nat \<times> task_region_topology \<Rightarrow>
   job_descriptor \<times> job_action list" where
  "schedule_region ck j ja rr =
     (let (job, acts) = ja in
      if region_schedulable job rr then
        (let job' = job\<lparr>jd_stages := foldl (push_attempt ck) (jd_stages job) (rt_tasks (snd rr))\<rparr>
         in (job', acts @ [ScheduleTaskRegion (build_task_region j job' (snd rr))]))
      else ja)"

definition schedule_task_regions ::
  "clock \<Rightarrow> job_id \<Rightarrow> job_descriptor \<Rightarrow> job_descriptor \<times> job_action list" where
  "schedule_task_regions ck j job =
     foldl (schedule_region ck j) (job, []) (enumerate 0 (jt_regions (jd_topology job)))"

subsection \<open>The cause of a job's failure\<close>

definition task_causes :: "task_descriptor \<Rightarrow> common_error_cause list" where
  "task_causes task =
     List.map_filter (\<lambda>a. if at_state a = Task_Failed then at_cause a else None) (td_attempts task)"

text \<open>
  The source minimises over a hash map with the total order "more causes first, then the
  smaller stage, then the smaller partition"; scanning the tasks in the order of stage and
  partition and keeping the first maximum gives the same task.
\<close>

definition infer_job_failure_cause :: "job_descriptor \<Rightarrow> common_error_cause" where
  "infer_job_failure_cause job =
     (let best = foldl (\<lambda>best cs. if length best < length cs then cs else best) []
            (map task_causes (concat (map sd_tasks (jd_stages job))))
      in if best = [] then Cause_Of (InternalError ''job failed for unknown reason'') else last best)"

subsection \<open>The whole refresh\<close>

definition is_running :: "job_state \<Rightarrow> bool" where
  "is_running st \<longleftrightarrow> (case st of Job_Running _ \<Rightarrow> True | _ \<Rightarrow> False)"

definition refresh_job_in ::
  "clock \<Rightarrow> job_scheduler_options \<Rightarrow> job_id \<Rightarrow> job_descriptor \<Rightarrow> job_descriptor \<times> job_action list" where
  "refresh_job_in ck opts j job0 =
     (if \<not> is_running (jd_state job0) then (job0, [])
      else
        let (job1, a1) = cascade_cancel_task_attempts ck j job0;
            (job2, a2) = extend_job_output j job1;
            (job3, a3) = clean_up_job_by_stage ck j job2;
            job4 = update_task_regions opts job3;
            actions = a1 @ a2 @ a3
        in if Region_Failed \<in> set (jd_regions job4) then
             (job4\<lparr>jd_state := Job_Failed, jd_stopped_at := Some (utc_now ck)\<rparr>,
              actions @ [FailJobOutput j (infer_job_failure_cause job4)])
           else if list_all (\<lambda>x. x = Region_Succeeded) (jd_regions job4) then
             (job4\<lparr>jd_state := Job_Draining\<rparr>, actions)
           else
             (let (job5, a5) = schedule_task_regions ck j job4 in (job5, actions @ a5)))"

definition refresh_job :: "clock \<Rightarrow> job_id \<Rightarrow> job_scheduler \<Rightarrow> job_scheduler \<times> job_action list" where
  "refresh_job ck j js =
     (case im_get (js_jobs js) j of
        None \<Rightarrow> (js, [])
      | Some job \<Rightarrow>
          let (job', acts) = refresh_job_in ck (js_options js) j job
          in (js\<lparr>js_jobs := im_insert j job' (js_jobs js)\<rparr>, acts))"

subsection \<open>Cleaning up and stopping\<close>

definition job_active_keys :: "job_id \<Rightarrow> job_descriptor \<Rightarrow> task_key list" where
  "job_active_keys j job =
     concat (map (\<lambda>(s, stage). concat (map (\<lambda>(p, task).
       active_attempt_keys j s p (td_attempts task)) (enumerate 0 (sd_tasks stage))))
       (enumerate 0 (jd_stages job)))"

definition deactivate_stage :: "clock \<Rightarrow> stage_descriptor \<Rightarrow> stage_descriptor" where
  "deactivate_stage ck sd =
     sd\<lparr>sd_state := Stage_Inactive,
        sd_stopped_at := (if sd_stopped_at sd = None then Some (utc_now ck) else sd_stopped_at sd)\<rparr>"

definition clean_up_job_in :: "clock \<Rightarrow> job_id \<Rightarrow> job_descriptor \<Rightarrow> job_descriptor \<times> job_action list" where
  "clean_up_job_in ck j job =
     (job\<lparr>jd_stages := map (deactivate_stage ck) (jd_stages job),
          jd_state := (if jd_state job = Job_Draining then Job_Succeeded else Job_Canceled),
          jd_stopped_at := Some (utc_now ck)\<rparr>,
      map CancelTask (job_active_keys j job) @ [CleanUpStreams j None])"

definition clean_up_job :: "clock \<Rightarrow> job_id \<Rightarrow> job_scheduler \<Rightarrow> job_scheduler \<times> job_action list" where
  "clean_up_job ck j js =
     (case im_get (js_jobs js) j of
        None \<Rightarrow> (js, [])
      | Some job \<Rightarrow>
          let (job', acts) = clean_up_job_in ck j job
          in (js\<lparr>js_jobs := im_insert j job' (js_jobs js)\<rparr>, acts))"

definition stop_stage :: "clock \<Rightarrow> stage_descriptor \<Rightarrow> stage_descriptor" where
  "stop_stage ck sd =
     (let sd' = (if sd_state sd = Stage_Active
                 then sd\<lparr>sd_state := Stage_Inactive, sd_stopped_at := Some (utc_now ck)\<rparr> else sd)
      in sd'\<lparr>sd_tasks := map (\<lambda>t. \<lparr>td_attempts = map (cancel_attempt ck) (td_attempts t)\<rparr>)
                           (sd_tasks sd')\<rparr>)"

definition stop_job :: "clock \<Rightarrow> job_descriptor \<Rightarrow> job_descriptor" where
  "stop_job ck job =
     (let job' = (if is_running (jd_state job) \<or> jd_state job = Job_Draining
                  then job\<lparr>jd_state := Job_Canceled, jd_stopped_at := Some (utc_now ck)\<rparr> else job)
      in job'\<lparr>jd_stages := map (stop_stage ck) (jd_stages job')\<rparr>)"

definition job_scheduler_stop :: "clock \<Rightarrow> job_scheduler \<Rightarrow> job_scheduler" where
  "job_scheduler_stop ck js = js\<lparr>js_jobs := map (\<lambda>(j, job). (j, stop_job ck job)) (js_jobs js)\<rparr>"

section \<open>Task definitions\<close>

definition task_input_key_of ::
  "job_descriptor \<Rightarrow> nat \<Rightarrow> nat \<Rightarrow> nat \<Rightarrow> task_input_key execution_result" where
  "task_input_key_of job s p channel =
     (case get_latest_task_attempt job s p of
        None \<Rightarrow> Inl (InvalidArgument
          ''no latest task attempt found for job {} stage {} partition {}'')
      | Some a \<Rightarrow> Inr \<lparr>ik_partition = p, ik_attempt = a, ik_channel = channel\<rparr>)"

definition task_input_keys ::
  "job_descriptor \<Rightarrow> stage_input \<Rightarrow> stage \<Rightarrow> task_input_key list list execution_result" where
  "task_input_keys job input producer =
     (let parts = [0..<stage_partitions producer];
          chans = [0..<channels (st_distribution producer)];
          key = task_input_key_of job (si_stage input)
      in case si_mode input of
           Shuffle \<Rightarrow> collect_results (\<lambda>c. collect_results (\<lambda>p. key p c) parts) chans
         | Broadcast \<Rightarrow>
             (case collect_results (\<lambda>(p, c). key p c) (List.product parts chans) of
                Inl e \<Rightarrow> Inl e | Inr ks \<Rightarrow> Inr [ks])
         | _ \<Rightarrow> collect_results (\<lambda>p. collect_results (\<lambda>c. key p c) chans) parts)"

definition producer_task_key :: "task_key \<Rightarrow> stage_input \<Rightarrow> task_input_key \<Rightarrow> task_key" where
  "producer_task_key k input ik =
     \<lparr>tk_job_id = tk_job_id k, tk_stage = si_stage input, tk_partition = ik_partition ik,
      tk_attempt = ik_attempt ik\<rparr>"

definition get_task_input ::
  "job_descriptor \<Rightarrow> task_key \<Rightarrow> (task_key \<Rightarrow> task_assignment option) \<Rightarrow> stage_input \<Rightarrow>
   task_input execution_result" where
  "get_task_input job k assignments input =
     (if length (g_stages (jd_graph job)) \<le> si_stage input
      then Inl (InvalidArgument ''job {} input stage {} not found'')
      else let producer = g_stages (jd_graph job) ! si_stage input in
        case task_input_keys job input producer of
          Inl e \<Rightarrow> Inl e
        | Inr keys \<Rightarrow>
            (case st_mode producer of
               Pipelined \<Rightarrow>
                 (case st_placement producer of
                    Placement_Driver \<Rightarrow>
                      if list_all (\<lambda>ik. assignments (producer_task_key k input ik) = Some Assign_Driver)
                           (concat keys)
                      then Inr \<lparr>ti_locator = Input_Driver (si_stage input) keys\<rparr>
                      else Inl (InternalError
                        ''job {} input stage {} partition {} attempt {} is not assigned to driver'')
                  | Placement_Worker \<Rightarrow>
                      (case collect_results (collect_results (\<lambda>ik.
                          case assignments (producer_task_key k input ik) of
                            Some (Assign_Worker w _) \<Rightarrow> Inr (w, ik)
                          | _ \<Rightarrow> Inl (InternalError
                              ''job {} input stage {} partition {} attempt {} is not assigned to worker'')))
                          keys of
                         Inl e \<Rightarrow> Inl e
                       | Inr wkeys \<Rightarrow> Inr \<lparr>ti_locator = Input_Worker (si_stage input) wkeys\<rparr>))
             | Blocking \<Rightarrow> Inl (InternalError ''not implemented'')))"

definition get_task_output :: "codec \<Rightarrow> job_descriptor \<Rightarrow> task_key \<Rightarrow> stage \<Rightarrow> task_output execution_result"
where
  "get_task_output cd job k x =
     (let reps = replicas (jd_graph job) (tk_stage k) in
      case (case st_distribution x of
              Hash es n \<Rightarrow>
                (case collect_results (encode_expr cd) es of
                   Inl e \<Rightarrow> Inl e | Inr bs \<Rightarrow> Inr (Out_Hash bs n))
            | RoundRobin n \<Rightarrow> Inr (Out_RoundRobin n)) of
        Inl e \<Rightarrow> Inl e
      | Inr d \<Rightarrow>
          (case st_mode x of
             Pipelined \<Rightarrow> Inr \<lparr>to_distribution = d, to_locator = Out_Locator_Local reps\<rparr>
           | Blocking \<Rightarrow> Inl (InternalError ''not implemented'')))"

definition get_task_definition ::
  "job_scheduler \<Rightarrow> task_key \<Rightarrow> (task_key \<Rightarrow> task_assignment option) \<Rightarrow>
   (task_definition \<times> task_context) execution_result" where
  "get_task_definition js k assignments =
     (case im_get (js_jobs js) (tk_job_id k) of
        None \<Rightarrow> Inl (InvalidArgument ''job {} not found'')
      | Some job \<Rightarrow>
          (case jd_state job of
             Job_Running ctx \<Rightarrow>
               if length (g_stages (jd_graph job)) \<le> tk_stage k
               then Inl (InvalidArgument ''stage {} not found in job {}'')
               else let x = g_stages (jd_graph job) ! tk_stage k in
                 (case encode_plan (js_codec js) (st_plan x) of
                    Inl e \<Rightarrow> Inl e
                  | Inr plan \<Rightarrow>
                      (case collect_results (get_task_input job k assignments) (st_inputs x) of
                         Inl e \<Rightarrow> Inl e
                       | Inr inputs \<Rightarrow>
                           (case get_task_output (js_codec js) job k x of
                              Inl e \<Rightarrow> Inl e
                            | Inr out \<Rightarrow>
                                Inr (\<lparr>td_plan = plan, td_inputs = inputs, td_output = out\<rparr>, ctx))))
           | _ \<Rightarrow> Inl (InvalidArgument ''job {} is not running'')))"

end
