(* ===== verification/Job_Scheduler_Correct.thy ===== *)
theory Job_Scheduler_Correct
  imports Job_Scheduler
begin

text \<open>
  Correctness of the job scheduler: the order of task states, the shape of a job that every
  operation keeps, the discipline of task attempts (only the last attempt of a task is active,
  the tasks of a region are retried together, no task is tried more often than configured), the
  outcome of a refresh, and the task regions and task definitions the scheduler builds.
\<close>

section \<open>Task states\<close>

instantiation task_state :: order
begin

fun less_eq_task_state :: "task_state \<Rightarrow> task_state \<Rightarrow> bool" where
  "less_eq_task_state Task_Created _ = True"
| "less_eq_task_state Task_Scheduled y = (y \<noteq> Task_Created)"
| "less_eq_task_state Task_Running y = (y \<noteq> Task_Created \<and> y \<noteq> Task_Scheduled)"
| "less_eq_task_state x y = (x = y)"

definition less_task_state :: "task_state \<Rightarrow> task_state \<Rightarrow> bool" where
  "less_task_state x y \<longleftrightarrow> x \<le> y \<and> x \<noteq> y"

instance
proof
  fix x y z :: task_state
  show "x < y \<longleftrightarrow> x \<le> y \<and> \<not> y \<le> x"
    by (cases x; cases y; simp add: less_task_state_def)
  show "x \<le> x" by (cases x; simp)
  show "x \<le> y \<Longrightarrow> y \<le> z \<Longrightarrow> x \<le> z" by (cases x; cases y; cases z; simp)
  show "x \<le> y \<Longrightarrow> y \<le> x \<Longrightarrow> x = y" by (cases x; cases y; simp)
qed

end

lemma consolidate_terminal [simp]: "is_terminal x \<Longrightarrow> consolidate x y = x"
  by (cases x) auto

lemma consolidate_upper: "x \<le> consolidate x y"
  by (cases x; cases y; simp)

lemma consolidate_latest: "y \<le> consolidate x y \<or> is_terminal x"
  by (cases x; cases y; simp)

lemma consolidate_least: "x \<le> z \<Longrightarrow> y \<le> z \<Longrightarrow> consolidate x y \<le> z"
  by (cases x; cases y; cases z; simp)

lemma is_terminal_maximal: "is_terminal x \<Longrightarrow> x \<le> y \<Longrightarrow> y = x"
  by (cases x; cases y; simp)

section \<open>Reading and writing the attempts of a task\<close>

definition shape :: "stage_descriptor list \<Rightarrow> nat list" where
  "shape sds = map (\<lambda>sd. length (sd_tasks sd)) sds"

lemma task_in_range_shape: "shape sds = shape sds' \<Longrightarrow> task_in_range sds s p = task_in_range sds' s p"
  by (auto simp: shape_def task_in_range_def list_eq_iff_nth_eq)

lemma shape_length: "shape sds = shape sds' \<Longrightarrow> length sds = length sds'"
  by (auto simp: shape_def dest: map_eq_imp_length_eq)

lemma shape_set_attempts [simp]: "shape (set_attempts s p as sds) = shape sds"
  by (cases "s < length sds") (auto simp: shape_def set_attempts_def list_eq_iff_nth_eq nth_list_update)

lemma attempts_at_set_attempts [simp]:
  "attempts_at (set_attempts s p as sds) s' p' =
     (if s' = s \<and> p' = p \<and> task_in_range sds s p then as else attempts_at sds s' p')"
  by (cases "s < length sds"; cases "s' = s"; cases "p < length (sd_tasks (sds ! s))"; cases "p' = p")
    (simp_all add: attempts_at_def set_attempts_def task_in_range_def not_less list_update_beyond)

lemma sd_state_set_attempts [simp]: "sd_state (set_attempts s p as sds ! s') = sd_state (sds ! s')"
  by (cases "s < length sds")
    (auto simp: set_attempts_def nth_list_update not_less list_update_beyond)

lemma last_state_alt:
  "last_state sds s p =
     (if attempts_at sds s p = [] then None else Some (at_state (last (attempts_at sds s p))))"
  by (cases "attempts_at sds s p" rule: rev_cases) (auto simp: last_state_def)

text \<open>An update of the attempts of one task, and of a list of tasks.\<close>

definition map_attempts ::
  "(task_attempt list \<Rightarrow> task_attempt list) \<Rightarrow> stage_descriptor list \<Rightarrow> task_topology \<Rightarrow> stage_descriptor list"
where
  "map_attempts f sds t = set_attempts (tt_stage t) (tt_partition t)
     (f (attempts_at sds (tt_stage t) (tt_partition t))) sds"

definition tasks_in_range :: "stage_descriptor list \<Rightarrow> task_topology list \<Rightarrow> bool" where
  "tasks_in_range sds ts = list_all (\<lambda>t. task_in_range sds (tt_stage t) (tt_partition t)) ts"

lemma shape_map_attempts [simp]: "shape (foldl (map_attempts f) sds ts) = shape sds"
  by (induction ts arbitrary: sds) (auto simp: map_attempts_def)

lemma sd_state_map_attempts [simp]: "sd_state (foldl (map_attempts f) sds ts ! s) = sd_state (sds ! s)"
  by (induction ts arbitrary: sds) (auto simp: map_attempts_def)

lemma tasks_in_range_shape: "shape sds = shape sds' \<Longrightarrow> tasks_in_range sds ts = tasks_in_range sds' ts"
  by (simp add: tasks_in_range_def task_in_range_shape [of sds sds'])

abbreviation task_at :: "nat \<Rightarrow> nat \<Rightarrow> task_topology" where
  "task_at s p \<equiv> \<lparr>tt_stage = s, tt_partition = p\<rparr>"

lemma task_at_eta [simp]: "task_at (tt_stage t) (tt_partition t) = t"
  by (cases t) simp

lemma attempts_at_map_attempts:
  "distinct ts \<Longrightarrow> tasks_in_range sds ts \<Longrightarrow>
   attempts_at (foldl (map_attempts f) sds ts) s p =
     (if task_at s p \<in> set ts then f (attempts_at sds s p) else attempts_at sds s p)"
proof (induction ts arbitrary: sds)
  case Nil
  then show ?case by simp
next
  case (Cons t ts)
  have "tasks_in_range (map_attempts f sds t) ts"
    using Cons.prems by (subst tasks_in_range_shape [of _ sds]) (auto simp: map_attempts_def tasks_in_range_def)
  moreover have "task_in_range sds (tt_stage t) (tt_partition t)"
    using Cons.prems by (simp add: tasks_in_range_def)
  ultimately show ?case
    using Cons.prems(1) Cons.IH [of "map_attempts f sds t"]
    by (cases t) (auto simp: map_attempts_def)
qed

lemma attempts_at_map_attempts_idem:
  "(\<And>as. f (f as) = f as) \<Longrightarrow> tasks_in_range sds ts \<Longrightarrow>
   attempts_at (foldl (map_attempts f) sds ts) s p =
     (if task_at s p \<in> set ts then f (attempts_at sds s p) else attempts_at sds s p)"
proof (induction ts arbitrary: sds)
  case Nil
  then show ?case by simp
next
  case (Cons t ts)
  have "tasks_in_range (map_attempts f sds t) ts"
    using Cons.prems by (subst tasks_in_range_shape [of _ sds]) (auto simp: map_attempts_def tasks_in_range_def)
  moreover have "task_in_range sds (tt_stage t) (tt_partition t)"
    using Cons.prems by (simp add: tasks_in_range_def)
  ultimately show ?case
    using Cons.prems(1) Cons.IH [of "map_attempts f sds t"]
    by (cases t) (auto simp: map_attempts_def)
qed

section \<open>The phases of a refresh on the attempts\<close>

lemma push_attempt_alt: "push_attempt ck = map_attempts (\<lambda>as. as @ [new_attempt ck])"
  by (intro ext) (simp add: push_attempt_def map_attempts_def)

lemma cancel_attempt_idem [simp]: "cancel_attempt ck (cancel_attempt ck a) = cancel_attempt ck a"
  by (simp add: cancel_attempt_def)

lemma is_terminal_cancel_attempt [simp]: "is_terminal (at_state (cancel_attempt ck a))"
  by (simp add: cancel_attempt_def)

lemma cancel_attempt_failed [simp]:
  "at_state (cancel_attempt ck a) = Task_Failed \<longleftrightarrow> at_state a = Task_Failed"
  "at_state (cancel_attempt ck a) = Task_Succeeded \<longleftrightarrow> at_state a = Task_Succeeded"
  by (auto simp: cancel_attempt_def)

lemma cancel_attempt_fetched [simp]:
  "at_job_output_fetched (cancel_attempt ck a) = at_job_output_fetched a"
  by (simp add: cancel_attempt_def)

text \<open>
  The phases that walk over tasks update the attempts of a task and append actions that depend
  on the attempts before the update.
\<close>

definition task_step ::
  "(task_attempt list \<Rightarrow> task_attempt list) \<Rightarrow> (task_topology \<Rightarrow> task_attempt list \<Rightarrow> job_action list) \<Rightarrow>
   stage_descriptor list \<times> job_action list \<Rightarrow> task_topology \<Rightarrow> stage_descriptor list \<times> job_action list"
where
  "task_step f A sa t =
     (map_attempts f (fst sa) t,
      snd sa @ A t (attempts_at (fst sa) (tt_stage t) (tt_partition t)))"

lemma fst_task_steps: "fst (foldl (task_step f A) sa ts) = foldl (map_attempts f) (fst sa) ts"
  by (induction ts arbitrary: sa) (auto simp: task_step_def)

lemma snd_task_steps:
  "distinct ts \<Longrightarrow> tasks_in_range (fst sa) ts \<Longrightarrow>
   snd (foldl (task_step f A) sa ts) =
     snd sa @ concat (map (\<lambda>t. A t (attempts_at (fst sa) (tt_stage t) (tt_partition t))) ts)"
proof (induction ts arbitrary: sa)
  case Nil
  then show ?case by simp
next
  case (Cons t ts)
  let ?sb = "task_step f A sa t"
  have r: "tasks_in_range (fst ?sb) ts"
    using Cons.prems by (subst tasks_in_range_shape [of _ "fst sa"])
      (auto simp: task_step_def map_attempts_def tasks_in_range_def)
  have m: "map (\<lambda>t. A t (attempts_at (fst ?sb) (tt_stage t) (tt_partition t))) ts =
      map (\<lambda>t. A t (attempts_at (fst sa) (tt_stage t) (tt_partition t))) ts"
  proof (rule map_cong [OF refl])
    fix u
    assume "u \<in> set ts"
    with Cons.prems(1) have "u \<noteq> t" by auto
    then show "A u (attempts_at (fst ?sb) (tt_stage u) (tt_partition u)) =
        A u (attempts_at (fst sa) (tt_stage u) (tt_partition u))"
      by (cases u; cases t) (auto simp: task_step_def map_attempts_def)
  qed
  have "snd (foldl (task_step f A) sa (t # ts)) = snd ?sb @
      concat (map (\<lambda>t. A t (attempts_at (fst ?sb) (tt_stage t) (tt_partition t))) ts)"
    using Cons.IH [OF _ r] Cons.prems(1) by simp
  then show ?case unfolding m by (simp add: task_step_def [of f A sa t])
qed

lemma cancel_task_attempts_alt:
  "cancel_task_attempts ck j = task_step (map (cancel_attempt ck))
     (\<lambda>t as. map CancelTask (active_attempt_keys j (tt_stage t) (tt_partition t) as))"
  by (intro ext) (auto simp: cancel_task_attempts_def task_step_def map_attempts_def Let_def
      split: prod.splits)

lemma fst_cancel_fold:
  "fst (foldl (cancel_task_attempts ck j) sa ts) = foldl (map_attempts (map (cancel_attempt ck))) (fst sa) ts"
  by (simp add: cancel_task_attempts_alt fst_task_steps)

text \<open>The task's region has a failed task.\<close>

definition task_cascades :: "stage_descriptor list \<Rightarrow> task_region_topology list \<Rightarrow> nat \<Rightarrow> nat \<Rightarrow> bool" where
  "task_cascades sds regions s p =
     list_ex (\<lambda>r. task_at s p \<in> set (rt_tasks r) \<and> region_has_failure sds r) regions"

lemma last_state_cong: "attempts_at sds s p = attempts_at sds' s p \<Longrightarrow> last_state sds s p = last_state sds' s p"
  by (simp add: last_state_alt)

lemma region_has_failure_cancel:
  assumes "\<And>s p. attempts_at sds' s p = attempts_at sds s p \<or>
    attempts_at sds' s p = map (cancel_attempt ck) (attempts_at sds s p)"
  shows "region_has_failure sds' r = region_has_failure sds r"
proof -
  have "last_state sds' s p = Some Task_Failed \<longleftrightarrow> last_state sds s p = Some Task_Failed" for s p
    using assms [of s p] by (auto simp: last_state_alt last_map)
  then show ?thesis by (simp add: region_has_failure_def)
qed

lemma shape_cascade_region [simp]: "shape (fst (cascade_cancel_region ck j sa r)) = shape (fst sa)"
  by (simp add: cascade_cancel_region_def fst_cancel_fold)

lemma shape_cascade [simp]: "shape (fst (foldl (cascade_cancel_region ck j) sa rs)) = shape (fst sa)"
  by (induction rs arbitrary: sa) auto

lemma sd_state_cascade [simp]:
  "sd_state (fst (foldl (cascade_cancel_region ck j) sa rs) ! s) = sd_state (fst sa ! s)"
  by (induction rs arbitrary: sa) (auto simp: cascade_cancel_region_def fst_cancel_fold)

lemma attempts_at_cascade_region:
  "tasks_in_range (fst sa) (rt_tasks r) \<Longrightarrow>
   attempts_at (fst (cascade_cancel_region ck j sa r)) s p =
     (if region_has_failure (fst sa) r \<and> task_at s p \<in> set (rt_tasks r)
      then map (cancel_attempt ck) (attempts_at (fst sa) s p) else attempts_at (fst sa) s p)"
  by (simp add: cascade_cancel_region_def fst_cancel_fold attempts_at_map_attempts_idem)

lemma attempts_at_cascade:
  "list_all (\<lambda>r. tasks_in_range (fst sa) (rt_tasks r)) rs \<Longrightarrow>
   attempts_at (fst (foldl (cascade_cancel_region ck j) sa rs)) s p =
     (if task_cascades (fst sa) rs s p
      then map (cancel_attempt ck) (attempts_at (fst sa) s p) else attempts_at (fst sa) s p)"
proof (induction rs arbitrary: sa)
  case Nil
  then show ?case by (simp add: task_cascades_def)
next
  case (Cons r rs)
  let ?sb = "cascade_cancel_region ck j sa r"
  have "list_all (\<lambda>r. tasks_in_range (fst ?sb) (rt_tasks r)) rs"
    using Cons.prems by (simp add: tasks_in_range_shape [OF shape_cascade_region])
  note IH = Cons.IH [OF this]
  have at: "\<And>s p. attempts_at (fst ?sb) s p = attempts_at (fst sa) s p \<or>
      attempts_at (fst ?sb) s p = map (cancel_attempt ck) (attempts_at (fst sa) s p)"
    using Cons.prems by (auto simp: attempts_at_cascade_region)
  have "task_cascades (fst ?sb) rs s p = task_cascades (fst sa) rs s p"
    by (simp add: task_cascades_def region_has_failure_cancel [OF at])
  then show ?case
    using IH Cons.prems by (auto simp: task_cascades_def attempts_at_cascade_region)
qed


subsection \<open>Extending the job output\<close>

definition fetch_ready :: "task_attempt list \<Rightarrow> bool" where
  "fetch_ready as \<longleftrightarrow> as \<noteq> [] \<and> at_state (last as) \<in> {Task_Running, Task_Succeeded} \<and>
     \<not> at_job_output_fetched (last as)"

definition fetch_last :: "task_attempt list \<Rightarrow> task_attempt list" where
  "fetch_last as = (if fetch_ready as
     then butlast as @ [(last as)\<lparr>at_job_output_fetched := True\<rparr>] else as)"

definition output_actions :: "job_id \<Rightarrow> schema \<Rightarrow> nat \<Rightarrow> task_topology \<Rightarrow> task_attempt list \<Rightarrow> job_action list"
where
  "output_actions j sch chans t as =
     (if fetch_ready as then map (\<lambda>c. ExtendJobOutput j
         \<lparr>sk_job_id = j, sk_stage = tt_stage t, sk_partition = tt_partition t,
          sk_attempt = length as - 1, sk_channel = c\<rparr> sch) [0..<chans] else [])"

definition final_stages :: "job_descriptor \<Rightarrow> (nat \<times> stage) list" where
  "final_stages job = filter (\<lambda>(s, x). jt_consumers (jd_topology job) ! s = [])
     (enumerate 0 (g_stages (jd_graph job)))"

definition final_tasks :: "job_descriptor \<Rightarrow> task_topology list" where
  "final_tasks job = concat (map (\<lambda>(s, x). map (task_at s) [0..<stage_partitions x]) (final_stages job))"

definition stage_channels :: "job_descriptor \<Rightarrow> nat \<Rightarrow> nat" where
  "stage_channels job s = channels (st_distribution (g_stages (jd_graph job) ! s))"

lemma fetch_last_idem [simp]: "fetch_last (fetch_last as) = fetch_last as"
  by (simp add: fetch_last_def fetch_ready_def)

lemma set_attempts_same [simp]: "set_attempts s p (attempts_at sds s p) sds = sds"
proof -
  have "(sd_tasks (sds ! s))[p := \<lparr>td_attempts = attempts_at sds s p\<rparr>] = sd_tasks (sds ! s)"
    unfolding attempts_at_def by (metis list_update_id task_descriptor.surjective unit.exhaust)
  then have "(sds ! s)\<lparr>sd_tasks := (sd_tasks (sds ! s))[p := \<lparr>td_attempts = attempts_at sds s p\<rparr>]\<rparr> = sds ! s"
    by simp
  then show ?thesis by (simp add: set_attempts_def)
qed

lemma set_attempts_Nil: "attempts_at sds s p = [] \<Longrightarrow> set_attempts s p [] sds = sds"
  by (metis set_attempts_same)

lemma extend_task_output_alt:
  "extend_task_output j sch chans s sa p = task_step fetch_last (output_actions j sch chans) sa (task_at s p)"
  by (cases sa) (auto simp: extend_task_output_def task_step_def map_attempts_def Let_def fetch_last_def
      fetch_ready_def output_actions_def set_attempts_Nil)

lemma extend_stages_alt:
  "foldl (extend_stage_output j job) sa (enumerate 0 (g_stages (jd_graph job))) =
   foldl (task_step fetch_last
       (\<lambda>t. output_actions j (g_schema (jd_graph job)) (stage_channels job (tt_stage t)) t)) sa (final_tasks job)"
proof -
  let ?A = "\<lambda>t. output_actions j (g_schema (jd_graph job)) (stage_channels job (tt_stage t)) t"
  let ?f = "\<lambda>sa sx. foldl (task_step fetch_last ?A) sa
      ((\<lambda>(s, x). map (task_at s) [0..<stage_partitions x]) sx)"
  have st: "extend_stage_output j job sa sx =
      (if (\<lambda>(s, x). jt_consumers (jd_topology job) ! s = []) sx then ?f sa sx else sa)"
    if "sx \<in> set (enumerate 0 (g_stages (jd_graph job)))" for sa sx
  proof -
    obtain s x where sx: "sx = (s, x)" by (cases sx)
    have "stage_channels job s = channels (st_distribution x)"
      using that by (auto simp: sx in_set_enumerate_eq stage_channels_def)
    then have "foldl (extend_task_output j (g_schema (jd_graph job)) (channels (st_distribution x)) s) sa ps =
        foldl (task_step fetch_last ?A) sa (map (task_at s) ps)" for ps
      by (simp add: extend_task_output_alt [abs_def] foldl_map_arg [symmetric] task_step_def)
    then show ?thesis by (simp add: extend_stage_output_def sx)
  qed
  show ?thesis
    by (simp add: foldl_cong_set [OF st] foldl_filter foldl_concat final_stages_def final_tasks_def)
qed

subsection \<open>Cleaning up stages and updating regions\<close>

lemma attempts_at_deactivate [simp]:
  "attempts_at (sds[s := (sds ! s)\<lparr>sd_state := x, sd_stopped_at := y\<rparr>]) s' p = attempts_at sds s' p"
  by (cases "s < length sds") (auto simp: attempts_at_def nth_list_update not_less list_update_beyond)

lemma shape_deactivate [simp]: "shape (sds[s := (sds ! s)\<lparr>sd_state := x, sd_stopped_at := y\<rparr>]) = shape sds"
  by (cases "s < length sds") (auto simp: shape_def list_eq_iff_nth_eq nth_list_update)

lemma clean_up_stages_attempts [simp]:
  "attempts_at (fst (foldl (clean_up_stage ck j job) sa scs)) s p = attempts_at (fst sa) s p"
  by (induction scs arbitrary: sa) (auto simp: clean_up_stage_def Let_def split: prod.splits)

lemma clean_up_stages_shape [simp]:
  "shape (fst (foldl (clean_up_stage ck j job) sa scs)) = shape (fst sa)"
  by (induction scs arbitrary: sa) (auto simp: clean_up_stage_def Let_def split: prod.splits)

section \<open>Well-formed jobs\<close>

definition job_wf :: "job_descriptor \<Rightarrow> bool" where
  "job_wf job \<longleftrightarrow>
     job_topology_try_new (jd_graph job) = Some (Inr (jd_topology job)) \<and>
     shape (jd_stages job) = map stage_partitions (g_stages (jd_graph job)) \<and>
     length (jd_regions job) = length (jt_regions (jd_topology job))"

lemma job_wf_task_in_range:
  "job_wf job \<Longrightarrow> task_in_range (jd_stages job) s p \<longleftrightarrow> task_at s p \<in> all_tasks (jd_graph job)"
  by (auto simp: job_wf_def task_in_range_def all_tasks_def shape_def list_eq_iff_nth_eq)

lemma job_wf_region_task:
  "job_wf job \<Longrightarrow> r \<in> set (jt_regions (jd_topology job)) \<Longrightarrow> t \<in> set (rt_tasks r) \<Longrightarrow>
   task_in_range (jd_stages job) (tt_stage t) (tt_partition t)"
  using topology_tasks(2) [of "jd_graph job" "jd_topology job"] job_wf_task_in_range [of job]
  by (cases t) (auto simp: job_wf_def)

lemma job_wf_tasks_in_range:
  "job_wf job \<Longrightarrow> r \<in> set (jt_regions (jd_topology job)) \<Longrightarrow> tasks_in_range (jd_stages job) (rt_tasks r)"
  by (auto simp: tasks_in_range_def list_all_iff intro: job_wf_region_task)

lemma job_wf_region_distinct:
  "job_wf job \<Longrightarrow> distinct (tasks_of_regions (jt_regions (jd_topology job)))"
  using topology_tasks(1) by (auto simp: job_wf_def)

lemma job_wf_region_exists:
  "job_wf job \<Longrightarrow> task_in_range (jd_stages job) s p \<Longrightarrow>
   \<exists>r \<in> set (jt_regions (jd_topology job)). task_at s p \<in> set (rt_tasks r)"
  using topology_tasks(2) [of "jd_graph job" "jd_topology job"] job_wf_task_in_range [of job s p]
  by (auto simp: job_wf_def)

lemma job_wf_frame:
  "job_wf job \<Longrightarrow> jd_graph job' = jd_graph job \<Longrightarrow> jd_topology job' = jd_topology job \<Longrightarrow>
   shape (jd_stages job') = shape (jd_stages job) \<Longrightarrow> length (jd_regions job') = length (jd_regions job) \<Longrightarrow>
   job_wf job'"
  by (simp add: job_wf_def)

lemma final_tasks_in_range: "job_wf job \<Longrightarrow> tasks_in_range (jd_stages job) (final_tasks job)"
  by (auto simp: tasks_in_range_def list_all_iff final_tasks_def final_stages_def job_wf_task_in_range
      all_tasks_def in_set_enumerate_eq)

lemma distinct_enumerate_blocks:
  "distinct (concat (map (\<lambda>(s, x). map (task_at s) (f x)) (filter P (enumerate n xs)))) \<longleftrightarrow>
   (\<forall>(s, x) \<in> set (filter P (enumerate n xs)). distinct (f x))"
proof (induction xs arbitrary: n)
  case Nil
  then show ?case by simp
next
  case (Cons x xs)
  have "distinct (map (task_at n) (f x)) \<longleftrightarrow> distinct (f x)" by (simp add: distinct_map inj_on_def)
  moreover have "set (map (task_at n) (f x)) \<inter>
      set (concat (map (\<lambda>(s, x). map (task_at s) (f x)) (filter P (enumerate (Suc n) xs)))) = {}"
    by (auto simp: in_set_enumerate_eq)
  ultimately show ?case using Cons.IH [of "Suc n"] by auto
qed

lemma distinct_final_tasks: "distinct (final_tasks job)"
  unfolding final_tasks_def final_stages_def by (subst distinct_enumerate_blocks) auto

lemma set_final_tasks:
  "task_at s p \<in> set (final_tasks job) \<longleftrightarrow>
     s < length (g_stages (jd_graph job)) \<and> jt_consumers (jd_topology job) ! s = [] \<and>
     p < stage_partitions (g_stages (jd_graph job) ! s)"
  by (auto simp: final_tasks_def final_stages_def in_set_enumerate_eq)

section \<open>What a refresh does before it decides\<close>

definition settle :: "clock \<Rightarrow> job_scheduler_options \<Rightarrow> job_id \<Rightarrow> job_descriptor \<Rightarrow> job_descriptor \<times> job_action list"
where
  "settle ck opts j job0 =
     (let (job1, a1) = cascade_cancel_task_attempts ck j job0;
          (job2, a2) = extend_job_output j job1;
          (job3, a3) = clean_up_job_by_stage ck j job2
      in (update_task_regions opts job3, a1 @ a2 @ a3))"

lemma refresh_job_in_settle:
  "refresh_job_in ck opts j job =
     (if \<not> is_running (jd_state job) then (job, [])
      else let (job', acts) = settle ck opts j job in
        if Region_Failed \<in> set (jd_regions job') then
          (job'\<lparr>jd_state := Job_Failed, jd_stopped_at := Some (utc_now ck)\<rparr>,
           acts @ [FailJobOutput j (infer_job_failure_cause job')])
        else if list_all (\<lambda>x. x = Region_Succeeded) (jd_regions job') then
          (job'\<lparr>jd_state := Job_Draining\<rparr>, acts)
        else (fst (schedule_task_regions ck j job'), acts @ snd (schedule_task_regions ck j job')))"
  by (simp add: refresh_job_in_def settle_def Let_def split: prod.splits)

definition settled_attempts :: "clock \<Rightarrow> job_descriptor \<Rightarrow> nat \<Rightarrow> nat \<Rightarrow> task_attempt list" where
  "settled_attempts ck job s p =
     (let as = attempts_at (jd_stages job) s p;
          as' = (if task_cascades (jd_stages job) (jt_regions (jd_topology job)) s p
                 then map (cancel_attempt ck) as else as)
      in if task_at s p \<in> set (final_tasks job) then fetch_last as' else as')"

lemma cascade_frame:
  assumes "cascade_cancel_task_attempts ck j job = (job', acts)"
  shows "jd_graph job' = jd_graph job" "jd_topology job' = jd_topology job"
    "jd_regions job' = jd_regions job" "jd_state job' = jd_state job"
    "shape (jd_stages job') = shape (jd_stages job)"
    "jd_stages job' = fst (foldl (cascade_cancel_region ck j) (jd_stages job, []) (jt_regions (jd_topology job)))"
    "acts = snd (foldl (cascade_cancel_region ck j) (jd_stages job, []) (jt_regions (jd_topology job)))"
proof -
  let ?fo = "foldl (cascade_cancel_region ck j) (jd_stages job, []) (jt_regions (jd_topology job))"
  have "job' = job\<lparr>jd_stages := fst ?fo\<rparr> \<and> acts = snd ?fo"
    using assms by (auto simp: cascade_cancel_task_attempts_def split: prod.splits)
  then show "jd_graph job' = jd_graph job" "jd_topology job' = jd_topology job"
    "jd_regions job' = jd_regions job" "jd_state job' = jd_state job"
    "shape (jd_stages job') = shape (jd_stages job)" "jd_stages job' = fst ?fo" "acts = snd ?fo"
    by simp_all
qed

lemma extend_frame:
  assumes "extend_job_output j job = (job', acts)" and "is_running (jd_state job)"
  defines "fo \<equiv> foldl (task_step fetch_last
       (\<lambda>t. output_actions j (g_schema (jd_graph job)) (stage_channels job (tt_stage t)) t))
       (jd_stages job, []) (final_tasks job)"
  shows "jd_graph job' = jd_graph job" "jd_topology job' = jd_topology job"
    "jd_regions job' = jd_regions job" "jd_state job' = jd_state job"
    "shape (jd_stages job') = shape (jd_stages job)" "jd_stages job' = fst fo" "acts = snd fo"
proof -
  have "job' = job\<lparr>jd_stages := fst fo\<rparr> \<and> acts = snd fo"
    using assms(1,2) by (auto simp: extend_job_output_def is_running_def extend_stages_alt fo_def
        split: job_state.splits prod.splits)
  then show "jd_graph job' = jd_graph job" "jd_topology job' = jd_topology job"
    "jd_regions job' = jd_regions job" "jd_state job' = jd_state job"
    "shape (jd_stages job') = shape (jd_stages job)" "jd_stages job' = fst fo" "acts = snd fo"
    by (auto simp: fo_def fst_task_steps)
qed

lemma clean_up_by_stage_frame:
  assumes "clean_up_job_by_stage ck j job = (job', acts)"
  shows "jd_graph job' = jd_graph job" "jd_topology job' = jd_topology job"
    "jd_regions job' = jd_regions job" "jd_state job' = jd_state job"
    "shape (jd_stages job') = shape (jd_stages job)"
    "attempts_at (jd_stages job') s p = attempts_at (jd_stages job) s p"
proof -
  let ?fo = "foldl (clean_up_stage ck j job) (jd_stages job, []) (enumerate 0 (jt_consumers (jd_topology job)))"
  have "job' = job\<lparr>jd_stages := fst ?fo\<rparr>"
    using assms by (auto simp: clean_up_job_by_stage_def split: prod.splits)
  then show "jd_graph job' = jd_graph job" "jd_topology job' = jd_topology job"
    "jd_regions job' = jd_regions job" "jd_state job' = jd_state job"
    "shape (jd_stages job') = shape (jd_stages job)"
    "attempts_at (jd_stages job') s p = attempts_at (jd_stages job) s p"
    by simp_all
qed

lemma settle_spec:
  assumes "settle ck opts j job = (job', acts)" and wf: "job_wf job" and run: "is_running (jd_state job)"
  shows "jd_graph job' = jd_graph job" "jd_topology job' = jd_topology job" "jd_state job' = jd_state job"
    "shape (jd_stages job') = shape (jd_stages job)"
    "attempts_at (jd_stages job') s p = settled_attempts ck job s p"
    "jd_regions job' = map (region_state_of (jo_task_max_attempts opts) (jd_stages job'))
       (jt_regions (jd_topology job))"
proof -
  obtain job1 a1 where 1: "cascade_cancel_task_attempts ck j job = (job1, a1)" by fastforce
  obtain job2 a2 where 2: "extend_job_output j job1 = (job2, a2)" by fastforce
  obtain job3 a3 where 3: "clean_up_job_by_stage ck j job2 = (job3, a3)" by fastforce
  note f1 = cascade_frame [OF 1] and f3 = clean_up_by_stage_frame [OF 3]
  have run1: "is_running (jd_state job1)" by (simp add: f1 run)
  note f2 = extend_frame [OF 2 run1]
  have job': "job' = update_task_regions opts job3"
    using assms(1) by (simp add: settle_def 1 2 3)
  show "jd_graph job' = jd_graph job" "jd_topology job' = jd_topology job" "jd_state job' = jd_state job"
    "shape (jd_stages job') = shape (jd_stages job)"
    "jd_regions job' = map (region_state_of (jo_task_max_attempts opts) (jd_stages job'))
       (jt_regions (jd_topology job))"
    by (simp_all add: job' update_task_regions_def f1(1-5) f2(1-5) f3(1-5))
  have wf1: "job_wf job1" by (rule job_wf_frame [OF wf]) (simp_all add: f1(1-5))
  have ft: "final_tasks job1 = final_tasks job" by (simp add: final_tasks_def final_stages_def f1)
  have "list_all (\<lambda>r. tasks_in_range (jd_stages job) (rt_tasks r)) (jt_regions (jd_topology job))"
    by (auto simp: list_all_iff intro: job_wf_tasks_in_range wf)
  then have at1: "attempts_at (jd_stages job1) s p =
      (if task_cascades (jd_stages job) (jt_regions (jd_topology job)) s p
       then map (cancel_attempt ck) (attempts_at (jd_stages job) s p) else attempts_at (jd_stages job) s p)"
    by (simp add: f1(6) attempts_at_cascade)
  have "attempts_at (jd_stages job2) s p = (if task_at s p \<in> set (final_tasks job1)
      then fetch_last (attempts_at (jd_stages job1) s p) else attempts_at (jd_stages job1) s p)"
    using final_tasks_in_range [OF wf1]
    by (simp add: f2(6) fst_task_steps attempts_at_map_attempts distinct_final_tasks)
  then show "attempts_at (jd_stages job') s p = settled_attempts ck job s p"
    by (simp add: job' update_task_regions_def f3(6) at1 ft settled_attempts_def Let_def)
qed

section \<open>Scheduling regions\<close>

lemma schedule_region_frame [simp]:
  "jd_graph (fst (schedule_region ck j ja rr)) = jd_graph (fst ja)"
  "jd_topology (fst (schedule_region ck j ja rr)) = jd_topology (fst ja)"
  "jd_regions (fst (schedule_region ck j ja rr)) = jd_regions (fst ja)"
  "jd_state (fst (schedule_region ck j ja rr)) = jd_state (fst ja)"
  "shape (jd_stages (fst (schedule_region ck j ja rr))) = shape (jd_stages (fst ja))"
  by (simp_all add: schedule_region_def push_attempt_alt Let_def split: prod.splits)

lemma schedule_regions_frame [simp]:
  "jd_graph (fst (foldl (schedule_region ck j) ja rrs)) = jd_graph (fst ja)"
  "jd_topology (fst (foldl (schedule_region ck j) ja rrs)) = jd_topology (fst ja)"
  "jd_regions (fst (foldl (schedule_region ck j) ja rrs)) = jd_regions (fst ja)"
  "jd_state (fst (foldl (schedule_region ck j) ja rrs)) = jd_state (fst ja)"
  "shape (jd_stages (fst (foldl (schedule_region ck j) ja rrs))) = shape (jd_stages (fst ja))"
  by (induction rrs arbitrary: ja) simp_all

lemma attempts_at_schedule_region:
  assumes "distinct (rt_tasks (snd rr))" and "tasks_in_range (jd_stages (fst ja)) (rt_tasks (snd rr))"
  shows "attempts_at (jd_stages (fst (schedule_region ck j ja rr))) s p =
     (if task_at s p \<in> set (rt_tasks (snd rr)) \<and> region_schedulable (fst ja) rr
      then attempts_at (jd_stages (fst ja)) s p @ [new_attempt ck] else attempts_at (jd_stages (fst ja)) s p)"
  using assms by (auto simp: schedule_region_def push_attempt_alt Let_def attempts_at_map_attempts
      split: prod.splits)

lemma region_schedulable_cong:
  assumes "jd_regions job' = jd_regions job"
    and "\<And>t. t \<in> set (rt_tasks (snd rr)) \<Longrightarrow> attempts_at (jd_stages job') (tt_stage t) (tt_partition t) =
      attempts_at (jd_stages job) (tt_stage t) (tt_partition t)"
  shows "region_schedulable job' rr = region_schedulable job rr"
proof -
  have "list_ex (task_active (jd_stages job')) (rt_tasks (snd rr)) =
      list_ex (task_active (jd_stages job)) (rt_tasks (snd rr))"
    by (rule list_ex_cong [OF refl]) (simp add: task_active_def last_state_cong [OF assms(2)])
  then show ?thesis by (cases rr) (simp add: region_schedulable_def assms(1))
qed

definition scheduled_now :: "job_descriptor \<Rightarrow> (nat \<times> task_region_topology) list \<Rightarrow> nat \<Rightarrow> nat \<Rightarrow> bool" where
  "scheduled_now job rrs s p =
     list_ex (\<lambda>rr. task_at s p \<in> set (rt_tasks (snd rr)) \<and> region_schedulable job rr) rrs"

lemma schedule_regions_spec:
  assumes "distinct (concat (map (\<lambda>rr. rt_tasks (snd rr)) rrs))"
    and "list_all (\<lambda>rr. tasks_in_range (jd_stages (fst ja)) (rt_tasks (snd rr))) rrs"
  shows "attempts_at (jd_stages (fst (foldl (schedule_region ck j) ja rrs))) s p =
     (if scheduled_now (fst ja) rrs s p
      then attempts_at (jd_stages (fst ja)) s p @ [new_attempt ck] else attempts_at (jd_stages (fst ja)) s p)"
  using assms
proof (induction rrs arbitrary: ja)
  case Nil
  then show ?case by (simp add: scheduled_now_def)
next
  case (Cons rr rrs)
  let ?jb = "schedule_region ck j ja rr"
  have at: "attempts_at (jd_stages (fst ?jb)) s p =
     (if task_at s p \<in> set (rt_tasks (snd rr)) \<and> region_schedulable (fst ja) rr
      then attempts_at (jd_stages (fst ja)) s p @ [new_attempt ck] else attempts_at (jd_stages (fst ja)) s p)" for s p
    using Cons.prems by (intro attempts_at_schedule_region) auto
  have other: "region_schedulable (fst ?jb) rr' = region_schedulable (fst ja) rr'"
    if "rr' \<in> set rrs" for rr'
    using that Cons.prems(1) by (intro region_schedulable_cong) (auto simp: at)
  have "list_all (\<lambda>rr. tasks_in_range (jd_stages (fst ?jb)) (rt_tasks (snd rr))) rrs"
    using Cons.prems(2) by (simp add: tasks_in_range_shape [OF schedule_region_frame(5)])
  note IH = Cons.IH [OF _ this]
  have now: "scheduled_now (fst ?jb) rrs s p = scheduled_now (fst ja) rrs s p"
    by (auto simp: scheduled_now_def list_ex_iff other)
  have "task_at s p \<in> set (rt_tasks (snd rr)) \<Longrightarrow> \<not> scheduled_now (fst ja) rrs s p"
    using Cons.prems(1) by (auto simp: scheduled_now_def list_ex_iff)
  then show ?case
    using IH Cons.prems(1) now at by (auto simp: scheduled_now_def)
qed

lemma map_snd_enumerate_tasks [simp]:
  "concat (map (\<lambda>rr. rt_tasks (snd rr)) (enumerate n rs)) = tasks_of_regions rs"
  by (induction rs arbitrary: n) auto

lemma schedule_task_regions_attempts:
  assumes "job_wf job"
  shows "attempts_at (jd_stages (fst (schedule_task_regions ck j job))) s p =
     (if scheduled_now job (enumerate 0 (jt_regions (jd_topology job))) s p
      then attempts_at (jd_stages job) s p @ [new_attempt ck] else attempts_at (jd_stages job) s p)"
proof -
  have "list_all (\<lambda>rr. tasks_in_range (jd_stages job) (rt_tasks (snd rr)))
      (enumerate 0 (jt_regions (jd_topology job)))"
    using job_wf_tasks_in_range [OF assms] by (auto simp: list_all_iff in_set_enumerate_eq)
  then show ?thesis
    using schedule_regions_spec [of "enumerate 0 (jt_regions (jd_topology job))" "(job, [])"]
      job_wf_region_distinct [OF assms]
    by (simp add: schedule_task_regions_def)
qed

lemma schedule_task_regions_frame [simp]:
  "jd_graph (fst (schedule_task_regions ck j job)) = jd_graph job"
  "jd_topology (fst (schedule_task_regions ck j job)) = jd_topology job"
  "jd_regions (fst (schedule_task_regions ck j job)) = jd_regions job"
  "jd_state (fst (schedule_task_regions ck j job)) = jd_state job"
  "shape (jd_stages (fst (schedule_task_regions ck j job))) = shape (jd_stages job)"
  by (simp_all add: schedule_task_regions_def)

section \<open>The discipline of attempts\<close>

text \<open>
  The attempts of a task only grow: an attempt keeps its index, its state only moves forward,
  and the mark that its output was handed to the job output is never taken back.
\<close>

definition attempt_le :: "task_attempt \<Rightarrow> task_attempt \<Rightarrow> bool" where
  "attempt_le a b \<longleftrightarrow> at_state a \<le> at_state b \<and> (at_job_output_fetched a \<longrightarrow> at_job_output_fetched b)"

definition attempts_le :: "task_attempt list \<Rightarrow> task_attempt list \<Rightarrow> bool" where
  "attempts_le as bs \<longleftrightarrow> length as \<le> length bs \<and> (\<forall>i < length as. attempt_le (as ! i) (bs ! i))"

definition stages_le :: "stage_descriptor list \<Rightarrow> stage_descriptor list \<Rightarrow> bool" where
  "stages_le sds sds' \<longleftrightarrow> shape sds = shape sds' \<and>
     (\<forall>s p. task_in_range sds s p \<longrightarrow> attempts_le (attempts_at sds s p) (attempts_at sds' s p))"

lemma attempt_le_refl [simp]: "attempt_le a a"
  by (simp add: attempt_le_def)

lemma attempts_le_refl [simp]: "attempts_le as as"
  by (simp add: attempts_le_def)

lemma attempts_le_trans: "attempts_le as bs \<Longrightarrow> attempts_le bs cs \<Longrightarrow> attempts_le as cs"
  unfolding attempts_le_def attempt_le_def by (meson less_le_trans order_trans)

lemma attempts_le_append [simp]: "attempts_le as (as @ bs)"
  by (simp add: attempts_le_def nth_append)

lemma stages_le_trans: "stages_le x y \<Longrightarrow> stages_le y z \<Longrightarrow> stages_le x z"
  unfolding stages_le_def using attempts_le_trans task_in_range_shape by metis

lemma attempts_le_cancel [simp]: "attempts_le as (map (cancel_attempt ck) as)"
  unfolding attempts_le_def attempt_le_def
proof (intro conjI allI impI)
  fix i
  assume "i < length as"
  then show "at_state (as ! i) \<le> at_state (map (cancel_attempt ck) as ! i)"
    by (cases "at_state (as ! i)") (auto simp: cancel_attempt_def)
qed simp_all

lemma attempts_le_fetch [simp]: "attempts_le as (fetch_last as)"
  by (cases as rule: rev_cases) (auto simp: attempts_le_def attempt_le_def fetch_last_def nth_append)

lemma attempt_le_update [simp]: "attempt_le a (update_attempt ck st m c a)"
  by (simp add: attempt_le_def update_attempt_def Let_def consolidate_upper)

lemma settled_attempts_le: "attempts_le (attempts_at (jd_stages job) s p) (settled_attempts ck job s p)"
  by (auto simp: settled_attempts_def Let_def intro: attempts_le_trans [OF attempts_le_cancel attempts_le_fetch])


definition attempts_inv :: "nat \<Rightarrow> job_descriptor \<Rightarrow> bool" where
  "attempts_inv n job \<longleftrightarrow>
     (\<forall>s p. task_in_range (jd_stages job) s p \<longrightarrow>
        length (attempts_at (jd_stages job) s p) \<le> max 1 n \<and>
        (\<forall>a \<in> set (butlast (attempts_at (jd_stages job) s p)). is_terminal (at_state a))) \<and>
     (\<forall>r \<in> set (jt_regions (jd_topology job)). \<forall>t \<in> set (rt_tasks r). \<forall>u \<in> set (rt_tasks r).
        length (attempts_at (jd_stages job) (tt_stage t) (tt_partition t)) =
        length (attempts_at (jd_stages job) (tt_stage u) (tt_partition u)))"

lemma attempts_inv_frame:
  "jd_stages job' = jd_stages job \<Longrightarrow> jd_topology job' = jd_topology job \<Longrightarrow>
   attempts_inv n job' = attempts_inv n job"
  unfolding attempts_inv_def by (simp only:)

lemma attempts_uniform:
  "attempts_inv n job \<Longrightarrow> r \<in> set (jt_regions (jd_topology job)) \<Longrightarrow> t \<in> set (rt_tasks r) \<Longrightarrow>
   u \<in> set (rt_tasks r) \<Longrightarrow>
   length (attempts_at (jd_stages job) (tt_stage t) (tt_partition t)) =
   length (attempts_at (jd_stages job) (tt_stage u) (tt_partition u))"
  unfolding attempts_inv_def by blast

lemma attempts_le_terminal:
  assumes "attempts_le as bs" and "length bs = length as" and "\<forall>a \<in> set (butlast as). is_terminal (at_state a)"
  shows "\<forall>b \<in> set (butlast bs). is_terminal (at_state b)"
proof
  fix b
  assume "b \<in> set (butlast bs)"
  then obtain i where i: "i < length bs - 1" "b = bs ! i"
    by (auto simp: in_set_conv_nth nth_butlast)
  then have "as ! i \<in> set (butlast as)"
    using assms(2) by (auto simp: in_set_conv_nth nth_butlast intro!: exI [of _ i])
  with assms(3) have "is_terminal (at_state (as ! i))" by blast
  moreover have "at_state (as ! i) \<le> at_state (bs ! i)"
    using assms(1,2) i by (auto simp: attempts_le_def attempt_le_def)
  ultimately show "is_terminal (at_state b)"
    using is_terminal_maximal i(2) by metis
qed

lemma attempts_inv_mono:
  assumes "attempts_inv n job" and "job_wf job" and "jd_topology job' = jd_topology job"
    and "stages_le (jd_stages job) (jd_stages job')"
    and len: "\<And>s p. task_in_range (jd_stages job) s p \<Longrightarrow>
      length (attempts_at (jd_stages job') s p) = length (attempts_at (jd_stages job) s p)"
  shows "attempts_inv n job'"
  unfolding attempts_inv_def
proof (intro conjI allI impI)
  fix s p
  assume "task_in_range (jd_stages job') s p"
  then have r: "task_in_range (jd_stages job) s p"
    using assms(4) task_in_range_shape stages_le_def by metis
  show "length (attempts_at (jd_stages job') s p) \<le> max 1 n"
    using r assms(1) len by (simp add: attempts_inv_def)
  show "\<forall>a \<in> set (butlast (attempts_at (jd_stages job') s p)). is_terminal (at_state a)"
    using attempts_le_terminal [of "attempts_at (jd_stages job) s p"] r assms(1,4) len
    unfolding attempts_inv_def stages_le_def by blast
next
  show "\<forall>r \<in> set (jt_regions (jd_topology job')). \<forall>t \<in> set (rt_tasks r). \<forall>u \<in> set (rt_tasks r).
        length (attempts_at (jd_stages job') (tt_stage t) (tt_partition t)) =
        length (attempts_at (jd_stages job') (tt_stage u) (tt_partition u))"
    using assms(1) len job_wf_region_task [OF assms(2)] unfolding attempts_inv_def assms(3) by metis
qed

lemma length_settled [simp]: "length (settled_attempts ck job s p) = length (attempts_at (jd_stages job) s p)"
  by (cases "attempts_at (jd_stages job) s p" rule: rev_cases)
    (auto simp: settled_attempts_def fetch_last_def fetch_ready_def Let_def)

lemma settle_keeps:
  assumes "settle ck opts j job = (job', acts)" and "job_wf job" and "is_running (jd_state job)"
  shows "job_wf job'" and "stages_le (jd_stages job) (jd_stages job')"
    and "attempts_inv n job \<Longrightarrow> attempts_inv n job'"
proof -
  note sp = settle_spec [OF assms]
  show "job_wf job'"
    using assms(2) by (intro job_wf_frame [OF assms(2)]) (simp_all add: sp job_wf_def)
  show le: "stages_le (jd_stages job) (jd_stages job')"
    by (simp add: stages_le_def sp settled_attempts_le)
  show "attempts_inv n job \<Longrightarrow> attempts_inv n job'"
    by (rule attempts_inv_mono [OF _ assms(2) sp(2) le]) (simp_all add: sp)
qed

lemma region_running_not_exhausted:
  assumes "region_state_of n sds r = Region_Running"
    and "\<not> list_ex (task_active sds) (rt_tasks r)"
  shows "\<exists>u \<in> set (rt_tasks r). length (attempts_at sds (tt_stage u) (tt_partition u)) < max 1 n"
proof -
  from assms(1) obtain u where u: "u \<in> set (rt_tasks r)" "\<not> task_succeeded sds u" "\<not> task_exhausted n sds u"
    by (auto simp: region_state_of_def list_ex_iff list_all_iff split: if_splits)
  show ?thesis
  proof (cases "last_state sds (tt_stage u) (tt_partition u)")
    case None
    with u(1) show ?thesis
      by (intro bexI [of _ u]) (auto simp: last_state_alt split: if_splits)
  next
    case (Some st)
    with u assms(2) have "st \<in> {Task_Failed, Task_Canceled}"
      by (cases st) (auto simp: task_succeeded_def list_ex_iff task_active_def)
    with Some u(3) have "length (attempts_at sds (tt_stage u) (tt_partition u)) < n"
      by (auto simp: task_exhausted_def)
    with u(1) show ?thesis by (intro bexI [of _ u]) auto
  qed
qed

lemma scheduled_now_enumerate:
  "scheduled_now job (enumerate 0 rs) s p \<longleftrightarrow>
     (\<exists>k < length rs. task_at s p \<in> set (rt_tasks (rs ! k)) \<and> region_schedulable job (k, rs ! k))"
  by (force simp: scheduled_now_def list_ex_iff in_set_enumerate_eq)

lemma scheduled_now_region:
  assumes wf: "job_wf job" and "i < length (jt_regions (jd_topology job))"
    and "task_at s p \<in> set (rt_tasks (jt_regions (jd_topology job) ! i))"
  shows "scheduled_now job (enumerate 0 (jt_regions (jd_topology job))) s p \<longleftrightarrow>
     region_schedulable job (i, jt_regions (jd_topology job) ! i)"
  using assms(2,3) distinct_concat_index [OF job_wf_region_distinct [OF wf]]
  unfolding scheduled_now_enumerate by blast

lemma schedule_keeps:
  assumes wf: "job_wf job" and inv: "attempts_inv n job"
    and reg: "jd_regions job = map (region_state_of n (jd_stages job)) (jt_regions (jd_topology job))"
    and nf: "Region_Failed \<notin> set (jd_regions job)"
  shows "attempts_inv n (fst (schedule_task_regions ck j job))"
proof -
  let ?job' = "fst (schedule_task_regions ck j job)" and ?rs = "jt_regions (jd_topology job)"
  note at = schedule_task_regions_attempts [OF wf, of ck j]
  have now: "scheduled_now job (enumerate 0 ?rs) s p \<longleftrightarrow> region_schedulable job (i, ?rs ! i)"
    if "i < length ?rs" "task_at s p \<in> set (rt_tasks (?rs ! i))" for i s p
    by (rule scheduled_now_region [OF wf that])
  show ?thesis
    unfolding attempts_inv_def
  proof (intro conjI allI impI)
    fix s p
    assume "task_in_range (jd_stages ?job') s p"
    then have r: "task_in_range (jd_stages job) s p"
      using task_in_range_shape [OF schedule_task_regions_frame(5)] by simp
    then obtain i where i: "i < length ?rs" "task_at s p \<in> set (rt_tasks (?rs ! i))"
      using job_wf_region_exists [OF wf] by (metis in_set_conv_nth)
    have old: "length (attempts_at (jd_stages job) s p) \<le> max 1 n"
      "\<forall>a \<in> set (butlast (attempts_at (jd_stages job) s p)). is_terminal (at_state a)"
      using inv r by (auto simp: attempts_inv_def)
    have new: "length (attempts_at (jd_stages job) s p) < max 1 n \<and>
        (\<forall>a \<in> set (attempts_at (jd_stages job) s p). is_terminal (at_state a))"
      if "region_schedulable job (i, ?rs ! i)"
    proof -
      have na: "\<not> list_ex (task_active (jd_stages job)) (rt_tasks (?rs ! i))" and "jd_regions job ! i \<noteq> Region_Succeeded"
        using that by (auto simp: region_schedulable_def)
      moreover have "jd_regions job ! i \<noteq> Region_Failed"
        using nf i(1) reg by (metis length_map nth_mem)
      ultimately have "region_state_of n (jd_stages job) (?rs ! i) = Region_Running"
        using i(1) reg by (cases "region_state_of n (jd_stages job) (?rs ! i)") auto
      then obtain u where u: "u \<in> set (rt_tasks (?rs ! i))"
        "length (attempts_at (jd_stages job) (tt_stage u) (tt_partition u)) < max 1 n"
        using region_running_not_exhausted [OF _ na] by blast
      have "length (attempts_at (jd_stages job) s p) =
          length (attempts_at (jd_stages job) (tt_stage u) (tt_partition u))"
        using attempts_uniform [OF inv nth_mem [OF i(1)] i(2) u(1)] by simp
      moreover have "\<forall>a \<in> set (attempts_at (jd_stages job) s p). is_terminal (at_state a)"
        using na i(2) old(2)
        by (cases "attempts_at (jd_stages job) s p" rule: rev_cases)
          (auto simp: list_ex_iff task_active_def last_state_alt Ball_def)
      ultimately show ?thesis using u(2) by simp
    qed
    show "length (attempts_at (jd_stages ?job') s p) \<le> max 1 n"
      using old new by (auto simp: at now [OF i])
    show "\<forall>a \<in> set (butlast (attempts_at (jd_stages ?job') s p)). is_terminal (at_state a)"
      using old new by (auto simp: at now [OF i])
  next
    show "\<forall>r \<in> set (jt_regions (jd_topology ?job')). \<forall>t \<in> set (rt_tasks r). \<forall>u \<in> set (rt_tasks r).
        length (attempts_at (jd_stages ?job') (tt_stage t) (tt_partition t)) =
        length (attempts_at (jd_stages ?job') (tt_stage u) (tt_partition u))"
    proof (intro ballI)
      fix r t u
      assume r: "r \<in> set (jt_regions (jd_topology ?job'))" and t: "t \<in> set (rt_tasks r)" "u \<in> set (rt_tasks r)"
      then obtain i where i: "i < length ?rs" "r = ?rs ! i" by (auto simp: in_set_conv_nth)
      have "length (attempts_at (jd_stages job) (tt_stage t) (tt_partition t)) =
          length (attempts_at (jd_stages job) (tt_stage u) (tt_partition u))"
        by (rule attempts_uniform [OF inv _ t]) (use r in simp)
      then show "length (attempts_at (jd_stages ?job') (tt_stage t) (tt_partition t)) =
          length (attempts_at (jd_stages ?job') (tt_stage u) (tt_partition u))"
        using t i now [OF i(1)] by (simp add: at)
    qed
  qed
qed

section \<open>Every operation keeps the discipline\<close>

definition job_ok :: "nat \<Rightarrow> job_descriptor \<Rightarrow> bool" where
  "job_ok n job \<longleftrightarrow> job_wf job \<and> attempts_inv n job"

text \<open>One operation takes the job from \<open>job\<close> to \<open>job'\<close>: it keeps the invariants and only extends attempts.\<close>

definition job_step_ok :: "nat \<Rightarrow> job_descriptor \<Rightarrow> job_descriptor \<Rightarrow> bool" where
  "job_step_ok n job job' \<longleftrightarrow> job_ok n job' \<and> stages_le (jd_stages job) (jd_stages job') \<and>
     jd_graph job' = jd_graph job"

lemma job_step_okI:
  assumes "job_ok n job" and "jd_graph job' = jd_graph job" "jd_topology job' = jd_topology job"
    "length (jd_regions job') = length (jd_regions job)"
    and le: "stages_le (jd_stages job) (jd_stages job')"
    and "\<And>s p. task_in_range (jd_stages job) s p \<Longrightarrow>
      length (attempts_at (jd_stages job') s p) = length (attempts_at (jd_stages job) s p)"
  shows "job_step_ok n job job'"
proof -
  have "job_wf job" and "attempts_inv n job" using assms(1) by (auto simp: job_ok_def)
  then show ?thesis
    using assms job_wf_frame [of job job'] attempts_inv_mono [of n job job']
    by (simp add: job_step_ok_def job_ok_def stages_le_def)
qed

lemma refresh_job_in_ok:
  assumes ok: "job_ok (jo_task_max_attempts opts) job"
  shows "job_step_ok (jo_task_max_attempts opts) job (fst (refresh_job_in ck opts j job))"
proof (cases "is_running (jd_state job)")
  case False
  then show ?thesis using ok by (simp add: refresh_job_in_settle job_step_ok_def stages_le_def)
next
  case True
  obtain job' acts where st: "settle ck opts j job = (job', acts)" by fastforce
  have wf: "job_wf job" using ok by (simp add: job_ok_def)
  note sp = settle_spec [OF st wf True] and kp = settle_keeps [OF st wf True]
  let ?n = "jo_task_max_attempts opts"
  have ok': "job_step_ok ?n job job'"
    using ok kp sp by (simp add: job_step_ok_def job_ok_def)
  have upd: "job_step_ok ?n job (job'\<lparr>jd_state := x, jd_stopped_at := y\<rparr>)"
    "job_step_ok ?n job (job'\<lparr>jd_state := x\<rparr>)" for x y
    using ok' attempts_inv_frame [of "job'\<lparr>jd_state := x, jd_stopped_at := y\<rparr>" job']
      attempts_inv_frame [of "job'\<lparr>jd_state := x\<rparr>" job']
    by (auto simp: job_step_ok_def job_ok_def job_wf_def)
  have sch: "job_step_ok ?n job (fst (schedule_task_regions ck j job'))"
    if "Region_Failed \<notin> set (jd_regions job')"
  proof -
    have inv': "attempts_inv ?n job'" and wf': "job_wf job'" using ok' by (auto simp: job_step_ok_def job_ok_def)
    have "attempts_inv ?n (fst (schedule_task_regions ck j job'))"
      by (rule schedule_keeps [OF wf' inv' _ that]) (simp add: sp)
    moreover have "job_wf (fst (schedule_task_regions ck j job'))"
      by (rule job_wf_frame [OF wf']) simp_all
    moreover have "stages_le (jd_stages job') (jd_stages (fst (schedule_task_regions ck j job')))"
      by (simp add: stages_le_def schedule_task_regions_attempts [OF wf'])
    ultimately show ?thesis
      using ok' stages_le_trans by (auto simp: job_step_ok_def job_ok_def)
  qed
  show ?thesis
    using True upd sch by (simp add: refresh_job_in_settle st)
qed

lemma update_task_in_ok: "job_ok n job \<Longrightarrow> job_step_ok n job (update_task_in ck k st m c job)"
proof (rule job_step_okI)
  let ?job' = "update_task_in ck k st m c job"
  have at: "attempts_at (jd_stages ?job') s p = (if s = tk_stage k \<and> p = tk_partition k \<and>
      task_in_range (jd_stages job) s p \<and> tk_attempt k < length (attempts_at (jd_stages job) s p)
      then (attempts_at (jd_stages job) s p)
        [tk_attempt k := update_attempt ck st m c (attempts_at (jd_stages job) s p ! tk_attempt k)]
      else attempts_at (jd_stages job) s p)" for s p
    by (auto simp: update_task_in_def Let_def)
  show "stages_le (jd_stages job) (jd_stages ?job')"
    unfolding stages_le_def
    by (auto simp: at attempts_le_def nth_list_update) (simp add: update_task_in_def Let_def)
  show "length (attempts_at (jd_stages ?job') s p) = length (attempts_at (jd_stages job) s p)" for s p
    by (simp add: at)
qed (simp_all add: update_task_in_def Let_def)

lemma attempts_at_map_stages:
  assumes "\<And>sd. sd_tasks (f sd) = map g (sd_tasks sd)" and "task_in_range sds s p"
  shows "attempts_at (map f sds) s p = td_attempts (g (sd_tasks (sds ! s) ! p))"
  using assms(2) by (simp add: attempts_at_def task_in_range_def assms(1))

lemma clean_up_job_in_ok: "job_ok n job \<Longrightarrow> job_step_ok n job (fst (clean_up_job_in ck j job))"
proof (rule job_step_okI)
  let ?job' = "fst (clean_up_job_in ck j job)"
  have at: "attempts_at (jd_stages ?job') s p = attempts_at (jd_stages job) s p"
    if "task_in_range (jd_stages job) s p" for s p
    using that attempts_at_map_stages [of "deactivate_stage ck" id]
    by (simp add: clean_up_job_in_def deactivate_stage_def attempts_at_def)
  moreover have "shape (jd_stages ?job') = shape (jd_stages job)"
    by (simp add: clean_up_job_in_def deactivate_stage_def shape_def)
  ultimately show "stages_le (jd_stages job) (jd_stages ?job')" by (simp add: stages_le_def)
  show "length (attempts_at (jd_stages ?job') s p) = length (attempts_at (jd_stages job) s p)"
    if "task_in_range (jd_stages job) s p" for s p
    by (simp add: at that)
qed (simp_all add: clean_up_job_in_def)

lemma stop_job_ok: "job_ok n job \<Longrightarrow> job_step_ok n job (stop_job ck job)"
proof (rule job_step_okI)
  let ?job' = "stop_job ck job"
  have sd: "jd_stages ?job' = map (stop_stage ck) (jd_stages job)" by (simp add: stop_job_def Let_def)
  have tk: "sd_tasks (stop_stage ck sd) = map (\<lambda>t. \<lparr>td_attempts = map (cancel_attempt ck) (td_attempts t)\<rparr>) (sd_tasks sd)"
    for sd
    by (simp add: stop_stage_def Let_def)
  have at: "attempts_at (jd_stages ?job') s p = map (cancel_attempt ck) (attempts_at (jd_stages job) s p)"
    if "task_in_range (jd_stages job) s p" for s p
    unfolding sd attempts_at_map_stages [OF tk that] by (simp add: attempts_at_def)
  moreover have "shape (jd_stages ?job') = shape (jd_stages job)"
    by (simp add: sd shape_def tk)
  ultimately show "stages_le (jd_stages job) (jd_stages ?job')" by (simp add: stages_le_def)
  show "length (attempts_at (jd_stages ?job') s p) = length (attempts_at (jd_stages job) s p)"
    if "task_in_range (jd_stages job) s p" for s p
    by (simp add: at that)
qed (simp_all add: stop_job_def Let_def)

lemma job_descriptor_try_new_ok:
  assumes "job_descriptor_try_new ck g st = Some (Inr job)"
  shows "job_ok n job"
proof -
  obtain tp where tp: "job_topology_try_new g = Some (Inr tp)"
    using assms by (auto simp: job_descriptor_try_new_def Let_def split: option.splits sum.splits)
  have job: "jd_graph job = g \<and> jd_topology job = tp \<and> length (jd_regions job) = length (jt_regions tp) \<and>
     jd_stages job = map (\<lambda>x. \<lparr>sd_tasks = replicate (stage_partitions x) \<lparr>td_attempts = []\<rparr>,
        sd_state = Stage_Active, sd_created_at = utc_now ck, sd_stopped_at = None\<rparr>) (g_stages g)"
    using assms by (auto simp: job_descriptor_try_new_def Let_def tp)
  then have wf: "job_wf job" by (auto simp: job_wf_def tp shape_def)
  have at: "attempts_at (jd_stages job) s p = []" if "task_in_range (jd_stages job) s p" for s p
    using that job by (auto simp: attempts_at_def task_in_range_def)
  then have "attempts_inv n job"
    using job_wf_region_task [OF wf] by (simp add: attempts_inv_def)
  with wf show ?thesis by (simp add: job_ok_def)
qed

section \<open>The scheduler\<close>

text \<open>The operations the driver calls, and the states a scheduler reaches.\<close>

inductive js_step :: "job_scheduler \<Rightarrow> job_scheduler \<Rightarrow> bool" where
  js_accept: "accept_job ck graph ctx js = Some (res, js', effs) \<Longrightarrow> js_step js js'"
| js_update: "js_step js (update_task ck k st m c js)"
| js_refresh: "js_step js (fst (refresh_job ck j js))"
| js_clean_up: "js_step js (fst (clean_up_job ck j js))"
| js_stop: "js_step js (job_scheduler_stop ck js)"

inductive_cases js_stepE: "js_step js js'"

definition js_inv :: "job_scheduler \<Rightarrow> bool" where
  "js_inv js \<longleftrightarrow> distinct (im_keys (js_jobs js)) \<and> set (im_keys (js_jobs js)) \<subseteq> issued (js_job_id_generator js) \<and>
     (\<forall>job \<in> set (im_values (js_jobs js)). job_ok (jo_task_max_attempts (js_options js)) job)"

definition js_le :: "job_scheduler \<Rightarrow> job_scheduler \<Rightarrow> bool" where
  "js_le js js' \<longleftrightarrow> js_options js' = js_options js \<and>
     (\<forall>j job. im_get (js_jobs js) j = Some job \<longrightarrow>
       (\<exists>job'. im_get (js_jobs js') j = Some job' \<and> jd_graph job' = jd_graph job \<and>
         stages_le (jd_stages job) (jd_stages job')))"

lemma js_inv_new [simp]: "js_inv (job_scheduler_new opts cd)"
  by (simp add: js_inv_def job_scheduler_new_def)

lemma js_inv_get: "js_inv js \<Longrightarrow> im_get (js_jobs js) j = Some job \<Longrightarrow> job_ok (jo_task_max_attempts (js_options js)) job"
  by (auto simp: js_inv_def dest!: map_of_SomeD)

lemma stages_le_refl [simp]: "stages_le sds sds"
  by (simp add: stages_le_def)

text \<open>An operation that rewrites the descriptors in place.\<close>

lemma js_map_jobs:
  assumes "js_inv js" and jobs: "js_jobs js' = map (\<lambda>(j, job). (j, f j job)) (js_jobs js)"
    and "js_options js' = js_options js" "js_job_id_generator js' = js_job_id_generator js"
    and ok: "\<And>j job. job_ok (jo_task_max_attempts (js_options js)) job \<Longrightarrow>
      job_step_ok (jo_task_max_attempts (js_options js)) job (f j job)"
  shows "js_inv js' \<and> js_le js js'"
proof
  have keys: "im_keys (js_jobs js') = im_keys (js_jobs js)"
    by (auto simp: jobs)
  have "job_ok (jo_task_max_attempts (js_options js)) job'" if "job' \<in> set (im_values (js_jobs js'))" for job'
  proof -
    from that obtain j job where "(j, job) \<in> set (js_jobs js)" and job': "job' = f j job"
      by (auto simp: jobs)
    with assms(1) have "job_ok (jo_task_max_attempts (js_options js)) job" by (force simp: js_inv_def)
    with ok [of job j] show ?thesis by (simp add: job' job_step_ok_def)
  qed
  then show "js_inv js'" using assms(1) by (simp add: js_inv_def keys assms(3,4))
  have "im_get (js_jobs js') j = map_option (f j) (im_get (js_jobs js) j)" for j
    unfolding jobs by (rule im_get_map_values)
  then show "js_le js js'"
    using ok js_inv_get [OF assms(1)] by (force simp: js_le_def assms(3) job_step_ok_def)
qed

lemma job_step_ok_refl: "job_ok n job \<Longrightarrow> job_step_ok n job job"
  by (simp add: job_step_ok_def)

lemma js_le_refl: "js_le js js"
  by (simp add: js_le_def)

lemma update_task_keeps: "js_inv js \<Longrightarrow> js_inv (update_task ck k st m c js) \<and> js_le js (update_task ck k st m c js)"
  by (rule js_map_jobs [where f = "\<lambda>j job. if j = tk_job_id k then update_task_in ck k st m c job else job"])
    (auto simp: update_task_def js_inv_def im_modify_in_place update_task_in_ok job_step_ok_refl)

lemma refresh_job_keeps: "js_inv js \<Longrightarrow> js_inv (fst (refresh_job ck j js)) \<and> js_le js (fst (refresh_job ck j js))"
proof (cases "im_get (js_jobs js) j")
  case None
  then show "js_inv js \<Longrightarrow> ?thesis" by (simp add: refresh_job_def js_le_refl)
next
  case (Some job)
  assume inv: "js_inv js"
  let ?f = "\<lambda>job. fst (refresh_job_in ck (js_options js) j job)"
  show ?thesis
  proof (rule js_map_jobs [OF inv, where f = "\<lambda>i job. if i = j then ?f job else job"])
    have "js_jobs (fst (refresh_job ck j js)) = im_insert j (?f job) (js_jobs js)"
      by (simp add: refresh_job_def Some case_prod_unfold Let_def)
    then show "js_jobs (fst (refresh_job ck j js)) =
        map (\<lambda>(i, job). (i, if i = j then ?f job else job)) (js_jobs js)"
      using inv im_insert_in_place [OF _ Some, where f = ?f] by (simp only: js_inv_def)
  qed (auto simp: refresh_job_def Some case_prod_unfold Let_def refresh_job_in_ok job_step_ok_refl)
qed

lemma clean_up_job_keeps: "js_inv js \<Longrightarrow> js_inv (fst (clean_up_job ck j js)) \<and> js_le js (fst (clean_up_job ck j js))"
proof (cases "im_get (js_jobs js) j")
  case None
  then show "js_inv js \<Longrightarrow> ?thesis" by (simp add: clean_up_job_def js_le_refl)
next
  case (Some job)
  assume inv: "js_inv js"
  let ?f = "\<lambda>job. fst (clean_up_job_in ck j job)"
  show ?thesis
  proof (rule js_map_jobs [OF inv, where f = "\<lambda>i job. if i = j then ?f job else job"])
    have "js_jobs (fst (clean_up_job ck j js)) = im_insert j (?f job) (js_jobs js)"
      by (simp add: clean_up_job_def Some case_prod_unfold Let_def)
    then show "js_jobs (fst (clean_up_job ck j js)) =
        map (\<lambda>(i, job). (i, if i = j then ?f job else job)) (js_jobs js)"
      using inv im_insert_in_place [OF _ Some, where f = ?f] by (simp only: js_inv_def)
  qed (auto simp: clean_up_job_def Some case_prod_unfold Let_def clean_up_job_in_ok job_step_ok_refl)
qed

lemma stop_keeps: "js_inv js \<Longrightarrow> js_inv (job_scheduler_stop ck js) \<and> js_le js (job_scheduler_stop ck js)"
  by (rule js_map_jobs [where f = "\<lambda>j. stop_job ck"]) (auto simp: job_scheduler_stop_def stop_job_ok)

lemma js_inv_generator:
  assumes "js_inv js" and "id_generator_next (js_job_id_generator js) = Inr (i, gen)"
  shows "js_inv (js\<lparr>js_job_id_generator := gen\<rparr>)"
  using assms ids.nxt_used [OF assms(2)] by (auto simp: js_inv_def)

lemma accept_job_keeps:
  assumes inv: "js_inv js" and acc: "accept_job ck graph ctx js = Some (res, js', effs)"
  shows "js_inv js' \<and> js_le js js'"
proof (cases "id_generator_next (js_job_id_generator js)")
  case (Inl e)
  with acc inv show ?thesis by (simp add: accept_job_def js_le_refl)
next
  case (Inr x)
  then obtain i gen where n: "id_generator_next (js_job_id_generator js) = Inr (i, gen)" by (cases x) auto
  let ?js1 = "js\<lparr>js_job_id_generator := gen\<rparr>"
  from acc n consider "js' = ?js1"
    | g job where "job_descriptor_try_new ck g (Job_Running ctx) = Some (Inr job)"
      "js' = ?js1\<lparr>js_jobs := im_insert i job (js_jobs js)\<rparr>"
    by (auto simp: accept_job_def Let_def split: sum.splits option.splits)
  then show ?thesis
  proof cases
    case 1
    then show ?thesis using js_inv_generator [OF inv n] js_le_refl [of js] by (simp add: js_le_def)
  next
    case 2
    have sub: "set (im_keys (js_jobs js)) \<subseteq> issued (js_job_id_generator js)"
      and d: "distinct (im_keys (js_jobs js))" using inv by (auto simp: js_inv_def)
    note fr = ids.insert_fresh [OF sub n, of job]
    have "i \<notin> set (im_keys (js_jobs js))" using sub ids.nxt_fresh [OF n] by blast
    then have "im_get (js_jobs js) i = None" by (simp add: map_of_eq_None_iff)
    then have "js_le js js'" by (auto simp: js_le_def 2(2))
    moreover have "js_inv js'"
      using inv ids.insert_keys_used [OF sub n, of job] ids.insert_keys_distinct [OF sub n d, of job]
        job_descriptor_try_new_ok [OF 2(1)]
      by (auto simp: js_inv_def 2(2) fr)
    ultimately show ?thesis by simp
  qed
qed

lemma js_le_trans:
  assumes "js_le s t" and "js_le t u"
  shows "js_le s u"
  unfolding js_le_def
proof (intro conjI allI impI)
  show "js_options u = js_options s" using assms by (simp add: js_le_def)
  fix j job
  assume "im_get (js_jobs s) j = Some job"
  then obtain job' where 1: "im_get (js_jobs t) j = Some job'" "jd_graph job' = jd_graph job"
    "stages_le (jd_stages job) (jd_stages job')"
    using assms(1) unfolding js_le_def by blast
  then obtain job'' where 2: "im_get (js_jobs u) j = Some job''" "jd_graph job'' = jd_graph job'"
    "stages_le (jd_stages job') (jd_stages job'')"
    using assms(2) unfolding js_le_def by blast
  show "\<exists>job'. im_get (js_jobs u) j = Some job' \<and> jd_graph job' = jd_graph job \<and>
      stages_le (jd_stages job) (jd_stages job')"
    using 1(2) 2(1,2) stages_le_trans [OF 1(3) 2(3)] by (intro exI [of _ job'']) simp
qed

lemma js_step_keeps: "js_step s t \<Longrightarrow> js_inv s \<Longrightarrow> js_inv t \<and> js_le s t"
proof (induction rule: js_step.induct)
  case js_accept
  then show ?case using accept_job_keeps [OF js_accept(2,1)] by simp
qed (simp_all add: update_task_keeps refresh_job_keeps clean_up_job_keeps stop_keeps)

interpretation jobs: step_monotone js_step js_inv js_le
proof
  fix s t u :: job_scheduler
  show "js_inv s \<Longrightarrow> js_step s t \<Longrightarrow> js_inv t" and "js_inv s \<Longrightarrow> js_step s t \<Longrightarrow> js_le s t"
    using js_step_keeps by auto
  show "js_le s s" by (rule js_le_refl)
  show "js_le s t \<Longrightarrow> js_le t u \<Longrightarrow> js_le s u"
    by (rule js_le_trans)
qed

end
