(* ===== verification/Job_Refresh.thy ===== *)
theory Job_Refresh
  imports Job_Scheduler_Correct
begin

text \<open>
  What \<open>refresh_job\<close> decides and which actions it hands to the driver: the outcome of a
  refresh, the cancellations, the extensions of the job output, and the regions it schedules.
  The example job of the witnesses is a two-stage job: two worker tasks whose outputs a third
  task on the driver merges.
\<close>

section \<open>The actions of the phases\<close>

lemma in_active_attempt_keys:
  "k \<in> set (active_attempt_keys j s p as) \<longleftrightarrow>
     tk_job_id k = j \<and> tk_stage k = s \<and> tk_partition k = p \<and> tk_attempt k < length as \<and>
     \<not> is_terminal (at_state (as ! tk_attempt k))"
  by (cases k) (auto simp: active_attempt_keys_def in_set_enumerate_eq image_iff Bex_def)

definition cancel_actions :: "job_id \<Rightarrow> stage_descriptor list \<Rightarrow> task_region_topology \<Rightarrow> job_action list" where
  "cancel_actions j sds r = (if region_has_failure sds r
     then concat (map (\<lambda>t. map CancelTask (active_attempt_keys j (tt_stage t) (tt_partition t)
            (attempts_at sds (tt_stage t) (tt_partition t)))) (rt_tasks r)) else [])"

lemma snd_cascade_region:
  assumes "distinct (rt_tasks r)" and "tasks_in_range (fst sa) (rt_tasks r)"
  shows "snd (cascade_cancel_region ck j sa r) = snd sa @ cancel_actions j (fst sa) r"
  using assms by (simp add: cascade_cancel_region_def cancel_task_attempts_alt snd_task_steps cancel_actions_def)

lemma snd_cascade:
  assumes "distinct (tasks_of_regions rs)" and "list_all (\<lambda>r. tasks_in_range (fst sa) (rt_tasks r)) rs"
  shows "snd (foldl (cascade_cancel_region ck j) sa rs) = snd sa @ concat (map (cancel_actions j (fst sa)) rs)"
  using assms
proof (induction rs arbitrary: sa)
  case Nil
  then show ?case by simp
next
  case (Cons r rs)
  let ?sb = "cascade_cancel_region ck j sa r"
  have at: "attempts_at (fst ?sb) s p = (if region_has_failure (fst sa) r \<and> task_at s p \<in> set (rt_tasks r)
      then map (cancel_attempt ck) (attempts_at (fst sa) s p) else attempts_at (fst sa) s p)" for s p
    using Cons.prems(2) by (intro attempts_at_cascade_region) simp
  have in_range: "list_all (\<lambda>r. tasks_in_range (fst ?sb) (rt_tasks r)) rs"
    using Cons.prems(2) by (simp add: tasks_in_range_shape [OF shape_cascade_region])
  have fail: "region_has_failure (fst ?sb) q = region_has_failure (fst sa) q" for q
    by (rule region_has_failure_cancel [of _ _ ck]) (simp add: at)
  have "cancel_actions j (fst ?sb) q = cancel_actions j (fst sa) q" if "q \<in> set rs" for q
  proof -
    have "t \<notin> set (rt_tasks r)" if "t \<in> set (rt_tasks q)" for t
      using Cons.prems(1) that \<open>q \<in> set rs\<close> by auto
    then have "map (\<lambda>t. map CancelTask (active_attempt_keys j (tt_stage t) (tt_partition t)
            (attempts_at (fst ?sb) (tt_stage t) (tt_partition t)))) (rt_tasks q) =
        map (\<lambda>t. map CancelTask (active_attempt_keys j (tt_stage t) (tt_partition t)
            (attempts_at (fst sa) (tt_stage t) (tt_partition t)))) (rt_tasks q)"
      by (intro map_cong) (simp_all add: at)
    then show ?thesis by (simp only: cancel_actions_def fail)
  qed
  then have m: "map (cancel_actions j (fst ?sb)) rs = map (cancel_actions j (fst sa)) rs" by simp
  have s: "snd ?sb = snd sa @ cancel_actions j (fst sa) r"
    using Cons.prems by (intro snd_cascade_region) auto
  have "snd (foldl (cascade_cancel_region ck j) sa (r # rs)) =
      snd ?sb @ concat (map (cancel_actions j (fst ?sb)) rs)"
    using Cons.IH [OF _ in_range] Cons.prems(1) by simp
  then show ?case unfolding m s by simp
qed

lemma clean_up_actions:
  "set (snd (foldl (clean_up_stage ck j job) sa scs)) \<subseteq> set (snd sa) \<union> range (\<lambda>s. CleanUpStreams j (Some s))"
  by (induction scs arbitrary: sa) (fastforce simp: clean_up_stage_def Let_def split: prod.splits if_splits)+

text \<open>The attempts after the cascade of cancellations.\<close>

definition cascaded_attempts :: "clock \<Rightarrow> job_descriptor \<Rightarrow> nat \<Rightarrow> nat \<Rightarrow> task_attempt list" where
  "cascaded_attempts ck job s p =
     (let as = attempts_at (jd_stages job) s p in
      if task_cascades (jd_stages job) (jt_regions (jd_topology job)) s p
      then map (cancel_attempt ck) as else as)"

lemma settled_cascaded:
  "settled_attempts ck job s p =
     (if task_at s p \<in> set (final_tasks job) then fetch_last (cascaded_attempts ck job s p)
      else cascaded_attempts ck job s p)"
  by (simp add: settled_attempts_def cascaded_attempts_def Let_def)

lemma settle_actions:
  assumes "settle ck opts j job = (job', acts)" and wf: "job_wf job" and run: "is_running (jd_state job)"
  obtains cl where "acts =
      concat (map (cancel_actions j (jd_stages job)) (jt_regions (jd_topology job))) @
      concat (map (\<lambda>t. output_actions j (g_schema (jd_graph job)) (stage_channels job (tt_stage t)) t
        (cascaded_attempts ck job (tt_stage t) (tt_partition t))) (final_tasks job)) @ cl"
    and "set cl \<subseteq> range (\<lambda>s. CleanUpStreams j (Some s))"
proof -
  obtain job1 a1 where 1: "cascade_cancel_task_attempts ck j job = (job1, a1)" by fastforce
  obtain job2 a2 where 2: "extend_job_output j job1 = (job2, a2)" by fastforce
  obtain job3 a3 where 3: "clean_up_job_by_stage ck j job2 = (job3, a3)" by fastforce
  note f1 = cascade_frame [OF 1]
  have run1: "is_running (jd_state job1)" by (simp add: f1 run)
  note f2 = extend_frame [OF 2 run1]
  have wf1: "job_wf job1" by (rule job_wf_frame [OF wf]) (simp_all add: f1(1-5))
  have eqs: "final_tasks job1 = final_tasks job" "stage_channels job1 = stage_channels job"
    by (auto simp: final_tasks_def final_stages_def stage_channels_def f1)
  have in_range: "list_all (\<lambda>r. tasks_in_range (jd_stages job) (rt_tasks r)) (jt_regions (jd_topology job))"
    by (auto simp: list_all_iff intro: job_wf_tasks_in_range wf)
  have at1: "attempts_at (jd_stages job1) s p = cascaded_attempts ck job s p" for s p
    using in_range by (simp add: f1(6) attempts_at_cascade cascaded_attempts_def)
  have a1: "a1 = concat (map (cancel_actions j (jd_stages job)) (jt_regions (jd_topology job)))"
    using snd_cascade [OF job_wf_region_distinct [OF wf], of "(jd_stages job, [])"] in_range
    by (simp add: f1(7))
  have a2: "a2 = concat (map (\<lambda>t. output_actions j (g_schema (jd_graph job)) (stage_channels job (tt_stage t)) t
        (cascaded_attempts ck job (tt_stage t) (tt_partition t))) (final_tasks job))"
    using snd_task_steps [OF distinct_final_tasks, of "(jd_stages job1, [])"] final_tasks_in_range [OF wf1]
    by (simp add: f2(7) at1 eqs f1(1))
  have "set a3 \<subseteq> range (\<lambda>s. CleanUpStreams j (Some s))"
    using 3 clean_up_actions [of ck j job2 "(jd_stages job2, [])" "enumerate 0 (jt_consumers (jd_topology job2))"]
    by (auto simp: clean_up_job_by_stage_def split: prod.splits)
  moreover have "acts = a1 @ a2 @ a3" using assms(1) by (simp add: settle_def 1 2 3)
  ultimately show ?thesis using that [of a3] by (simp add: a1 a2)
qed

lemma fetch_last_nth:
  "i < length as \<Longrightarrow> at_state (fetch_last as ! i) = at_state (as ! i)"
  by (cases as rule: rev_cases) (auto simp: fetch_last_def nth_append)

lemma length_fetch_last [simp]: "length (fetch_last as) = length as"
  by (cases as rule: rev_cases) (auto simp: fetch_last_def fetch_ready_def)

lemma length_cascaded [simp]: "length (cascaded_attempts ck job s p) = length (attempts_at (jd_stages job) s p)"
  by (simp add: cascaded_attempts_def Let_def)

lemma schedule_actions:
  "set (snd (foldl (schedule_region ck j) ja rrs)) \<subseteq> set (snd ja) \<union> range ScheduleTaskRegion"
proof (induction rrs arbitrary: ja)
  case (Cons rr rrs)
  have "set (snd (schedule_region ck j ja rr)) \<subseteq> set (snd ja) \<union> range ScheduleTaskRegion"
    by (auto simp: schedule_region_def Let_def split: prod.splits)
  with Cons [of "schedule_region ck j ja rr"] show ?case by auto
qed simp

lemma schedule_task_regions_actions:
  "set (snd (schedule_task_regions ck j job)) \<subseteq> range ScheduleTaskRegion"
  using schedule_actions [of ck j "(job, [])"] by (simp add: schedule_task_regions_def)

text \<open>The shape of a refresh of a running job of a reachable scheduler.\<close>

lemma refresh_job_cases:
  assumes "js_inv js" and "im_get (js_jobs js) j = Some job" and run: "is_running (jd_state job)"
    and "refresh_job ck j js = (js', acts)"
  obtains (refresh) job' st acts0 acts1 where
    "settle ck (js_options js) j job = (st, acts0)" "job_wf job" "job_wf st"
    "attempts_inv (jo_task_max_attempts (js_options js)) st"
    "im_get (js_jobs js') j = Some job'" "acts = acts0 @ acts1"
    "(Region_Failed \<in> set (jd_regions st) \<and> jd_stages job' = jd_stages st \<and> jd_state job' = Job_Failed \<and>
        acts1 = [FailJobOutput j (infer_job_failure_cause st)]) \<or>
     (Region_Failed \<notin> set (jd_regions st) \<and> (\<forall>x \<in> set (jd_regions st). x = Region_Succeeded) \<and>
        jd_stages job' = jd_stages st \<and> jd_state job' = Job_Draining \<and> acts1 = []) \<or>
     (Region_Failed \<notin> set (jd_regions st) \<and> \<not> (\<forall>x \<in> set (jd_regions st). x = Region_Succeeded) \<and>
        job' = fst (schedule_task_regions ck j st) \<and> acts1 = snd (schedule_task_regions ck j st))"
    "jd_topology job' = jd_topology job" "jd_graph job' = jd_graph job" "jd_regions job' = jd_regions st"
proof -
  obtain st acts0 where st: "settle ck (js_options js) j job = (st, acts0)" by fastforce
  have ok: "job_ok (jo_task_max_attempts (js_options js)) job" by (rule js_inv_get [OF assms(1,2)])
  then have wf: "job_wf job" by (simp add: job_ok_def)
  note sp = settle_spec [OF st wf run] and kp = settle_keeps [OF st wf run]
  let ?job' = "fst (refresh_job_in ck (js_options js) j job)"
  have "im_get (js_jobs js') j = Some ?job'" and acts: "acts = snd (refresh_job_in ck (js_options js) j job)"
    using assms(2,4) by (auto simp: refresh_job_def case_prod_unfold Let_def)
  then show ?thesis
    using ok kp run sp(1,2)
    by (intro refresh [OF st wf, of ?job' "drop (length acts0) acts"])
      (auto simp: refresh_job_in_settle st job_ok_def list_all_iff)
qed

lemma ex_task: "(\<exists>t. P t) \<longleftrightarrow> (\<exists>s p. P (task_at s p))"
  by (metis task_at_eta)

lemma all_task: "(\<forall>t. P t) \<longleftrightarrow> (\<forall>s p. P (task_at s p))"
  by (metis task_at_eta)

lemma in_region_iff:
  assumes "job_wf job"
  shows "(\<exists>r \<in> set (jt_regions (jd_topology job)). t \<in> set (rt_tasks r)) \<longleftrightarrow>
    task_in_range (jd_stages job) (tt_stage t) (tt_partition t)"
  using job_wf_region_exists [OF assms, of "tt_stage t" "tt_partition t"] job_wf_region_task [OF assms]
  by auto

lemma region_failed_iff:
  assumes "job_wf job" and "jd_regions job = map (region_state_of n (jd_stages job)) (jt_regions (jd_topology job))"
  shows "Region_Failed \<in> set (jd_regions job) \<longleftrightarrow>
    (\<exists>s p. task_in_range (jd_stages job) s p \<and> task_exhausted n (jd_stages job) (task_at s p))"
proof -
  have "Region_Failed \<in> set (jd_regions job) \<longleftrightarrow>
      (\<exists>r \<in> set (jt_regions (jd_topology job)). \<exists>t \<in> set (rt_tasks r). task_exhausted n (jd_stages job) t)"
    by (force simp: assms(2) region_state_of_def list_ex_iff split: if_splits)
  also have "\<dots> \<longleftrightarrow> (\<exists>t. task_in_range (jd_stages job) (tt_stage t) (tt_partition t) \<and>
      task_exhausted n (jd_stages job) t)"
    using in_region_iff [OF assms(1)] by blast
  also have "\<dots> \<longleftrightarrow> (\<exists>s p. task_in_range (jd_stages job) s p \<and> task_exhausted n (jd_stages job) (task_at s p))"
    by (subst ex_task) simp
  finally show ?thesis .
qed

lemma region_succeeded_iff:
  assumes "job_wf job" and "jd_regions job = map (region_state_of n (jd_stages job)) (jt_regions (jd_topology job))"
  shows "(\<forall>x \<in> set (jd_regions job). x = Region_Succeeded) \<longleftrightarrow>
    (\<forall>s p. task_in_range (jd_stages job) s p \<longrightarrow> task_succeeded (jd_stages job) (task_at s p))"
proof -
  have ex: "\<not> task_exhausted n (jd_stages job) t" if "task_succeeded (jd_stages job) t" for t
    using that by (auto simp: task_exhausted_def task_succeeded_def)
  have "region_state_of n (jd_stages job) r = Region_Succeeded \<longleftrightarrow>
      (\<forall>t \<in> set (rt_tasks r). task_succeeded (jd_stages job) t)" for r
    using ex by (auto simp: region_state_of_def list_ex_iff list_all_iff)
  then have "(\<forall>x \<in> set (jd_regions job). x = Region_Succeeded) \<longleftrightarrow>
      (\<forall>r \<in> set (jt_regions (jd_topology job)). \<forall>t \<in> set (rt_tasks r). task_succeeded (jd_stages job) t)"
    by (simp add: assms(2))
  also have "\<dots> \<longleftrightarrow> (\<forall>t. task_in_range (jd_stages job) (tt_stage t) (tt_partition t) \<longrightarrow>
      task_succeeded (jd_stages job) t)"
    using in_region_iff [OF assms(1)] by blast
  also have "\<dots> \<longleftrightarrow> (\<forall>s p. task_in_range (jd_stages job) s p \<longrightarrow> task_succeeded (jd_stages job) (task_at s p))"
    by (subst all_task) simp
  finally show ?thesis .
qed

text \<open>Scheduling gives a task a fresh attempt or leaves it alone.\<close>

lemma scheduled_last_state:
  assumes "job_wf job"
  shows "last_state (jd_stages (fst (schedule_task_regions ck j job))) s p =
     (if scheduled_now job (enumerate 0 (jt_regions (jd_topology job))) s p then Some Task_Created
      else last_state (jd_stages job) s p)"
  by (simp add: last_state_alt schedule_task_regions_attempts [OF assms] new_attempt_def)

lemma schedule_not_exhausted:
  assumes "job_wf job"
  shows "task_exhausted n (jd_stages (fst (schedule_task_regions ck j job))) t \<Longrightarrow>
      task_exhausted n (jd_stages job) t"
    and "task_succeeded (jd_stages (fst (schedule_task_regions ck j job))) t \<Longrightarrow>
      task_succeeded (jd_stages job) t"
  using scheduled_last_state [OF assms, of ck j] schedule_task_regions_attempts [OF assms, of ck j]
  by (auto simp: task_exhausted_def task_succeeded_def split: if_splits option.splits)

section \<open>Properties\<close>

subsection \<open>The example of the witnesses\<close>

definition example_clock :: clock where
  "example_clock = \<lparr>instant_now = 10, utc_now = 100\<rparr>"

definition example_options :: job_scheduler_options where
  "example_options = \<lparr>jo_task_launch_timeout = 5, jo_task_max_attempts = 2\<rparr>"

definition example_codec :: codec where
  "example_codec = \<lparr>encode_plan = (\<lambda>p. Inr [plan_id p]), encode_expr = (\<lambda>e. Inr [e])\<rparr>"

definition example_new :: job_scheduler where
  "example_new = job_scheduler_new example_options example_codec"

text \<open>The job is accepted, and refreshed once: every task has its first attempt.\<close>

definition example_accepted :: job_scheduler where
  "example_accepted = (case accept_job example_clock (Inr example_graph) 0 example_new of
     Some (_, js, _) \<Rightarrow> js | None \<Rightarrow> example_new)"

definition example_started :: job_scheduler where
  "example_started = fst (refresh_job example_clock 1 example_accepted)"

definition example_key :: "nat \<Rightarrow> nat \<Rightarrow> nat \<Rightarrow> task_key" where
  "example_key s p a = \<lparr>tk_job_id = 1, tk_stage = s, tk_partition = p, tk_attempt = a\<rparr>"

text \<open>Worker task 0 fails while the others run; the job is refreshed again.\<close>

definition example_failed :: job_scheduler where
  "example_failed =
     update_task example_clock (example_key 0 0 0) Task_Failed (Some ''lost'') None
     (update_task example_clock (example_key 1 0 0) Task_Running None None
     (update_task example_clock (example_key 0 1 0) Task_Running None None example_started))"

definition example_retried :: job_scheduler where
  "example_retried = fst (refresh_job example_clock 1 example_failed)"

lemma example_steps:
  "js_step\<^sup>*\<^sup>* example_new example_accepted"
  "js_step\<^sup>*\<^sup>* example_new example_started"
  "js_step\<^sup>*\<^sup>* example_started example_failed"
  "js_step\<^sup>*\<^sup>* example_new example_failed"
  "js_step\<^sup>*\<^sup>* example_failed example_retried"
  "js_step\<^sup>*\<^sup>* example_new example_retried"
proof -
  have "accept_job example_clock (Inr example_graph) 0 example_new \<noteq> None" by code_simp
  then obtain r js e where "accept_job example_clock (Inr example_graph) 0 example_new = Some (r, js, e)"
    by (metis not_None_eq prod_cases3)
  then have "js_step example_new example_accepted"
    by (auto simp: example_accepted_def intro: js_accept)
  then show 1: "js_step\<^sup>*\<^sup>* example_new example_accepted" by blast
  have "js_step example_accepted example_started" unfolding example_started_def by (rule js_refresh)
  with 1 show 2: "js_step\<^sup>*\<^sup>* example_new example_started" by (rule rtranclp.rtrancl_into_rtrancl)
  show 3: "js_step\<^sup>*\<^sup>* example_started example_failed"
    unfolding example_failed_def by (blast intro: js_update rtranclp.rtrancl_into_rtrancl)
  with 2 show 4: "js_step\<^sup>*\<^sup>* example_new example_failed" by (rule rtranclp_trans)
  show 5: "js_step\<^sup>*\<^sup>* example_failed example_retried"
    unfolding example_retried_def by (blast intro: js_refresh)
  with 4 show "js_step\<^sup>*\<^sup>* example_new example_retried" by (rule rtranclp_trans)
qed

lemma example_states:
  "map (\<lambda>(s, p, a). get_task_state example_retried (example_key s p a))
     [(0, 0, 0), (0, 1, 0), (1, 0, 0), (0, 0, 1), (0, 1, 1), (1, 0, 1)] =
   [Some Task_Failed, Some Task_Canceled, Some Task_Canceled,
    Some Task_Created, Some Task_Created, Some Task_Created]"
  by code_simp

lemma stages_le_range: "stages_le sds sds' \<Longrightarrow> task_in_range sds' s p = task_in_range sds s p"
  unfolding stages_le_def by (metis task_in_range_shape)

lemma stages_le_attempts:
  "stages_le sds sds' \<Longrightarrow> task_in_range sds s p \<Longrightarrow> attempts_le (attempts_at sds s p) (attempts_at sds' s p)"
  by (simp add: stages_le_def)

lemma js_leE:
  assumes "js_le js js'" and "im_get (js_jobs js) j = Some job"
  obtains job' where "im_get (js_jobs js') j = Some job'" "jd_graph job' = jd_graph job"
    "stages_le (jd_stages job) (jd_stages job')"
  using assms unfolding js_le_def by blast

lemma js_reachable_inv: "js_step\<^sup>*\<^sup>* (job_scheduler_new opts cd) js \<Longrightarrow> js_inv js \<and> js_options js = opts"
  using jobs.run_inv [of "job_scheduler_new opts cd" js] jobs.run_le [of "job_scheduler_new opts cd" js]
  by (simp add: js_le_def) (simp add: job_scheduler_new_def)

subsection \<open>Attempts\<close>

text \<open>
  C1. However the driver interleaves accepting jobs, task updates, refreshes, clean-ups and a
  stop, no task of a job has more attempts than the configured maximum (and always one), and
  only its latest attempt can still be active.
\<close>

theorem task_attempts_bounded:
  assumes "js_step\<^sup>*\<^sup>* (job_scheduler_new opts cd) js" and "im_get (js_jobs js) j = Some job"
    and "task_in_range (jd_stages job) s p"
  shows "length (attempts_at (jd_stages job) s p) \<le> max 1 (jo_task_max_attempts opts) \<and>
    (\<forall>a \<in> set (butlast (attempts_at (jd_stages job) s p)). is_terminal (at_state a))"
proof -
  have "js_inv js" and "js_options js = opts" using js_reachable_inv [OF assms(1)] by auto
  with js_inv_get [OF _ assms(2)] have "attempts_inv (jo_task_max_attempts opts) job"
    by (simp add: job_ok_def)
  with assms(3) show ?thesis by (simp add: attempts_inv_def)
qed

lemma example_retried_job: "im_get (js_jobs example_retried) 1 = Some (the (im_get (js_jobs example_retried) 1))"
  by code_simp

theorem task_attempts_bounded_witness:
  "length (attempts_at (jd_stages (the (im_get (js_jobs example_retried) 1))) 0 1) \<le> max 1 2"
proof -
  have r: "task_in_range (jd_stages (the (im_get (js_jobs example_retried) 1))) 0 1" by code_simp
  show ?thesis
    using task_attempts_bounded [OF example_steps(6) [unfolded example_new_def] example_retried_job r]
    by (simp add: example_options_def)
qed

text \<open>
  C16. The tasks of a region are tried together: at every moment all tasks of a region have the
  same number of attempts.
\<close>

theorem region_attempts_uniform:
  assumes "js_step\<^sup>*\<^sup>* (job_scheduler_new opts cd) js" and "im_get (js_jobs js) j = Some job"
    and "r \<in> set (jt_regions (jd_topology job))" and "t \<in> set (rt_tasks r)" and "u \<in> set (rt_tasks r)"
  shows "length (attempts_at (jd_stages job) (tt_stage t) (tt_partition t)) =
    length (attempts_at (jd_stages job) (tt_stage u) (tt_partition u))"
proof -
  have "js_inv js" using js_reachable_inv [OF assms(1)] by simp
  with js_inv_get [OF _ assms(2)] have "attempts_inv (jo_task_max_attempts (js_options js)) job"
    by (simp add: job_ok_def)
  then show ?thesis by (rule attempts_uniform [OF _ assms(3-5)])
qed

theorem region_attempts_uniform_witness:
  "length (attempts_at (jd_stages (the (im_get (js_jobs example_retried) 1))) 0 1) =
   length (attempts_at (jd_stages (the (im_get (js_jobs example_retried) 1))) 1 0)"
proof -
  let ?job = "the (im_get (js_jobs example_retried) 1)"
  have r: "jt_regions (jd_topology ?job) ! 0 \<in> set (jt_regions (jd_topology ?job))"
    "task_at 0 1 \<in> set (rt_tasks (jt_regions (jd_topology ?job) ! 0))"
    "task_at 1 0 \<in> set (rt_tasks (jt_regions (jd_topology ?job) ! 0))" by code_simp+
  show ?thesis
    using region_attempts_uniform [OF example_steps(6) [unfolded example_new_def] example_retried_job r]
    by simp
qed

lemma js_le_task_state:
  assumes "js_le js js'" and "get_task_state js k = Some st"
  shows "\<exists>st'. get_task_state js' k = Some st' \<and> st \<le> st'"
proof -
  from assms(2) obtain job where job: "im_get (js_jobs js) (tk_job_id k) = Some job"
    "task_in_range (jd_stages job) (tk_stage k) (tk_partition k)"
    "tk_attempt k < length (attempts_at (jd_stages job) (tk_stage k) (tk_partition k))"
    "at_state (attempts_at (jd_stages job) (tk_stage k) (tk_partition k) ! tk_attempt k) = st"
    by (auto simp: get_task_state_def Let_def split: option.splits if_splits)
  from js_leE [OF assms(1) job(1)] obtain job' where
    job': "im_get (js_jobs js') (tk_job_id k) = Some job'" "stages_le (jd_stages job) (jd_stages job')"
    by metis
  have range': "task_in_range (jd_stages job') (tk_stage k) (tk_partition k)"
    using job(2) stages_le_range [OF job'(2)] by simp
  have le: "attempts_le (attempts_at (jd_stages job) (tk_stage k) (tk_partition k))
      (attempts_at (jd_stages job') (tk_stage k) (tk_partition k))"
    by (rule stages_le_attempts [OF job'(2) job(2)])
  let ?st' = "at_state (attempts_at (jd_stages job') (tk_stage k) (tk_partition k) ! tk_attempt k)"
  have "get_task_state js' k = Some ?st'"
    using le job(3) range' by (simp add: get_task_state_def job'(1) Let_def attempts_le_def)
  moreover have "st \<le> ?st'"
    using le job(3,4) by (auto simp: attempts_le_def attempt_le_def)
  ultimately show ?thesis by blast
qed

text \<open>
  C12. The state of a task attempt only moves forward, and a terminal state is final: whatever
  the driver does after it observed a state, the attempt still exists, its state is at least
  the observed one in the order created, scheduled, running, terminal, and an attempt that
  succeeded, failed or was canceled stays so.
\<close>

theorem task_state_monotone:
  assumes "js_step\<^sup>*\<^sup>* (job_scheduler_new opts cd) js" and "js_step\<^sup>*\<^sup>* js js'"
    and "get_task_state js k = Some st"
  shows "\<exists>st'. get_task_state js' k = Some st' \<and> st \<le> st' \<and> (is_terminal st \<longrightarrow> st' = st)"
proof -
  have "js_inv js" using js_reachable_inv [OF assms(1)] by simp
  from js_le_task_state [OF jobs.run_le [OF assms(2) this] assms(3)] show ?thesis
    using is_terminal_maximal by blast
qed

theorem task_state_monotone_witness:
  "\<exists>st'. get_task_state example_retried (example_key 0 0 0) = Some st' \<and> Task_Failed \<le> st' \<and> st' = Task_Failed"
proof -
  have "get_task_state example_failed (example_key 0 0 0) = Some Task_Failed" by code_simp
  from task_state_monotone [OF example_steps(4) [unfolded example_new_def] example_steps(5) this]
  show ?thesis by auto
qed

subsection \<open>The outcome of a refresh\<close>


lemma example_failed_running:
  "im_get (js_jobs example_failed) 1 = Some (the (im_get (js_jobs example_failed) 1))"
  "is_running (jd_state (the (im_get (js_jobs example_failed) 1)))"
  by code_simp+


lemma pipelined_no_dependencies:
  assumes "job_topology_try_new g = Some (Inr tp)" and "\<forall>x \<in> set (g_stages g). st_mode x = Pipelined"
    and "r \<in> set (jt_regions tp)"
  shows "rt_dependencies r = []"
proof -
  from assms(3) obtain k where k: "k < length (jt_regions tp)" "r = jt_regions tp ! k"
    by (auto simp: in_set_conv_nth)
  have rng: "inputs_in_range g" using assms(1) by (rule job_topology_try_newE)
  have "d \<notin> set (rt_dependencies r)" for d
  proof
    assume d: "d \<in> set (rt_dependencies r)"
    then have "d \<noteq> k \<and> d < length (jt_regions tp) \<and> (\<exists>i. reads_from g tp k d i)"
      using topology_dependencies(1) [OF assms(1) k(1), of d] k(2) by simp
    then obtain i where i: "reads_from g tp k d i" and d: "d < length (jt_regions tp)" "d \<noteq> k" by blast
    then have "st_mode (g_stages g ! si_stage i) = Blocking"
      using topology_dependencies(2) [OF assms(1) k(1)] by blast
    moreover from i obtain t where "t \<in> set (rt_tasks (jt_regions tp ! k))"
      "i \<in> set (st_inputs (g_stages g ! tt_stage t))" by (auto simp: reads_from_def)
    moreover have "tt_stage t < length (g_stages g)"
      using topology_tasks(2) [OF assms(1)] calculation(2) k(1) nth_mem [OF k(1)]
      by (auto simp: all_tasks_def)
    ultimately have "si_stage i < length (g_stages g)"
      using rng nth_mem [of "tt_stage t" "g_stages g"] unfolding inputs_in_range_def by blast
    with \<open>st_mode (g_stages g ! si_stage i) = Blocking\<close> assms(2) show False
      by (metis nth_mem output_mode.distinct(1))
  qed
  then show ?thesis by (cases "rt_dependencies r") auto
qed

text \<open>
  C6. A refresh never leaves a job stuck. In a job whose stages are all pipelined, which is
  the only output mode the planner produces, when the job keeps running after a refresh then
  every region either has succeeded in all of its tasks or has a task whose latest attempt is
  active, so that an update of that task will come.
\<close>

theorem refresh_job_not_stuck:
  assumes "js_step\<^sup>*\<^sup>* (job_scheduler_new opts cd) js" and "im_get (js_jobs js) j = Some job"
    and "is_running (jd_state job)" and "refresh_job ck j js = (js', acts)"
    and "im_get (js_jobs js') j = Some job'" and "is_running (jd_state job')"
    and "\<forall>x \<in> set (g_stages (jd_graph job)). st_mode x = Pipelined"
    and "r \<in> set (jt_regions (jd_topology job'))"
  shows "list_all (task_succeeded (jd_stages job')) (rt_tasks r) \<or> list_ex (task_active (jd_stages job')) (rt_tasks r)"
proof -
  have inv: "js_inv js" and opts: "js_options js = opts" using js_reachable_inv [OF assms(1)] by auto
  from inv assms(2-4) show ?thesis
  proof (cases rule: refresh_job_cases)
    case (refresh job2 st acts0 acts1)
    then have job': "job' = fst (schedule_task_regions ck j st)" "Region_Failed \<notin> set (jd_regions st)"
      using assms(5,6) by (auto simp: is_running_def)
    note sp = settle_spec [OF refresh(1,2) assms(3)]
    have tp: "jt_regions (jd_topology job') = jt_regions (jd_topology st)" by (simp add: job')
    from assms(8) obtain k where k: "k < length (jt_regions (jd_topology st))" "r = jt_regions (jd_topology st) ! k"
      unfolding tp by (auto simp: in_set_conv_nth)
    have dep: "rt_dependencies r = []"
      using pipelined_no_dependencies [of "jd_graph st" "jd_topology st" r] refresh(3) assms(7,8)
      by (simp add: job_wf_def sp tp)
    have now: "scheduled_now st (enumerate 0 (jt_regions (jd_topology st))) (tt_stage t) (tt_partition t) \<longleftrightarrow>
        region_schedulable st (k, r)" if "t \<in> set (rt_tasks r)" for t
      using that k scheduled_now_region [OF refresh(3) k(1), of "tt_stage t" "tt_partition t"] by simp
    note last = scheduled_last_state [OF refresh(3), of ck j]
    show ?thesis
    proof (cases "region_schedulable st (k, r)")
      case True
      then have "last_state (jd_stages job') (tt_stage t) (tt_partition t) = Some Task_Created"
        if "t \<in> set (rt_tasks r)" for t using that now by (simp add: job' last)
      then show ?thesis by (cases "rt_tasks r") (auto simp: task_active_def)
    next
      case False
      then have same: "last_state (jd_stages job') (tt_stage t) (tt_partition t) =
          last_state (jd_stages st) (tt_stage t) (tt_partition t)" if "t \<in> set (rt_tasks r)" for t
        using that now by (simp add: job' last)
      have "jd_regions st ! k = Region_Succeeded \<or> list_ex (task_active (jd_stages st)) (rt_tasks r)"
        using False dep by (simp add: region_schedulable_def)
      moreover have "jd_regions st ! k = region_state_of (jo_task_max_attempts opts) (jd_stages st) r"
        using k by (simp add: sp opts)
      ultimately show ?thesis
        using same by (auto simp: region_state_of_def list_all_iff list_ex_iff task_succeeded_def
            task_active_def split: if_splits)
    qed
  qed
qed

theorem refresh_job_not_stuck_witness:
  "list_all (task_succeeded (jd_stages (the (im_get (js_jobs example_retried) 1)))) [task_at 0 0, task_at 0 1, task_at 1 0] \<or>
   list_ex (task_active (jd_stages (the (im_get (js_jobs example_retried) 1)))) [task_at 0 0, task_at 0 1, task_at 1 0]"
proof -
  let ?job = "the (im_get (js_jobs example_failed) 1)" and ?job' = "the (im_get (js_jobs example_retried) 1)"
  let ?r = "jt_regions (jd_topology ?job') ! 0"
  have p: "\<forall>x \<in> set (g_stages (jd_graph ?job)). st_mode x = Pipelined" by code_simp
  have run: "is_running (jd_state ?job')" by code_simp
  have r: "?r \<in> set (jt_regions (jd_topology ?job'))" by code_simp
  have ts: "rt_tasks ?r = [task_at 0 0, task_at 0 1, task_at 1 0]" by code_simp
  show ?thesis
    using refresh_job_not_stuck [OF example_steps(4) [unfolded example_new_def] example_failed_running
        prod.collapse [symmetric, of "refresh_job example_clock 1 example_failed"]
        example_retried_job [unfolded example_retried_def] run [unfolded example_retried_def] p
        r [unfolded example_retried_def]] ts
    unfolding example_retried_def by simp
qed

subsection \<open>Cancellations\<close>

lemma cancel_actions_iff:
  "a \<in> set (cancel_actions j sds r) \<longleftrightarrow>
     region_has_failure sds r \<and> (\<exists>t \<in> set (rt_tasks r). \<exists>k. a = CancelTask k \<and>
       k \<in> set (active_attempt_keys j (tt_stage t) (tt_partition t) (attempts_at sds (tt_stage t) (tt_partition t))))"
  by (auto simp: cancel_actions_def)

lemma settle_cancels:
  assumes "settle ck opts j job = (job', acts)" and wf: "job_wf job" and run: "is_running (jd_state job)"
  shows "CancelTask k \<in> set acts \<longleftrightarrow>
     tk_job_id k = j \<and> task_cascades (jd_stages job) (jt_regions (jd_topology job)) (tk_stage k) (tk_partition k) \<and>
     tk_attempt k < length (attempts_at (jd_stages job) (tk_stage k) (tk_partition k)) \<and>
     \<not> is_terminal (at_state (attempts_at (jd_stages job) (tk_stage k) (tk_partition k) ! tk_attempt k))"
proof (rule settle_actions [OF assms])
  fix cl
  assume acts: "acts =
      concat (map (cancel_actions j (jd_stages job)) (jt_regions (jd_topology job))) @
      concat (map (\<lambda>t. output_actions j (g_schema (jd_graph job)) (stage_channels job (tt_stage t)) t
        (cascaded_attempts ck job (tt_stage t) (tt_partition t))) (final_tasks job)) @ cl"
    and cl: "set cl \<subseteq> range (\<lambda>s. CleanUpStreams j (Some s))"
  have "CancelTask k \<in> set acts \<longleftrightarrow>
      (\<exists>r \<in> set (jt_regions (jd_topology job)). CancelTask k \<in> set (cancel_actions j (jd_stages job) r))"
    using cl by (auto simp: acts output_actions_def split: if_splits)
  then show ?thesis
    by (auto simp: cancel_actions_iff in_active_attempt_keys task_cascades_def list_ex_iff)
      (metis task_topology.select_convs)
qed

lemma task_cascades_iff:
  "task_cascades sds rs s p \<longleftrightarrow> (\<exists>r \<in> set rs. task_at s p \<in> set (rt_tasks r) \<and> region_has_failure sds r)"
  by (auto simp: task_cascades_def list_ex_iff)

text \<open>
  C13. Failures cascade over a region and no further. In a refresh of a running job the driver is
  told to cancel exactly those attempts that are still active and belong to a task of a region
  in which the latest attempt of some task failed, and these attempts are then canceled.
\<close>

theorem refresh_job_cancels:
  assumes "js_step\<^sup>*\<^sup>* (job_scheduler_new opts cd) js" and "im_get (js_jobs js) j = Some job"
    and "is_running (jd_state job)" and "refresh_job ck j js = (js', acts)"
  shows "(CancelTask k \<in> set acts \<longleftrightarrow> tk_job_id k = j \<and>
      (\<exists>st. get_task_state js k = Some st \<and> \<not> is_terminal st) \<and>
      (\<exists>r \<in> set (jt_regions (jd_topology job)). task_at (tk_stage k) (tk_partition k) \<in> set (rt_tasks r) \<and>
        region_has_failure (jd_stages job) r)) \<and>
    (CancelTask k \<in> set acts \<longrightarrow> get_task_state js' k = Some Task_Canceled)"
proof -
  have inv: "js_inv js" using js_reachable_inv [OF assms(1)] by auto
  from inv assms(2-4) show ?thesis
  proof (cases rule: refresh_job_cases)
    case (refresh job' st acts0 acts1)
    let ?s = "tk_stage k" and ?p = "tk_partition k" and ?a = "tk_attempt k"
    note cancels = settle_cancels [OF refresh(1,2) assms(3), of k]
    have a1: "CancelTask k \<notin> set acts1"
      using refresh(7) schedule_task_regions_actions [of ck j st] by auto
    have rng: "task_in_range (jd_stages job) ?s ?p"
      if "task_cascades (jd_stages job) (jt_regions (jd_topology job)) ?s ?p"
      using that job_wf_region_task [OF refresh(2), of _ "task_at ?s ?p"]
      by (auto simp: task_cascades_def list_ex_iff)
    have iff: "CancelTask k \<in> set acts \<longleftrightarrow> tk_job_id k = j \<and>
      (\<exists>st. get_task_state js k = Some st \<and> \<not> is_terminal st) \<and>
      (\<exists>r \<in> set (jt_regions (jd_topology job)). task_at ?s ?p \<in> set (rt_tasks r) \<and>
        region_has_failure (jd_stages job) r)"
      using cancels rng a1 assms(2) unfolding task_cascades_iff [symmetric]
      by (auto simp: refresh(6) get_task_state_def Let_def split: option.splits if_splits)
    note sp = settle_spec [OF refresh(1,2) assms(3)]
    have "get_task_state js' k = Some Task_Canceled" if c: "CancelTask k \<in> set acts"
    proof -
      from c a1 cancels have k: "tk_job_id k = j"
        "task_cascades (jd_stages job) (jt_regions (jd_topology job)) ?s ?p"
        "?a < length (attempts_at (jd_stages job) ?s ?p)"
        "\<not> is_terminal (at_state (attempts_at (jd_stages job) ?s ?p ! ?a))"
        by (auto simp: refresh(6))
      have "at_state (cascaded_attempts ck job ?s ?p ! ?a) = Task_Canceled"
        using k by (simp add: cascaded_attempts_def cancel_attempt_def)
      then have st: "at_state (attempts_at (jd_stages st) ?s ?p ! ?a) = Task_Canceled"
        "?a < length (attempts_at (jd_stages st) ?s ?p)"
        using k(3) by (auto simp: sp settled_cascaded fetch_last_nth)
      have "at_state (attempts_at (jd_stages job') ?s ?p ! ?a) = Task_Canceled \<and>
          ?a < length (attempts_at (jd_stages job') ?s ?p)"
        using refresh(7) st by (auto simp: schedule_task_regions_attempts [OF refresh(3)] nth_append)
      moreover have "task_in_range (jd_stages job') ?s ?p"
        using rng [OF k(2)] refresh(7) task_in_range_shape [OF sp(4), of ?s ?p]
          task_in_range_shape [OF schedule_task_regions_frame(5) [of ck j st], of ?s ?p] by auto
      ultimately show ?thesis using refresh(5) k(1) by (simp add: get_task_state_def Let_def)
    qed
    with iff show ?thesis by blast
  qed
qed

theorem refresh_job_cancels_witness:
  "CancelTask (example_key 1 0 0) \<in> set (snd (refresh_job example_clock 1 example_failed)) \<and>
   get_task_state example_retried (example_key 1 0 0) = Some Task_Canceled"
proof
  show c: "CancelTask (example_key 1 0 0) \<in> set (snd (refresh_job example_clock 1 example_failed))"
    by code_simp
  then show "get_task_state example_retried (example_key 1 0 0) = Some Task_Canceled"
    using refresh_job_cancels [OF example_steps(4) [unfolded example_new_def] example_failed_running
        prod.collapse [symmetric, of "refresh_job example_clock 1 example_failed"]]
    unfolding example_retried_def by blast
qed

subsection \<open>The job output\<close>

definition output_keys :: "job_action list \<Rightarrow> task_stream_key list" where
  "output_keys acts = concat (map (\<lambda>a. case a of ExtendJobOutput _ k _ \<Rightarrow> [k] | _ \<Rightarrow> []) acts)"

lemma output_keys_append [simp]:
  "output_keys [] = []"
  "output_keys (xs @ ys) = output_keys xs @ output_keys ys"
  by (simp_all add: output_keys_def)

lemma output_keys_Nil: "(\<And>a. a \<in> set acts \<Longrightarrow> \<forall>j k sch. a \<noteq> ExtendJobOutput j k sch) \<Longrightarrow> output_keys acts = []"
  by (induction acts) (auto simp: output_keys_def split: job_action.splits)

definition stream_key_of :: "job_id \<Rightarrow> task_topology \<Rightarrow> nat \<Rightarrow> nat \<Rightarrow> task_stream_key" where
  "stream_key_of j t a c = \<lparr>sk_job_id = j, sk_stage = tt_stage t, sk_partition = tt_partition t,
     sk_attempt = a, sk_channel = c\<rparr>"

lemma output_keys_output_actions:
  "output_keys (output_actions j sch n t as) =
     (if fetch_ready as then map (stream_key_of j t (length as - 1)) [0..<n] else [])"
proof -
  have "output_keys (map (\<lambda>c. ExtendJobOutput j (f c) sch) cs) = map f cs" for f :: "nat \<Rightarrow> _" and cs
    by (induction cs) (auto simp: output_keys_def)
  then show ?thesis by (simp add: output_actions_def stream_key_of_def)
qed

lemma output_keys_concat: "output_keys (concat xss) = concat (map output_keys xss)"
  by (induction xss) (auto simp: output_keys_def)

lemma settle_output_keys:
  assumes "settle ck opts j job = (job', acts)" and wf: "job_wf job" and run: "is_running (jd_state job)"
  shows "output_keys acts = concat (map (\<lambda>t. let as = cascaded_attempts ck job (tt_stage t) (tt_partition t) in
     if fetch_ready as then map (stream_key_of j t (length as - 1)) [0..<stage_channels job (tt_stage t)] else [])
     (final_tasks job))"
proof (rule settle_actions [OF assms])
  fix cl
  assume acts: "acts =
      concat (map (cancel_actions j (jd_stages job)) (jt_regions (jd_topology job))) @
      concat (map (\<lambda>t. output_actions j (g_schema (jd_graph job)) (stage_channels job (tt_stage t)) t
        (cascaded_attempts ck job (tt_stage t) (tt_partition t))) (final_tasks job)) @ cl"
    and cl: "set cl \<subseteq> range (\<lambda>s. CleanUpStreams j (Some s))"
  have "output_keys cl = []" using cl by (intro output_keys_Nil) auto
  moreover have "output_keys (concat (map (cancel_actions j (jd_stages job)) (jt_regions (jd_topology job)))) = []"
    by (intro output_keys_Nil) (auto simp: cancel_actions_def split: if_splits)
  ultimately show ?thesis
    by (simp add: acts output_keys_concat comp_def output_keys_output_actions Let_def)
qed

lemma distinct_concat_map_keys:
  assumes "distinct ts" and "\<And>t. distinct (f t)" and "\<And>t k. k \<in> set (f t) \<Longrightarrow> g k = t"
  shows "distinct (concat (map f ts))"
  using assms(1)
proof (induction ts)
  case (Cons t ts)
  have "set (f t) \<inter> set (concat (map f ts)) = {}"
  proof (rule ccontr)
    assume "\<not> ?thesis"
    then obtain k u where k: "k \<in> set (f t)" "k \<in> set (f u)" "u \<in> set ts" by auto
    from assms(3) [OF k(1)] assms(3) [OF k(2)] k(3) Cons.prems show False by simp
  qed
  with Cons show ?case by (simp add: assms(2))
qed simp

lemma refresh_output_keys:
  assumes "js_inv js" and "im_get (js_jobs js) j = Some job"
    and "is_running (jd_state job)" and "refresh_job ck j js = (js', acts)"
  shows "distinct (output_keys acts)"
    and "k \<in> set (output_keys acts) \<Longrightarrow> sk_job_id k = j \<and>
      task_in_range (jd_stages job) (sk_stage k) (sk_partition k) \<and>
      sk_attempt k < length (attempts_at (jd_stages job) (sk_stage k) (sk_partition k)) \<and>
      \<not> at_job_output_fetched (attempts_at (jd_stages job) (sk_stage k) (sk_partition k) ! sk_attempt k)"
    and "k \<in> set (output_keys acts) \<Longrightarrow> \<exists>job'. im_get (js_jobs js') j = Some job' \<and>
      task_in_range (jd_stages job') (sk_stage k) (sk_partition k) \<and>
      sk_attempt k < length (attempts_at (jd_stages job') (sk_stage k) (sk_partition k)) \<and>
      at_job_output_fetched (attempts_at (jd_stages job') (sk_stage k) (sk_partition k) ! sk_attempt k)"
proof -
  from assms obtain job' st acts0 acts1 where r:
    "settle ck (js_options js) j job = (st, acts0)" "job_wf job" "job_wf st"
    "im_get (js_jobs js') j = Some job'" "acts = acts0 @ acts1" "output_keys acts1 = []"
    "\<And>s p. task_in_range (jd_stages job') s p = task_in_range (jd_stages st) s p"
    "\<And>s p. \<exists>new. attempts_at (jd_stages job') s p = attempts_at (jd_stages st) s p @ new"
  proof (cases rule: refresh_job_cases)
    case (refresh job' st acts0 acts1)
    have "output_keys acts1 = []"
      using refresh(7) schedule_task_regions_actions [of ck j st]
      by (intro output_keys_Nil) auto
    moreover have "task_in_range (jd_stages job') s p = task_in_range (jd_stages st) s p" for s p
      using refresh(7) task_in_range_shape [OF schedule_task_regions_frame(5) [of ck j st]] by auto
    moreover have "\<exists>new. attempts_at (jd_stages job') s p = attempts_at (jd_stages st) s p @ new" for s p
      using refresh(7) by (auto simp: schedule_task_regions_attempts [OF refresh(3)])
    ultimately show ?thesis using that refresh by blast
  qed
  note ok = settle_output_keys [OF r(1,2) assms(3)] and sp = settle_spec [OF r(1,2) assms(3)]
  have keys: "output_keys acts = output_keys acts0" by (simp add: r)
  show "distinct (output_keys acts)"
    unfolding keys ok
    by (rule distinct_concat_map_keys [OF distinct_final_tasks, where g = "\<lambda>k. task_at (sk_stage k) (sk_partition k)"])
      (auto simp: Let_def distinct_map inj_on_def stream_key_of_def)
  assume "k \<in> set (output_keys acts)"
  then obtain t where t: "t \<in> set (final_tasks job)"
    "fetch_ready (cascaded_attempts ck job (tt_stage t) (tt_partition t))"
    and k: "sk_job_id k = j" "sk_stage k = tt_stage t" "sk_partition k = tt_partition t"
      "sk_attempt k = length (cascaded_attempts ck job (tt_stage t) (tt_partition t)) - 1"
    unfolding keys ok by (auto simp: Let_def stream_key_of_def split: if_splits)
  have rng: "task_in_range (jd_stages job) (sk_stage k) (sk_partition k)"
    using final_tasks_in_range [OF r(2)] t(1) by (simp add: k tasks_in_range_def list_all_iff)
  let ?as = "attempts_at (jd_stages job) (sk_stage k) (sk_partition k)"
  have ne: "?as \<noteq> []" "sk_attempt k = length ?as - 1"
    using t(2) k by (auto simp: fetch_ready_def cascaded_attempts_def Let_def split: if_splits)
  have "\<not> at_job_output_fetched (last ?as)"
    using t(2) k ne(1) by (auto simp: fetch_ready_def cascaded_attempts_def Let_def last_map split: if_splits)
  with rng ne k(1) show "sk_job_id k = j \<and> task_in_range (jd_stages job) (sk_stage k) (sk_partition k) \<and>
      sk_attempt k < length ?as \<and> \<not> at_job_output_fetched (?as ! sk_attempt k)"
    by (simp add: last_conv_nth)
  let ?bs = "attempts_at (jd_stages st) (sk_stage k) (sk_partition k)"
  have bs: "?bs = fetch_last (cascaded_attempts ck job (sk_stage k) (sk_partition k))"
    using t(1) k by (simp add: sp settled_cascaded)
  then have "sk_attempt k < length ?bs" "at_job_output_fetched (?bs ! sk_attempt k)"
    using t(2) k ne by (auto simp: fetch_last_def fetch_ready_def nth_append)
  moreover obtain new where "attempts_at (jd_stages job') (sk_stage k) (sk_partition k) = ?bs @ new"
    using r(8) by blast
  ultimately show "\<exists>job'. im_get (js_jobs js') j = Some job' \<and>
      task_in_range (jd_stages job') (sk_stage k) (sk_partition k) \<and>
      sk_attempt k < length (attempts_at (jd_stages job') (sk_stage k) (sk_partition k)) \<and>
      at_job_output_fetched (attempts_at (jd_stages job') (sk_stage k) (sk_partition k) ! sk_attempt k)"
    using r(4,7) rng task_in_range_shape [OF sp(4)]
    by (intro exI [of _ job']) (simp add: nth_append)
qed

text \<open>
  C14. A stream of the job output is handed over at most once: within one refresh the streams
  added to the job's output are all different, and no stream added in one refresh is added
  again in any later refresh of the job.
\<close>

theorem job_output_extended_once:
  assumes "js_step\<^sup>*\<^sup>* (job_scheduler_new opts cd) js" and "refresh_job ck j js = (js1, acts1)"
    and "js_step\<^sup>*\<^sup>* js1 js2" and "refresh_job ck' j js2 = (js3, acts2)"
  shows "distinct (output_keys acts1) \<and> set (output_keys acts1) \<inter> set (output_keys acts2) = {}"
proof -
  have inv: "js_inv js" using js_reachable_inv [OF assms(1)] by simp
  have inv1: "js_inv js1" using refresh_job_keeps [OF inv, of ck j] assms(2) by simp
  then have inv2: "js_inv js2" using jobs.run_inv [OF assms(3)] by simp
  have quiet: "output_keys acts = []"
    if "refresh_job ck j js = (js', acts)" "\<not> (\<exists>job. im_get (js_jobs js) j = Some job \<and> is_running (jd_state job))"
    for ck js js' acts
    using that by (auto simp: refresh_job_def refresh_job_in_def output_keys_def Let_def split: option.splits)
  show ?thesis
  proof (cases "\<exists>job. im_get (js_jobs js) j = Some job \<and> is_running (jd_state job)")
    case False
    then show ?thesis using quiet [OF assms(2)] by simp
  next
    case True
    then obtain job where job: "im_get (js_jobs js) j = Some job" "is_running (jd_state job)" by blast
    note k1 = refresh_output_keys [OF inv job assms(2)]
    have False if k: "k \<in> set (output_keys acts1)" "k \<in> set (output_keys acts2)" for k
    proof -
      obtain job2 where job2: "im_get (js_jobs js2) j = Some job2" "is_running (jd_state job2)"
        using quiet [OF assms(4)] k(2) by fastforce
      note not = refresh_output_keys(2) [OF inv2 job2 assms(4) k(2)]
      obtain job1 where job1: "im_get (js_jobs js1) j = Some job1"
        "task_in_range (jd_stages job1) (sk_stage k) (sk_partition k)"
        "sk_attempt k < length (attempts_at (jd_stages job1) (sk_stage k) (sk_partition k))"
        "at_job_output_fetched (attempts_at (jd_stages job1) (sk_stage k) (sk_partition k) ! sk_attempt k)"
        using k1(3) [OF k(1)] by blast
      have "stages_le (jd_stages job1) (jd_stages job2)"
        using js_leE [OF jobs.run_le [OF assms(3) inv1] job1(1)] job2(1) by (metis option.inject)
      from stages_le_attempts [OF this job1(2)] job1(3,4) not show False
        by (auto simp: attempts_le_def attempt_le_def)
    qed
    with k1(1) show ?thesis by blast
  qed
qed

definition example_output :: job_scheduler where
  "example_output = update_task example_clock (example_key 1 0 0) Task_Running None None example_started"

theorem job_output_extended_once_witness:
  "let (js1, acts1) = refresh_job example_clock 1 example_output;
       (js2, acts2) = refresh_job example_clock 1 js1
   in output_keys acts1 = [stream_key_of 1 (task_at 1 0) 0 0] \<and>
      set (output_keys acts1) \<inter> set (output_keys acts2) = {}"
proof -
  have "js_step example_started example_output" unfolding example_output_def by (rule js_update)
  with example_steps(2) have reach: "js_step\<^sup>*\<^sup>* example_new example_output"
    by (rule rtranclp.rtrancl_into_rtrancl)
  have "output_keys (snd (refresh_job example_clock 1 example_output)) = [stream_key_of 1 (task_at 1 0) 0 0]"
    by code_simp
  then show ?thesis
    using job_output_extended_once [OF reach [unfolded example_new_def] prod.collapse [symmetric] _ prod.collapse [symmetric],
        of example_clock 1 "fst (refresh_job example_clock 1 example_output)" example_clock]
    by (simp add: case_prod_unfold Let_def)
qed

end
