(* ===== verification/Job_Region_Build.thy ===== *)
theory Job_Region_Build
  imports Job_Refresh
begin

text \<open>
  The task region \<open>build_task_region\<close> hands to the task assigner: every task of the region
  goes once into a task set of the right placement, and the partitions of a stage go to
  different sets.
\<close>

section \<open>Groups and buckets\<close>

type_synonym stage_groups = "(stage_group_key, stage_group) index_map"

definition group_entries :: "stage_groups \<Rightarrow> task_set_entry list" where
  "group_entries m = concat (map (\<lambda>(k, grp). concat (sg_buckets grp)) m)"

text \<open>Every stage already grouped has at least as many buckets as partitions.\<close>

definition groups_cover :: "job_graph \<Rightarrow> nat set \<Rightarrow> stage_groups \<Rightarrow> bool" where
  "groups_cover g S m \<longleftrightarrow> distinct (im_keys m) \<and>
     (\<forall>s \<in> S. \<exists>grp. im_get m (group_key (g_stages g ! s)) = Some grp \<and>
        stage_partitions (g_stages g ! s) \<le> length (sg_buckets grp))"

lemma distinct_im_insert: "distinct (im_keys m) \<Longrightarrow> distinct (im_keys (im_insert k v m))"
  by (rule distinct_update)

lemma groups_cover_stage:
  assumes "groups_cover g S m"
  shows "groups_cover g (insert s S) (group_stage g m s)"
  using assms unfolding groups_cover_def group_stage_def Let_def
  by (auto intro: distinct_im_insert split: option.splits)

lemma groups_cover_Nil: "groups_cover g {} []"
  by (simp add: groups_cover_def)

lemma groups_cover_stages: "groups_cover g S m \<Longrightarrow> groups_cover g (S \<union> set ss) (foldl (group_stage g) m ss)"
proof (induction ss arbitrary: S m)
  case (Cons s ss)
  from Cons.IH [OF groups_cover_stage [OF Cons.prems, of s]] show ?case by simp
qed simp

definition buckets_empty :: "stage_groups \<Rightarrow> bool" where
  "buckets_empty m \<longleftrightarrow> (\<forall>(k, grp) \<in> set m. \<forall>b \<in> set (sg_buckets grp). b = [])"

lemma buckets_empty_insert:
  "buckets_empty m \<Longrightarrow> \<forall>b \<in> set (sg_buckets v). b = [] \<Longrightarrow> buckets_empty (im_insert k v m)"
  by (induction m) (auto simp: buckets_empty_def)

lemma buckets_empty_stages: "buckets_empty m \<Longrightarrow> buckets_empty (foldl (group_stage g) m ss)"
proof (rule foldl_inv)
  fix m s
  assume "buckets_empty m"
  then show "buckets_empty (group_stage g m s)"
    unfolding group_stage_def Let_def
    by (intro buckets_empty_insert)
      (fastforce simp: buckets_empty_def split: option.splits if_splits dest: map_of_SomeD)+
qed

section \<open>Filling the buckets\<close>

text \<open>Each entry lies in the group of its stage, in the bucket of its partition.\<close>

definition bucket_of :: "nat \<Rightarrow> nat \<Rightarrow> nat \<Rightarrow> nat" where
  "bucket_of n parts p = p * n div parts"

definition entries_placed :: "job_graph \<Rightarrow> stage_groups \<Rightarrow> bool" where
  "entries_placed g m \<longleftrightarrow> (\<forall>(k, grp) \<in> set m. \<forall>b < length (sg_buckets grp). \<forall>e \<in> set (sg_buckets grp ! b).
     let x = g_stages g ! tk_stage (te_key e) in
     group_key x = k \<and> b = bucket_of (length (sg_buckets grp)) (stage_partitions x) (tk_partition (te_key e)))"

lemma buckets_empty_placed: "buckets_empty m \<Longrightarrow> entries_placed g m"
  unfolding entries_placed_def
proof (intro ballI, clarify)
  fix k grp b e
  assume "buckets_empty m" and m: "(k, grp) \<in> set m" and b: "b < length (sg_buckets grp)"
    and e: "e \<in> set (sg_buckets grp ! b)"
  then have "sg_buckets grp ! b = []" using nth_mem [OF b] by (auto simp: buckets_empty_def)
  with e show "let x = g_stages g ! tk_stage (te_key e) in group_key x = k \<and>
      b = bucket_of (length (sg_buckets grp)) (stage_partitions x) (tk_partition (te_key e))" by simp
qed

lemma buckets_empty_entries: "buckets_empty m \<Longrightarrow> group_entries m = []"
  by (auto simp: group_entries_def buckets_empty_def)

lemma entries_placedD:
  "entries_placed g m \<Longrightarrow> (k, grp) \<in> set m \<Longrightarrow> b < length (sg_buckets grp) \<Longrightarrow> e \<in> set (sg_buckets grp ! b) \<Longrightarrow>
   group_key (g_stages g ! tk_stage (te_key e)) = k \<and>
   b = bucket_of (length (sg_buckets grp)) (stage_partitions (g_stages g ! tk_stage (te_key e))) (tk_partition (te_key e))"
  unfolding entries_placed_def Let_def by blast

lemma bucket_in_entries:
  assumes "(k, grp) \<in> set m" and "b < length (sg_buckets grp)"
  shows "\<exists>xs ys. group_entries m = xs @ sg_buckets grp ! b @ ys"
proof -
  obtain m1 m2 where m: "m = m1 @ (k, grp) # m2" using assms(1) by (metis split_list)
  have "concat (sg_buckets grp) = concat (take b (sg_buckets grp) @ sg_buckets grp ! b # drop (Suc b) (sg_buckets grp))"
    using assms(2) by (simp only: id_take_nth_drop [symmetric])
  then have "group_entries m = (group_entries m1 @ concat (take b (sg_buckets grp))) @ sg_buckets grp ! b @
      (concat (drop (Suc b) (sg_buckets grp)) @ group_entries m2)"
    by (simp add: m group_entries_def)
  then show ?thesis by blast
qed

lemma bucket_of_less: "p < parts \<Longrightarrow> parts \<le> n \<Longrightarrow> bucket_of n parts p < n"
proof -
  assume p: "p < parts" and n: "parts \<le> n"
  then have "p * n < parts * n" by (intro mult_strict_right_mono) auto
  then have "p * n < n * parts" by (simp add: mult.commute)
  then show ?thesis using p by (simp add: bucket_of_def less_mult_imp_div_less)
qed

lemma bucket_of_inj:
  assumes "p < parts" "q < parts" "parts \<le> n" and "bucket_of n parts p = bucket_of n parts q"
  shows "p = q"
proof (rule ccontr)
  have mono: "bucket_of n parts p < bucket_of n parts q" if "p < q" "q < parts" for p q
  proof -
    have "p * n + parts \<le> (p + 1) * n" using assms(3) by simp
    also have "\<dots> \<le> q * n" using that(1) by (intro mult_right_mono) auto
    finally have "(p * n + parts) div parts \<le> q * n div parts" by (rule div_le_mono)
    moreover have "(p * n + parts) div parts = p * n div parts + 1"
      using that(2) by (subst div_add_self2) auto
    ultimately show ?thesis by (simp add: bucket_of_def)
  qed
  assume "p \<noteq> q"
  then show False using mono [of p q] mono [of q p] assms by (metis linorder_neqE_nat less_irrefl)
qed

lemma mset_concat_push:
  "b < length xss \<Longrightarrow> mset (concat (xss[b := xss ! b @ [e]])) = add_mset e (mset (concat xss))"
proof (induction xss arbitrary: b)
  case (Cons xs xss)
  then show ?case by (cases b) auto
qed simp

lemma group_entries_modify:
  assumes "distinct (im_keys m)" and "im_get m k = Some grp" and "f grp < length (sg_buckets grp)"
  shows "mset (group_entries (im_modify k (\<lambda>grp. grp\<lparr>sg_buckets :=
      (sg_buckets grp)[f grp := sg_buckets grp ! f grp @ [e]]\<rparr>) m)) = add_mset e (mset (group_entries m))"
  using assms
proof (induction m)
  case Nil
  then show ?case by simp
next
  case (Cons a m)
  obtain k' grp' where a: "a = (k', grp')" by (cases a)
  show ?case
  proof (cases "k' = k")
    case True
    with Cons.prems a have "grp' = grp" and "k \<notin> set (im_keys m)" by auto
    then show ?thesis using True a Cons.prems(3) by (simp add: group_entries_def mset_concat_push)
  next
    case False
    with Cons a show ?thesis by (simp add: group_entries_def)
  qed
qed

lemma entries_placed_modify:
  assumes d: "distinct (im_keys m)" and pl: "entries_placed g m"
    and g: "\<And>grp. im_get m (group_key (g_stages g ! tk_stage (te_key e))) = Some grp \<Longrightarrow>
      f grp = bucket_of (length (sg_buckets grp)) (stage_partitions (g_stages g ! tk_stage (te_key e)))
        (tk_partition (te_key e))"
  shows "entries_placed g (im_modify (group_key (g_stages g ! tk_stage (te_key e))) (\<lambda>grp. grp\<lparr>sg_buckets :=
      (sg_buckets grp)[f grp := sg_buckets grp ! f grp @ [e]]\<rparr>) m)"
  unfolding entries_placed_def
proof (intro ballI, clarify)
  let ?k = "group_key (g_stages g ! tk_stage (te_key e))"
  fix k grp b e'
  assume in_m: "(k, grp) \<in> set (im_modify ?k (\<lambda>grp. grp\<lparr>sg_buckets :=
      (sg_buckets grp)[f grp := sg_buckets grp ! f grp @ [e]]\<rparr>) m)"
    and b: "b < length (sg_buckets grp)" and e': "e' \<in> set (sg_buckets grp ! b)"
  have old: "let x = g_stages g ! tk_stage (te_key e) in group_key x = k \<and>
      b = bucket_of (length (sg_buckets grp)) (stage_partitions x) (tk_partition (te_key e))"
    if "(k, grp) \<in> set m" "b < length (sg_buckets grp)" "e \<in> set (sg_buckets grp ! b)" for k grp b e
    using pl that unfolding entries_placed_def by blast
  show "let x = g_stages g ! tk_stage (te_key e') in group_key x = k \<and>
      b = bucket_of (length (sg_buckets grp)) (stage_partitions x) (tk_partition (te_key e'))"
  proof (cases "k = ?k")
    case False
    with in_m d have "(k, grp) \<in> set m" by (simp add: set_im_modify)
    then show ?thesis using b e' by (rule old)
  next
    case True
    with in_m d obtain grp0 where grp0: "(k, grp0) \<in> set m"
      "grp = grp0\<lparr>sg_buckets := (sg_buckets grp0)[f grp0 := sg_buckets grp0 ! f grp0 @ [e]]\<rparr>"
      by (auto simp: set_im_modify)
    then have fb: "f grp0 = bucket_of (length (sg_buckets grp0)) (stage_partitions (g_stages g ! tk_stage (te_key e)))
        (tk_partition (te_key e))"
      using g [of grp0] d True by simp
    have len: "length (sg_buckets grp) = length (sg_buckets grp0)" by (simp add: grp0(2))
    show ?thesis
    proof (cases "e' \<in> set (sg_buckets grp0 ! b)")
      case True
      then show ?thesis using old [OF grp0(1), of b e'] b len by simp
    next
      case False
      with e' b have "b = f grp0 \<and> e' = e"
        by (cases "f grp0 = b") (auto simp: grp0(2))
      with \<open>k = ?k\<close> fb len show ?thesis by (simp add: Let_def)
    qed
  qed
qed

definition entry_of :: "job_id \<Rightarrow> job_descriptor \<Rightarrow> task_topology \<Rightarrow> task_set_entry" where
  "entry_of j job t = \<lparr>te_key = \<lparr>tk_job_id = j, tk_stage = tt_stage t, tk_partition = tt_partition t,
      tk_attempt = length (attempts_at (jd_stages job) (tt_stage t) (tt_partition t)) - 1\<rparr>,
    te_output = output_kind (st_mode (g_stages (jd_graph job) ! tt_stage t))\<rparr>"

text \<open>The task can go to a bucket: it exists, it has an attempt, and its stage is grouped.\<close>

definition bucketable :: "job_descriptor \<Rightarrow> nat set \<Rightarrow> task_topology \<Rightarrow> bool" where
  "bucketable job S t \<longleftrightarrow> task_in_range (jd_stages job) (tt_stage t) (tt_partition t) \<and>
     attempts_at (jd_stages job) (tt_stage t) (tt_partition t) \<noteq> [] \<and> tt_stage t \<in> S \<and>
     tt_partition t < stage_partitions (g_stages (jd_graph job) ! tt_stage t)"

lemma bucket_task_alt:
  assumes "bucketable job S t"
  shows "bucket_task j job m t =
    im_modify (group_key (g_stages (jd_graph job) ! tk_stage (te_key (entry_of j job t)))) (\<lambda>grp. grp\<lparr>sg_buckets :=
      (sg_buckets grp)[bucket_of (length (sg_buckets grp)) (stage_partitions (g_stages (jd_graph job) ! tt_stage t)) (tt_partition t) :=
        sg_buckets grp ! bucket_of (length (sg_buckets grp)) (stage_partitions (g_stages (jd_graph job) ! tt_stage t)) (tt_partition t)
        @ [entry_of j job t]]\<rparr>) m"
proof -
  have "get_latest_task_attempt job (tt_stage t) (tt_partition t) =
      Some (length (attempts_at (jd_stages job) (tt_stage t) (tt_partition t)) - 1)"
    using assms by (auto simp: get_latest_task_attempt_def bucketable_def neq_Nil_conv)
  then show ?thesis by (simp add: bucket_task_def Let_def entry_of_def bucket_of_def)
qed

lemma groups_cover_modify:
  assumes "groups_cover g S m" and "\<And>grp. length (sg_buckets (f grp)) = length (sg_buckets grp)"
  shows "groups_cover g S (im_modify k f m)"
  unfolding groups_cover_def
proof (intro conjI ballI)
  show "distinct (im_keys (im_modify k f m))" using assms(1) by (simp add: groups_cover_def)
  fix s
  assume "s \<in> S"
  then obtain grp where "im_get m (group_key (g_stages g ! s)) = Some grp"
    "stage_partitions (g_stages g ! s) \<le> length (sg_buckets grp)"
    using assms(1) unfolding groups_cover_def by blast
  then show "\<exists>grp. im_get (im_modify k f m) (group_key (g_stages g ! s)) = Some grp \<and>
      stage_partitions (g_stages g ! s) \<le> length (sg_buckets grp)"
    by (intro exI [of _ "if group_key (g_stages g ! s) = k then f grp else grp"])
      (simp only: im_get_modify, simp add: assms(2))
qed

lemma bucket_task_spec:
  assumes c: "groups_cover (jd_graph job) S m" and pl: "entries_placed (jd_graph job) m"
    and t: "bucketable job S t"
  shows "groups_cover (jd_graph job) S (bucket_task j job m t)"
    and "entries_placed (jd_graph job) (bucket_task j job m t)"
    and "mset (group_entries (bucket_task j job m t)) = add_mset (entry_of j job t) (mset (group_entries m))"
proof -
  let ?x = "g_stages (jd_graph job) ! tt_stage t"
  note alt = bucket_task_alt [OF t, of j m]
  have d: "distinct (im_keys m)" using c by (simp add: groups_cover_def)
  obtain grp where grp: "im_get m (group_key ?x) = Some grp" "stage_partitions ?x \<le> length (sg_buckets grp)"
    using c t unfolding groups_cover_def bucketable_def by blast
  have st: "tk_stage (te_key (entry_of j job t)) = tt_stage t"
    "tk_partition (te_key (entry_of j job t)) = tt_partition t" by (simp_all add: entry_of_def)
  have b: "bucket_of (length (sg_buckets grp)) (stage_partitions ?x) (tt_partition t) < length (sg_buckets grp)"
    using grp(2) t by (intro bucket_of_less) (auto simp: bucketable_def)
  show "groups_cover (jd_graph job) S (bucket_task j job m t)"
    unfolding alt by (rule groups_cover_modify [OF c]) simp
  show "entries_placed (jd_graph job) (bucket_task j job m t)"
    unfolding alt by (rule entries_placed_modify [OF d pl]) (simp add: st)
  show "mset (group_entries (bucket_task j job m t)) = add_mset (entry_of j job t) (mset (group_entries m))"
    unfolding alt by (rule group_entries_modify [OF d, of _ grp]) (use b in \<open>simp_all add: st grp(1)\<close>)
qed

lemma bucket_tasks_spec:
  assumes "groups_cover (jd_graph job) S m" and "entries_placed (jd_graph job) m"
    and "\<And>t. t \<in> set ts \<Longrightarrow> bucketable job S t"
  shows "groups_cover (jd_graph job) S (foldl (bucket_task j job) m ts)"
    and "entries_placed (jd_graph job) (foldl (bucket_task j job) m ts)"
    and "mset (group_entries (foldl (bucket_task j job) m ts)) =
      mset (map (entry_of j job) ts) + mset (group_entries m)"
  using assms
proof (induction ts arbitrary: m)
  case (Cons t ts)
  {
    case 1
    with Cons.IH(1) bucket_task_spec show ?case by simp
  next
    case 2
    with Cons.IH(2) bucket_task_spec show ?case by simp
  next
    case 3
    with Cons.IH(3) bucket_task_spec show ?case by simp
  }
qed simp_all

section \<open>The region\<close>

lemma region_keys_build:
  "region_keys (build_task_region j job r) = map te_key (group_entries
     (foldl (bucket_task j job) (foldl (group_stage (jd_graph job)) [] (is_extend [] (map tt_stage (rt_tasks r))))
       (rt_tasks r)))"
proof -
  have "concat (map (\<lambda>(_, s). ts_tasks s) (concat (map (\<lambda>(k, grp).
      map (\<lambda>entries. (fst k, \<lparr>ts_entries = entries\<rparr>)) (sg_buckets grp)) m))) =
      map te_key (group_entries m)" for m :: stage_groups
  proof (induction m)
    case (Cons a m)
    have "concat (map (\<lambda>(_, s). ts_tasks s) (map (\<lambda>entries. (pl, \<lparr>ts_entries = entries\<rparr>)) bs)) =
        map te_key (concat bs)" for pl :: task_placement and bs
      by (induction bs) (auto simp: ts_tasks_def)
    with Cons show ?case by (cases a) (auto simp: group_entries_def)
  qed (simp add: group_entries_def)
  then show ?thesis by (simp add: build_task_region_def region_keys_def Let_def)
qed

text \<open>What the assigner may rely on: the placement of a set, and at most one task per stage in it.\<close>

definition region_sets_ok :: "job_graph \<Rightarrow> task_region \<Rightarrow> bool" where
  "region_sets_ok g tr = list_all (\<lambda>(pl, ts).
     list_all (\<lambda>k. st_placement (g_stages g ! tk_stage k) = pl) (ts_tasks ts) \<and>
     distinct (map tk_stage (ts_tasks ts))) (tr_tasks tr)"

lemma distinct_stages_bucket:
  fixes ks :: "task_key list"
  assumes "distinct ks" and ok: "\<And>k. k \<in> set ks \<Longrightarrow> tk_job_id k = j \<and>
      tk_attempt k = A (tk_stage k) (tk_partition k) \<and> tk_partition k < P (tk_stage k) \<and>
      P (tk_stage k) \<le> n \<and> b = bucket_of n (P (tk_stage k)) (tk_partition k)"
  shows "distinct (map tk_stage ks)"
  unfolding distinct_map
proof (intro conjI inj_onI assms(1))
  fix k k'
  assume k: "k \<in> set ks" "k' \<in> set ks" and st: "tk_stage k = tk_stage k'"
  note o1 = ok [OF k(1)] and o2 = ok [OF k(2)]
  have p: "tk_partition k = tk_partition k'"
    by (rule bucket_of_inj [of _ "P (tk_stage k)" _ n]) (use o1 o2 st in simp_all)
  have "tk_job_id k = tk_job_id k'" and "tk_attempt k = tk_attempt k'"
    using o1 o2 st p by simp_all
  with st p show "k = k'" by (cases k; cases k') simp
qed

lemma build_task_region_spec:
  assumes wf: "job_wf job" and r: "r \<in> set (jt_regions (jd_topology job))"
    and at: "\<And>t. t \<in> set (rt_tasks r) \<Longrightarrow> attempts_at (jd_stages job) (tt_stage t) (tt_partition t) \<noteq> []"
  shows "mset (region_keys (build_task_region j job r)) = mset (map (\<lambda>t. te_key (entry_of j job t)) (rt_tasks r))"
    and "distinct (region_keys (build_task_region j job r))"
    and "region_sets_ok (jd_graph job) (build_task_region j job r)"
proof -
  let ?ss = "is_extend [] (map tt_stage (rt_tasks r))" and ?g = "jd_graph job"
  let ?init = "foldl (group_stage ?g) [] ?ss"
  let ?m = "foldl (bucket_task j job) ?init (rt_tasks r)"
  have c0: "groups_cover ?g (set ?ss) ?init"
    using groups_cover_stages [OF groups_cover_Nil, of ?g ?ss] by simp
  have e0: "buckets_empty ?init" by (rule buckets_empty_stages) (simp add: buckets_empty_def)
  note p0 = buckets_empty_placed [OF e0, of ?g] and g0 = buckets_empty_entries [OF e0]
  have bk: "bucketable job (set ?ss) t" if "t \<in> set (rt_tasks r)" for t
  proof -
    have "task_in_range (jd_stages job) (tt_stage t) (tt_partition t)"
      by (rule job_wf_region_task [OF wf r that])
    then show ?thesis
      using at [OF that] that job_wf_task_in_range [OF wf, of "tt_stage t" "tt_partition t"]
      by (auto simp: bucketable_def all_tasks_def)
  qed
  note spec = bucket_tasks_spec [OF c0 p0 bk, of "rt_tasks r" j, simplified]
  have entries: "mset (group_entries ?m) = mset (map (entry_of j job) (rt_tasks r))"
    using spec(3) g0 by simp
  then have "mset (map te_key (group_entries ?m)) = mset (map te_key (map (entry_of j job) (rt_tasks r)))"
    by (simp only: mset_map)
  then show keys: "mset (region_keys (build_task_region j job r)) =
      mset (map (\<lambda>t. te_key (entry_of j job t)) (rt_tasks r))"
    unfolding region_keys_build by (simp add: comp_def)
  have "distinct (rt_tasks r)"
    using job_wf_region_distinct [OF wf] r by (auto simp: distinct_concat_iff)
  then have "distinct (map (\<lambda>t. te_key (entry_of j job t)) (rt_tasks r))"
    by (auto simp: distinct_map inj_on_def entry_of_def intro: task_topology_eqI)
  with keys show dk: "distinct (region_keys (build_task_region j job r))"
    by (metis mset_eq_imp_distinct_iff)
  show "region_sets_ok ?g (build_task_region j job r)"
    unfolding region_sets_ok_def list_all_iff
  proof (intro ballI, clarify, intro conjI ballI)
    fix pl ts
    assume "(pl, ts) \<in> set (tr_tasks (build_task_region j job r))"
    then obtain k grp b where k: "(k, grp) \<in> set ?m" "b < length (sg_buckets grp)"
      "pl = fst k" "ts = \<lparr>ts_entries = sg_buckets grp ! b\<rparr>"
      by (auto simp: build_task_region_def Let_def in_set_conv_nth [of _ "sg_buckets _"])
    have e: "e \<in> set (map (entry_of j job) (rt_tasks r)) \<and>
        group_key (g_stages ?g ! tk_stage (te_key e)) = k \<and>
        b = bucket_of (length (sg_buckets grp)) (stage_partitions (g_stages ?g ! tk_stage (te_key e))) (tk_partition (te_key e))"
      if "e \<in> set (sg_buckets grp ! b)" for e
    proof -
      have "e \<in> set (group_entries ?m)"
        using that bucket_in_entries [OF k(1,2)] by auto
      then have "e \<in> set (map (entry_of j job) (rt_tasks r))"
        unfolding mset_eq_setD [OF entries] .
      then show ?thesis using entries_placedD [OF spec(2) k(1,2) that] by blast
    qed
    show "st_placement (g_stages ?g ! tk_stage x) = pl" if "x \<in> set (ts_tasks ts)" for x
    proof -
      from that obtain e0 where e0: "e0 \<in> set (sg_buckets grp ! b)" "x = te_key e0"
        by (auto simp: k(4) ts_tasks_def)
      from e [OF e0(1)] show ?thesis by (auto simp: e0(2) k(3) group_key_def)
    qed
    have "distinct (map te_key (sg_buckets grp ! b))"
    proof -
      have "distinct (map te_key (group_entries ?m))" using dk by (simp add: region_keys_build)
      then show ?thesis using bucket_in_entries [OF k(1,2)] by auto
    qed
    then show "distinct (map tk_stage (ts_tasks ts))"
      unfolding k(4) ts_tasks_def task_set.select_convs
    proof (rule distinct_stages_bucket)
      fix y
      assume "y \<in> set (map te_key (sg_buckets grp ! b))"
      then obtain x where x: "x \<in> set (sg_buckets grp ! b)" and y: "y = te_key x" by auto
      note ex = e [OF x]
      then obtain t where t: "t \<in> set (rt_tasks r)" "x = entry_of j job t" by auto
      have "\<exists>grp'. im_get ?m k = Some grp' \<and> stage_partitions (g_stages ?g ! tt_stage t) \<le> length (sg_buckets grp')"
        using spec(1) bk [OF t(1)] ex t(2) unfolding groups_cover_def bucketable_def by (auto simp: entry_of_def)
      moreover have "im_get ?m k = Some grp" using spec(1) k(1) by (simp add: groups_cover_def)
      ultimately show "tk_job_id y = j \<and>
          tk_attempt y = (\<lambda>s p. length (attempts_at (jd_stages job) s p) - 1) (tk_stage y) (tk_partition y) \<and>
          tk_partition y < (\<lambda>s. stage_partitions (g_stages ?g ! s)) (tk_stage y) \<and>
          (\<lambda>s. stage_partitions (g_stages ?g ! s)) (tk_stage y) \<le> length (sg_buckets grp) \<and>
          b = bucket_of (length (sg_buckets grp)) ((\<lambda>s. stage_partitions (g_stages ?g ! s)) (tk_stage y)) (tk_partition y)"
        using ex bk [OF t(1)] by (auto simp: y t(2) entry_of_def bucketable_def)
    qed
  qed
qed

section \<open>The regions a refresh schedules\<close>

lemma build_task_region_cong:
  assumes "jd_graph job = jd_graph job'"
    and "\<And>t. t \<in> set (rt_tasks r) \<Longrightarrow> get_latest_task_attempt job (tt_stage t) (tt_partition t) =
      get_latest_task_attempt job' (tt_stage t) (tt_partition t)"
  shows "build_task_region j job r = build_task_region j job' r"
proof -
  have "foldl (bucket_task j job) m (rt_tasks r) = foldl (bucket_task j job') m (rt_tasks r)" for m
    by (rule foldl_cong_set) (simp only: bucket_task_def assms)
  then show ?thesis by (simp add: build_task_region_def assms(1))
qed

lemma get_latest_cong:
  assumes "shape (jd_stages job) = shape (jd_stages job')"
    and "attempts_at (jd_stages job) s p = attempts_at (jd_stages job') s p"
  shows "get_latest_task_attempt job s p = get_latest_task_attempt job' s p"
  using task_in_range_shape [OF assms(1)] assms(2) by (simp add: get_latest_task_attempt_def)

lemma schedule_region_actions:
  "snd (schedule_region ck j ja rr) = snd ja @ (if region_schedulable (fst ja) rr
     then [ScheduleTaskRegion (build_task_region j (fst (schedule_region ck j ja rr)) (snd rr))] else [])"
  by (simp add: schedule_region_def Let_def split: prod.splits)

lemma schedule_actions_built:
  assumes "distinct (concat (map (\<lambda>rr. rt_tasks (snd rr)) rrs))"
    and "list_all (\<lambda>rr. tasks_in_range (jd_stages (fst ja)) (rt_tasks (snd rr))) rrs"
  shows "snd (foldl (schedule_region ck j) ja rrs) = snd ja @
    map (\<lambda>rr. ScheduleTaskRegion (build_task_region j (fst (foldl (schedule_region ck j) ja rrs)) (snd rr)))
      (filter (region_schedulable (fst ja)) rrs)"
  using assms
proof (induction rrs arbitrary: ja)
  case (Cons rr rrs)
  let ?jb = "schedule_region ck j ja rr"
  let ?fin = "foldl (schedule_region ck j) ?jb rrs"
  have at: "attempts_at (jd_stages (fst ?jb)) s p =
     (if task_at s p \<in> set (rt_tasks (snd rr)) \<and> region_schedulable (fst ja) rr
      then attempts_at (jd_stages (fst ja)) s p @ [new_attempt ck] else attempts_at (jd_stages (fst ja)) s p)" for s p
    using Cons.prems by (intro attempts_at_schedule_region) auto
  have same: "region_schedulable (fst ?jb) q = region_schedulable (fst ja) q" if "q \<in> set rrs" for q
    using that Cons.prems(1) by (intro region_schedulable_cong) (auto simp: at)
  have rng: "list_all (\<lambda>rr. tasks_in_range (jd_stages (fst ?jb)) (rt_tasks (snd rr))) rrs"
    using Cons.prems(2) by (simp add: tasks_in_range_shape [OF schedule_region_frame(5)])
  have d: "distinct (concat (map (\<lambda>rr. rt_tasks (snd rr)) rrs))" using Cons.prems(1) by simp
  have "build_task_region j (fst ?jb) (snd rr) = build_task_region j (fst ?fin) (snd rr)"
  proof (rule build_task_region_cong)
    fix t
    assume t: "t \<in> set (rt_tasks (snd rr))"
    have "\<not> scheduled_now (fst ?jb) rrs (tt_stage t) (tt_partition t)"
      using Cons.prems(1) t by (auto simp: scheduled_now_def list_ex_iff)
    then show "get_latest_task_attempt (fst ?jb) (tt_stage t) (tt_partition t) =
        get_latest_task_attempt (fst ?fin) (tt_stage t) (tt_partition t)"
      by (intro get_latest_cong) (simp_all add: schedule_regions_spec [OF d rng])
  qed simp
  moreover have "filter (region_schedulable (fst ?jb)) rrs = filter (region_schedulable (fst ja)) rrs"
    by (rule filter_cong [OF refl same])
  ultimately show ?case
    using Cons.IH [OF d rng] schedule_region_actions [of ck j ja rr] by simp
qed simp

text \<open>
  C7. The regions a refresh hands to the task assigner are well formed. Each one is made of all
  the tasks of one region of the job's topology: it names every such task exactly once, with
  the latest attempt, which has just been created. Every task is in a set of the placement its
  stage asks for, and no set holds two tasks of the same stage, so that the partitions of a
  stage are spread over different slots.
\<close>

theorem refresh_job_schedules:
  assumes "js_step\<^sup>*\<^sup>* (job_scheduler_new opts cd) js" and "im_get (js_jobs js) j = Some job"
    and "is_running (jd_state job)" and "refresh_job ck j js = (js', acts)"
    and "ScheduleTaskRegion tr \<in> set acts"
  shows "region_sets_ok (jd_graph job) tr \<and> distinct (region_keys tr) \<and>
    (\<forall>k \<in> set (region_keys tr). get_task_state js' k = Some Task_Created) \<and>
    (\<exists>r \<in> set (jt_regions (jd_topology job)).
       mset (map (\<lambda>k. (tk_stage k, tk_partition k)) (region_keys tr)) =
       mset (map (\<lambda>t. (tt_stage t, tt_partition t)) (rt_tasks r)))"
proof -
  have inv: "js_inv js" using js_reachable_inv [OF assms(1)] by simp
  from inv assms(2-4) show ?thesis
  proof (cases rule: refresh_job_cases)
    case (refresh job' st acts0 acts1)
    have "ScheduleTaskRegion tr \<notin> set acts0"
      by (rule settle_actions [OF refresh(1,2) assms(3)])
        (auto simp: cancel_actions_def output_actions_def split: if_splits)
    then have tr: "ScheduleTaskRegion tr \<in> set acts1" using assms(5) by (simp add: refresh(6))
    then have job': "job' = fst (schedule_task_regions ck j st)"
      and acts1: "acts1 = snd (schedule_task_regions ck j st)"
      using refresh(7) by auto
    let ?rs = "jt_regions (jd_topology st)"
    have rng: "list_all (\<lambda>rr. tasks_in_range (jd_stages (fst (st, []))) (rt_tasks (snd rr))) (enumerate 0 ?rs)"
      using job_wf_tasks_in_range [OF refresh(3)] by (auto simp: list_all_iff in_set_enumerate_eq)
    from tr obtain i where i: "i < length ?rs" "region_schedulable st (i, ?rs ! i)"
      "tr = build_task_region j job' (?rs ! i)"
      using schedule_actions_built [OF _ rng, of ck j] job_wf_region_distinct [OF refresh(3)]
      by (auto simp: acts1 job' schedule_task_regions_def in_set_enumerate_eq)
    have wf': "job_wf job'" unfolding job' by (rule job_wf_frame [OF refresh(3)]) simp_all
    have r: "?rs ! i \<in> set (jt_regions (jd_topology job'))" using i(1) by (simp add: job')
    have at: "attempts_at (jd_stages job') (tt_stage t) (tt_partition t) =
        attempts_at (jd_stages st) (tt_stage t) (tt_partition t) @ [new_attempt ck]"
      if "t \<in> set (rt_tasks (?rs ! i))" for t
      using that i(2) scheduled_now_region [OF refresh(3) i(1), of "tt_stage t" "tt_partition t"]
      by (simp add: job' schedule_task_regions_attempts [OF refresh(3)])
    note spec = build_task_region_spec [OF wf' r, of j, folded i(3)]
    have keys: "mset (region_keys tr) = mset (map (\<lambda>t. te_key (entry_of j job' t)) (rt_tasks (?rs ! i)))"
      using spec(1) at by simp
    have g: "jd_graph job' = jd_graph job" "jd_topology job' = jd_topology job" by (rule refresh(9), rule refresh(8))
    have "get_task_state js' k = Some Task_Created" if k: "k \<in> set (region_keys tr)" for k
    proof -
      from k obtain t where t: "t \<in> set (rt_tasks (?rs ! i))" "k = te_key (entry_of j job' t)"
        using mset_eq_setD [OF keys] by auto
      have "task_in_range (jd_stages job') (tt_stage t) (tt_partition t)"
        by (rule job_wf_region_task [OF wf' r t(1)])
      then show ?thesis
        using refresh(5) at [OF t(1)] by (simp add: get_task_state_def t(2) entry_of_def Let_def new_attempt_def)
    qed
    moreover have "mset (map (\<lambda>k. (tk_stage k, tk_partition k)) (region_keys tr)) =
       mset (map (\<lambda>t. (tt_stage t, tt_partition t)) (rt_tasks (?rs ! i)))"
      unfolding mset_map keys by (simp add: image_mset.compositionality comp_def entry_of_def)
    ultimately show ?thesis
      using spec(2,3) at r by (auto simp: g)
  qed
qed

theorem refresh_job_schedules_witness:
  "\<exists>tr. ScheduleTaskRegion tr \<in> set (snd (refresh_job example_clock 1 example_accepted)) \<and>
     region_sets_ok example_graph tr \<and> distinct (region_keys tr)"
proof -
  let ?job = "the (im_get (js_jobs example_accepted) 1)"
  have job: "im_get (js_jobs example_accepted) 1 = Some ?job" "is_running (jd_state ?job)" by code_simp+
  have g: "jd_graph ?job = example_graph" by code_simp
  define tr where "tr = build_task_region 1 (the (im_get (js_jobs example_started) 1))
    (jt_regions (jd_topology ?job) ! 0)"
  have tr: "ScheduleTaskRegion tr \<in> set (snd (refresh_job example_clock 1 example_accepted))"
    unfolding tr_def by code_simp
  show ?thesis
    using refresh_job_schedules [OF example_steps(1) [unfolded example_new_def] job
        prod.collapse [symmetric, of "refresh_job example_clock 1 example_accepted"] tr] tr
    unfolding g by blast
qed

definition sliced_accepted :: job_scheduler where
  "sliced_accepted = (case accept_job example_clock
       (Inr \<lparr>g_stages = [example_stage [] 3 Placement_Worker], g_schema = 7\<rparr>) 0 example_new of
     Some (_, js, _) \<Rightarrow> js | None \<Rightarrow> example_new)"

fun region_set_sizes :: "job_action \<Rightarrow> (task_placement \<times> nat) list" where
  "region_set_sizes (ScheduleTaskRegion tr) = map (\<lambda>(pl, s). (pl, length (ts_entries s))) (tr_tasks tr)"
| "region_set_sizes _ = []"

text \<open>
  A component whose inputs are all forward is sliced into one region per partition. The buckets of such a
  region are still as many as the stage has partitions, so that a region with one task asks the assigner
  for a slot per partition, all but one of them for an empty task set.
\<close>

lemma sliced_region_empty_sets:
  "map region_set_sizes (snd (refresh_job example_clock 1 sliced_accepted)) =
     [[(Placement_Worker, 1), (Placement_Worker, 0), (Placement_Worker, 0)],
      [(Placement_Worker, 0), (Placement_Worker, 1), (Placement_Worker, 0)],
      [(Placement_Worker, 0), (Placement_Worker, 0), (Placement_Worker, 1)]]"
  by code_simp

end
