(* ===== verification/Job_Task_Inputs.thy ===== *)
theory Job_Task_Inputs
  imports Job_Region_Build
begin

text \<open>
  The task definitions the scheduler builds: which streams of the producing stage a task reads,
  in which order, and from where. The reader of partition \<open>i\<close> reads the \<open>i\<close>-th list of keys.
\<close>

section \<open>The streams of an input\<close>

text \<open>The pairs of partition and channel, arranged as the mode of the input asks for.\<close>

definition input_matrix :: "input_mode \<Rightarrow> nat \<Rightarrow> nat \<Rightarrow> (nat \<times> nat) list list" where
  "input_matrix m parts chans =
     (case m of
        Shuffle \<Rightarrow> map (\<lambda>c. map (\<lambda>p. (p, c)) [0..<parts]) [0..<chans]
      | Broadcast \<Rightarrow> [List.product [0..<parts] [0..<chans]]
      | _ \<Rightarrow> map (\<lambda>p. map (\<lambda>c. (p, c)) [0..<chans]) [0..<parts])"

definition key_ok :: "job_descriptor \<Rightarrow> nat \<Rightarrow> task_input_key \<Rightarrow> bool" where
  "key_ok job s ik \<longleftrightarrow> get_latest_task_attempt job s (ik_partition ik) = Some (ik_attempt ik)"

lemma task_input_key_of_Inr:
  "task_input_key_of job s p c = Inr ik \<longleftrightarrow>
     ik_partition ik = p \<and> ik_channel ik = c \<and> key_ok job s ik"
  by (cases ik) (auto simp: task_input_key_of_def key_ok_def split: option.splits)

lemma collect_keys:
  assumes "collect_results (\<lambda>x. task_input_key_of job s (f x) (g x)) xs = Inr ks"
  shows "map (\<lambda>ik. (ik_partition ik, ik_channel ik)) ks = map (\<lambda>x. (f x, g x)) xs \<and> list_all (key_ok job s) ks"
proof -
  from assms have "list_all2 (\<lambda>x ik. task_input_key_of job s (f x) (g x) = Inr ik) xs ks"
    by (simp add: collect_results_Inr)
  then show ?thesis by induction (auto simp: task_input_key_of_Inr)
qed

lemma collect_key_lists:
  assumes "collect_results (\<lambda>y. collect_results (\<lambda>x. task_input_key_of job s (f x y) (g x y)) xs) ys = Inr kss"
  shows "map (map (\<lambda>ik. (ik_partition ik, ik_channel ik))) kss = map (\<lambda>y. map (\<lambda>x. (f x y, g x y)) xs) ys \<and>
    list_all (list_all (key_ok job s)) kss"
proof -
  from assms have "list_all2 (\<lambda>y ks. collect_results (\<lambda>x. task_input_key_of job s (f x y) (g x y)) xs = Inr ks) ys kss"
    by (simp add: collect_results_Inr)
  then show ?thesis by induction (auto dest: collect_keys)
qed

lemma task_input_keys_matrix:
  assumes "task_input_keys job input x = Inr kss"
  shows "map (map (\<lambda>ik. (ik_partition ik, ik_channel ik))) kss =
      input_matrix (si_mode input) (stage_partitions x) (channels (st_distribution x)) \<and>
    list_all (list_all (key_ok job (si_stage input))) kss"
proof (cases "si_mode input")
  case Broadcast
  with assms obtain ks where ks: "kss = [ks]"
    "collect_results (\<lambda>pc. task_input_key_of job (si_stage input) (fst pc) (snd pc))
      (List.product [0..<stage_partitions x] [0..<channels (st_distribution x)]) = Inr ks"
    by (auto simp: task_input_keys_def Let_def case_prod_unfold split: sum.splits)
  then show ?thesis using Broadcast collect_keys [OF ks(2)] by (simp add: input_matrix_def)
qed (use assms in \<open>auto simp: task_input_keys_def input_matrix_def Let_def dest!: collect_key_lists\<close>)

lemma mset_product: "mset (List.product xs ys) = mset (concat (map (\<lambda>y. map (\<lambda>x. (x, y)) xs) ys))"
proof (induction xs)
  case Nil
  then show ?case by (induction ys) auto
next
  case (Cons x xs)
  have "mset (concat (map (\<lambda>y. (x, y) # map (\<lambda>x. (x, y)) xs) ys)) =
      mset (map (Pair x) ys) + mset (concat (map (\<lambda>y. map (\<lambda>x. (x, y)) xs) ys))"
    by (induction ys) auto
  with Cons show ?case by simp
qed

lemma product_concat: "List.product xs ys = concat (map (\<lambda>x. map (Pair x) ys) xs)"
  by (induction xs) auto

lemma input_matrix_complete:
  "mset (concat (input_matrix m parts chans)) = mset (List.product [0..<parts] [0..<chans])"
  by (cases m) (simp_all add: input_matrix_def mset_product [symmetric] product_concat [symmetric])

section \<open>Properties\<close>

text \<open>The keys of a locator, without the workers.\<close>

fun locator_keys :: "task_input_locator \<Rightarrow> task_input_key list list" where
  "locator_keys (Input_Driver _ kss) = kss"
| "locator_keys (Input_Worker _ kss) = map (map snd) kss"
| "locator_keys (Input_Remote _ _ kss) = kss"

text \<open>Each worker named in a locator is the one its task is assigned to.\<close>

fun locator_assigned :: "(task_key \<Rightarrow> task_assignment option) \<Rightarrow> (task_input_key \<Rightarrow> task_key) \<Rightarrow>
    task_input_locator \<Rightarrow> bool" where
  "locator_assigned asg key (Input_Driver _ kss) =
     list_all (list_all (\<lambda>ik. asg (key ik) = Some Assign_Driver)) kss"
| "locator_assigned asg key (Input_Worker _ kss) =
     list_all (list_all (\<lambda>(w, ik). case asg (key ik) of Some (Assign_Worker w' _) \<Rightarrow> w' = w | _ \<Rightarrow> False)) kss"
| "locator_assigned asg key (Input_Remote _ _ kss) = False"

lemma collect_workers:
  assumes "collect_results (\<lambda>ik. case asg (key ik) of
      Some (Assign_Worker w _) \<Rightarrow> Inr (w, ik) | _ \<Rightarrow> Inl e) ks = Inr wks"
  shows "map snd wks = ks \<and> list_all (\<lambda>(w, ik). case asg (key ik) of Some (Assign_Worker w' _) \<Rightarrow> w' = w | _ \<Rightarrow> False) wks"
proof -
  from assms have "list_all2 (\<lambda>ik wk. (case asg (key ik) of
      Some (Assign_Worker w _) \<Rightarrow> Inr (w, ik) | _ \<Rightarrow> Inl e) = Inr wk) ks wks"
    by (simp add: collect_results_Inr)
  then show ?thesis by induction (auto split: option.splits task_assignment.splits)
qed

lemma collect_worker_lists:
  assumes "collect_results (collect_results (\<lambda>ik. case asg (key ik) of
      Some (Assign_Worker w _) \<Rightarrow> Inr (w, ik) | _ \<Rightarrow> Inl e)) kss = Inr wkss"
  shows "map (map snd) wkss = kss \<and>
    list_all (list_all (\<lambda>(w, ik). case asg (key ik) of Some (Assign_Worker w' _) \<Rightarrow> w' = w | _ \<Rightarrow> False)) wkss"
proof -
  from assms have "list_all2 (\<lambda>ks wks. collect_results (\<lambda>ik. case asg (key ik) of
      Some (Assign_Worker w _) \<Rightarrow> Inr (w, ik) | _ \<Rightarrow> Inl e) ks = Inr wks) kss wkss"
    by (simp add: collect_results_Inr)
  then show ?thesis by induction (auto dest: collect_workers)
qed

text \<open>
  C15. A task input names exactly the streams its mode asks for. The pairs of partition and
  channel are arranged as the mode says (for a shuffle, the list of reader \<open>c\<close> holds channel \<open>c\<close>
  of every partition), together they are every channel of every partition of the producing
  stage exactly once, the attempt is the producer's latest, and the location named for a
  stream is where the assigner has put its task.
\<close>

theorem get_task_input_streams:
  assumes "get_task_input job k asg input = Inr ti"
  defines "x \<equiv> g_stages (jd_graph job) ! si_stage input"
  defines "streams \<equiv> map (map (\<lambda>ik. (ik_partition ik, ik_channel ik))) (locator_keys (ti_locator ti))"
  shows "streams = input_matrix (si_mode input) (stage_partitions x) (channels (st_distribution x)) \<and>
    mset (concat streams) = mset (List.product [0..<stage_partitions x] [0..<channels (st_distribution x)]) \<and>
    list_all (list_all (key_ok job (si_stage input))) (locator_keys (ti_locator ti)) \<and>
    locator_assigned asg (producer_task_key k input) (ti_locator ti)"
proof -
  from assms(1) obtain kss where kss: "task_input_keys job input x = Inr kss"
    "locator_keys (ti_locator ti) = kss \<and> locator_assigned asg (producer_task_key k input) (ti_locator ti)"
    by (auto simp: get_task_input_def x_def Let_def list_all_iff
        split: if_splits sum.splits output_mode.splits task_placement.splits dest!: collect_worker_lists)
  from task_input_keys_matrix [OF kss(1)] kss(2) input_matrix_complete show ?thesis
    by (simp add: streams_def)
qed

theorem get_task_input_streams_witness:
  "let asg = (\<lambda>k. if tk_stage k = 0 then Some (Assign_Worker (of_nat (tk_partition k + 5)) 0) else None);
       input = \<lparr>si_stage = 0, si_mode = Merge\<rparr>;
       job = the (im_get (js_jobs example_retried) 1);
       ti = \<lparr>ti_locator = Input_Worker 0
         [[(5, \<lparr>ik_partition = 0, ik_attempt = 1, ik_channel = 0\<rparr>)],
          [(6, \<lparr>ik_partition = 1, ik_attempt = 1, ik_channel = 0\<rparr>)]]\<rparr>
   in get_task_input job (example_key 1 0 1) asg input = Inr ti \<and>
      locator_assigned asg (producer_task_key (example_key 1 0 1) input) (ti_locator ti)"
  (is "let asg = ?asg; input = ?input; job = ?job; ti = ?ti in _")
proof -
  have ti: "get_task_input ?job (example_key 1 0 1) ?asg ?input = Inr ?ti" by code_simp
  from get_task_input_streams [OF this] ti show ?thesis unfolding Let_def by blast
qed

end
