(* ===== verification/Task_Assigner.thy ===== *)
theory Task_Assigner
  imports Task_Types
begin

text \<open>
  The task assigner of \<open>driver/task_assigner/\<close>: the task slots of the driver and of the workers,
  the queue of task regions, and \<open>assign_tasks\<close>, which places whole regions on vacant slots in the
  order of the queue. The placement policy is a process-wide constant of the source
  (\<open>placement_policy()\<close>), hence an argument of the operations that use it.
\<close>

section \<open>Slots and resources\<close>

record task_slot =
  sl_tasks :: "task_key list"

definition task_slot_default :: task_slot where
  "task_slot_default = \<lparr>sl_tasks = []\<rparr>"

definition is_vacant :: "task_slot \<Rightarrow> bool" where
  "is_vacant s \<longleftrightarrow> sl_tasks s = []"

definition slot_add_tasks :: "task_key list \<Rightarrow> task_slot \<Rightarrow> task_slot" where
  "slot_add_tasks ks s = s\<lparr>sl_tasks := is_extend (sl_tasks s) ks\<rparr>"

definition slot_remove_task :: "task_key \<Rightarrow> task_slot \<Rightarrow> task_slot \<times> bool" where
  "slot_remove_task k s = (s\<lparr>sl_tasks := swap_remove k (sl_tasks s)\<rparr>, k \<in> set (sl_tasks s))"

record driver_resource =
  dr_task_slots :: "task_slot list"
  dr_local_streams :: "task_key list"
  dr_remote_streams :: "task_key list"

definition driver_resource_default :: driver_resource where
  "driver_resource_default = \<lparr>dr_task_slots = [], dr_local_streams = [], dr_remote_streams = []\<rparr>"

fun add_to_vacant :: "task_key list \<Rightarrow> task_slot list \<Rightarrow> task_slot list" where
  "add_to_vacant ks [] = [slot_add_tasks ks task_slot_default]"
| "add_to_vacant ks (s # ss) =
     (if is_vacant s then slot_add_tasks ks s # ss else s # add_to_vacant ks ss)"

definition driver_add_task_set :: "task_set \<Rightarrow> driver_resource \<Rightarrow> driver_resource" where
  "driver_add_task_set ts d = d\<lparr>dr_task_slots := add_to_vacant (ts_tasks ts) (dr_task_slots d)\<rparr>"

fun remove_first :: "task_key \<Rightarrow> task_slot list \<Rightarrow> task_slot list \<times> bool" where
  "remove_first k [] = ([], False)"
| "remove_first k (s # ss) =
     (let (s', found) = slot_remove_task k s in
      if found then (s' # ss, True)
      else let (ss', found') = remove_first k ss in (s' # ss', found'))"

definition driver_remove_task :: "task_key \<Rightarrow> driver_resource \<Rightarrow> driver_resource \<times> bool" where
  "driver_remove_task k d =
     (let (ss, found) = remove_first k (dr_task_slots d) in (d\<lparr>dr_task_slots := ss\<rparr>, found))"

definition driver_track_local_streams :: "task_set \<Rightarrow> driver_resource \<Rightarrow> driver_resource" where
  "driver_track_local_streams ts d =
     d\<lparr>dr_local_streams := is_extend (dr_local_streams d) (ts_local_streams ts)\<rparr>"

definition driver_track_remote_streams :: "task_set \<Rightarrow> driver_resource \<Rightarrow> driver_resource" where
  "driver_track_remote_streams ts d =
     d\<lparr>dr_remote_streams := is_extend (dr_remote_streams d) (ts_remote_streams ts)\<rparr>"

text \<open>The streams a clean-up of a job, or of one of its stages, keeps.\<close>

definition retain_streams :: "job_id \<Rightarrow> nat option \<Rightarrow> task_key list \<Rightarrow> task_key list" where
  "retain_streams j stage ks =
     (case stage of
        Some s \<Rightarrow> filter (\<lambda>x. tk_job_id x \<noteq> j \<or> tk_stage x \<noteq> s) ks
      | None \<Rightarrow> filter (\<lambda>x. tk_job_id x \<noteq> j) ks)"

definition driver_untrack_local_streams ::
  "job_id \<Rightarrow> nat option \<Rightarrow> driver_resource \<Rightarrow> driver_resource \<times> bool" where
  "driver_untrack_local_streams j stage d =
     (let ks = retain_streams j stage (dr_local_streams d)
      in (d\<lparr>dr_local_streams := ks\<rparr>, length (dr_local_streams d) \<noteq> length ks))"

definition driver_untrack_remote_streams ::
  "job_id \<Rightarrow> nat option \<Rightarrow> driver_resource \<Rightarrow> driver_resource \<times> bool" where
  "driver_untrack_remote_streams j stage d =
     (let ks = retain_streams j stage (dr_remote_streams d)
      in (d\<lparr>dr_remote_streams := ks\<rparr>, length (dr_remote_streams d) \<noteq> length ks))"

datatype worker_resource =
    Res_Active (res_task_slots: "task_slot list") (res_local_streams: "task_key list")
  | Res_Inactive

fun worker_add_task_set :: "nat \<Rightarrow> task_set \<Rightarrow> worker_resource \<Rightarrow> worker_resource" where
  "worker_add_task_set slot ts (Res_Active ss ls) =
     (if slot < length ss then Res_Active (ss[slot := slot_add_tasks (ts_tasks ts) (ss ! slot)]) ls
      else Res_Active ss ls)"
| "worker_add_task_set slot ts Res_Inactive = Res_Inactive"

fun worker_remove_task :: "task_key \<Rightarrow> nat \<Rightarrow> worker_resource \<Rightarrow> worker_resource \<times> bool" where
  "worker_remove_task k slot (Res_Active ss ls) =
     (if slot < length ss
      then let (s', found) = slot_remove_task k (ss ! slot) in (Res_Active (ss[slot := s']) ls, found)
      else (Res_Active ss ls, False))"
| "worker_remove_task k slot Res_Inactive = (Res_Inactive, False)"

fun worker_track_local_streams :: "task_set \<Rightarrow> worker_resource \<Rightarrow> worker_resource" where
  "worker_track_local_streams ts (Res_Active ss ls) = Res_Active ss (is_extend ls (ts_local_streams ts))"
| "worker_track_local_streams ts Res_Inactive = Res_Inactive"

fun worker_untrack_local_streams ::
  "job_id \<Rightarrow> nat option \<Rightarrow> worker_resource \<Rightarrow> worker_resource \<times> bool" where
  "worker_untrack_local_streams j stage (Res_Active ss ls) =
     (let ks = retain_streams j stage ls in (Res_Active ss ks, length ls \<noteq> length ks))"
| "worker_untrack_local_streams j stage Res_Inactive = (Res_Inactive, False)"

fun is_active :: "worker_resource \<Rightarrow> bool" where
  "is_active (Res_Active _ _) = True"
| "is_active Res_Inactive = False"

section \<open>The assigner\<close>

record task_assigner_options =
  ao_worker_task_slots :: nat
  ao_worker_max_count :: nat

record task_assigner =
  tg_options :: task_assigner_options
  tg_driver :: driver_resource
  tg_workers :: "(worker_id, worker_resource) index_map"
  tg_requested_worker_count :: nat
  tg_task_assignments :: "(task_key, task_assignment) index_map"
  tg_task_queue :: "task_region list"

definition task_assigner_new :: "task_assigner_options \<Rightarrow> task_assigner" where
  "task_assigner_new opts =
     \<lparr>tg_options = opts, tg_driver = driver_resource_default, tg_workers = [],
      tg_requested_worker_count = 0, tg_task_assignments = [], tg_task_queue = []\<rparr>"

definition worker_set_count :: "task_region \<Rightarrow> nat" where
  "worker_set_count r = length (filter (\<lambda>(pl, _). pl = Placement_Worker) (tr_tasks r))"

fun vacant_slot_count :: "worker_resource \<Rightarrow> nat" where
  "vacant_slot_count (Res_Active ss _) = length (filter is_vacant ss)"
| "vacant_slot_count Res_Inactive = 0"

text \<open>\<open>None\<close> is the panic of a division by zero in \<open>div_ceil\<close>.\<close>

definition request_workers :: "task_assigner \<Rightarrow> (nat \<times> task_assigner) option" where
  "request_workers ta =
     (let enqueued_slots = sum_list (map worker_set_count (tg_task_queue ta));
          vacant_slots = sum_list (map vacant_slot_count (im_values (tg_workers ta)));
          required_slots = enqueued_slots - vacant_slots;
          active_workers = length (filter is_active (im_values (tg_workers ta)));
          allowed_workers = (if ao_worker_max_count (tg_options ta) = 0 then usize_max
            else ao_worker_max_count (tg_options ta) - tg_requested_worker_count ta - active_workers)
      in case div_ceil required_slots (ao_worker_task_slots (tg_options ta)) of
           None \<Rightarrow> None
         | Some n \<Rightarrow>
             let required_workers = min n allowed_workers
             in Some (required_workers, ta\<lparr>tg_requested_worker_count :=
                  saturating_add (tg_requested_worker_count ta) required_workers\<rparr>))"

definition track_worker_failed_to_start :: "task_assigner \<Rightarrow> task_assigner" where
  "track_worker_failed_to_start ta =
     ta\<lparr>tg_requested_worker_count := tg_requested_worker_count ta - 1\<rparr>"

definition activate_worker :: "worker_id \<Rightarrow> task_assigner \<Rightarrow> task_assigner" where
  "activate_worker w ta =
     (let ta1 = ta\<lparr>tg_requested_worker_count := tg_requested_worker_count ta - 1\<rparr> in
      if im_get (tg_workers ta1) w \<noteq> None then ta1
      else ta1\<lparr>tg_workers := im_insert w
             (Res_Active (replicate (ao_worker_task_slots (tg_options ta1)) task_slot_default) [])
             (tg_workers ta1)\<rparr>)"

definition deactivate_worker :: "worker_id \<Rightarrow> task_assigner \<Rightarrow> task_assigner" where
  "deactivate_worker w ta = ta\<lparr>tg_workers := im_modify w (\<lambda>_. Res_Inactive) (tg_workers ta)\<rparr>"

definition enqueue_tasks :: "task_region \<Rightarrow> task_assigner \<Rightarrow> task_assigner" where
  "enqueue_tasks r ta = ta\<lparr>tg_task_queue := tg_task_queue ta @ [r]\<rparr>"

definition exclude_task :: "task_key \<Rightarrow> task_assigner \<Rightarrow> task_assigner" where
  "exclude_task k ta = ta\<lparr>tg_task_queue := filter (\<lambda>r. \<not> tr_contains r k) (tg_task_queue ta)\<rparr>"

subsection \<open>Placement\<close>

datatype placement_policy = FillFirst | EvenSpread

definition resolve_placement_policy :: "(string \<Rightarrow> string option) \<Rightarrow> placement_policy" where
  "resolve_placement_policy env =
     (if env ''ZELOX_DISTRIBUTED_STREAM'' = Some ''1'' \<or> env ''ZELOX_EVEN_SPREAD'' = Some ''1''
      then EvenSpread else FillFirst)"

type_synonym free_slots = "(worker_id \<times> nat list) list"
type_synonym slot_supply = "free_slots \<Rightarrow> ((worker_id \<times> nat) \<times> free_slots) option"

fun next_fill_first :: slot_supply where
  "next_fill_first [] = None"
| "next_fill_first ((w, ss) # rest) =
     (if ss = [] then
        (case next_fill_first rest of None \<Rightarrow> None | Some (x, rest') \<Rightarrow> Some (x, (w, ss) # rest'))
      else Some ((w, last ss), (w, butlast ss) # rest))"

definition best_worker :: "free_slots \<Rightarrow> nat option" where
  "best_worker slots = fst (foldl (\<lambda>(best, best_len) (i, (w, ss)).
     if best_len < length ss then (Some i, length ss) else (best, best_len)) (None, 0) (enumerate 0 slots))"

definition next_even_spread :: slot_supply where
  "next_even_spread slots =
     (case best_worker slots of
        None \<Rightarrow> None
      | Some i \<Rightarrow>
          let (w, ss) = slots ! i in
          if ss = [] then None else Some ((w, last ss), slots[i := (w, butlast ss)]))"

fun slot_next :: "placement_policy \<Rightarrow> slot_supply" where
  "slot_next FillFirst = next_fill_first"
| "slot_next EvenSpread = next_even_spread"

text \<open>
  The loop over the sets of a region; \<open>None\<close> is the error that returns the region. The slots taken
  before the error stay taken, as in the source.
\<close>

fun try_assign_sets :: "slot_supply \<Rightarrow> free_slots \<Rightarrow> (task_placement \<times> task_set) list \<Rightarrow>
    task_set_assignment list option \<times> free_slots" where
  "try_assign_sets nxt slots [] = (Some [], slots)"
| "try_assign_sets nxt slots ((Placement_Driver, ts) # rest) =
     (let (res, slots') = try_assign_sets nxt slots rest
      in (map_option ((#) \<lparr>ta_set = ts, ta_assignment = Assign_Driver\<rparr>) res, slots'))"
| "try_assign_sets nxt slots ((Placement_Worker, ts) # rest) =
     (case nxt slots of
        None \<Rightarrow> (None, slots)
      | Some ((w, slot), slots1) \<Rightarrow>
          let (res, slots') = try_assign_sets nxt slots1 rest
          in (map_option ((#) \<lparr>ta_set = ts, ta_assignment = Assign_Worker w slot\<rparr>) res, slots'))"

definition try_assign_task_region :: "slot_supply \<Rightarrow> free_slots \<Rightarrow> task_region \<Rightarrow>
    task_set_assignment list option \<times> free_slots" where
  "try_assign_task_region nxt slots r = try_assign_sets nxt slots (tr_tasks r)"

fun assign_regions :: "slot_supply \<Rightarrow> free_slots \<Rightarrow> task_region list \<Rightarrow>
    task_set_assignment list \<times> task_region list" where
  "assign_regions nxt slots [] = ([], [])"
| "assign_regions nxt slots (r # rs) =
     (case try_assign_task_region nxt slots r of
        (Some as, slots') \<Rightarrow> let (bs, rest) = assign_regions nxt slots' rs in (as @ bs, rest)
      | (None, _) \<Rightarrow> ([], r # rs))"

definition vacant_slots :: "task_slot list \<Rightarrow> nat list" where
  "vacant_slots ss = map fst (filter (\<lambda>(i, s). is_vacant s) (enumerate 0 ss))"

definition build_worker_task_slot_assigner :: "task_assigner \<Rightarrow> free_slots" where
  "build_worker_task_slot_assigner ta =
     filter (\<lambda>(w, ss). ss \<noteq> [])
       (map (\<lambda>(w, res). (w, case res of Res_Inactive \<Rightarrow> [] | Res_Active ss _ \<Rightarrow> vacant_slots ss))
         (tg_workers ta))"

definition insert_assignments ::
  "task_assignment \<Rightarrow> task_key list \<Rightarrow> (task_key, task_assignment) index_map \<Rightarrow>
   (task_key, task_assignment) index_map" where
  "insert_assignments a ks m = foldl (\<lambda>m k. im_insert k a m) m ks"

definition apply_assignment :: "task_assigner \<Rightarrow> task_set_assignment \<Rightarrow> task_assigner" where
  "apply_assignment ta x =
     (case ta_assignment x of
        Assign_Driver \<Rightarrow>
          ta\<lparr>tg_driver := driver_add_task_set (ta_set x) (tg_driver ta),
             tg_task_assignments :=
               insert_assignments Assign_Driver (ts_tasks (ta_set x)) (tg_task_assignments ta)\<rparr>
      | Assign_Worker w slot \<Rightarrow>
          (case im_get (tg_workers ta) w of
             None \<Rightarrow> ta
           | Some res \<Rightarrow>
               ta\<lparr>tg_workers := im_modify w (worker_add_task_set slot (ta_set x)) (tg_workers ta),
                  tg_task_assignments := insert_assignments (Assign_Worker w slot)
                    (ts_tasks (ta_set x)) (tg_task_assignments ta)\<rparr>))"

definition assign_tasks ::
  "placement_policy \<Rightarrow> task_assigner \<Rightarrow> task_set_assignment list \<times> task_assigner" where
  "assign_tasks policy ta =
     (if 0 < tg_requested_worker_count ta then ([], ta)
      else let (assignments, rest) = assign_regions (slot_next policy)
                  (build_worker_task_slot_assigner ta) (tg_task_queue ta)
           in (assignments, foldl apply_assignment (ta\<lparr>tg_task_queue := rest\<rparr>) assignments))"

subsection \<open>Releasing and querying\<close>

definition unassign_task :: "task_key \<Rightarrow> task_assigner \<Rightarrow> task_assignment option \<times> task_assigner" where
  "unassign_task k ta =
     (case im_get (tg_task_assignments ta) k of
        None \<Rightarrow> (None, ta)
      | Some Assign_Driver \<Rightarrow>
          (Some Assign_Driver, ta\<lparr>tg_driver := fst (driver_remove_task k (tg_driver ta))\<rparr>)
      | Some (Assign_Worker w slot) \<Rightarrow>
          if im_get (tg_workers ta) w = None then (None, ta)
          else (Some (Assign_Worker w slot), ta\<lparr>tg_workers :=
                  im_modify w (\<lambda>res. fst (worker_remove_task k slot res)) (tg_workers ta)\<rparr>))"

definition track_assignment_streams :: "task_assigner \<Rightarrow> task_set_assignment \<Rightarrow> task_assigner" where
  "track_assignment_streams ta x =
     (let ta1 = ta\<lparr>tg_driver := driver_track_remote_streams (ta_set x) (tg_driver ta)\<rparr> in
      case ta_assignment x of
        Assign_Driver \<Rightarrow> ta1\<lparr>tg_driver := driver_track_local_streams (ta_set x) (tg_driver ta1)\<rparr>
      | Assign_Worker w _ \<Rightarrow>
          ta1\<lparr>tg_workers := im_modify w (worker_track_local_streams (ta_set x)) (tg_workers ta1)\<rparr>)"

definition track_streams :: "task_set_assignment list \<Rightarrow> task_assigner \<Rightarrow> task_assigner" where
  "track_streams as ta = foldl track_assignment_streams ta as"

text \<open>
  The source collects the resources that lost a stream in a hash set; the model lists them, the
  driver first and the workers in the order of the table.
\<close>

definition untrack_local_streams ::
  "job_id \<Rightarrow> nat option \<Rightarrow> task_assigner \<Rightarrow> task_stream_assignment list \<times> task_assigner" where
  "untrack_local_streams j stage ta =
     (let (d, found) = driver_untrack_local_streams j stage (tg_driver ta);
          ws = map (\<lambda>(w, res). (w, worker_untrack_local_streams j stage res)) (tg_workers ta)
      in ((if found then [Stream_Driver] else []) @
            map (\<lambda>(w, _). Stream_Worker w) (filter (\<lambda>(w, res, f). f) ws),
          ta\<lparr>tg_driver := d, tg_workers := map (\<lambda>(w, res, f). (w, res)) ws\<rparr>))"

definition untrack_remote_streams :: "job_id \<Rightarrow> nat option \<Rightarrow> task_assigner \<Rightarrow> bool \<times> task_assigner" where
  "untrack_remote_streams j stage ta =
     (let (d, found) = driver_untrack_remote_streams j stage (tg_driver ta)
      in (found, ta\<lparr>tg_driver := d\<rparr>))"

definition is_worker_idle :: "task_assigner \<Rightarrow> worker_id \<Rightarrow> bool" where
  "is_worker_idle ta w =
     (case im_get (tg_workers ta) w of
        Some (Res_Active ss ls) \<Rightarrow> list_all is_vacant ss \<and> ls = []
      | _ \<Rightarrow> False)"

definition find_worker_tasks :: "task_assigner \<Rightarrow> worker_id \<Rightarrow> task_key list" where
  "find_worker_tasks ta w =
     (case im_get (tg_workers ta) w of
        Some (Res_Active ss ls) \<Rightarrow> concat (map sl_tasks ss)
      | _ \<Rightarrow> [])"

definition get_assignment :: "task_assigner \<Rightarrow> task_key \<Rightarrow> task_assignment option" where
  "get_assignment ta k = im_get (tg_task_assignments ta) k"

end
