(* ===== verification/Task_Assigner_Correct.thy ===== *)
theory Task_Assigner_Correct
  imports Task_Assigner
begin

text \<open>
  Correctness of the task assigner: both placement policies supply each vacant slot once
  (locale \<open>slot_source\<close>), \<open>assign_tasks\<close> places whole regions in the order of the queue and
  stops only for lack of slots, the table of assignments agrees with the slots, a slot holds at
  most one task of each stage, and the number of workers requested is enough and bounded.
\<close>

section \<open>The supply of slots\<close>

definition flat_slots :: "free_slots \<Rightarrow> (worker_id \<times> nat) list" where
  "flat_slots slots = concat (map (\<lambda>(w, ss). map (Pair w) ss) slots)"

definition assigned_slots :: "task_set_assignment list \<Rightarrow> (worker_id \<times> nat) list" where
  "assigned_slots as = concat (map (\<lambda>a. case ta_assignment a of
     Assign_Worker w slot \<Rightarrow> [(w, slot)] | Assign_Driver \<Rightarrow> []) as)"

text \<open>The assignment of a set honours the placement the region asks for.\<close>

definition placed :: "task_placement \<times> task_set \<Rightarrow> task_set_assignment \<Rightarrow> bool" where
  "placed ps a \<longleftrightarrow> ta_set a = snd ps \<and> (fst ps = Placement_Driver \<longleftrightarrow> ta_assignment a = Assign_Driver)"

lemma flat_slots_simps [simp]:
  "flat_slots [] = []"
  "flat_slots ((w, ss) # rest) = map (Pair w) ss @ flat_slots rest"
  by (simp_all add: flat_slots_def)

lemma assigned_slots_simps [simp]:
  "assigned_slots [] = []"
  "assigned_slots (\<lparr>ta_set = ts, ta_assignment = Assign_Driver\<rparr> # as) = assigned_slots as"
  "assigned_slots (\<lparr>ta_set = ts, ta_assignment = Assign_Worker w slot\<rparr> # as) = (w, slot) # assigned_slots as"
  "assigned_slots (as @ bs) = assigned_slots as @ assigned_slots bs"
  by (simp_all add: assigned_slots_def)

locale slot_source =
  fixes nxt :: slot_supply
  assumes nxt_Some: "nxt slots = Some (x, slots') \<Longrightarrow> mset (flat_slots slots) = add_mset x (mset (flat_slots slots'))"
    and nxt_None: "nxt slots = None \<Longrightarrow> flat_slots slots = []"
begin

lemma try_assign_sets_Some:
  "try_assign_sets nxt slots sets = (Some as, slots') \<Longrightarrow>
   list_all2 placed sets as \<and> mset (flat_slots slots) = mset (assigned_slots as) + mset (flat_slots slots')"
proof (induction sets arbitrary: slots as)
  case (Cons ps sets)
  obtain pl ts where ps: "ps = (pl, ts)" by (cases ps)
  show ?case
  proof (cases pl)
    case Placement_Driver
    then show ?thesis using Cons ps by (auto simp: placed_def split: prod.splits)
  next
    case Placement_Worker
    with Cons.prems ps obtain w i slots1 as1 where n: "nxt slots = Some ((w, i), slots1)"
      "try_assign_sets nxt slots1 sets = (Some as1, slots')"
      "as = \<lparr>ta_set = ts, ta_assignment = Assign_Worker w i\<rparr> # as1"
      by (auto split: option.splits prod.splits)
    show ?thesis
      using Cons.IH [OF n(2)] nxt_Some [OF n(1)] Placement_Worker ps n(3) by (simp add: placed_def)
  qed
qed simp

lemma try_assign_sets_None:
  "try_assign_sets nxt slots sets = (None, slots') \<Longrightarrow>
   length (flat_slots slots) < length (filter (\<lambda>(pl, _). pl = Placement_Worker) sets)"
proof (induction sets arbitrary: slots)
  case (Cons ps sets)
  obtain pl ts where ps: "ps = (pl, ts)" by (cases ps)
  show ?case
  proof (cases pl)
    case Placement_Driver
    then show ?thesis using Cons ps by (auto split: prod.splits)
  next
    case Placement_Worker
    show ?thesis
    proof (cases "nxt slots")
      case None
      then show ?thesis using nxt_None Placement_Worker ps by simp
    next
      case (Some x)
      then obtain w i slots1 where n: "nxt slots = Some ((w, i), slots1)" by (metis prod.collapse)
      with Cons.prems Placement_Worker ps have "try_assign_sets nxt slots1 sets = (None, slots')"
        by (auto split: prod.splits)
      note IH = Cons.IH [OF this]
      have "length (flat_slots slots) = Suc (length (flat_slots slots1))"
        using arg_cong [OF nxt_Some [OF n], of size] by simp
      then show ?thesis using IH Placement_Worker ps by simp
    qed
  qed
qed simp

lemma assign_regions_spec:
  "assign_regions nxt slots rs = (as, rest) \<Longrightarrow>
   \<exists>done left. rs = done @ rest \<and> list_all2 placed (concat (map tr_tasks done)) as \<and>
     mset (flat_slots slots) = mset (assigned_slots as) + mset left \<and>
     (rest \<noteq> [] \<longrightarrow> length left < worker_set_count (hd rest))"
proof (induction rs arbitrary: slots as)
  case (Cons r rs)
  show ?case
  proof (cases "try_assign_task_region nxt slots r")
    case (Pair res slots1)
    show ?thesis
    proof (cases res)
      case None
      with Pair Cons.prems have "as = []" "rest = r # rs" by auto
      moreover have "length (flat_slots slots) < worker_set_count r"
        using try_assign_sets_None Pair None by (simp add: try_assign_task_region_def worker_set_count_def)
      ultimately show ?thesis by (intro exI [of _ "[]"] exI [of _ "flat_slots slots"]) simp
    next
      case (Some as1)
      with Pair Cons.prems obtain bs where bs: "assign_regions nxt slots1 rs = (bs, rest)" "as = as1 @ bs"
        by (auto split: prod.splits)
      from Cons.IH [OF bs(1)] obtain don left where IH: "rs = don @ rest"
        "list_all2 placed (concat (map tr_tasks don)) bs"
        "mset (flat_slots slots1) = mset (assigned_slots bs) + mset left"
        "rest \<noteq> [] \<longrightarrow> length left < worker_set_count (hd rest)" by blast
      have "list_all2 placed (tr_tasks r) as1" and
        "mset (flat_slots slots) = mset (assigned_slots as1) + mset (flat_slots slots1)"
        using try_assign_sets_Some Pair Some by (auto simp: try_assign_task_region_def)
      with IH bs(2) show ?thesis
        by (intro exI [of _ "r # don"] exI [of _ left]) (simp add: list_all2_appendI)
    qed
  qed
qed auto

end

subsection \<open>The two policies\<close>

lemma next_fill_first_Some:
  "next_fill_first slots = Some (x, slots') \<Longrightarrow> mset (flat_slots slots) = add_mset x (mset (flat_slots slots'))"
proof (induction slots arbitrary: slots')
  case (Cons ws slots)
  obtain w ss where ws: "ws = (w, ss)" by (cases ws)
  show ?case
  proof (cases ss rule: rev_cases)
    case Nil
    with Cons ws show ?thesis by (auto split: option.splits)
  next
    case (snoc ss' i)
    with Cons.prems ws show ?thesis by auto
  qed
qed simp

lemma next_fill_first_None: "next_fill_first slots = None \<Longrightarrow> flat_slots slots = []"
proof (induction slots)
  case (Cons ws slots)
  then show ?case by (cases ws) (auto split: if_splits option.splits)
qed simp

text \<open>The loop of the even-spread policy finds the first worker with the most free slots.\<close>

lemma best_worker_loop:
  assumes "foldl (\<lambda>(best, best_len) (i, (w, ss)). if best_len < length ss then (Some i, length ss) else (best, best_len))
      (None, 0) (enumerate 0 slots) = (best, n)"
  shows "(\<forall>(w, ss) \<in> set slots. length ss \<le> n) \<and>
    (case best of None \<Rightarrow> n = 0
     | Some i \<Rightarrow> 0 < n \<and> i < length slots \<and> length (snd (slots ! i)) = n \<and>
         (\<forall>k < i. length (snd (slots ! k)) < n))"
  using assms
proof (induction slots arbitrary: best n rule: rev_induct)
  case (snoc ws slots)
  obtain w ss where ws: "ws = (w, ss)" by (cases ws)
  obtain b m where bm: "foldl (\<lambda>(best, best_len) (i, (w, ss)). if best_len < length ss then (Some i, length ss) else (best, best_len))
      (None, 0) (enumerate 0 slots) = (b, m)" by fastforce
  note IH = snoc.IH [OF bm]
  have res: "(best, n) = (if m < length ss then (Some (length slots), length ss) else (b, m))"
    using snoc.prems bm ws by (simp add: enumerate_append_eq)
  show ?case
  proof (cases "m < length ss")
    case True
    have "length (snd (slots ! k)) < length ss" if "k < length slots" for k
      using IH True nth_mem [OF that] by fastforce
    with True res IH ws show ?thesis by (fastforce simp: nth_append)
  next
    case False
    then show ?thesis using res IH ws by (auto simp: nth_append split: option.splits)
  qed
qed simp

lemma best_worker_spec:
  shows "best_worker slots = None \<Longrightarrow> flat_slots slots = []"
    and "best_worker slots = Some i \<Longrightarrow> i < length slots \<and> snd (slots ! i) \<noteq> [] \<and>
      (\<forall>(w, ss) \<in> set slots. length ss \<le> length (snd (slots ! i))) \<and>
      (\<forall>k < i. length (snd (slots ! k)) < length (snd (slots ! i)))"
proof -
  obtain b n where bn: "foldl (\<lambda>(best, best_len) (i, (w, ss)). if best_len < length ss then (Some i, length ss) else (best, best_len))
      (None, 0) (enumerate 0 slots) = (b, n)" by fastforce
  note sp = best_worker_loop [OF bn]
  show "best_worker slots = None \<Longrightarrow> flat_slots slots = []"
    using sp by (auto simp: best_worker_def bn flat_slots_def)
  show "best_worker slots = Some i \<Longrightarrow> i < length slots \<and> snd (slots ! i) \<noteq> [] \<and>
      (\<forall>(w, ss) \<in> set slots. length ss \<le> length (snd (slots ! i))) \<and>
      (\<forall>k < i. length (snd (slots ! k)) < length (snd (slots ! i)))"
    using sp by (auto simp: best_worker_def bn)
qed

lemma flat_slots_update:
  "i < length slots \<Longrightarrow> slots ! i = (w, ss @ [k]) \<Longrightarrow>
   mset (flat_slots slots) = add_mset (w, k) (mset (flat_slots (slots[i := (w, ss)])))"
proof (induction slots arbitrary: i)
  case (Cons ws slots)
  then show ?case by (cases ws; cases i) auto
qed simp

lemma next_even_spread_Some:
  assumes "next_even_spread slots = Some (x, slots')"
  shows "mset (flat_slots slots) = add_mset x (mset (flat_slots slots'))"
proof -
  from assms obtain i where i: "best_worker slots = Some i"
    by (auto simp: next_even_spread_def split: option.splits)
  obtain w ss where ws: "slots ! i = (w, ss)" by fastforce
  note sp = best_worker_spec(2) [OF i]
  then have "ss = butlast ss @ [last ss]" using ws by simp
  then show ?thesis
    using assms i ws sp flat_slots_update [of i slots w "butlast ss" "last ss"]
    by (auto simp: next_even_spread_def)
qed

lemma next_even_spread_None: "next_even_spread slots = None \<Longrightarrow> flat_slots slots = []"
  using best_worker_spec(1) [of slots] best_worker_spec(2) [of slots]
  by (auto simp: next_even_spread_def split: option.splits prod.splits if_splits)

interpretation policies: slot_source "slot_next policy" for policy
proof
  show "slot_next policy slots = Some (x, slots') \<Longrightarrow>
      mset (flat_slots slots) = add_mset x (mset (flat_slots slots'))" for slots x slots'
    by (cases policy) (auto dest: next_fill_first_Some next_even_spread_Some)
  show "slot_next policy slots = None \<Longrightarrow> flat_slots slots = []" for slots
    by (cases policy) (auto dest: next_fill_first_None next_even_spread_None)
qed

section \<open>The slots of the workers\<close>

text \<open>Slot \<open>i\<close> of worker \<open>w\<close>, when the worker is active.\<close>

definition worker_slot :: "task_assigner \<Rightarrow> worker_id \<Rightarrow> nat \<Rightarrow> task_slot option" where
  "worker_slot ta w i =
     (case im_get (tg_workers ta) w of
        Some (Res_Active ss _) \<Rightarrow> if i < length ss then Some (ss ! i) else None
      | _ \<Rightarrow> None)"

definition slot_vacant :: "task_assigner \<Rightarrow> worker_id \<times> nat \<Rightarrow> bool" where
  "slot_vacant ta wi = (case worker_slot ta (fst wi) (snd wi) of Some s \<Rightarrow> is_vacant s | None \<Rightarrow> False)"

lemma distinct_vacant_slots: "distinct (vacant_slots ss)"
  by (simp add: vacant_slots_def distinct_map_filter)

lemma in_vacant_slots: "i \<in> set (vacant_slots ss) \<longleftrightarrow> i < length ss \<and> is_vacant (ss ! i)"
  by (force simp: vacant_slots_def in_set_enumerate_eq image_iff)

lemma flat_build:
  "flat_slots (build_worker_task_slot_assigner ta) = concat (map (\<lambda>(w, res).
     map (Pair w) (case res of Res_Inactive \<Rightarrow> [] | Res_Active ss _ \<Rightarrow> vacant_slots ss)) (tg_workers ta))"
proof -
  have "flat_slots (filter (\<lambda>(w, ss). ss \<noteq> []) slots) = flat_slots slots" for slots
    by (induction slots) auto
  then show ?thesis
    by (simp add: build_worker_task_slot_assigner_def) (simp add: flat_slots_def comp_def case_prod_unfold)
qed

lemma distinct_flat_build:
  assumes "distinct (im_keys (tg_workers ta))"
  shows "distinct (flat_slots (build_worker_task_slot_assigner ta))"
  using assms unfolding flat_build
proof (induction "tg_workers ta" arbitrary: ta)
  case (Cons wr ws)
  have IH: "distinct (concat (map (\<lambda>(w, res).
     map (Pair w) (case res of Res_Inactive \<Rightarrow> [] | Res_Active ss _ \<Rightarrow> vacant_slots ss)) ws))"
    using Cons.hyps(1) [of "ta\<lparr>tg_workers := ws\<rparr>"] Cons.prems Cons.hyps(2) [symmetric] by simp
  obtain w res where wr: "wr = (w, res)" by (cases wr)
  have "w \<notin> set (im_keys ws)" using Cons.prems Cons.hyps(2) [symmetric] wr by auto
  with IH show ?case
    unfolding Cons.hyps(2) [symmetric] wr
    by (cases res) (auto simp: distinct_map inj_on_def distinct_vacant_slots, force)
qed simp

lemma in_flat_build:
  assumes "distinct (im_keys (tg_workers ta))"
  shows "wi \<in> set (flat_slots (build_worker_task_slot_assigner ta)) \<longleftrightarrow> slot_vacant ta wi"
proof -
  have "(w, res) \<in> set (tg_workers ta) \<longleftrightarrow> im_get (tg_workers ta) w = Some res" for w res
    using assms by simp
  moreover have "wi \<in> set (flat_slots (build_worker_task_slot_assigner ta)) \<longleftrightarrow>
      (\<exists>res. (fst wi, res) \<in> set (tg_workers ta) \<and>
        snd wi \<in> set (case res of Res_Inactive \<Rightarrow> [] | Res_Active ss _ \<Rightarrow> vacant_slots ss))"
    by (cases wi) (force simp: flat_build)
  ultimately show ?thesis
    by (auto simp: slot_vacant_def worker_slot_def in_vacant_slots
        split: worker_resource.splits option.splits if_splits)
qed

lemma length_flat_build:
  "length (flat_slots (build_worker_task_slot_assigner ta)) =
   sum_list (map vacant_slot_count (im_values (tg_workers ta)))"
proof -
  have len: "length (vacant_slots ss) = length (filter is_vacant ss)" for ss
  proof -
    have "map snd (filter (\<lambda>(i, s). is_vacant s) (enumerate n ss)) = filter is_vacant ss" for n
      by (induction ss arbitrary: n) auto
    then show ?thesis unfolding vacant_slots_def by (metis length_map)
  qed
  have "length (map (Pair w) (case res of Res_Inactive \<Rightarrow> [] | Res_Active ss _ \<Rightarrow> vacant_slots ss)) =
      vacant_slot_count res" for w :: worker_id and res
    by (cases res) (simp_all add: len)
  then show ?thesis
    by (simp add: flat_build length_concat comp_def case_prod_unfold)
qed

section \<open>What assigning promises\<close>

lemma apply_assignment_queue [simp]:
  "tg_task_queue (apply_assignment ta a) = tg_task_queue ta"
  "tg_options (apply_assignment ta a) = tg_options ta"
  by (simp_all add: apply_assignment_def split: task_assignment.splits option.splits)

lemma apply_assignments_queue [simp]:
  "tg_task_queue (foldl apply_assignment ta as) = tg_task_queue ta"
  "tg_options (foldl apply_assignment ta as) = tg_options ta"
  by (induction as arbitrary: ta) simp_all

text \<open>
  C19. Assigning tasks is first come, first served, and all or nothing for each region. The
  regions taken are a prefix of the queue; every set of each of them, in order, is placed where
  the region asks for, the worker slots used are pairwise different and were vacant, and a
  region is left at the head of the queue only when the vacant slots that remain are fewer
  than the worker sets of the region. While workers are still being started nothing is assigned.
\<close>

theorem assign_tasks_fifo:
  assumes "distinct (im_keys (tg_workers ta))" and "assign_tasks policy ta = (as, ta')"
  shows "(0 < tg_requested_worker_count ta \<longrightarrow> as = [] \<and> ta' = ta) \<and>
    distinct (assigned_slots as) \<and> list_all (slot_vacant ta) (assigned_slots as) \<and>
    (\<exists>taken. tg_task_queue ta = taken @ tg_task_queue ta' \<and>
       list_all2 placed (concat (map tr_tasks taken)) as) \<and>
    (tg_requested_worker_count ta = 0 \<longrightarrow> tg_task_queue ta' \<noteq> [] \<longrightarrow>
       sum_list (map vacant_slot_count (im_values (tg_workers ta))) - length (assigned_slots as)
         < worker_set_count (hd (tg_task_queue ta')))"
proof (cases "0 < tg_requested_worker_count ta")
  case True
  then show ?thesis using assms(2) by (auto simp: assign_tasks_def)
next
  case False
  let ?slots = "build_worker_task_slot_assigner ta"
  obtain rest where r: "assign_regions (slot_next policy) ?slots (tg_task_queue ta) = (as, rest)"
    and q: "tg_task_queue ta' = rest"
    using False assms(2) by (auto simp: assign_tasks_def split: prod.splits)
  from policies.assign_regions_spec [OF r] obtain taken left where
    sp: "tg_task_queue ta = taken @ rest" "list_all2 placed (concat (map tr_tasks taken)) as"
      "mset (flat_slots ?slots) = mset (assigned_slots as) + mset left"
      "rest \<noteq> [] \<longrightarrow> length left < worker_set_count (hd rest)" by blast
  have "mset (flat_slots ?slots) = mset (assigned_slots as @ left)" using sp(3) by simp
  then have d: "distinct (assigned_slots as @ left)" and s: "set (assigned_slots as) \<subseteq> set (flat_slots ?slots)"
    and l: "length (flat_slots ?slots) = length (assigned_slots as) + length left"
    using distinct_flat_build [OF assms(1)] mset_eq_imp_distinct_iff mset_eq_setD mset_eq_length
    by (metis, metis set_append sup_ge1, metis length_append)
  have "list_all (slot_vacant ta) (assigned_slots as)"
    using s in_flat_build [OF assms(1)] by (auto simp: list_all_iff)
  moreover have "sum_list (map vacant_slot_count (im_values (tg_workers ta))) - length (assigned_slots as) = length left"
    using l by (simp add: length_flat_build)
  ultimately show ?thesis
    using False d sp q by auto
qed

subsection \<open>The example of the witnesses\<close>

text \<open>Two workers with two slots each, and two regions of two worker sets and a driver set.\<close>

definition example_set :: "nat \<Rightarrow> nat \<Rightarrow> task_set" where
  "example_set s p = \<lparr>ts_entries = [\<lparr>te_key = \<lparr>tk_job_id = 1, tk_stage = s, tk_partition = p, tk_attempt = 0\<rparr>,
     te_output = Out_Local\<rparr>]\<rparr>"

definition example_region :: "nat \<Rightarrow> task_region" where
  "example_region s = \<lparr>tr_tasks = [(Placement_Worker, example_set s 0), (Placement_Worker, example_set s 1),
     (Placement_Driver, example_set (s + 1) 0)]\<rparr>"

definition example_assigner_options :: task_assigner_options where
  "example_assigner_options = \<lparr>ao_worker_task_slots = 2, ao_worker_max_count = 4\<rparr>"

definition example_workers :: task_assigner where
  "example_workers = activate_worker 2 (activate_worker 1 (task_assigner_new example_assigner_options))"

definition example_assigner :: task_assigner where
  "example_assigner =
     enqueue_tasks (example_region 4) (enqueue_tasks (example_region 2) (enqueue_tasks (example_region 0)
       example_workers))"

theorem assign_tasks_fifo_witness:
  "\<exists>as ta' taken. assign_tasks EvenSpread example_assigner = (as, ta') \<and>
     assigned_slots as = [(1, 1), (2, 1), (1, 0), (2, 0)] \<and> distinct (assigned_slots as) \<and>
     tg_task_queue example_assigner = taken @ tg_task_queue ta' \<and> length taken = 2"
proof -
  obtain as ta' where at: "assign_tasks EvenSpread example_assigner = (as, ta')" by fastforce
  have d: "distinct (im_keys (tg_workers example_assigner))" by code_simp
  have "assigned_slots (fst (assign_tasks EvenSpread example_assigner)) = [(1, 1), (2, 1), (1, 0), (2, 0)]"
    by code_simp
  moreover have "length (tg_task_queue (snd (assign_tasks EvenSpread example_assigner))) = 1"
    "length (tg_task_queue example_assigner) = 3" by code_simp+
  moreover obtain taken where "tg_task_queue example_assigner = taken @ tg_task_queue ta'"
    and "distinct (assigned_slots as)"
    using assign_tasks_fifo [OF d at] by blast
  ultimately show ?thesis
    using at by (intro exI [of _ as] exI [of _ ta'] exI [of _ taken]) simp
qed

text \<open>
  The even-spread policy always takes a slot of a worker that has the most free slots, and
  among these of the first one.
\<close>

theorem even_spread_most_free:
  assumes "slot_next EvenSpread slots = Some ((w, slot), slots')"
  shows "\<exists>i < length slots. fst (slots ! i) = w \<and> slot = last (snd (slots ! i)) \<and>
    slots' = slots[i := (w, butlast (snd (slots ! i)))] \<and>
    (\<forall>k < length slots. length (snd (slots ! k)) \<le> length (snd (slots ! i))) \<and>
    (\<forall>k < i. length (snd (slots ! k)) < length (snd (slots ! i)))"
proof -
  from assms obtain i where i: "best_worker slots = Some i"
    by (auto simp: next_even_spread_def split: option.splits)
  note sp = best_worker_spec(2) [OF i]
  have "length (snd (slots ! k)) \<le> length (snd (slots ! i))" if "k < length slots" for k
    using sp nth_mem [OF that] by fastforce
  then show ?thesis
    using assms i sp by (intro exI [of _ i]) (auto simp: next_even_spread_def split: prod.splits if_splits)
qed

definition example_free :: free_slots where
  "example_free = [(1, [0]), (2, [0, 1, 2]), (3, [0, 1, 2])]"

theorem even_spread_most_free_witness:
  "\<exists>i < length example_free. fst (example_free ! i) = 2 \<and>
     slot_next EvenSpread example_free = Some ((2, 2), example_free[i := (2, butlast (snd (example_free ! i)))])"
proof -
  have n: "slot_next EvenSpread example_free = Some ((2, 2), [(1, [0]), (2, [0, 1]), (3, [0, 1, 2])])"
    by code_simp
  from even_spread_most_free [OF this] obtain i where "i < length example_free" "fst (example_free ! i) = 2"
    "[(1, [0]), (2, [0, 1]), (3, [0, 1, 2])] = example_free[i := (2, butlast (snd (example_free ! i)))]"
    by blast
  with n show ?thesis by auto
qed

section \<open>Requesting workers\<close>

text \<open>
  C22. Workers are requested for the slots that are missing and within the limit. With slots per
  worker configured, the workers requested are exactly enough for the worker sets in the queue
  beyond the vacant slots, unless the limit cuts the request; with a limit, the workers
  requested and active together never exceed the limit because of a request. Without slots per
  worker the division panics.
\<close>

theorem request_workers_bounds:
  "(request_workers ta = None \<longleftrightarrow> ao_worker_task_slots (tg_options ta) = 0) \<and>
   (\<forall>n ta'. request_workers ta = Some (n, ta') \<longrightarrow>
     (let slots = ao_worker_task_slots (tg_options ta); limit = ao_worker_max_count (tg_options ta);
          queued = sum_list (map worker_set_count (tg_task_queue ta));
          vacant = sum_list (map vacant_slot_count (im_values (tg_workers ta)));
          active = length (filter is_active (im_values (tg_workers ta)));
          requested = tg_requested_worker_count ta
      in (limit = 0 \<and> queued \<le> usize_max \<longrightarrow> queued \<le> vacant + n * slots) \<and>
         (0 < limit \<longrightarrow> queued \<le> vacant + n * slots \<or> n = limit - requested - active) \<and>
         (0 < n \<longrightarrow> (n - 1) * slots < queued - vacant) \<and>
         (0 < limit \<longrightarrow> n = 0 \<or> requested + n + active \<le> limit) \<and>
         tg_requested_worker_count ta' = min (requested + n) usize_max))"
proof (intro conjI allI impI)
  show "request_workers ta = None \<longleftrightarrow> ao_worker_task_slots (tg_options ta) = 0"
    by (simp add: request_workers_def Let_def div_ceil_def split: option.splits)
  fix n ta'
  assume r: "request_workers ta = Some (n, ta')"
  define slots limit queued vacant active requested where
    "slots = ao_worker_task_slots (tg_options ta)" "limit = ao_worker_max_count (tg_options ta)"
    "queued = sum_list (map worker_set_count (tg_task_queue ta))"
    "vacant = sum_list (map vacant_slot_count (im_values (tg_workers ta)))"
    "active = length (filter is_active (im_values (tg_workers ta)))"
    "requested = tg_requested_worker_count ta"
  note defs = this
  obtain q where q: "div_ceil (queued - vacant) slots = Some q"
    "n = min q (if limit = 0 then usize_max else limit - requested - active)"
    "tg_requested_worker_count ta' = min (requested + n) usize_max"
    using r unfolding request_workers_def Let_def defs [symmetric]
    by (auto simp: saturating_add_def split: option.splits)
  have s: "0 < slots" using q(1) by (simp add: div_ceil_def split: if_splits)
  have enough: "queued - vacant \<le> q * slots" by (rule div_ceil_enough [OF s q(1)])
  note tight = div_ceil_tight [OF q(1)] and q_le = div_ceil_le [OF q(1)]
  show "let slots = ao_worker_task_slots (tg_options ta); limit = ao_worker_max_count (tg_options ta);
          queued = sum_list (map worker_set_count (tg_task_queue ta));
          vacant = sum_list (map vacant_slot_count (im_values (tg_workers ta)));
          active = length (filter is_active (im_values (tg_workers ta)));
          requested = tg_requested_worker_count ta
      in (limit = 0 \<and> queued \<le> usize_max \<longrightarrow> queued \<le> vacant + n * slots) \<and>
         (0 < limit \<longrightarrow> queued \<le> vacant + n * slots \<or> n = limit - requested - active) \<and>
         (0 < n \<longrightarrow> (n - 1) * slots < queued - vacant) \<and>
         (0 < limit \<longrightarrow> n = 0 \<or> requested + n + active \<le> limit) \<and>
         tg_requested_worker_count ta' = min (requested + n) usize_max"
    unfolding Let_def defs [symmetric]
  proof (intro conjI impI)
    show "queued \<le> vacant + n * slots" if "limit = 0 \<and> queued \<le> usize_max"
    proof -
      have "q \<le> usize_max" using that q_le by linarith
      with that have "n = q" by (simp add: q(2))
      then show ?thesis using enough by simp
    qed
    show "queued \<le> vacant + n * slots \<or> n = limit - requested - active" if "0 < limit"
      using that enough by (auto simp: q(2) min_def)
    show "(n - 1) * slots < queued - vacant" if "0 < n"
    proof -
      have "n \<le> q" by (simp add: q(2))
      then have "(n - 1) * slots \<le> (q - 1) * slots" by (intro mult_right_mono) auto
      also have "\<dots> < queued - vacant" using tight that \<open>n \<le> q\<close> by linarith
      finally show ?thesis .
    qed
    show "n = 0 \<or> requested + n + active \<le> limit" if "0 < limit"
    proof -
      have "n \<le> limit - requested - active" using that by (simp add: q(2))
      then show ?thesis by arith
    qed
    show "tg_requested_worker_count ta' = min (requested + n) usize_max" by (rule q(3))
  qed
qed

theorem request_workers_bounds_witness:
  "case request_workers example_assigner of
     Some (n, ta') \<Rightarrow> n = 1 \<and> tg_requested_worker_count example_assigner + n + 2 \<le> 4
   | None \<Rightarrow> False"
proof -
  have o: "ao_worker_max_count (tg_options example_assigner) = 4"
    "length (filter is_active (im_values (tg_workers example_assigner))) = 2"
    "ao_worker_task_slots (tg_options example_assigner) = 2"
    "sum_list (map worker_set_count (tg_task_queue example_assigner)) = 6"
    "sum_list (map vacant_slot_count (im_values (tg_workers example_assigner))) = 4"
    "tg_requested_worker_count example_assigner = 0" by code_simp+
  have r: "request_workers example_assigner = Some (1, example_assigner\<lparr>tg_requested_worker_count := 1\<rparr>)"
    unfolding request_workers_def Let_def o by (simp add: div_ceil_def saturating_add_def usize_max_def)
  have "0 < ao_worker_max_count (tg_options example_assigner) \<longrightarrow> (1 :: nat) = 0 \<or>
      tg_requested_worker_count example_assigner + 1 +
        length (filter is_active (im_values (tg_workers example_assigner)))
      \<le> ao_worker_max_count (tg_options example_assigner)"
    using request_workers_bounds [of example_assigner] r unfolding Let_def by blast
  then show ?thesis unfolding o by (subst r) simp
qed

section \<open>The table of assignments\<close>

text \<open>
  What the driver keeps when it enqueues a region: its keys are new to the assigner, and no
  set holds two tasks of one stage.
\<close>

definition queue_keys :: "task_assigner \<Rightarrow> task_key list" where
  "queue_keys ta = concat (map region_keys (tg_task_queue ta))"

definition sets_ok :: "task_region \<Rightarrow> bool" where
  "sets_ok r = list_all (\<lambda>(pl, ts). distinct (map tk_stage (ts_tasks ts))) (tr_tasks r)"

definition region_fresh :: "task_assigner \<Rightarrow> task_region \<Rightarrow> bool" where
  "region_fresh ta r \<longleftrightarrow> distinct (region_keys r) \<and> sets_ok r \<and>
     (\<forall>k \<in> set (region_keys r). get_assignment ta k = None \<and> k \<notin> set (queue_keys ta))"

inductive ta_step :: "task_assigner \<Rightarrow> task_assigner \<Rightarrow> bool" where
  ta_request: "request_workers ta = Some (n, ta') \<Longrightarrow> ta_step ta ta'"
| ta_failed: "ta_step ta (track_worker_failed_to_start ta)"
| ta_activate: "ta_step ta (activate_worker w ta)"
| ta_deactivate: "ta_step ta (deactivate_worker w ta)"
| ta_enqueue: "region_fresh ta r \<Longrightarrow> ta_step ta (enqueue_tasks r ta)"
| ta_exclude: "ta_step ta (exclude_task k ta)"
| ta_assign: "ta_step ta (snd (assign_tasks policy ta))"
| ta_unassign: "ta_step ta (snd (unassign_task k ta))"
| ta_track: "ta_step ta (track_streams as ta)"
| ta_untrack_local: "ta_step ta (snd (untrack_local_streams j stage ta))"
| ta_untrack_remote: "ta_step ta (snd (untrack_remote_streams j stage ta))"

definition slot_tasks :: "task_assigner \<Rightarrow> worker_id \<Rightarrow> nat \<Rightarrow> task_key list" where
  "slot_tasks ta w i = (case worker_slot ta w i of Some s \<Rightarrow> sl_tasks s | None \<Rightarrow> [])"

definition slots_inv :: "task_assigner \<Rightarrow> bool" where
  "slots_inv ta \<longleftrightarrow> distinct (im_keys (tg_workers ta)) \<and>
     (\<forall>w i. distinct (map tk_stage (slot_tasks ta w i)) \<and>
        (\<forall>k \<in> set (slot_tasks ta w i). get_assignment ta k = Some (Assign_Worker w i)))"

definition queue_inv :: "task_assigner \<Rightarrow> bool" where
  "queue_inv ta \<longleftrightarrow> distinct (queue_keys ta) \<and> list_all sets_ok (tg_task_queue ta) \<and>
     (\<forall>k \<in> set (queue_keys ta). get_assignment ta k = None)"

definition ta_inv :: "task_assigner \<Rightarrow> bool" where
  "ta_inv ta \<longleftrightarrow> slots_inv ta \<and> queue_inv ta"

lemma distinct_stages_distinct: "distinct (map tk_stage ks) \<Longrightarrow> distinct ks"
  by (simp add: distinct_map)

lemma distinct_map_swap_remove:
  "distinct (map f ks) \<Longrightarrow> distinct (map f (swap_remove k ks))"
proof -
  assume d: "distinct (map f ks)"
  then have "distinct ks" "inj_on f (set ks)" by (auto simp: distinct_map)
  then show ?thesis
    using set_swap_remove_subset [of k ks] by (auto simp: distinct_map intro: inj_on_subset)
qed

text \<open>An operation that keeps the table, the queue or a part of it, and only takes tasks off slots.\<close>

lemma ta_inv_frame:
  assumes inv: "ta_inv ta" and "distinct (im_keys (tg_workers ta'))"
    and asg: "tg_task_assignments ta' = tg_task_assignments ta"
    and slots: "\<And>w i. distinct (map tk_stage (slot_tasks ta' w i)) \<and> set (slot_tasks ta' w i) \<subseteq> set (slot_tasks ta w i)"
    and q: "tg_task_queue ta' = filter P (tg_task_queue ta)"
  shows "ta_inv ta'"
proof -
  have get: "get_assignment ta' k = get_assignment ta k" for k by (simp add: get_assignment_def asg)
  have "slots_inv ta'"
    using inv assms(2) slots unfolding ta_inv_def slots_inv_def get by blast
  moreover have "set (queue_keys ta') \<subseteq> set (queue_keys ta)"
    by (auto simp: queue_keys_def q)
  moreover have "distinct (concat (map region_keys rs)) \<Longrightarrow> distinct (concat (map region_keys (filter P rs)))" for rs
    by (induction rs) auto
  ultimately show ?thesis
    using inv unfolding ta_inv_def queue_inv_def get
    by (auto simp: queue_keys_def q list_all_iff)
qed

lemma slot_tasks_workers:
  "tg_workers ta' = tg_workers ta \<Longrightarrow> slot_tasks ta' w i = slot_tasks ta w i"
  by (simp add: slot_tasks_def worker_slot_def)

lemma slots_inv_distinct: "ta_inv ta \<Longrightarrow> distinct (map tk_stage (slot_tasks ta w i)) \<and> distinct (im_keys (tg_workers ta))"
  by (simp add: ta_inv_def slots_inv_def)

lemma worker_slot_modify:
  "worker_slot (ta\<lparr>tg_workers := im_modify w f (tg_workers ta)\<rparr>) w' i =
     (if w' = w then (case im_get (tg_workers ta) w of
          Some res \<Rightarrow> (case f res of Res_Active ss _ \<Rightarrow> if i < length ss then Some (ss ! i) else None | _ \<Rightarrow> None)
        | None \<Rightarrow> None)
      else worker_slot ta w' i)"
  by (simp add: worker_slot_def del: map_of_eq_Some_iff split: option.splits)

lemma ta_inv_same:
  assumes "ta_inv ta" and "tg_workers ta' = tg_workers ta" "tg_task_assignments ta' = tg_task_assignments ta"
    "tg_task_queue ta' = filter P (tg_task_queue ta)"
  shows "ta_inv ta'"
  by (rule ta_inv_frame [OF assms(1) _ assms(3) _ assms(4)])
    (use slots_inv_distinct [OF assms(1)] slot_tasks_workers [OF assms(2)] assms(2) in simp_all)

lemma request_workers_inv: "ta_inv ta \<Longrightarrow> request_workers ta = Some (n, ta') \<Longrightarrow> ta_inv ta'"
  by (rule ta_inv_same [of ta, where P = "\<lambda>_. True"]) (auto simp: request_workers_def Let_def split: option.splits)

lemma simple_steps_inv:
  assumes "ta_inv ta"
  shows "ta_inv (track_worker_failed_to_start ta)" and "ta_inv (exclude_task k ta)"
    and "ta_inv (snd (untrack_remote_streams j stage ta))"
proof -
  show "ta_inv (track_worker_failed_to_start ta)"
    by (rule ta_inv_same [OF assms, where P = "\<lambda>_. True"]) (simp_all add: track_worker_failed_to_start_def)
  show "ta_inv (exclude_task k ta)"
    by (rule ta_inv_same [OF assms, where P = "\<lambda>r. \<not> tr_contains r k"]) (simp_all add: exclude_task_def)
  show "ta_inv (snd (untrack_remote_streams j stage ta))"
    by (rule ta_inv_same [OF assms, where P = "\<lambda>_. True"])
      (simp_all add: untrack_remote_streams_def case_prod_unfold Let_def)
qed

lemma activate_worker_inv:
  assumes "ta_inv ta"
  shows "ta_inv (activate_worker w ta)"
proof (rule ta_inv_frame [OF assms, where P = "\<lambda>_. True"])
  note d = slots_inv_distinct [OF assms]
  show "distinct (im_keys (tg_workers (activate_worker w ta)))"
    using d by (auto simp: activate_worker_def Let_def intro: distinct_update)
  have "slot_tasks (activate_worker w ta) w' i = slot_tasks ta w' i \<or> slot_tasks (activate_worker w ta) w' i = []" for w' i
    by (auto simp: activate_worker_def Let_def slot_tasks_def worker_slot_def task_slot_default_def
        split: option.splits worker_resource.splits)
  then show "distinct (map tk_stage (slot_tasks (activate_worker w ta) w' i)) \<and>
      set (slot_tasks (activate_worker w ta) w' i) \<subseteq> set (slot_tasks ta w' i)" for w' i
    using d by (metis distinct.simps(1) list.simps(8) empty_set empty_subsetI order_refl)
qed (simp_all add: activate_worker_def Let_def)

text \<open>Rewriting one worker's resource so that its slots only lose tasks.\<close>

lemma modify_worker_inv:
  assumes inv: "ta_inv ta"
    and res: "\<And>ss ls. case f (Res_Active ss ls) of
        Res_Active ss' _ \<Rightarrow> length ss' = length ss \<and> (\<forall>i < length ss. \<exists>k. sl_tasks (ss' ! i) \<in>
          {sl_tasks (ss ! i), swap_remove k (sl_tasks (ss ! i))})
      | Res_Inactive \<Rightarrow> True"
    and "f Res_Inactive = Res_Inactive"
  shows "ta_inv (ta\<lparr>tg_workers := im_modify w f (tg_workers ta)\<rparr>)" (is "ta_inv ?ta'")
proof (rule ta_inv_frame [OF inv, where P = "\<lambda>_. True"])
  note d = slots_inv_distinct [OF inv]
  have st: "slot_tasks ?ta' w' i = [] \<or> slot_tasks ?ta' w' i = slot_tasks ta w' i \<or>
      (\<exists>k. slot_tasks ?ta' w' i = swap_remove k (slot_tasks ta w' i))" for w' i
  proof (cases "w' = w")
    case False
    then show ?thesis by (simp only: slot_tasks_def worker_slot_modify) simp
  next
    case True
    show ?thesis
    proof (cases "im_get (tg_workers ta) w")
      case None
      then show ?thesis using True by (simp only: slot_tasks_def worker_slot_modify) simp
    next
      case (Some r)
      show ?thesis
      proof (cases r)
        case Res_Inactive
        then show ?thesis using True Some assms(3) by (simp only: slot_tasks_def worker_slot_modify) simp
      next
        case (Res_Active ss ls)
        have old: "slot_tasks ta w i = (if i < length ss then sl_tasks (ss ! i) else [])"
          by (simp only: slot_tasks_def worker_slot_def Some Res_Active) simp
        have new: "slot_tasks ?ta' w i = (case f (Res_Active ss ls) of
            Res_Active ss' _ \<Rightarrow> if i < length ss' then sl_tasks (ss' ! i) else [] | _ \<Rightarrow> [])"
          by (simp only: slot_tasks_def worker_slot_modify Some Res_Active)
            (simp split: worker_resource.splits)
        show ?thesis using res [of ss ls] unfolding True old new
          by (auto split: worker_resource.splits)
      qed
    qed
  qed
  show "distinct (map tk_stage (slot_tasks ?ta' w' i)) \<and> set (slot_tasks ?ta' w' i) \<subseteq> set (slot_tasks ta w' i)" for w' i
    using st [of w' i] d [of w' i] distinct_map_swap_remove set_swap_remove_subset by fastforce
  show "distinct (im_keys (tg_workers ?ta'))" using d by simp
qed simp_all

lemma deactivate_worker_inv: "ta_inv ta \<Longrightarrow> ta_inv (deactivate_worker w ta)"
  unfolding deactivate_worker_def by (rule modify_worker_inv) simp_all

lemma driver_update_inv: "ta_inv ta \<Longrightarrow> ta_inv (ta\<lparr>tg_driver := d\<rparr>)"
  by (rule ta_inv_same [of ta, where P = "\<lambda>_. True"]) simp_all

lemma unassign_task_inv: "ta_inv ta \<Longrightarrow> ta_inv (snd (unassign_task k ta))"
proof -
  assume inv: "ta_inv ta"
  have "ta_inv (ta\<lparr>tg_workers := im_modify w (\<lambda>res. fst (worker_remove_task k slot res)) (tg_workers ta)\<rparr>)" for w slot
    by (rule modify_worker_inv [OF inv])
      (auto simp: slot_remove_task_def nth_list_update split: if_splits)
  then show ?thesis
    using inv driver_update_inv [OF inv]
    by (auto simp: unassign_task_def simp del: map_of_eq_Some_iff split: option.splits task_assignment.splits)
qed

lemma track_streams_inv: "ta_inv ta \<Longrightarrow> ta_inv (track_streams as ta)"
  unfolding track_streams_def
proof (rule foldl_inv)
  fix ta :: task_assigner and a :: task_set_assignment
  assume inv: "ta_inv ta"
  let ?ta1 = "ta\<lparr>tg_driver := driver_track_remote_streams (ta_set a) (tg_driver ta)\<rparr>"
  have 1: "ta_inv ?ta1" by (rule driver_update_inv [OF inv])
  have "ta_inv (?ta1\<lparr>tg_workers := im_modify w (worker_track_local_streams (ta_set a)) (tg_workers ?ta1)\<rparr>)" for w
    by (rule modify_worker_inv [OF 1]) simp_all
  then show "ta_inv (track_assignment_streams ta a)"
    using driver_update_inv [OF 1]
    by (simp add: track_assignment_streams_def Let_def split: task_assignment.splits)
qed

lemma untrack_local_streams_inv: "ta_inv ta \<Longrightarrow> ta_inv (snd (untrack_local_streams j stage ta))"
proof (rule ta_inv_frame [of ta, where P = "\<lambda>_. True"])
  assume inv: "ta_inv ta"
  let ?ta' = "snd (untrack_local_streams j stage ta)"
  have ws: "tg_workers ?ta' = map (\<lambda>(w, res). (w, fst (worker_untrack_local_streams j stage res))) (tg_workers ta)"
    by (simp add: untrack_local_streams_def Let_def case_prod_unfold comp_def)
  have "slot_tasks ?ta' w i = slot_tasks ta w i" for w i
    unfolding slot_tasks_def worker_slot_def ws
    by (subst im_get_map_values [where f = "\<lambda>_ res. fst (worker_untrack_local_streams j stage res)"])
      (auto simp: Let_def simp del: map_of_eq_Some_iff split: option.splits worker_resource.splits)
  then show "distinct (map tk_stage (slot_tasks ?ta' w i)) \<and> set (slot_tasks ?ta' w i) \<subseteq> set (slot_tasks ta w i)" for w i
    using slots_inv_distinct [OF inv] by simp
  have "im_keys (tg_workers ?ta') = im_keys (tg_workers ta)" by (auto simp: ws)
  then show "distinct (im_keys (tg_workers ?ta'))" using slots_inv_distinct [OF inv] by simp
qed (simp_all add: untrack_local_streams_def Let_def case_prod_unfold)

lemma enqueue_tasks_inv:
  assumes inv: "ta_inv ta" and fresh: "region_fresh ta r"
  shows "ta_inv (enqueue_tasks r ta)"
proof -
  have "slots_inv (enqueue_tasks r ta)"
    using inv unfolding ta_inv_def slots_inv_def
    by (simp add: enqueue_tasks_def get_assignment_def slot_tasks_def worker_slot_def)
  moreover have "queue_inv (enqueue_tasks r ta)"
    using inv fresh unfolding ta_inv_def queue_inv_def region_fresh_def
    by (auto simp: enqueue_tasks_def queue_keys_def get_assignment_def)
  ultimately show ?thesis by (simp add: ta_inv_def)
qed

subsection \<open>Applying assignments\<close>

abbreviation assignment_keys :: "task_set_assignment list \<Rightarrow> task_key list" where
  "assignment_keys as \<equiv> concat (map (\<lambda>a. ts_tasks (ta_set a)) as)"

text \<open>The assignments still to be applied: new keys, on vacant slots, each slot once.\<close>

definition pending_ok :: "task_assigner \<Rightarrow> task_set_assignment list \<Rightarrow> bool" where
  "pending_ok ta as \<longleftrightarrow> distinct (assignment_keys as) \<and>
     (\<forall>k \<in> set (assignment_keys as). get_assignment ta k = None \<and> k \<notin> set (queue_keys ta)) \<and>
     distinct (assigned_slots as) \<and> (\<forall>wi \<in> set (assigned_slots as). slot_vacant ta wi) \<and>
     (\<forall>a \<in> set as. distinct (map tk_stage (ts_tasks (ta_set a))))"

lemma insert_assignments_get:
  "im_get (insert_assignments a ks m) k = (if k \<in> set ks then Some a else im_get m k)"
  by (induction ks arbitrary: m) (auto simp: insert_assignments_def simp del: map_of_eq_Some_iff)

lemma is_extend_Nil: "distinct ys \<Longrightarrow> set xs \<inter> set ys = {} \<Longrightarrow> is_extend xs ys = xs @ ys"
  by (induction ys arbitrary: xs) (auto simp: is_insert_def)

lemma slot_vacantE:
  assumes "slot_vacant ta (w, i)"
  obtains ss ls where "im_get (tg_workers ta) w = Some (Res_Active ss ls)" "i < length ss" "sl_tasks (ss ! i) = []"
  using assms by (auto simp: slot_vacant_def worker_slot_def is_vacant_def simp del: map_of_eq_Some_iff
      split: option.splits worker_resource.splits if_splits)

lemma apply_worker_slot:
  assumes "ta_assignment a = Assign_Worker w i" and "slot_vacant ta (w, i)"
  shows "slot_tasks (apply_assignment ta a) w' i' =
      (if w' = w \<and> i' = i then is_extend [] (ts_tasks (ta_set a)) else slot_tasks ta w' i')"
    and "get_assignment (apply_assignment ta a) k =
      (if k \<in> set (ts_tasks (ta_set a)) then Some (Assign_Worker w i) else get_assignment ta k)"
    and "im_keys (tg_workers (apply_assignment ta a)) = im_keys (tg_workers ta)"
proof -
  from assms(2) obtain ss ls where r: "im_get (tg_workers ta) w = Some (Res_Active ss ls)" "i < length ss"
    "sl_tasks (ss ! i) = []" by (rule slot_vacantE)
  have ap: "apply_assignment ta a = ta\<lparr>tg_workers := im_modify w (worker_add_task_set i (ta_set a)) (tg_workers ta),
      tg_task_assignments := insert_assignments (Assign_Worker w i) (ts_tasks (ta_set a)) (tg_task_assignments ta)\<rparr>"
    by (simp add: apply_assignment_def assms(1) r(1) del: map_of_eq_Some_iff)
  show "im_keys (tg_workers (apply_assignment ta a)) = im_keys (tg_workers ta)" by (simp add: ap)
  show "get_assignment (apply_assignment ta a) k =
      (if k \<in> set (ts_tasks (ta_set a)) then Some (Assign_Worker w i) else get_assignment ta k)"
    by (simp add: ap get_assignment_def insert_assignments_get del: map_of_eq_Some_iff)
  have ws: "tg_workers (apply_assignment ta a) = im_modify w (worker_add_task_set i (ta_set a)) (tg_workers ta)"
    by (simp add: ap)
  show "slot_tasks (apply_assignment ta a) w' i' =
      (if w' = w \<and> i' = i then is_extend [] (ts_tasks (ta_set a)) else slot_tasks ta w' i')"
  proof (cases "w' = w")
    case False
    then show ?thesis by (simp only: slot_tasks_def worker_slot_def ws im_get_modify) simp
  next
    case True
    then show ?thesis
      by (simp only: slot_tasks_def worker_slot_def ws im_get_modify r(1))
        (auto simp: r(2,3) slot_add_tasks_def nth_list_update)
  qed
qed

lemma apply_driver:
  assumes "ta_assignment a = Assign_Driver"
  shows "slot_tasks (apply_assignment ta a) w' i' = slot_tasks ta w' i'"
    and "get_assignment (apply_assignment ta a) k =
      (if k \<in> set (ts_tasks (ta_set a)) then Some Assign_Driver else get_assignment ta k)"
    and "tg_workers (apply_assignment ta a) = tg_workers ta"
  by (simp_all add: apply_assignment_def assms slot_tasks_def worker_slot_def get_assignment_def
      insert_assignments_get del: map_of_eq_Some_iff)

lemma slot_vacant_tasks: "slot_vacant ta (w, i) \<longleftrightarrow> worker_slot ta w i \<noteq> None \<and> slot_tasks ta w i = []"
  by (auto simp: slot_vacant_def slot_tasks_def is_vacant_def split: option.splits)

lemma worker_slot_apply_defined:
  "worker_slot (apply_assignment ta a) w i \<noteq> None \<longleftrightarrow> worker_slot ta w i \<noteq> None"
proof (cases "ta_assignment a")
  case Assign_Driver
  then show ?thesis by (simp add: worker_slot_def apply_driver(3) del: map_of_eq_Some_iff)
next
  case (Assign_Worker w' i')
  show ?thesis
  proof (cases "im_get (tg_workers ta) w'")
    case None
    then show ?thesis by (simp add: apply_assignment_def Assign_Worker)
  next
    case (Some res)
    then show ?thesis
      by (cases res) (auto simp: apply_assignment_def Assign_Worker worker_slot_def
          simp del: map_of_eq_Some_iff split: option.splits worker_resource.splits if_splits)
  qed
qed

lemma queue_keys_apply [simp]: "queue_keys (apply_assignment ta a) = queue_keys ta"
  by (simp add: queue_keys_def)

lemma apply_assignment_step:
  assumes inv: "ta_inv ta" and pend: "pending_ok ta (a # as)"
  shows "ta_inv (apply_assignment ta a)" and "pending_ok (apply_assignment ta a) as"
proof -
  let ?ta' = "apply_assignment ta a" and ?ks = "ts_tasks (ta_set a)"
  have ks: "distinct (map tk_stage ?ks)" "\<forall>k \<in> set ?ks. get_assignment ta k = None \<and> k \<notin> set (queue_keys ta)"
    "set ?ks \<inter> set (assignment_keys as) = {}"
    using pend by (auto simp: pending_ok_def)
  have ex: "is_extend [] ?ks = ?ks" using distinct_stages_distinct [OF ks(1)] by (simp add: is_extend_Nil)
  have get: "get_assignment ?ta' k = get_assignment ta k" if "k \<notin> set ?ks" for k
  proof (cases "ta_assignment a")
    case Assign_Driver
    then show ?thesis using that by (simp add: apply_driver)
  next
    case (Assign_Worker w i)
    then have "slot_vacant ta (w, i)" using pend by (simp add: pending_ok_def assigned_slots_def)
    from apply_worker_slot(2) [OF Assign_Worker this] show ?thesis using that by simp
  qed
  have q: "queue_inv ?ta'"
    using inv ks(2) get by (auto simp: ta_inv_def queue_inv_def)
  have slots: "slots_inv ?ta' \<and> (\<forall>wi \<in> set (assigned_slots as). slot_vacant ?ta' wi)"
  proof (cases "ta_assignment a")
    case Assign_Driver
    have "slots_inv ?ta'"
      unfolding slots_inv_def apply_driver(1,3) [OF Assign_Driver]
    proof (intro conjI allI ballI)
      show "distinct (im_keys (tg_workers ta))" "distinct (map tk_stage (slot_tasks ta w i))" for w i
        using slots_inv_distinct [OF inv] by auto
      fix w i k
      assume "k \<in> set (slot_tasks ta w i)"
      then have old: "get_assignment ta k = Some (Assign_Worker w i)"
        using inv by (auto simp: ta_inv_def slots_inv_def)
      then have "k \<notin> set ?ks" using ks(2) by auto
      with old get show "get_assignment ?ta' k = Some (Assign_Worker w i)" by simp
    qed
    moreover have "slot_vacant ?ta' wi = slot_vacant ta wi" for wi
      by (simp add: slot_vacant_def worker_slot_def apply_driver(3) [OF Assign_Driver] del: map_of_eq_Some_iff)
    ultimately show ?thesis
      using pend by (simp add: pending_ok_def assigned_slots_def Assign_Driver)
  next
    case (Assign_Worker w i)
    then have v: "slot_vacant ta (w, i)" and rest: "(w, i) \<notin> set (assigned_slots as)"
      "\<forall>wi \<in> set (assigned_slots as). slot_vacant ta wi"
      using pend by (auto simp: pending_ok_def assigned_slots_def)
    note ap = apply_worker_slot [OF Assign_Worker v]
    have "slots_inv ?ta'"
      unfolding slots_inv_def ap(3)
    proof (intro conjI allI ballI)
      show "distinct (im_keys (tg_workers ta))" using slots_inv_distinct [OF inv] by auto
      show "distinct (map tk_stage (slot_tasks ?ta' w' i'))" for w' i'
        using ks(1) slots_inv_distinct [OF inv] by (simp add: ap(1) ex)
      fix w' i' k
      assume k: "k \<in> set (slot_tasks ?ta' w' i')"
      show "get_assignment ?ta' k = Some (Assign_Worker w' i')"
      proof (cases "w' = w \<and> i' = i")
        case True
        then show ?thesis using k by (simp add: ap ex)
      next
        case False
        then have "k \<in> set (slot_tasks ta w' i')" using k by (auto simp: ap(1) split: if_splits)
        then have old: "get_assignment ta k = Some (Assign_Worker w' i')"
          using inv by (auto simp: ta_inv_def slots_inv_def)
        then have "k \<notin> set ?ks" using ks(2) by auto
        with old get show ?thesis by simp
      qed
    qed
    moreover have "slot_vacant ?ta' wi" if "wi \<in> set (assigned_slots as)" for wi
    proof (cases wi)
      case (Pair w' i')
      with that rest have "slot_vacant ta (w', i')" "(w', i') \<noteq> (w, i)" by auto
      then show ?thesis using worker_slot_apply_defined [of ta a w' i']
        unfolding Pair slot_vacant_tasks by (auto simp: ap(1))
    qed
    ultimately show ?thesis by simp
  qed
  with q show "ta_inv ?ta'" by (simp add: ta_inv_def)
  have "distinct (assigned_slots as)"
    using pend by (cases "ta_assignment a") (auto simp: pending_ok_def assigned_slots_def)
  moreover have "get_assignment ?ta' k = None \<and> k \<notin> set (queue_keys ta)" if "k \<in> set (assignment_keys as)" for k
  proof -
    have "k \<notin> set ?ks" using that ks(3) by blast
    moreover have "get_assignment ta k = None \<and> k \<notin> set (queue_keys ta)"
      using that pend by (simp add: pending_ok_def)
    ultimately show ?thesis using get by simp
  qed
  ultimately show "pending_ok ?ta' as"
    using slots pend unfolding pending_ok_def queue_keys_apply by simp
qed

lemma apply_assignments_inv: "ta_inv ta \<Longrightarrow> pending_ok ta as \<Longrightarrow> ta_inv (foldl apply_assignment ta as)"
  by (induction as arbitrary: ta) (auto dest: apply_assignment_step)


lemma placed_keys:
  "list_all2 placed ps as \<Longrightarrow> assignment_keys as = concat (map (\<lambda>(_, ts). ts_tasks ts) ps)"
  by (induction rule: list_all2_induct) (auto simp: placed_def)

lemma placed_sets:
  "list_all2 placed ps as \<Longrightarrow> a \<in> set as \<Longrightarrow> \<exists>pl. (pl, ta_set a) \<in> set ps"
proof (induction rule: list_all2_induct)
  case (Cons p ps b bs)
  then show ?case by (cases p) (auto simp: placed_def)
qed simp

lemma region_keys_concat:
  "concat (map (\<lambda>(_, ts). ts_tasks ts) (concat (map tr_tasks rs))) = concat (map region_keys rs)"
  by (induction rs) (auto simp: region_keys_def)

lemma assign_tasks_pending:
  assumes inv: "ta_inv ta" and "assign_regions (slot_next policy) (build_worker_task_slot_assigner ta)
      (tg_task_queue ta) = (as, rest)"
  shows "ta_inv (ta\<lparr>tg_task_queue := rest\<rparr>)" and "pending_ok (ta\<lparr>tg_task_queue := rest\<rparr>) as"
proof -
  let ?ta' = "ta\<lparr>tg_task_queue := rest\<rparr>" and ?slots = "build_worker_task_slot_assigner ta"
  from policies.assign_regions_spec [OF assms(2)] obtain taken left where
    sp: "tg_task_queue ta = taken @ rest" "list_all2 placed (concat (map tr_tasks taken)) as"
      "mset (flat_slots ?slots) = mset (assigned_slots as) + mset left" by blast
  have d: "distinct (im_keys (tg_workers ta))" using slots_inv_distinct [OF inv] by simp
  have keys: "queue_keys ta = assignment_keys as @ concat (map region_keys rest)"
    using placed_keys [OF sp(2)] by (simp add: queue_keys_def sp(1) region_keys_concat)
  have qi: "distinct (queue_keys ta)" "\<forall>k \<in> set (queue_keys ta). get_assignment ta k = None"
    "list_all sets_ok (tg_task_queue ta)"
    using inv by (auto simp: ta_inv_def queue_inv_def)
  have get: "get_assignment ?ta' k = get_assignment ta k" for k by (simp add: get_assignment_def)
  have "slots_inv ?ta'"
    using inv unfolding ta_inv_def slots_inv_def get by (simp add: slot_tasks_def worker_slot_def)
  moreover have "queue_inv ?ta'"
    using qi unfolding queue_inv_def get queue_keys_def by (auto simp: sp(1))
  ultimately show "ta_inv ?ta'" by (simp add: ta_inv_def)
  have "mset (flat_slots ?slots) = mset (assigned_slots as @ left)" using sp(3) by simp
  then have "distinct (assigned_slots as @ left)" and s: "set (assigned_slots as) \<subseteq> set (flat_slots ?slots)"
    using distinct_flat_build [OF d] mset_eq_imp_distinct_iff mset_eq_setD by (metis, metis set_append sup_ge1)
  moreover have "slot_vacant ?ta' wi" if "wi \<in> set (assigned_slots as)" for wi
  proof -
    have "slot_vacant ta wi" using that s in_flat_build [OF d] by blast
    then show ?thesis by (simp add: slot_vacant_def worker_slot_def)
  qed
  moreover have "distinct (map tk_stage (ts_tasks (ta_set a)))" if a: "a \<in> set as" for a
  proof -
    obtain pl where "(pl, ta_set a) \<in> set (concat (map tr_tasks taken))" using placed_sets [OF sp(2) a] by blast
    then show ?thesis using qi(3) by (auto simp: sp(1) sets_ok_def list_all_iff)
  qed
  ultimately show "pending_ok ?ta' as"
    using qi(1,2) unfolding keys pending_ok_def get by (auto simp: queue_keys_def)
qed

lemma assign_tasks_inv: "ta_inv ta \<Longrightarrow> ta_inv (snd (assign_tasks policy ta))"
  using assign_tasks_pending [of ta policy] apply_assignments_inv
  by (simp add: assign_tasks_def split: prod.splits)

interpretation assigner: step_invariant ta_step ta_inv
proof
  fix s t
  assume "ta_inv s" and "ta_step s t"
  from this(2,1) show "ta_inv t"
    by (induction rule: ta_step.induct)
      (simp_all add: request_workers_inv simple_steps_inv activate_worker_inv deactivate_worker_inv enqueue_tasks_inv
        assign_tasks_inv unassign_task_inv track_streams_inv untrack_local_streams_inv)
qed

lemma ta_inv_new: "ta_inv (task_assigner_new opts)"
  by (simp add: ta_inv_def slots_inv_def queue_inv_def task_assigner_new_def slot_tasks_def worker_slot_def queue_keys_def)


definition example_assigned :: task_assigner where
  "example_assigned = snd (assign_tasks EvenSpread example_assigner)"

lemma example_assigned_reach: "ta_step\<^sup>*\<^sup>* (task_assigner_new example_assigner_options) example_assigned"
proof -
  let ?q1 = "enqueue_tasks (example_region 0) example_workers"
  let ?q2 = "enqueue_tasks (example_region 2) ?q1"
  have "region_fresh example_workers (example_region 0)" "region_fresh ?q1 (example_region 2)"
    "region_fresh ?q2 (example_region 4)" by code_simp+
  then have "ta_step example_workers ?q1" "ta_step ?q1 ?q2" "ta_step ?q2 example_assigner"
    unfolding example_assigner_def by (auto intro: ta_enqueue)
  moreover have "ta_step\<^sup>*\<^sup>* (task_assigner_new example_assigner_options) example_workers"
    unfolding example_workers_def by (blast intro: ta_activate rtranclp.rtrancl_into_rtrancl)
  moreover have "ta_step example_assigner example_assigned"
    unfolding example_assigned_def by (rule ta_assign)
  ultimately show ?thesis by (meson rtranclp.rtrancl_into_rtrancl)
qed


text \<open>
  C21. Unassigning a task frees it everywhere: in a reachable state, once a task is unassigned no
  worker's slots hold it any more, so a lost worker's tasks found later never include it.
\<close>

theorem unassign_task_releases:
  assumes "ta_step\<^sup>*\<^sup>* (task_assigner_new opts) ta" and "unassign_task k ta = (res, ta')"
  shows "k \<notin> set (find_worker_tasks ta' w)"
proof
  have inv: "ta_inv ta" by (rule assigner.run_inv [OF assms(1) ta_inv_new])
  then have inv': "ta_inv ta'" using unassign_task_inv [of ta k] assms(2) by simp
  assume "k \<in> set (find_worker_tasks ta' w)"
  then obtain ss ls i where r: "im_get (tg_workers ta') w = Some (Res_Active ss ls)" "i < length ss"
    "k \<in> set (sl_tasks (ss ! i))"
    by (auto simp: find_worker_tasks_def in_set_conv_nth [of _ ss] simp del: map_of_eq_Some_iff
        split: option.splits worker_resource.splits) (metis in_set_conv_nth)
  then have k: "k \<in> set (slot_tasks ta' w i)"
    by (simp add: slot_tasks_def worker_slot_def del: map_of_eq_Some_iff)
  have "tg_task_assignments ta' = tg_task_assignments ta"
    using assms(2) by (auto simp: unassign_task_def simp del: map_of_eq_Some_iff split: option.splits task_assignment.splits if_splits)
  then have asg: "im_get (tg_task_assignments ta) k = Some (Assign_Worker w i)"
    using inv' k unfolding ta_inv_def slots_inv_def get_assignment_def by metis
  show False
  proof (cases "im_get (tg_workers ta) w")
    case None
    then have "ta' = ta" using assms(2) asg by (simp add: unassign_task_def del: map_of_eq_Some_iff)
    with None r show False by simp
  next
    case (Some res0)
    then have ta': "ta' = ta\<lparr>tg_workers := im_modify w (\<lambda>res. fst (worker_remove_task k i res)) (tg_workers ta)\<rparr>"
      using assms(2) asg by (simp add: unassign_task_def del: map_of_eq_Some_iff)
    have d: "distinct (map tk_stage (slot_tasks ta w i))" using slots_inv_distinct [OF inv] by simp
    from r(1) Some obtain ss0 ls0 where ss0: "res0 = Res_Active ss0 ls0"
      by (cases res0) (auto simp: ta' simp del: map_of_eq_Some_iff)
    with r Some have ss: "i < length ss0" "ss ! i = (ss0 ! i)\<lparr>sl_tasks := swap_remove k (sl_tasks (ss0 ! i))\<rparr>"
      by (auto simp: ta' slot_remove_task_def simp del: map_of_eq_Some_iff split: if_splits)
    moreover have "slot_tasks ta w i = sl_tasks (ss0 ! i)"
      using Some ss0 ss(1) by (simp add: slot_tasks_def worker_slot_def del: map_of_eq_Some_iff)
    ultimately show False using r(3) distinct_stages_distinct [OF d] by simp
  qed
qed

theorem unassign_task_releases_witness:
  "hd (ts_tasks (example_set 2 0)) \<in> set (find_worker_tasks example_assigned 1) \<and>
   hd (ts_tasks (example_set 2 0)) \<notin>
     set (find_worker_tasks (snd (unassign_task (hd (ts_tasks (example_set 2 0))) example_assigned)) 1)"
proof
  show "hd (ts_tasks (example_set 2 0)) \<in> set (find_worker_tasks example_assigned 1)" by code_simp
  show "hd (ts_tasks (example_set 2 0)) \<notin>
     set (find_worker_tasks (snd (unassign_task (hd (ts_tasks (example_set 2 0))) example_assigned)) 1)"
    by (rule unassign_task_releases [OF example_assigned_reach prod.collapse [symmetric]])
qed

end
