(* ===== verification/Worker_Pool.thy ===== *)
theory Worker_Pool
  imports Task_Types
begin

text \<open>
  The worker pool of the driver (\<open>driver/worker_pool\<close>): the life cycle of a worker from the
  launch request over its registration to its completion or failure, the probes that detect
  pending, idle and lost workers, and the calls the driver makes to a worker. An operation that
  reads the time takes the clock; what it asks of the actor context is its list of effects. The
  worker manager is outside the driver: launching is an effect, and what \<open>stop\<close> of the manager
  returns is an argument of \<open>pool_close\<close>.
\<close>

section \<open>State\<close>

record client_options =
  co_enable_tls :: bool
  co_host :: string
  co_port :: u16

text \<open>A client set is named by the options it was made with.\<close>

datatype worker_client_set = Client_Set client_options

datatype worker_state =
    Worker_Pending
  | Worker_Running (ws_host: string) (ws_port: u16) (ws_updated_at: time) (ws_heartbeat_at: time)
      (ws_client: "worker_client_set option")
  | Worker_Completed
  | Worker_Failed

fun worker_state_status :: "worker_state \<Rightarrow> string" where
  "worker_state_status Worker_Pending = ''PENDING''"
| "worker_state_status (Worker_Running _ _ _ _ _) = ''RUNNING''"
| "worker_state_status Worker_Completed = ''COMPLETED''"
| "worker_state_status Worker_Failed = ''FAILED''"

record worker_descriptor =
  wd_state :: worker_state
  wd_messages :: "string list"
  wd_peers :: "worker_id set"
  wd_created_at :: time
  wd_stopped_at :: "time option"

record worker_snapshot =
  wsn_worker_id :: worker_id
  wsn_host :: "string option"
  wsn_port :: "u16 option"
  wsn_status :: string
  wsn_created_at :: time
  wsn_stopped_at :: "time option"

definition worker_snapshot_of :: "worker_id \<Rightarrow> worker_descriptor \<Rightarrow> worker_snapshot" where
  "worker_snapshot_of w wd =
     (let (host, port) = (case wd_state wd of
            Worker_Running h p _ _ _ \<Rightarrow> (Some h, Some p)
          | _ \<Rightarrow> (None, None)) in
      \<lparr>wsn_worker_id = w, wsn_host = host, wsn_port = port,
       wsn_status = worker_state_status (wd_state wd), wsn_created_at = wd_created_at wd,
       wsn_stopped_at = wd_stopped_at wd\<rparr>)"

record worker_pool_options =
  po_enable_tls :: bool
  po_driver_external_host :: string
  po_driver_external_port :: u16
  po_worker_max_idle_time :: time
  po_worker_heartbeat_interval :: time
  po_worker_heartbeat_timeout :: time
  po_worker_launch_timeout :: time
  po_task_stream_buffer :: nat
  po_task_stream_creation_timeout :: time
  po_shuffle_spill_dir :: string
  po_rpc_retry_strategy :: retry_strategy

record worker_pool =
  wp_options :: worker_pool_options
  wp_driver_server_port :: "u16 option"
  wp_workers :: "(worker_id, worker_descriptor) index_map"
  wp_worker_id_generator :: id_generator

definition worker_pool_new :: "worker_pool_options \<Rightarrow> worker_pool" where
  "worker_pool_new opts =
     \<lparr>wp_options = opts, wp_driver_server_port = None, wp_workers = [],
      wp_worker_id_generator = id_generator_new\<rparr>"

definition observe_worker_snapshots :: "worker_pool \<Rightarrow> worker_snapshot list" where
  "observe_worker_snapshots wp = map (\<lambda>(w, wd). worker_snapshot_of w wd) (wp_workers wp)"

abbreviation put_worker :: "worker_id \<Rightarrow> worker_descriptor \<Rightarrow> worker_pool \<Rightarrow> worker_pool" where
  "put_worker w wd wp \<equiv> wp\<lparr>wp_workers := im_modify w (\<lambda>_. wd) (wp_workers wp)\<rparr>"

section \<open>Probes, activity and clients\<close>

definition schedule_idle_worker_probe ::
  "worker_id \<Rightarrow> worker_descriptor \<Rightarrow> worker_pool_options \<Rightarrow> effect list" where
  "schedule_idle_worker_probe w wd opts =
     (case wd_state wd of
        Worker_Running _ _ updated_at _ _ \<Rightarrow>
          [SendWithDelay (ProbeIdleWorker w updated_at) (po_worker_max_idle_time opts)]
      | _ \<Rightarrow> [])"

definition schedule_lost_worker_probe ::
  "worker_id \<Rightarrow> worker_descriptor \<Rightarrow> worker_pool_options \<Rightarrow> effect list" where
  "schedule_lost_worker_probe w wd opts =
     (case wd_state wd of
        Worker_Running _ _ _ heartbeat_at _ \<Rightarrow>
          [SendWithDelay (ProbeLostWorker w heartbeat_at) (po_worker_heartbeat_timeout opts)]
      | _ \<Rightarrow> [])"

definition track_worker_activity ::
  "clock \<Rightarrow> worker_id \<Rightarrow> worker_descriptor \<Rightarrow> worker_pool_options \<Rightarrow> worker_descriptor \<times> effect list" where
  "track_worker_activity ck w wd opts =
     (case wd_state wd of
        Worker_Running host port _ hb client \<Rightarrow>
          let wd1 = wd\<lparr>wd_state := Worker_Running host port (instant_now ck) hb client\<rparr> in
          (wd1, schedule_idle_worker_probe w wd1 opts)
      | _ \<Rightarrow> (wd, []))"

definition get_client_set ::
  "worker_descriptor \<Rightarrow> worker_pool_options \<Rightarrow> worker_client_set execution_result \<times> worker_descriptor" where
  "get_client_set wd opts =
     (case wd_state wd of
        Worker_Running host port upd hb client \<Rightarrow>
          let c = (case client of
                     None \<Rightarrow> Client_Set \<lparr>co_enable_tls = po_enable_tls opts, co_host = host, co_port = port\<rparr>
                   | Some c \<Rightarrow> c) in
          (Inr c, wd\<lparr>wd_state := Worker_Running host port upd hb (Some c)\<rparr>)
      | _ \<Rightarrow> (Inl (InternalError ''cannot get client for inactive worker: {worker_id}''), wd))"

definition clean_up_job_for_worker ::
  "job_id \<Rightarrow> nat option \<Rightarrow> worker_id \<Rightarrow> worker_descriptor \<Rightarrow> worker_pool_options \<Rightarrow>
   worker_descriptor \<times> effect list" where
  "clean_up_job_for_worker j stage w wd opts =
     (case get_client_set wd opts of
        (Inr _, wd1) \<Rightarrow> (wd1, [Spawn (Call_CleanUpJob w j stage)])
      | (Inl _, wd1) \<Rightarrow> (wd1, []))"

section \<open>Life cycle\<close>

definition set_driver_server_port :: "u16 \<Rightarrow> worker_pool \<Rightarrow> worker_pool" where
  "set_driver_server_port port wp = wp\<lparr>wp_driver_server_port := Some port\<rparr>"

definition launch_options :: "worker_pool_options \<Rightarrow> u16 \<Rightarrow> worker_launch_options" where
  "launch_options opts port =
     \<lparr>lo_enable_tls = po_enable_tls opts,
      lo_driver_external_host = po_driver_external_host opts,
      lo_driver_external_port =
        (if po_driver_external_port opts > 0 then po_driver_external_port opts else port),
      lo_worker_heartbeat_interval = po_worker_heartbeat_interval opts,
      lo_task_stream_buffer = po_task_stream_buffer opts,
      lo_task_stream_creation_timeout = po_task_stream_creation_timeout opts,
      lo_shuffle_spill_dir = po_shuffle_spill_dir opts,
      lo_rpc_retry_strategy = po_rpc_retry_strategy opts\<rparr>"

definition start_worker :: "clock \<Rightarrow> worker_pool \<Rightarrow> worker_pool \<times> effect list" where
  "start_worker ck wp =
     (case id_generator_next (wp_worker_id_generator wp) of
        Inl _ \<Rightarrow> (wp, [Send (Shutdown False)])
      | Inr (w, gen) \<Rightarrow>
          let wd = \<lparr>wd_state = Worker_Pending, wd_messages = [], wd_peers = {},
                    wd_created_at = utc_now ck, wd_stopped_at = None\<rparr>;
              wp1 = wp\<lparr>wp_worker_id_generator := gen, wp_workers := im_insert w wd (wp_workers wp)\<rparr>;
              probe = SendWithDelay (ProbePendingWorker w) (po_worker_launch_timeout (wp_options wp))
          in case wp_driver_server_port wp of
               None \<Rightarrow> (wp1, [probe])
             | Some port \<Rightarrow>
                 (wp1, [probe, Spawn (Call_LaunchWorker w (launch_options (wp_options wp) port))]))"

definition register_worker ::
  "clock \<Rightarrow> worker_id \<Rightarrow> string \<Rightarrow> u16 \<Rightarrow> worker_pool \<Rightarrow>
   unit execution_result \<times> worker_pool \<times> effect list" where
  "register_worker ck w host port wp =
     (case im_get (wp_workers wp) w of
        None \<Rightarrow> (Inl (InvalidArgument ''worker {worker_id} not found''), wp, [])
      | Some wd \<Rightarrow>
          (case wd_state wd of
             Worker_Pending \<Rightarrow>
               let wd1 = wd\<lparr>wd_state := Worker_Running host port (instant_now ck) (instant_now ck) None\<rparr> in
               (Inr (), put_worker w wd1 wp,
                schedule_lost_worker_probe w wd1 (wp_options wp) @
                schedule_idle_worker_probe w wd1 (wp_options wp))
           | Worker_Running _ _ _ _ _ \<Rightarrow>
               (Inl (InternalError ''worker {worker_id} is already running''), wp, [])
           | Worker_Completed \<Rightarrow> (Inl (InternalError ''worker {worker_id} has completed''), wp, [])
           | Worker_Failed \<Rightarrow> (Inl (InternalError ''worker {worker_id} has failed''), wp, [])))"

definition reason_messages :: "string option \<Rightarrow> string list" where
  "reason_messages reason = (case reason of None \<Rightarrow> [] | Some r \<Rightarrow> [r])"

definition stop_worker :: "clock \<Rightarrow> worker_id \<Rightarrow> string option \<Rightarrow> worker_pool \<Rightarrow> worker_pool \<times> effect list" where
  "stop_worker ck w reason wp =
     (case im_get (wp_workers wp) w of
        None \<Rightarrow> (wp, [])
      | Some wd \<Rightarrow>
          (case wd_state wd of
             Worker_Pending \<Rightarrow>
               (put_worker w (wd\<lparr>wd_state := Worker_Completed, wd_stopped_at := Some (utc_now ck),
                   wd_messages := wd_messages wd @ reason_messages reason\<rparr>) wp, [])
           | Worker_Running _ _ _ _ _ \<Rightarrow>
               (case get_client_set wd (wp_options wp) of
                  (Inl _, wd1) \<Rightarrow>
                    (put_worker w (wd1\<lparr>wd_state := Worker_Failed, wd_stopped_at := Some (utc_now ck)\<rparr>) wp, [])
                | (Inr _, wd1) \<Rightarrow>
                    (put_worker w (wd1\<lparr>wd_state := Worker_Completed, wd_stopped_at := Some (utc_now ck),
                        wd_messages := wd_messages wd1 @ reason_messages reason\<rparr>) wp,
                     [Spawn (Call_StopWorker w)]))
           | Worker_Completed \<Rightarrow> (wp, [])
           | Worker_Failed \<Rightarrow> (wp, [])))"

definition stop_workers :: "clock \<Rightarrow> string \<Rightarrow> worker_id list \<Rightarrow> worker_pool \<Rightarrow> worker_pool \<times> effect list" where
  "stop_workers ck reason ws wp =
     foldl (\<lambda>(wp, es) w. let (wp1, es1) = stop_worker ck w (Some reason) wp in (wp1, es @ es1))
       (wp, []) ws"

definition pool_close ::
  "clock \<Rightarrow> unit execution_result \<Rightarrow> worker_pool \<Rightarrow> unit execution_result \<times> worker_pool \<times> effect list" where
  "pool_close ck manager_stop wp =
     (let (wp1, es) = stop_workers ck ''closing worker pool'' (im_keys (wp_workers wp)) wp in
      (manager_stop, wp1, es))"

definition list_running_workers :: "worker_pool \<Rightarrow> worker_location list" where
  "list_running_workers wp =
     List.map_filter (\<lambda>(w, wd). case wd_state wd of
         Worker_Running host port _ _ _ \<Rightarrow> Some \<lparr>wl_worker_id = w, wl_host = host, wl_port = port\<rparr>
       | _ \<Rightarrow> None) (wp_workers wp)"

definition update_worker_heartbeat :: "clock \<Rightarrow> worker_id \<Rightarrow> worker_pool \<Rightarrow> worker_pool \<times> effect list" where
  "update_worker_heartbeat ck w wp =
     (case im_get (wp_workers wp) w of
        None \<Rightarrow> (wp, [])
      | Some wd \<Rightarrow>
          (case wd_state wd of
             Worker_Running host port upd _ client \<Rightarrow>
               let wd1 = wd\<lparr>wd_state := Worker_Running host port upd (instant_now ck) client\<rparr> in
               (put_worker w wd1 wp, schedule_lost_worker_probe w wd1 (wp_options wp))
           | _ \<Rightarrow> (wp, [])))"

definition update_worker_known_peers :: "worker_id \<Rightarrow> worker_id list \<Rightarrow> worker_pool \<Rightarrow> worker_pool" where
  "update_worker_known_peers w peers wp =
     wp\<lparr>wp_workers := im_modify w (\<lambda>wd. wd\<lparr>wd_peers := wd_peers wd \<union> set peers\<rparr>) (wp_workers wp)\<rparr>"

definition fail_worker_if_pending :: "worker_id \<Rightarrow> worker_pool \<Rightarrow> bool \<times> worker_pool" where
  "fail_worker_if_pending w wp =
     (case im_get (wp_workers wp) w of
        None \<Rightarrow> (False, wp)
      | Some wd \<Rightarrow>
          if wd_state wd = Worker_Pending
          then (True, put_worker w (wd\<lparr>wd_state := Worker_Failed,
                  wd_messages := wd_messages wd @ [''worker registration timeout'']\<rparr>) wp)
          else (False, wp))"

definition get_worker_last_update :: "worker_pool \<Rightarrow> worker_id \<Rightarrow> time option" where
  "get_worker_last_update wp w =
     (case im_get (wp_workers wp) w of
        None \<Rightarrow> None
      | Some wd \<Rightarrow> (case wd_state wd of Worker_Running _ _ upd _ _ \<Rightarrow> Some upd | _ \<Rightarrow> None))"

definition get_worker_last_heartbeat :: "worker_pool \<Rightarrow> worker_id \<Rightarrow> time option" where
  "get_worker_last_heartbeat wp w =
     (case im_get (wp_workers wp) w of
        None \<Rightarrow> None
      | Some wd \<Rightarrow> (case wd_state wd of Worker_Running _ _ _ hb _ \<Rightarrow> Some hb | _ \<Rightarrow> None))"

section \<open>Calls to a worker\<close>

definition fail_task :: "task_key \<Rightarrow> string \<Rightarrow> common_error_cause \<Rightarrow> effect" where
  "fail_task k message cause = Send (UpdateTask k Status_Failed (Some message) (Some cause) None)"

definition pool_run_task ::
  "clock \<Rightarrow> worker_id \<Rightarrow> task_key \<Rightarrow> task_definition \<Rightarrow> worker_pool \<Rightarrow> worker_pool \<times> effect list" where
  "pool_run_task ck w k def wp =
     (let running_workers = list_running_workers wp in
      case im_get (wp_workers wp) w of
        None \<Rightarrow>
          (wp, [fail_task k ''worker {} not found'' (Cause_Internal ''worker {} not found'')])
      | Some wd \<Rightarrow>
          let (wd1, es) = track_worker_activity ck w wd (wp_options wp) in
          (case get_client_set wd1 (wp_options wp) of
             (Inl e, wd2) \<Rightarrow>
               (put_worker w wd2 wp,
                es @ [fail_task k ''failed to get worker {} client: {e}'' (Cause_Of e)])
           | (Inr _, wd2) \<Rightarrow>
               (case wd_state wd2 of
                  Worker_Running _ _ _ _ _ \<Rightarrow>
                    let peers = filter (\<lambda>x. wl_worker_id x \<notin> wd_peers wd2) running_workers in
                    (put_worker w wd2 wp, es @ [Spawn (Call_RunTask w k def peers)])
                | _ \<Rightarrow>
                    (put_worker w wd2 wp,
                     es @ [fail_task k ''cannot assign {} to worker {} that is not running''
                       (Cause_Internal ''cannot assign {} to worker {} that is not running'')]))))"

definition pool_stop_task :: "clock \<Rightarrow> worker_id \<Rightarrow> task_key \<Rightarrow> worker_pool \<Rightarrow> worker_pool \<times> effect list" where
  "pool_stop_task ck w k wp =
     (case im_get (wp_workers wp) w of
        None \<Rightarrow> (wp, [])
      | Some wd \<Rightarrow>
          let (wd1, es) = track_worker_activity ck w wd (wp_options wp) in
          (case get_client_set wd1 (wp_options wp) of
             (Inl _, wd2) \<Rightarrow> (put_worker w wd2 wp, es)
           | (Inr _, wd2) \<Rightarrow> (put_worker w wd2 wp, es @ [Spawn (Call_StopTask w k)])))"

definition fetch_task_stream ::
  "clock \<Rightarrow> worker_id \<Rightarrow> task_stream_key \<Rightarrow> schema \<Rightarrow> worker_pool \<Rightarrow>
   task_stream_source execution_result \<times> worker_pool \<times> effect list" where
  "fetch_task_stream ck w k sch wp =
     (case im_get (wp_workers wp) w of
        None \<Rightarrow> (Inl (InvalidArgument ''worker {worker_id} not found''), wp, [])
      | Some wd \<Rightarrow>
          let (wd1, es) = track_worker_activity ck w wd (wp_options wp) in
          (case get_client_set wd1 (wp_options wp) of
             (Inl _, wd2) \<Rightarrow>
               (Inl (InternalError ''failed to get client for worker {worker_id}: {e}''), put_worker w wd2 wp, es)
           | (Inr _, wd2) \<Rightarrow> (Inr (Source_Worker w k sch), put_worker w wd2 wp, es)))"

definition pool_clean_up_job ::
  "clock \<Rightarrow> worker_id \<Rightarrow> job_id \<Rightarrow> nat option \<Rightarrow> worker_pool \<Rightarrow> worker_pool \<times> effect list" where
  "pool_clean_up_job ck w j stage wp =
     (case im_get (wp_workers wp) w of
        None \<Rightarrow> (wp, [])
      | Some wd \<Rightarrow>
          let (wd1, es) = track_worker_activity ck w wd (wp_options wp);
              (wd2, es2) = clean_up_job_for_worker j stage w wd1 (wp_options wp)
          in (put_worker w wd2 wp, es @ es2))"

end
