(* ===== verification/Worker_Pool_Correct.thy ===== *)
theory Worker_Pool_Correct
  imports Worker_Pool
begin

text \<open>
  Correctness of the worker pool. Every operation either leaves the pool as it is, adds one
  pending worker under a fresh id, or advances one worker along its life cycle. An advance keeps
  the worker's invariant: a pending or running worker has been probed for with exactly the
  instants it now carries, and the client of a running worker talks to the address it registered.
\<close>

section \<open>The life cycle of one worker\<close>

fun lifecycle :: "worker_state \<Rightarrow> worker_state \<Rightarrow> bool" where
  "lifecycle Worker_Pending _ = True"
| "lifecycle (Worker_Running h p u hb c) s =
     (case s of Worker_Pending \<Rightarrow> False
      | Worker_Running h' p' _ _ c' \<Rightarrow> h' = h \<and> p' = p \<and> (c = None \<or> c' = c)
      | _ \<Rightarrow> True)"
| "lifecycle Worker_Completed s = (s = Worker_Completed)"
| "lifecycle Worker_Failed s = (s = Worker_Failed)"

lemma lifecycle_refl [simp]: "lifecycle s s"
  by (cases s) auto

lemma lifecycle_trans: "lifecycle s t \<Longrightarrow> lifecycle t u \<Longrightarrow> lifecycle s u"
  by (cases s; cases t; cases u) auto

definition worker_client :: "worker_pool_options \<Rightarrow> string \<Rightarrow> u16 \<Rightarrow> worker_client_set" where
  "worker_client opts host port =
     Client_Set \<lparr>co_enable_tls = po_enable_tls opts, co_host = host, co_port = port\<rparr>"

text \<open>What holds of a worker, given the effects the pool has asked for so far.\<close>

definition worker_ok ::
  "worker_pool_options \<Rightarrow> effect set \<Rightarrow> worker_id \<Rightarrow> worker_descriptor \<Rightarrow> bool" where
  "worker_ok opts es w wd =
     (case wd_state wd of
        Worker_Pending \<Rightarrow>
          SendWithDelay (ProbePendingWorker w) (po_worker_launch_timeout opts) \<in> es \<and> wd_stopped_at wd = None
      | Worker_Running host port upd hb client \<Rightarrow>
          SendWithDelay (ProbeLostWorker w hb) (po_worker_heartbeat_timeout opts) \<in> es \<and>
          SendWithDelay (ProbeIdleWorker w upd) (po_worker_max_idle_time opts) \<in> es \<and>
          (client = None \<or> client = Some (worker_client opts host port)) \<and> wd_stopped_at wd = None
      | Worker_Completed \<Rightarrow> wd_stopped_at wd \<noteq> None
      | Worker_Failed \<Rightarrow> True)"

lemma worker_ok_mono: "worker_ok opts es w wd \<Longrightarrow> es \<subseteq> es' \<Longrightarrow> worker_ok opts es' w wd"
  by (auto simp: worker_ok_def split: worker_state.splits)

definition worker_advance ::
  "worker_pool_options \<Rightarrow> worker_id \<Rightarrow> worker_descriptor \<Rightarrow> worker_descriptor \<Rightarrow> effect list \<Rightarrow> bool" where
  "worker_advance opts w wd wd' es' \<longleftrightarrow>
     lifecycle (wd_state wd) (wd_state wd') \<and> wd_created_at wd' = wd_created_at wd \<and>
     (\<forall>es. worker_ok opts es w wd \<longrightarrow> worker_ok opts (es \<union> set es') w wd')"

lemma worker_advance_refl: "worker_advance opts w wd wd es"
  by (auto simp: worker_advance_def intro: worker_ok_mono)

lemma worker_advance_trans:
  assumes "worker_advance opts w wd wd1 es1" "worker_advance opts w wd1 wd2 es2"
  shows "worker_advance opts w wd wd2 (es1 @ es2)"
  using assms unfolding worker_advance_def by (metis Un_assoc lifecycle_trans set_append)

lemma worker_advance_more:
  assumes "worker_advance opts w wd wd1 es1"
  shows "worker_advance opts w wd wd1 (es1 @ es2)"
  by (rule worker_advance_trans [OF assms worker_advance_refl])

lemma track_worker_activity_advance:
  "track_worker_activity ck w wd opts = (wd', es) \<Longrightarrow> worker_advance opts w wd wd' es"
  by (auto simp: track_worker_activity_def worker_advance_def worker_ok_def
      schedule_idle_worker_probe_def Let_def split: worker_state.splits)

lemma get_client_set_advance:
  "get_client_set wd opts = (r, wd') \<Longrightarrow> worker_advance opts w wd wd' []"
  by (auto simp: get_client_set_def worker_advance_def worker_ok_def worker_client_def Let_def
      split: worker_state.splits option.splits)

lemma activity_client_advance:
  "track_worker_activity ck w wd opts = (wd1, es) \<Longrightarrow> get_client_set wd1 opts = (r, wd2) \<Longrightarrow>
   worker_advance opts w wd wd2 (es @ es')"
  using worker_advance_more [OF worker_advance_trans [OF track_worker_activity_advance get_client_set_advance]]
  by fastforce

section \<open>Operations of the pool\<close>

definition pool_advance :: "worker_pool \<Rightarrow> worker_pool \<Rightarrow> effect list \<Rightarrow> bool" where
  "pool_advance wp wp' es \<longleftrightarrow> wp' = wp \<or>
     (\<exists>w wd wd'. im_get (wp_workers wp) w = Some wd \<and> wp' = put_worker w wd' wp \<and>
        worker_advance (wp_options wp) w wd wd' es)"

lemma pool_advance_put:
  "im_get (wp_workers wp) w = Some wd \<Longrightarrow> worker_advance (wp_options wp) w wd wd' es \<Longrightarrow>
   pool_advance wp (put_worker w wd' wp) es"
  unfolding pool_advance_def by blast

lemma pool_advance_refl [simp]: "pool_advance wp wp es"
  by (simp add: pool_advance_def)

lemma register_worker_advance:
  "register_worker ck w host port wp = (r, wp', es) \<Longrightarrow> pool_advance wp wp' es"
  by (auto simp: register_worker_def Let_def worker_advance_def worker_ok_def schedule_lost_worker_probe_def
      schedule_idle_worker_probe_def split: option.splits worker_state.splits intro!: pool_advance_put)

lemma stop_worker_advance: "stop_worker ck w reason wp = (wp', es) \<Longrightarrow> pool_advance wp wp' es"
  by (auto simp: stop_worker_def worker_advance_def worker_ok_def get_client_set_def Let_def
      split: option.splits worker_state.splits prod.splits sum.splits intro!: pool_advance_put)

lemma update_worker_heartbeat_advance:
  "update_worker_heartbeat ck w wp = (wp', es) \<Longrightarrow> pool_advance wp wp' es"
  by (auto simp: update_worker_heartbeat_def worker_advance_def worker_ok_def schedule_lost_worker_probe_def Let_def
      split: option.splits worker_state.splits intro!: pool_advance_put)

lemma fail_worker_if_pending_advance:
  "fail_worker_if_pending w wp = (b, wp') \<Longrightarrow> pool_advance wp wp' []"
  by (auto simp: fail_worker_if_pending_def worker_advance_def worker_ok_def
      split: option.splits worker_state.splits if_splits intro!: pool_advance_put)

lemma update_worker_known_peers_advance: "pool_advance wp (update_worker_known_peers w ps wp) []"
proof (cases "im_get (wp_workers wp) w")
  case None
  then show ?thesis by (simp add: update_worker_known_peers_def map_of_eq_None_iff)
next
  case (Some wd)
  let ?wd = "wd\<lparr>wd_peers := wd_peers wd \<union> set ps\<rparr>"
  have "AList.map_entry w (\<lambda>wd. wd\<lparr>wd_peers := wd_peers wd \<union> set ps\<rparr>) m = AList.map_entry w (\<lambda>_. ?wd) m"
    if "im_get m w = Some wd" for m using that by (induction m) auto
  with Some have "update_worker_known_peers w ps wp = put_worker w ?wd wp"
    by (simp add: update_worker_known_peers_def)
  moreover have "worker_advance (wp_options wp) w wd ?wd []"
    by (auto simp: worker_advance_def worker_ok_def split: worker_state.splits)
  ultimately show ?thesis using Some by (auto intro: pool_advance_put)
qed

lemma pool_run_task_advance: "pool_run_task ck w k def wp = (wp', es) \<Longrightarrow> pool_advance wp wp' es"
  by (auto simp: pool_run_task_def Let_def split: option.splits prod.splits sum.splits worker_state.splits
      intro!: pool_advance_put activity_client_advance)

lemma pool_stop_task_advance: "pool_stop_task ck w k wp = (wp', es) \<Longrightarrow> pool_advance wp wp' es"
  using activity_client_advance [where es' = "[]"]
  by (auto simp: pool_stop_task_def Let_def split: option.splits prod.splits sum.splits
      intro!: pool_advance_put activity_client_advance)

lemma fetch_task_stream_advance: "fetch_task_stream ck w k sch wp = (r, wp', es) \<Longrightarrow> pool_advance wp wp' es"
  using activity_client_advance [where es' = "[]"]
  by (auto simp: fetch_task_stream_def Let_def split: option.splits prod.splits sum.splits
      intro!: pool_advance_put)

lemma pool_clean_up_job_advance: "pool_clean_up_job ck w j st wp = (wp', es) \<Longrightarrow> pool_advance wp wp' es"
  using activity_client_advance [where es' = "[]"]
  by (auto simp: pool_clean_up_job_def clean_up_job_for_worker_def Let_def
      split: option.splits prod.splits sum.splits intro!: pool_advance_put activity_client_advance)

lemmas pool_advances =
  register_worker_advance stop_worker_advance update_worker_heartbeat_advance
  fail_worker_if_pending_advance update_worker_known_peers_advance pool_run_task_advance
  pool_stop_task_advance fetch_task_stream_advance pool_clean_up_job_advance

section \<open>Runs of the pool\<close>

text \<open>A state of a run is the pool and the effects it has asked for so far.\<close>

inductive pool_step :: "worker_pool \<times> effect list \<Rightarrow> worker_pool \<times> effect list \<Rightarrow> bool" where
  pool_port: "pool_step (wp, es) (set_driver_server_port port wp, es)"
| pool_start: "start_worker ck wp = (wp', es') \<Longrightarrow> pool_step (wp, es) (wp', es @ es')"
| pool_register: "register_worker ck w host port wp = (r, wp', es') \<Longrightarrow> pool_step (wp, es) (wp', es @ es')"
| pool_stop: "stop_worker ck w reason wp = (wp', es') \<Longrightarrow> pool_step (wp, es) (wp', es @ es')"
| pool_heartbeat: "update_worker_heartbeat ck w wp = (wp', es') \<Longrightarrow> pool_step (wp, es) (wp', es @ es')"
| pool_peers: "pool_step (wp, es) (update_worker_known_peers w ps wp, es)"
| pool_fail_pending: "fail_worker_if_pending w wp = (b, wp') \<Longrightarrow> pool_step (wp, es) (wp', es)"
| pool_run: "pool_run_task ck w k def wp = (wp', es') \<Longrightarrow> pool_step (wp, es) (wp', es @ es')"
| pool_stop_t: "pool_stop_task ck w k wp = (wp', es') \<Longrightarrow> pool_step (wp, es) (wp', es @ es')"
| pool_fetch: "fetch_task_stream ck w sk sch wp = (src, wp', es') \<Longrightarrow> pool_step (wp, es) (wp', es @ es')"
| pool_clean: "pool_clean_up_job ck w j st wp = (wp', es') \<Longrightarrow> pool_step (wp, es) (wp', es @ es')"
| pool_other: "pool_step (wp, es) (wp, es @ es')"

lemma pool_step_cases:
  assumes "pool_step s t"
  obtains (port) port where "fst t = set_driver_server_port port (fst s)" "snd t = snd s"
  | (start) ck es' where "start_worker ck (fst s) = (fst t, es')" "snd t = snd s @ es'"
  | (advance) es' where "pool_advance (fst s) (fst t) es'" "snd t = snd s @ es'"
  using assms
proof cases
  case pool_port
  then show ?thesis using port by simp
next
  case pool_start
  then show ?thesis using start by simp
qed (use advance pool_advances in fastforce)+

definition pool_inv :: "worker_pool \<times> effect list \<Rightarrow> bool" where
  "pool_inv = (\<lambda>(wp, es). distinct (im_keys (wp_workers wp)) \<and>
     set (im_keys (wp_workers wp)) \<subseteq> issued (wp_worker_id_generator wp) \<and>
     (\<forall>w wd. im_get (wp_workers wp) w = Some wd \<longrightarrow> worker_ok (wp_options wp) (set es) w wd))"

definition pool_le :: "worker_pool \<times> effect list \<Rightarrow> worker_pool \<times> effect list \<Rightarrow> bool" where
  "pool_le = (\<lambda>(wp, es) (wp', es'). wp_options wp' = wp_options wp \<and> set es \<subseteq> set es' \<and>
     (\<forall>w wd. im_get (wp_workers wp) w = Some wd \<longrightarrow>
        (\<exists>wd'. im_get (wp_workers wp') w = Some wd' \<and> wd_created_at wd' = wd_created_at wd \<and>
           lifecycle (wd_state wd) (wd_state wd'))))"

lemma start_worker_Inr:
  assumes "start_worker ck wp = (wp', es)" "id_generator_next (wp_worker_id_generator wp) = Inr (w, gen)"
  obtains wd where "wp' = wp\<lparr>wp_worker_id_generator := gen, wp_workers := im_insert w wd (wp_workers wp)\<rparr>"
    "worker_ok (wp_options wp) (set es) w wd" "wd_state wd = Worker_Pending"
  using assms by (auto simp: start_worker_def worker_ok_def Let_def split: option.splits)

lemma start_worker_Inl:
  "start_worker ck wp = (wp', es) \<Longrightarrow> id_generator_next (wp_worker_id_generator wp) = Inl e \<Longrightarrow>
   wp' = wp \<and> es = [Send (Shutdown False)]"
  by (simp add: start_worker_def)

lemma pool_inv_more: "pool_inv (wp, es) \<Longrightarrow> pool_inv (wp, es @ es')"
  unfolding pool_inv_def prod.case set_append by (blast intro: worker_ok_mono)

lemma pool_start_inv:
  assumes inv: "pool_inv (wp, es)" and st: "start_worker ck wp = (wp', es')"
  shows "pool_inv (wp', es @ es') \<and> pool_le (wp, es) (wp', es @ es')"
proof (cases "id_generator_next (wp_worker_id_generator wp)")
  case (Inl e)
  from start_worker_Inl [OF st Inl] pool_inv_more [OF inv] show ?thesis by (auto simp: pool_le_def)
next
  case (Inr r)
  then obtain w gen where n: "id_generator_next (wp_worker_id_generator wp) = Inr (w, gen)" by (cases r) auto
  from start_worker_Inr [OF st n] obtain wd where
    wp': "wp' = wp\<lparr>wp_worker_id_generator := gen, wp_workers := im_insert w wd (wp_workers wp)\<rparr>"
    and ok: "worker_ok (wp_options wp) (set es') w wd" by blast
  from inv have sub: "set (im_keys (wp_workers wp)) \<subseteq> issued (wp_worker_id_generator wp)"
    and d: "distinct (im_keys (wp_workers wp))" by (auto simp: pool_inv_def)
  have none: "im_get (wp_workers wp) w = None"
    using sub ids.nxt_fresh [OF n] by (auto simp: map_of_eq_None_iff)
  have "worker_ok (wp_options wp) (set (es @ es')) w' wd'" if "im_get (im_insert w wd (wp_workers wp)) w' = Some wd'" for w' wd'
    using that ok pool_inv_more [OF inv, of es'] by (auto simp: pool_inv_def split: if_splits intro: worker_ok_mono)
  then show ?thesis
    using none ids.insert_keys_used [OF sub n] ids.insert_keys_distinct [OF sub n d]
    by (auto simp: wp' pool_inv_def pool_le_def simp del: map_of_eq_Some_iff)
qed

lemma fst_set_im_modify [simp]: "fst ` set (im_modify k f m) = fst ` set m"
  by (metis im_keys_modify set_map)

lemma pool_advance_inv:
  assumes inv: "pool_inv (wp, es)" and adv: "pool_advance wp wp' es'"
  shows "pool_inv (wp', es @ es') \<and> pool_le (wp, es) (wp', es @ es')"
  using adv unfolding pool_advance_def
proof
  assume "wp' = wp"
  with pool_inv_more [OF inv] show ?thesis by (auto simp: pool_le_def)
next
  assume "\<exists>w wd wd'. im_get (wp_workers wp) w = Some wd \<and> wp' = put_worker w wd' wp \<and>
    worker_advance (wp_options wp) w wd wd' es'"
  then obtain w wd wd' where w: "im_get (wp_workers wp) w = Some wd" and wp': "wp' = put_worker w wd' wp"
    and adv: "worker_advance (wp_options wp) w wd wd' es'" by blast
  have "worker_ok (wp_options wp) (set es) w wd" using inv w by (auto simp: pool_inv_def)
  with adv have "worker_ok (wp_options wp) (set es \<union> set es') w wd'" by (auto simp: worker_advance_def)
  with pool_inv_more [OF inv, of es'] w adv show ?thesis
    by (auto simp: wp' pool_inv_def pool_le_def worker_advance_def simp del: map_of_eq_Some_iff)
qed

lemma pool_le_refl: "pool_le s s"
  by (auto simp: pool_le_def)

lemma pool_le_trans: "pool_le s t \<Longrightarrow> pool_le t u \<Longrightarrow> pool_le s u"
proof (cases s; cases t; cases u)
  fix wp es wp1 es1 wp2 es2
  assume eqs: "s = (wp, es)" "t = (wp1, es1)" "u = (wp2, es2)" and le: "pool_le s t" "pool_le t u"
  have "\<exists>wd'. im_get (wp_workers wp2) w = Some wd' \<and> wd_created_at wd' = wd_created_at wd \<and>
    lifecycle (wd_state wd) (wd_state wd')" if "im_get (wp_workers wp) w = Some wd" for w wd
  proof -
    from le(1) that obtain wd1 where "im_get (wp_workers wp1) w = Some wd1"
      "wd_created_at wd1 = wd_created_at wd" "lifecycle (wd_state wd) (wd_state wd1)"
      unfolding pool_le_def eqs by blast
    moreover from le(2) calculation(1) obtain wd2 where "im_get (wp_workers wp2) w = Some wd2"
      "wd_created_at wd2 = wd_created_at wd1" "lifecycle (wd_state wd1) (wd_state wd2)"
      unfolding pool_le_def eqs by blast
    ultimately show ?thesis by (auto intro: lifecycle_trans simp del: map_of_eq_Some_iff)
  qed
  moreover have "wp_options wp2 = wp_options wp" "set es \<subseteq> set es2" using le by (auto simp: pool_le_def eqs)
  ultimately show "pool_le s u" by (simp add: pool_le_def eqs del: map_of_eq_Some_iff)
qed

lemma pool_step_keeps:
  assumes "pool_inv s" "pool_step s t"
  shows "pool_inv t \<and> pool_le s t"
  using assms(2)
proof (cases rule: pool_step_cases)
  case (port p)
  then show ?thesis using assms(1)
    by (cases s; cases t) (auto simp: pool_inv_def pool_le_def set_driver_server_port_def)
next
  case (start ck es')
  then show ?thesis using assms(1) pool_start_inv [of "fst s" "snd s" ck "fst t" es'] by (cases s; cases t) auto
next
  case (advance es')
  then show ?thesis using assms(1) pool_advance_inv [of "fst s" "snd s" "fst t" es'] by (cases s; cases t) auto
qed

interpretation pool: step_monotone pool_step pool_inv pool_le
  by unfold_locales (auto dest: pool_step_keeps intro: pool_le_refl pool_le_trans)

lemma pool_inv_new [simp]: "pool_inv (worker_pool_new opts, [])"
  by (simp add: pool_inv_def worker_pool_new_def)

section \<open>An example run\<close>

definition example_pool_clock :: "nat \<Rightarrow> clock" where
  "example_pool_clock t = \<lparr>instant_now = t, utc_now = 1000 + t\<rparr>"

definition example_pool_options :: worker_pool_options where
  "example_pool_options =
     \<lparr>po_enable_tls = False, po_driver_external_host = ''driver'', po_driver_external_port = 0,
      po_worker_max_idle_time = 60, po_worker_heartbeat_interval = 10, po_worker_heartbeat_timeout = 120,
      po_worker_launch_timeout = 30, po_task_stream_buffer = 16, po_task_stream_creation_timeout = 20,
      po_shuffle_spill_dir = ''/tmp'', po_rpc_retry_strategy = Retry_Fixed 3 1\<rparr>"

definition pool_started :: "worker_pool \<times> effect list" where
  "pool_started = start_worker (example_pool_clock 1) (set_driver_server_port 50051 (worker_pool_new example_pool_options))"

definition pool_registered :: "worker_pool \<times> effect list" where
  "pool_registered = (let (_, wp, es) = register_worker (example_pool_clock 5) 1 ''w1'' 7000 (fst pool_started)
     in (wp, snd pool_started @ es))"

definition pool_beaten :: "worker_pool \<times> effect list" where
  "pool_beaten = (let (wp, es) = update_worker_heartbeat (example_pool_clock 9) 1 (fst pool_registered)
     in (wp, snd pool_registered @ es))"

definition pool_ended :: "worker_pool \<times> effect list" where
  "pool_ended = (let (wp, es) = stop_worker (example_pool_clock 20) 1 (Some ''done'') (fst pool_beaten)
     in (wp, snd pool_beaten @ es))"

lemma pool_beaten_reach: "pool_step\<^sup>*\<^sup>* (worker_pool_new example_pool_options, []) pool_beaten"
proof -
  let ?p0 = "set_driver_server_port 50051 (worker_pool_new example_pool_options)"
  have "pool_step (?p0, []) (fst pool_started, [] @ snd pool_started)"
    by (rule pool_start [where ck = "example_pool_clock 1"]) (simp add: pool_started_def)
  moreover have "pool_step (fst pool_started, snd pool_started) pool_registered"
    unfolding pool_registered_def by (auto simp del: prod.collapse split: prod.splits intro: pool_register)
  moreover have "pool_step (fst pool_registered, snd pool_registered) pool_beaten"
    unfolding pool_beaten_def by (auto simp del: prod.collapse split: prod.splits intro: pool_heartbeat)
  moreover have "pool_step (worker_pool_new example_pool_options, []) (?p0, [])" by (rule pool_port)
  ultimately show ?thesis by (auto intro: rtranclp.rtrancl_into_rtrancl)
qed

lemma pool_ended_reach: "pool_step\<^sup>*\<^sup>* pool_beaten pool_ended"
proof -
  have "pool_step (fst pool_beaten, snd pool_beaten) pool_ended"
    unfolding pool_ended_def by (auto simp del: prod.collapse split: prod.splits intro: pool_stop)
  then show ?thesis by auto
qed

section \<open>Properties\<close>

text \<open>
  C25. The life cycle of a worker. Over every run of the pool a worker that exists keeps its
  identity: it goes from pending to running to completed or failed, never back; a running worker
  keeps the address it registered with and, once made, its client; completed and failed are final.
\<close>

theorem worker_lifecycle:
  assumes "pool_step\<^sup>*\<^sup>* (worker_pool_new opts, []) (wp, es)" "pool_step\<^sup>*\<^sup>* (wp, es) (wp', es')"
    and "im_get (wp_workers wp) w = Some wd"
  shows "\<exists>wd'. im_get (wp_workers wp') w = Some wd' \<and> wd_created_at wd' = wd_created_at wd \<and>
    lifecycle (wd_state wd) (wd_state wd')"
  using pool.run_le [OF assms(2) pool.run_inv [OF assms(1) pool_inv_new]] assms(3)
  by (auto simp: pool_le_def)

theorem worker_lifecycle_witness:
  "\<exists>wd'. im_get (wp_workers (fst pool_ended)) 1 = Some wd' \<and> wd_created_at wd' = 1001 \<and>
     lifecycle (Worker_Running ''w1'' 7000 5 9 None) (wd_state wd')"
proof -
  have b: "im_get (wp_workers (fst pool_beaten)) 1 = Some \<lparr>wd_state = Worker_Running ''w1'' 7000 5 9 None,
      wd_messages = [], wd_peers = {}, wd_created_at = 1001, wd_stopped_at = None\<rparr>" by code_simp
  from worker_lifecycle [OF _ _ b, of example_pool_options "snd pool_beaten" "fst pool_ended" "snd pool_ended"]
  show ?thesis using pool_beaten_reach pool_ended_reach by simp
qed

lemma pool_reachable_ok:
  assumes "pool_step\<^sup>*\<^sup>* (worker_pool_new opts, []) (wp, es)" and "im_get (wp_workers wp) w = Some wd"
  shows "worker_ok opts (set es) w wd"
proof -
  have "wp_options wp = opts"
    using pool.run_le [OF assms(1) pool_inv_new] by (auto simp: pool_le_def worker_pool_new_def)
  moreover have "worker_ok (wp_options wp) (set es) w wd"
    using pool.run_inv [OF assms(1) pool_inv_new] assms(2) by (auto simp: pool_inv_def)
  ultimately show ?thesis by simp
qed

text \<open>
  No worker escapes its probes. Over every run of the pool, a pending worker has a
  registration probe on its way, and a running worker has a heartbeat probe and an idleness probe
  that carry exactly the instants of its last heartbeat and of its last activity, each with the
  configured delay; and a client of a running worker talks to the address the worker registered.
\<close>

theorem workers_probed:
  assumes "pool_step\<^sup>*\<^sup>* (worker_pool_new opts, []) (wp, es)" and "im_get (wp_workers wp) w = Some wd"
  shows "case wd_state wd of
      Worker_Pending \<Rightarrow> SendWithDelay (ProbePendingWorker w) (po_worker_launch_timeout opts) \<in> set es
    | Worker_Running host port upd hb client \<Rightarrow>
        SendWithDelay (ProbeLostWorker w hb) (po_worker_heartbeat_timeout opts) \<in> set es \<and>
        SendWithDelay (ProbeIdleWorker w upd) (po_worker_max_idle_time opts) \<in> set es \<and>
        (client = None \<or> client = Some (worker_client opts host port))
    | _ \<Rightarrow> True"
  using pool_reachable_ok [OF assms] by (auto simp: worker_ok_def split: worker_state.splits)

theorem workers_probed_witness:
  "SendWithDelay (ProbeLostWorker 1 9) 120 \<in> set (snd pool_beaten) \<and>
   SendWithDelay (ProbeIdleWorker 1 5) 60 \<in> set (snd pool_beaten)"
proof -
  have b: "im_get (wp_workers (fst pool_beaten)) 1 = Some \<lparr>wd_state = Worker_Running ''w1'' 7000 5 9 None,
      wd_messages = [], wd_peers = {}, wd_created_at = 1001, wd_stopped_at = None\<rparr>" by code_simp
  from workers_probed [OF _ b, of example_pool_options "snd pool_beaten"] pool_beaten_reach
  show ?thesis by (simp add: example_pool_options_def)
qed

text \<open>
  Running a task on a worker. The pool hands the task to the worker exactly when the worker is
  running, together with the locations of precisely those running workers that the worker does not
  know yet; otherwise it reports the task as failed. One of the two happens, never both.
\<close>

theorem pool_run_task_outcome:
  assumes "pool_run_task ck w k def wp = (wp', es)"
  shows "case im_get (wp_workers wp) w of
      Some wd \<Rightarrow>
        (case wd_state wd of
           Worker_Running host port upd hb client \<Rightarrow>
             es = [SendWithDelay (ProbeIdleWorker w (instant_now ck)) (po_worker_max_idle_time (wp_options wp)),
                   Spawn (Call_RunTask w k def
                     (filter (\<lambda>l. wl_worker_id l \<notin> wd_peers wd) (list_running_workers wp)))] \<and>
             get_worker_last_update wp' w = Some (instant_now ck)
         | _ \<Rightarrow> wp' = put_worker w wd wp \<and>
             es = [fail_task k ''failed to get worker {} client: {e}''
                     (Cause_Of (InternalError ''cannot get client for inactive worker: {worker_id}''))])
    | None \<Rightarrow> wp' = wp \<and> es = [fail_task k ''worker {} not found'' (Cause_Internal ''worker {} not found'')]"
  using assms
  by (auto simp: pool_run_task_def track_worker_activity_def get_client_set_def schedule_idle_worker_probe_def
      get_worker_last_update_def Let_def split: option.splits worker_state.splits)

definition pool_example_definition :: task_definition where
  "pool_example_definition = \<lparr>td_plan = [1, 2], td_inputs = [],
     td_output = \<lparr>to_distribution = Out_RoundRobin 1, to_locator = Out_Locator_Local 1\<rparr>\<rparr>"

definition pool_example_key :: task_key where
  "pool_example_key = \<lparr>tk_job_id = 1, tk_stage = 0, tk_partition = 0, tk_attempt = 0\<rparr>"

theorem pool_run_task_outcome_witness:
  "snd (pool_run_task (example_pool_clock 12) 1 pool_example_key pool_example_definition (fst pool_beaten)) =
     [SendWithDelay (ProbeIdleWorker 1 12) 60,
      Spawn (Call_RunTask 1 pool_example_key pool_example_definition
        [\<lparr>wl_worker_id = 1, wl_host = ''w1'', wl_port = 7000\<rparr>])]"
proof -
  have b: "im_get (wp_workers (fst pool_beaten)) 1 = Some \<lparr>wd_state = Worker_Running ''w1'' 7000 5 9 None,
      wd_messages = [], wd_peers = {}, wd_created_at = 1001, wd_stopped_at = None\<rparr>"
    and o: "po_worker_max_idle_time (wp_options (fst pool_beaten)) = 60"
    and l: "list_running_workers (fst pool_beaten) = [\<lparr>wl_worker_id = 1, wl_host = ''w1'', wl_port = 7000\<rparr>]"
    and c: "instant_now (example_pool_clock 12) = 12"
    by code_simp+
  from pool_run_task_outcome [of "example_pool_clock 12" 1 pool_example_key pool_example_definition "fst pool_beaten"
      "fst (pool_run_task (example_pool_clock 12) 1 pool_example_key pool_example_definition (fst pool_beaten))"
      "snd (pool_run_task (example_pool_clock 12) 1 pool_example_key pool_example_definition (fst pool_beaten))"]
  show ?thesis by (simp add: b o l c)
qed

end
