(* ===== verification/Local_Streams.thy ===== *)
theory Local_Streams
  imports Task_Types
begin

text \<open>
  The streams a task writes on its own node (\<open>stream_manager/local.rs\<close>): a memory stream, which
  copies every batch to a number of replicas, and a disk stream, which writes a file. The bounded
  channels of the asynchronous runtime and the file system are outside the repository: they are
  the records \<open>mpsc\<close> and \<open>disk_io\<close> of operations on a state of the world, and \<open>mpsc_laws\<close> is
  what the code relies on, that a channel takes the items it accepts in order and drops none.
  An operation that waits for a channel stands for the call that returns, and making a channel
  always succeeds (the runtime panics on a capacity of 0, which the configuration must not have).
\<close>

section \<open>Channels and files\<close>

datatype try_send_result = Sent | Full | Closed

record 'w mpsc =
  try_send :: "channel \<Rightarrow> stream_item \<Rightarrow> 'w \<Rightarrow> try_send_result \<times> 'w"
  reserve_send :: "channel \<Rightarrow> stream_item \<Rightarrow> 'w \<Rightarrow> bool \<times> 'w"
  send_wait :: "channel \<Rightarrow> stream_item \<Rightarrow> 'w \<Rightarrow> bool \<times> 'w"

definition accepts :: "('w \<Rightarrow> channel \<Rightarrow> stream_item list) \<Rightarrow> channel \<Rightarrow> stream_item \<Rightarrow> bool \<Rightarrow> 'w \<Rightarrow> 'w \<Rightarrow> bool" where
  "accepts accepted c x taken w w' \<longleftrightarrow>
     accepted w' = (if taken then (accepted w)(c := accepted w c @ [x]) else accepted w)"

definition mpsc_laws :: "'w mpsc \<Rightarrow> ('w \<Rightarrow> channel \<Rightarrow> stream_item list) \<Rightarrow> bool" where
  "mpsc_laws ops accepted \<longleftrightarrow>
     (\<forall>c x w r w'. try_send ops c x w = (r, w') \<longrightarrow> accepts accepted c x (r = Sent) w w') \<and>
     (\<forall>c x w r w'. reserve_send ops c x w = (r, w') \<longrightarrow> accepts accepted c x r w w') \<and>
     (\<forall>c x w r w'. send_wait ops c x w = (r, w') \<longrightarrow> accepts accepted c x r w w')"

text \<open>The file system: an operation returns the message of its error, if it fails.\<close>

record disk_io =
  create_dir_all :: "string \<Rightarrow> string option"
  create_file :: "spill_path \<Rightarrow> string option"
  ipc_writer :: "spill_path \<Rightarrow> schema \<Rightarrow> string option"
  ipc_write :: "spill_path \<Rightarrow> record_batch \<Rightarrow> string option"
  ipc_finish :: "spill_path \<Rightarrow> string option"
  ipc_read :: "spill_path \<Rightarrow> string + record_batch list"

datatype sink_state = Sink_Ok | Sink_Error task_stream_error | Sink_Closed

section \<open>Memory streams\<close>

record memory_stream =
  ms_sender :: "replica_sender option"
  ms_receivers :: "channel list"

text \<open>
  \<open>MemoryStream::new\<close>. The channels it makes are numbered from the given next channel on; the
  next free number is returned.
\<close>

definition memory_stream_new :: "nat \<Rightarrow> channel list \<Rightarrow> channel \<Rightarrow> memory_stream \<times> channel" where
  "memory_stream_new n senders next =
     (let n = max n (length senders);
          diff = n - length senders;
          fresh = [next..<next + diff]
      in (\<lparr>ms_sender = Some \<lparr>rs_senders = map Some senders @ map Some fresh,
                              rs_overflow = replicate (length senders + diff) []\<rparr>,
           ms_receivers = fresh\<rparr>, next + diff))"

definition memory_publish :: "memory_stream \<Rightarrow> task_stream_sink execution_result \<times> memory_stream" where
  "memory_publish ms =
     (case ms_sender ms of
        None \<Rightarrow> (Inl (InternalError ''memory stream can only be written once''), ms)
      | Some sender \<Rightarrow> (Inr (Sink_Memory sender), ms\<lparr>ms_sender := None\<rparr>))"

text \<open>\<open>pop\<close> takes the last receiver.\<close>

definition memory_subscribe :: "memory_stream \<Rightarrow> task_stream_source execution_result \<times> memory_stream" where
  "memory_subscribe ms =
     (if ms_receivers ms = [] then (Inl (InternalError ''memory stream has exhausted all replica(s)''), ms)
      else (Inr (Source_Receiver (last (ms_receivers ms))), ms\<lparr>ms_receivers := butlast (ms_receivers ms)\<rparr>))"

section \<open>Writing to the replicas of a memory stream\<close>

text \<open>Flushing an overflow buffer: what remains of it, and whether the receiver is gone.\<close>

fun flush_overflow :: "'w mpsc \<Rightarrow> channel \<Rightarrow> stream_item list \<Rightarrow> 'w \<Rightarrow> stream_item list \<times> bool \<times> 'w" where
  "flush_overflow ops tx [] w = ([], False, w)"
| "flush_overflow ops tx (x # xs) w =
     (case try_send ops tx x w of
        (Sent, w') \<Rightarrow> flush_overflow ops tx xs w'
      | (Full, w') \<Rightarrow> (x # xs, False, w')
      | (Closed, w') \<Rightarrow> (xs, True, w'))"

text \<open>A loop over the senders and their overflow buffers, with an accumulator.\<close>

fun for_replicas ::
  "(channel option \<Rightarrow> stream_item list \<Rightarrow> 'x \<Rightarrow> channel option \<times> stream_item list \<times> 'x) \<Rightarrow>
   channel option list \<Rightarrow> stream_item list list \<Rightarrow> 'x \<Rightarrow> channel option list \<times> stream_item list list \<times> 'x" where
  "for_replicas f (s # ss) (ov # ovs) x =
     (let (s1, ov1, x1) = f s ov x;
          (ss2, ovs2, x2) = for_replicas f ss ovs x1
      in (s1 # ss2, ov1 # ovs2, x2))"
| "for_replicas f ss ovs x = (ss, ovs, x)"

text \<open>One turn of the first loop of \<open>write\<close>; the accumulator holds \<open>active\<close> and the world.\<close>

fun write_replica ::
  "'w mpsc \<Rightarrow> stream_item \<Rightarrow> channel option \<Rightarrow> stream_item list \<Rightarrow> bool \<times> 'w \<Rightarrow>
   channel option \<times> stream_item list \<times> bool \<times> 'w" where
  "write_replica ops batch None overflow (active, w) = (None, overflow, active, w)"
| "write_replica ops batch (Some tx) overflow (active, w) =
     (let (overflow1, dropped, w1) = flush_overflow ops tx overflow w in
      if dropped then (None, [], active, w1)
      else if overflow1 = [] then
        (case try_send ops tx batch w1 of
           (Sent, w2) \<Rightarrow> (Some tx, [], True, w2)
         | (Full, w2) \<Rightarrow> (Some tx, [batch], True, w2)
         | (Closed, w2) \<Rightarrow> (None, [], active, w2))
      else (Some tx, overflow1 @ [batch], True, w1))"

text \<open>
  The credit loop of one replica: while more than \<open>cap\<close> items overflow, wait for room and send the
  oldest one; a receiver that is gone ends it.
\<close>

fun credit_drain ::
  "'w mpsc \<Rightarrow> nat \<Rightarrow> channel option \<Rightarrow> stream_item list \<Rightarrow> 'w \<Rightarrow> channel option \<times> stream_item list \<times> 'w" where
  "credit_drain ops cap None overflow w = (None, overflow, w)"
| "credit_drain ops cap (Some tx) [] w = (Some tx, [], w)"
| "credit_drain ops cap (Some tx) (x # xs) w =
     (if length (x # xs) > cap then
        (case reserve_send ops tx x w of
           (True, w') \<Rightarrow> credit_drain ops cap (Some tx) xs w'
         | (False, w') \<Rightarrow> (None, [], w'))
      else (Some tx, x # xs, w))"

text \<open>\<open>MemoryStreamReplicaSender::write\<close>; \<open>cap\<close> is the process-wide \<open>credit_cap\<close>, 0 for no credit.\<close>

definition memory_write ::
  "'w mpsc \<Rightarrow> nat \<Rightarrow> stream_item \<Rightarrow> replica_sender \<Rightarrow> 'w \<Rightarrow> sink_state \<times> replica_sender \<times> 'w" where
  "memory_write ops cap batch rs w =
     (let (ss, ovs, active, w1) = for_replicas (write_replica ops batch) (rs_senders rs) (rs_overflow rs) (False, w);
          (ss2, ovs2, w2) = (if cap > 0 then for_replicas (credit_drain ops cap) ss ovs w1 else (ss, ovs, w1))
      in (if active then Sink_Ok else Sink_Closed, \<lparr>rs_senders = ss2, rs_overflow = ovs2\<rparr>, w2))"

fun close_replica ::
  "'w mpsc \<Rightarrow> channel option \<Rightarrow> stream_item list \<Rightarrow> 'w \<Rightarrow> channel option \<times> stream_item list \<times> 'w" where
  "close_replica ops None overflow w = (None, overflow, w)"
| "close_replica ops (Some tx) [] w = (Some tx, [], w)"
| "close_replica ops (Some tx) (x # xs) w =
     (case send_wait ops tx x w of
        (True, w') \<Rightarrow> close_replica ops (Some tx) xs w'
      | (False, w') \<Rightarrow> (None, [], w'))"

definition memory_close :: "'w mpsc \<Rightarrow> replica_sender \<Rightarrow> 'w \<Rightarrow> replica_sender \<times> 'w" where
  "memory_close ops rs w =
     (let (ss, ovs, w1) = for_replicas (close_replica ops) (rs_senders rs) (rs_overflow rs) w
      in (\<lparr>rs_senders = ss, rs_overflow = ovs\<rparr>, w1))"

text \<open>\<open>credit_cap\<close> on the environment: the parsed value of the variable, 0 when unset or not a number.\<close>

definition resolve_credit_cap :: "(string \<Rightarrow> string option) \<Rightarrow> (string \<Rightarrow> nat option) \<Rightarrow> nat" where
  "resolve_credit_cap env parse =
     (case env ''ZELOX_CREDIT_BACKPRESSURE'' of
        None \<Rightarrow> 0
      | Some s \<Rightarrow> (case parse s of None \<Rightarrow> 0 | Some n \<Rightarrow> n))"

section \<open>Disk streams\<close>

record disk_stream =
  dsk_path :: spill_path
  dsk_schema :: schema
  dsk_senders :: "channel list"

definition disk_stream_new :: "spill_path \<Rightarrow> schema \<Rightarrow> channel list \<Rightarrow> disk_stream" where
  "disk_stream_new path sch senders = \<lparr>dsk_path = path, dsk_schema = sch, dsk_senders = senders\<rparr>"

definition disk_publish :: "disk_io \<Rightarrow> disk_stream \<Rightarrow> task_stream_sink execution_result \<times> disk_stream" where
  "disk_publish io ds =
     (case create_file io (dsk_path ds) of
        Some e \<Rightarrow> (Inl (InternalError ''disk stream: failed to create file {:?}: {e}''), ds)
      | None \<Rightarrow>
          (case ipc_writer io (dsk_path ds) (dsk_schema ds) of
             Some e \<Rightarrow> (Inl (InternalError ''disk stream: IPC writer init: {e}''), ds)
           | None \<Rightarrow>
               (Inr (Sink_Disk \<lparr>dk_path = dsk_path ds, dk_written = [], dk_pending_senders = dsk_senders ds\<rparr>),
                ds\<lparr>dsk_senders := []\<rparr>)))"

definition disk_subscribe :: "channel \<Rightarrow> disk_stream \<Rightarrow> task_stream_source execution_result \<times> disk_stream" where
  "disk_subscribe next ds = (Inr (Source_Receiver next), ds\<lparr>dsk_senders := dsk_senders ds @ [next]\<rparr>)"

definition disk_write :: "disk_io \<Rightarrow> stream_item \<Rightarrow> disk_sink \<Rightarrow> sink_state \<times> disk_sink" where
  "disk_write io item dk =
     (case item of
        Inr b \<Rightarrow>
          (case ipc_write io (dk_path dk) b of
             Some e \<Rightarrow> (Sink_Error (Stream_Unknown e), dk)
           | None \<Rightarrow> (Sink_Ok, dk\<lparr>dk_written := dk_written dk @ [b]\<rparr>))
      | Inl e \<Rightarrow> (Sink_Error e, dk))"

fun replay :: "'w mpsc \<Rightarrow> channel \<Rightarrow> record_batch list \<Rightarrow> 'w \<Rightarrow> 'w" where
  "replay ops tx [] w = w"
| "replay ops tx (b # bs) w =
     (case send_wait ops tx (Inr b) w of
        (True, w') \<Rightarrow> replay ops tx bs w'
      | (False, w') \<Rightarrow> w')"

definition disk_close :: "disk_io \<Rightarrow> 'w mpsc \<Rightarrow> disk_sink \<Rightarrow> 'w \<Rightarrow> (string + unit) \<times> 'w" where
  "disk_close io ops dk w =
     (case ipc_finish io (dk_path dk) of
        Some e \<Rightarrow> (Inl e, w)
      | None \<Rightarrow>
          if dk_pending_senders dk = [] then (Inr (), w)
          else
            (case ipc_read io (dk_path dk) of
               Inl e \<Rightarrow> (Inl e, w)
             | Inr batches \<Rightarrow> (Inr (), foldl (\<lambda>w tx. replay ops tx batches w) w (dk_pending_senders dk))))"

section \<open>The trait \<open>LocalStream\<close>\<close>

datatype local_stream = Stream_Memory memory_stream | Stream_Disk disk_stream

fun local_publish :: "disk_io \<Rightarrow> local_stream \<Rightarrow> task_stream_sink execution_result \<times> local_stream" where
  "local_publish io (Stream_Memory ms) = map_prod id Stream_Memory (memory_publish ms)"
| "local_publish io (Stream_Disk ds) = map_prod id Stream_Disk (disk_publish io ds)"

text \<open>A subscription of a disk stream makes a channel; the next free number is returned.\<close>

fun local_subscribe :: "channel \<Rightarrow> local_stream \<Rightarrow> task_stream_source execution_result \<times> local_stream \<times> channel" where
  "local_subscribe next (Stream_Memory ms) =
     (let (r, ms1) = memory_subscribe ms in (r, Stream_Memory ms1, next))"
| "local_subscribe next (Stream_Disk ds) =
     (let (r, ds1) = disk_subscribe next ds in (r, Stream_Disk ds1, next + 1))"

end
