(* ===== verification/Local_Streams_Correct.thy ===== *)
theory Local_Streams_Correct
  imports Local_Streams
begin

text \<open>
  Correctness of the memory stream. What a loop over the replicas does to one of them is a
  \<open>replica_step\<close>: it touches no other channel, and as long as the replica's receiver is there, the
  items its channel has accepted followed by the items that overflow grow by the batch written and
  by nothing else, in order. Runs interleave writes with whatever the receivers do.
\<close>

section \<open>One replica\<close>

definition replica_step ::
  "('x \<Rightarrow> channel \<Rightarrow> stream_item list) \<Rightarrow> stream_item list \<Rightarrow> channel option \<Rightarrow> stream_item list \<Rightarrow> 'x \<Rightarrow>
   channel option \<times> stream_item list \<times> 'x \<Rightarrow> bool" where
  "replica_step acc added s ov x = (\<lambda>(s', ov', x').
     (\<forall>c. s \<noteq> Some c \<longrightarrow> acc x' c = acc x c) \<and> (s' = None \<or> s' = s) \<and>
     (\<forall>c. s' = Some c \<longrightarrow> acc x' c @ ov' = acc x c @ ov @ added))"

lemma flush_overflow_accepts:
  assumes "mpsc_laws ops acc" "flush_overflow ops tx ov w = (ov', dropped, w')"
  shows "(\<forall>c. c \<noteq> tx \<longrightarrow> acc w' c = acc w c) \<and> (dropped \<or> acc w' tx @ ov' = acc w tx @ ov)"
  using assms(2)
proof (induction ov arbitrary: w)
  case (Cons x ov)
  obtain r w1 where s: "try_send ops tx x w = (r, w1)" by (cases "try_send ops tx x w")
  with assms(1) have "accepts acc tx x (r = Sent) w w1" by (auto simp: mpsc_laws_def)
  with Cons s show ?case by (cases r) (fastforce simp: accepts_def)+
qed auto

lemma write_replica_step:
  assumes laws: "mpsc_laws ops acc"
  shows "replica_step (acc \<circ> snd) [batch] s ov x (write_replica ops batch s ov x)"
proof (cases s; cases x)
  fix tx active w
  assume s: "s = Some tx" and x: "x = (active, w)"
  obtain ov1 dropped w1 where fl: "flush_overflow ops tx ov w = (ov1, dropped, w1)"
    by (cases "flush_overflow ops tx ov w") auto
  obtain r w2 where ts: "try_send ops tx batch w1 = (r, w2)" by (cases "try_send ops tx batch w1")
  with laws have "accepts acc tx batch (r = Sent) w1 w2" by (auto simp: mpsc_laws_def)
  with flush_overflow_accepts [OF laws fl] fl ts s x show ?thesis
    by (cases r) (auto simp: replica_step_def accepts_def)
qed (auto simp: replica_step_def)

lemma credit_drain_step:
  assumes laws: "mpsc_laws ops acc"
  shows "replica_step acc [] s ov w (credit_drain ops cap s ov w)"
proof (cases s)
  case (Some tx)
  have "replica_step acc [] (Some tx) ov w (credit_drain ops cap (Some tx) ov w)"
  proof (induction ov arbitrary: w)
    case (Cons x ov)
    obtain r w1 where rs: "reserve_send ops tx x w = (r, w1)" by (cases "reserve_send ops tx x w")
    with laws have "accepts acc tx x r w w1" by (auto simp: mpsc_laws_def)
    with Cons [of w1] rs show ?case by (cases r) (auto simp: replica_step_def accepts_def split: prod.splits)
  qed (simp add: replica_step_def)
  with Some show ?thesis by simp
qed (simp add: replica_step_def)

lemma close_replica_step:
  assumes laws: "mpsc_laws ops acc"
  shows "replica_step acc [] s ov w (close_replica ops s ov w)"
proof (cases s)
  case (Some tx)
  have "replica_step acc [] (Some tx) ov w (close_replica ops (Some tx) ov w)"
  proof (induction ov arbitrary: w)
    case (Cons x ov)
    obtain r w1 where rs: "send_wait ops tx x w = (r, w1)" by (cases "send_wait ops tx x w")
    with laws have "accepts acc tx x r w w1" by (auto simp: mpsc_laws_def)
    with Cons [of w1] rs show ?case by (cases r) (auto simp: replica_step_def accepts_def split: prod.splits)
  qed (simp add: replica_step_def)
  with Some show ?thesis by simp
qed (simp add: replica_step_def)

lemma close_replica_empty: "close_replica ops (Some tx) ov w = (Some c, ov', w') \<Longrightarrow> ov' = []"
  by (induction ov arbitrary: w) (auto split: prod.splits bool.splits)

lemma close_replica_open_empty: "close_replica ops s ov w = (s', ov', w') \<Longrightarrow> s' \<noteq> None \<longrightarrow> ov' = []"
  using close_replica_empty by (cases s) fastforce+

section \<open>All replicas\<close>

definition replica_channels :: "channel option list \<Rightarrow> channel list" where
  "replica_channels ss = List.map_filter id ss"

lemma replica_channels_simps [simp]:
  "replica_channels [] = []"
  "replica_channels (None # ss) = replica_channels ss"
  "replica_channels (Some c # ss) = c # replica_channels ss"
  by (simp_all add: replica_channels_def)

lemma set_replica_channels: "set (replica_channels ss) = {c. Some c \<in> set ss}"
  by (induction ss) (auto simp: replica_channels_def List.map_filter_def)

text \<open>What the buffers of all replicas hold after a loop, in terms of what they held before.\<close>

definition replicas_step ::
  "('x \<Rightarrow> channel \<Rightarrow> stream_item list) \<Rightarrow> stream_item list \<Rightarrow> channel option list \<Rightarrow> stream_item list list \<Rightarrow> 'x \<Rightarrow>
   channel option list \<times> stream_item list list \<times> 'x \<Rightarrow> bool" where
  "replicas_step acc added ss ovs x = (\<lambda>(ss', ovs', x').
     length ss' = length ss \<and> length ovs' = length ovs \<and>
     (\<forall>c. c \<notin> set (replica_channels ss) \<longrightarrow> acc x' c = acc x c) \<and>
     (\<forall>i < length ss. (ss' ! i = None \<or> ss' ! i = ss ! i) \<and>
        (\<forall>c. ss' ! i = Some c \<longrightarrow> acc x' c @ ovs' ! i = acc x c @ ovs ! i @ added)))"

lemma for_replicas_step:
  assumes f: "\<And>s ov x. replica_step acc added s ov x (f s ov x)"
    and "length ss = length ovs" and "distinct (replica_channels ss)"
  shows "replicas_step acc added ss ovs x (for_replicas f ss ovs x)"
  using assms(2,3)
proof (induction ss ovs arbitrary: x rule: list_induct2)
  case (Cons s ss ov ovs)
  obtain s1 ov1 x1 where s1: "f s ov x = (s1, ov1, x1)" by (cases "f s ov x") auto
  obtain ss2 ovs2 x2 where s2: "for_replicas f ss ovs x1 = (ss2, ovs2, x2)"
    by (cases "for_replicas f ss ovs x1") auto
  have one: "replica_step acc added s ov x (s1, ov1, x1)" using f [of s ov x] s1 by simp
  have d: "distinct (replica_channels ss)" using Cons.prems by (cases s) auto
  have rest: "replicas_step acc added ss ovs x1 (ss2, ovs2, x2)" using Cons.IH [OF d, of x1] s2 by simp
  have keep: "acc x2 c = acc x1 c" if "s = Some c" for c
    using that rest Cons.prems by (auto simp: replicas_step_def)
  have pre: "acc x1 c = acc x c" if "c \<in> set (replica_channels ss)" for c
    using that one Cons.prems by (auto simp: replica_step_def)
  have "(s1 # ss2) ! i = None \<or> (s1 # ss2) ! i = (s # ss) ! i" if "i < Suc (length ss)" for i
    using that one rest by (cases i) (auto simp: replica_step_def replicas_step_def)
  moreover have "acc x2 c @ (ov1 # ovs2) ! i = acc x c @ (ov # ovs) ! i @ added"
    if i: "i < Suc (length ss)" and c: "(s1 # ss2) ! i = Some c" for i c
  proof (cases i)
    case 0
    then show ?thesis using c one keep by (auto simp: replica_step_def)
  next
    case (Suc j)
    with i c have j: "j < length ss" "ss2 ! j = Some c" by auto
    with rest have "ss ! j = Some c" by (auto simp: replicas_step_def)
    with j(1) have "c \<in> set (replica_channels ss)" by (auto simp: set_replica_channels in_set_conv_nth intro!: exI [of _ j])
    with j rest pre Suc show ?thesis by (auto simp: replicas_step_def)
  qed
  moreover have "acc x2 c = acc x c" if "c \<notin> set (replica_channels (s # ss))" for c
    using that one rest by (cases s) (auto simp: replica_step_def replicas_step_def)
  ultimately show ?case using rest by (simp add: s1 s2 replicas_step_def)
qed (simp add: replicas_step_def)

lemma replicas_step_channels:
  assumes "replicas_step acc added ss ovs x (ss', ovs', x')" "distinct (replica_channels ss)"
  shows "distinct (replica_channels ss') \<and> set (replica_channels ss') \<subseteq> set (replica_channels ss)"
proof -
  have len: "length ss' = length ss" and sub: "\<forall>i < length ss. ss' ! i = None \<or> ss' ! i = ss ! i"
    using assms(1) by (auto simp: replicas_step_def)
  from len sub assms(2) show ?thesis
  proof (induction ss' ss rule: list_induct2)
    case (Cons s' ss' s ss)
    have "ss' ! i = None \<or> ss' ! i = ss ! i" if "i < length ss" for i using Cons.prems(1) that by (metis Suc_less_eq length_Cons nth_Cons_Suc)
    moreover have "s' = None \<or> s' = s" using Cons.prems(1) by (metis length_Cons nth_Cons_0 zero_less_Suc)
    ultimately show ?case using Cons.IH Cons.prems(2) by (cases s; cases s') auto
  qed simp
qed

lemma replicas_step_trans:
  assumes a: "replicas_step acc a ss ovs x (ss1, ovs1, x1)" and b: "replicas_step acc b ss1 ovs1 x1 (ss2, ovs2, x2)"
    and d: "distinct (replica_channels ss)"
  shows "replicas_step acc (a @ b) ss ovs x (ss2, ovs2, x2)"
proof -
  have "acc x2 c = acc x c" if "c \<notin> set (replica_channels ss)" for c
    using a b that replicas_step_channels [OF a d] by (auto simp: replicas_step_def)
  moreover have "(ss2 ! i = None \<or> ss2 ! i = ss ! i) \<and>
      (\<forall>c. ss2 ! i = Some c \<longrightarrow> acc x2 c @ ovs2 ! i = acc x c @ ovs ! i @ a @ b)" if i: "i < length ss" for i
  proof -
    have i1: "i < length ss1" using i a by (simp add: replicas_step_def)
    have eq: "ss1 ! i = Some c" if "ss2 ! i = Some c" for c
      using b i1 that by (auto simp: replicas_step_def)
    have s1: "(ss1 ! i = None \<or> ss1 ! i = ss ! i) \<and> (\<forall>c. ss1 ! i = Some c \<longrightarrow> acc x1 c @ ovs1 ! i = acc x c @ ovs ! i @ a)"
      using a i by (auto simp: replicas_step_def)
    have s2: "(ss2 ! i = None \<or> ss2 ! i = ss1 ! i) \<and> (\<forall>c. ss2 ! i = Some c \<longrightarrow> acc x2 c @ ovs2 ! i = acc x1 c @ ovs1 ! i @ b)"
      using b i1 by (auto simp: replicas_step_def)
    show ?thesis
    proof (cases "ss2 ! i")
      case (Some c)
      then have "ss ! i = Some c" "acc x1 c @ ovs1 ! i = acc x c @ ovs ! i @ a" "acc x2 c @ ovs2 ! i = acc x1 c @ ovs1 ! i @ b"
        using s1 s2 eq by auto
      then show ?thesis using Some by (simp flip: append_assoc)
    qed simp
  qed
  ultimately show ?thesis using a b by (simp add: replicas_step_def)
qed

lemma memory_write_step:
  assumes laws: "mpsc_laws ops acc" and wr: "memory_write ops cap batch rs w = (st, rs', w')"
    and len: "length (rs_senders rs) = length (rs_overflow rs)" and d: "distinct (replica_channels (rs_senders rs))"
  shows "replicas_step acc [batch] (rs_senders rs) (rs_overflow rs) w (rs_senders rs', rs_overflow rs', w')"
proof -
  obtain ss ovs active w1 where
    fr: "for_replicas (write_replica ops batch) (rs_senders rs) (rs_overflow rs) (False, w) = (ss, ovs, active, w1)"
    by (metis prod.exhaust)
  have "replicas_step (acc \<circ> snd) [batch] (rs_senders rs) (rs_overflow rs) (False, w) (ss, ovs, active, w1)"
    using for_replicas_step [OF write_replica_step [OF laws, where batch = batch] len d, of "(False, w)"] fr by simp
  then have one: "replicas_step acc [batch] (rs_senders rs) (rs_overflow rs) w (ss, ovs, w1)"
    by (simp add: replicas_step_def)
  show ?thesis
  proof (cases "cap > 0")
    case False
    then show ?thesis using wr fr one by (auto simp: memory_write_def)
  next
    case True
    obtain ss2 ovs2 w2 where cr: "for_replicas (credit_drain ops cap) ss ovs w1 = (ss2, ovs2, w2)"
      by (metis prod.exhaust)
    have "length ss = length ovs" using one len by (simp add: replicas_step_def)
    from for_replicas_step [OF credit_drain_step [OF laws, where cap = cap] this, of w1] replicas_step_channels [OF one d] cr
    have "replicas_step acc [] ss ovs w1 (ss2, ovs2, w2)" by simp
    from replicas_step_trans [OF one this d] show ?thesis using True wr fr cr by (auto simp: memory_write_def)
  qed
qed

lemma memory_close_step:
  assumes laws: "mpsc_laws ops acc" and cl: "memory_close ops rs w = (rs', w')"
    and len: "length (rs_senders rs) = length (rs_overflow rs)" and d: "distinct (replica_channels (rs_senders rs))"
  shows "replicas_step acc [] (rs_senders rs) (rs_overflow rs) w (rs_senders rs', rs_overflow rs', w')"
  using for_replicas_step [OF close_replica_step [OF laws] len d, of w] cl
  by (auto simp: memory_close_def split: prod.splits)

text \<open>A loop over the replicas establishes, for each, what its body establishes.\<close>

lemma for_replicas_all:
  assumes f: "\<And>s ov x s' ov' x'. P s ov \<Longrightarrow> f s ov x = (s', ov', x') \<Longrightarrow> Q s' ov'"
    and "length ss = length ovs" and "list_all2 P ss ovs" and "for_replicas f ss ovs x = (ss', ovs', x')"
  shows "list_all2 Q ss' ovs'"
  using assms(2-)
proof (induction ss ovs arbitrary: x ss' ovs' rule: list_induct2)
  case (Cons s ss ov ovs)
  then show ?case by (auto simp: Let_def split: prod.splits intro: f)
qed auto

fun closed_empty :: "channel option \<Rightarrow> stream_item list \<Rightarrow> bool" where
  "closed_empty None ov = (ov = [])"
| "closed_empty (Some _) ov = True"

lemma write_replica_closed_empty:
  "closed_empty s ov \<Longrightarrow> write_replica ops batch s ov x = (s', ov', x') \<Longrightarrow> closed_empty s' ov'"
  by (cases s; cases x) (auto simp: Let_def split: prod.splits try_send_result.splits if_splits)

lemma credit_drain_bound:
  "closed_empty s ov \<Longrightarrow> credit_drain ops cap s ov w = (s', ov', w') \<Longrightarrow> closed_empty s' ov' \<and> length ov' \<le> cap"
proof (induction ops cap s ov w rule: credit_drain.induct)
  case (3 ops cap tx x xs w)
  then show ?case by (auto split: if_splits prod.splits bool.splits)
qed auto

section \<open>Runs of a sink\<close>

text \<open>
  A run writes items; between two writes the receivers may take items or go away, which changes
  the world but not what the channels have accepted.
\<close>

inductive sink_run ::
  "'w mpsc \<Rightarrow> ('w \<Rightarrow> channel \<Rightarrow> stream_item list) \<Rightarrow> nat \<Rightarrow> replica_sender \<times> 'w \<Rightarrow> stream_item list \<Rightarrow>
   replica_sender \<times> 'w \<Rightarrow> bool" for ops acc cap s where
  run_start: "sink_run ops acc cap s [] s"
| run_write: "sink_run ops acc cap s items (rs, w) \<Longrightarrow> memory_write ops cap item rs w = (st, rs', w') \<Longrightarrow>
    sink_run ops acc cap s (items @ [item]) (rs', w')"
| run_receivers: "sink_run ops acc cap s items (rs, w) \<Longrightarrow> acc w' = acc w \<Longrightarrow> sink_run ops acc cap s items (rs, w')"

definition fresh_sender :: "replica_sender \<Rightarrow> bool" where
  "fresh_sender rs \<longleftrightarrow> length (rs_senders rs) = length (rs_overflow rs) \<and> set (rs_overflow rs) \<subseteq> {[]} \<and>
     None \<notin> set (rs_senders rs) \<and> distinct (replica_channels (rs_senders rs))"

lemma replica_channels_map_Some [simp]: "replica_channels (map Some cs @ map Some ds) = cs @ ds"
  by (induction cs) (auto simp: replica_channels_def List.map_filter_def comp_def)

lemma memory_stream_new_fresh:
  assumes "memory_stream_new n senders next = (ms, next')" "distinct senders" "\<forall>c \<in> set senders. c < next"
  shows "\<exists>rs. ms_sender ms = Some rs \<and> fresh_sender rs \<and>
    replica_channels (rs_senders rs) = senders @ [next..<next']"
proof -
  have "set senders \<inter> {next..<m} = {}" for m using assms(3) by force
  with assms show ?thesis by (auto simp: memory_stream_new_def fresh_sender_def Let_def)
qed

lemma sink_run_inv:
  assumes "sink_run ops acc cap (rs, w) items s" and laws: "mpsc_laws ops acc" and "fresh_sender rs"
  shows "case s of (rs', w') \<Rightarrow> length (rs_senders rs') = length (rs_overflow rs') \<and>
    replicas_step acc items (rs_senders rs) (rs_overflow rs) w (rs_senders rs', rs_overflow rs', w')"
  using assms(1)
proof (induction rule: sink_run.induct)
  case run_start
  show ?case using assms(3) by (auto simp: fresh_sender_def replicas_step_def)
next
  case (run_write items rs1 w1 item st rs2 w2)
  then have len: "length (rs_senders rs1) = length (rs_overflow rs1)"
    and r: "replicas_step acc items (rs_senders rs) (rs_overflow rs) w (rs_senders rs1, rs_overflow rs1, w1)" by auto
  have d: "distinct (replica_channels (rs_senders rs))" using assms(3) by (simp add: fresh_sender_def)
  note st = memory_write_step [OF laws run_write.hyps(2) len conjunct1 [OF replicas_step_channels [OF r d]]]
  from replicas_step_trans [OF r st d] st len show ?case by (simp add: replicas_step_def)
next
  case (run_receivers items rs1 w1 w2)
  then show ?case by (simp add: replicas_step_def)
qed

lemma memory_write_closed_empty:
  assumes "memory_write ops cap item rs w = (st, rs', w')" "list_all2 closed_empty (rs_senders rs) (rs_overflow rs)"
  shows "list_all2 closed_empty (rs_senders rs') (rs_overflow rs') \<and>
    (cap > 0 \<longrightarrow> list_all2 (\<lambda>_ ov. length ov \<le> cap) (rs_senders rs') (rs_overflow rs'))"
proof -
  obtain ss ovs active w1 where
    fr: "for_replicas (write_replica ops item) (rs_senders rs) (rs_overflow rs) (False, w) = (ss, ovs, active, w1)"
    by (metis prod.exhaust)
  from for_replicas_all [OF write_replica_closed_empty list_all2_lengthD [OF assms(2)] assms(2) fr]
  have ce: "list_all2 closed_empty ss ovs" .
  obtain ss2 ovs2 w2 where cr: "for_replicas (credit_drain ops cap) ss ovs w1 = (ss2, ovs2, w2)" by (metis prod.exhaust)
  from for_replicas_all [OF credit_drain_bound list_all2_lengthD [OF ce] ce cr]
  have "list_all2 (\<lambda>s ov. closed_empty s ov \<and> length ov \<le> cap) ss2 ovs2" .
  then have "list_all2 closed_empty ss2 ovs2" "list_all2 (\<lambda>_ ov. length ov \<le> cap) ss2 ovs2"
    by (auto elim: list_all2_mono)
  with ce show ?thesis using assms(1) fr cr by (auto simp: memory_write_def split: if_splits)
qed

lemma fresh_sender_overflow: "fresh_sender rs \<Longrightarrow> i < length (rs_senders rs) \<Longrightarrow> rs_overflow rs ! i = []"
  unfolding fresh_sender_def by (metis nth_mem singletonD subsetD)

lemma fresh_sender_closed_empty:
  assumes "fresh_sender rs"
  shows "list_all2 closed_empty (rs_senders rs) (rs_overflow rs)" "list_all2 (\<lambda>_ ov. length ov \<le> cap) (rs_senders rs) (rs_overflow rs)"
proof -
  have len: "length (rs_senders rs) = length (rs_overflow rs)" using assms by (simp add: fresh_sender_def)
  have "closed_empty s []" for s by (cases s) auto
  with len show "list_all2 closed_empty (rs_senders rs) (rs_overflow rs)"
    by (simp add: list_all2_conv_all_nth fresh_sender_overflow [OF assms])
  from len show "list_all2 (\<lambda>_ ov. length ov \<le> cap) (rs_senders rs) (rs_overflow rs)"
    by (simp add: list_all2_conv_all_nth fresh_sender_overflow [OF assms])
qed

section \<open>An example\<close>

text \<open>
  Bounded channels of capacity 1: a channel is what it has accepted and how many items its receiver
  has taken. A call that waits returns when the receiver has taken everything before.
\<close>

type_synonym example_world = "channel \<Rightarrow> stream_item list \<times> nat"

definition example_mpsc :: "example_world mpsc" where
  "example_mpsc =
     \<lparr>try_send = (\<lambda>c x w. if length (fst (w c)) - snd (w c) < 1
                     then (Sent, w(c := (fst (w c) @ [x], snd (w c)))) else (Full, w)),
      reserve_send = (\<lambda>c x w. (True, w(c := (fst (w c) @ [x], length (fst (w c)))))),
      send_wait = (\<lambda>c x w. (True, w(c := (fst (w c) @ [x], length (fst (w c))))))\<rparr>"

definition accepted_of :: "example_world \<Rightarrow> channel \<Rightarrow> stream_item list" where
  "accepted_of w c = fst (w c)"

lemma example_mpsc_laws: "mpsc_laws example_mpsc accepted_of"
  by (auto simp: mpsc_laws_def accepts_def example_mpsc_def accepted_of_def split: if_splits)

definition example_item :: "nat \<Rightarrow> stream_item" where
  "example_item n = Inr \<lparr>rb_rows = [n]\<rparr>"

definition example_sink :: "nat \<Rightarrow> replica_sender \<times> example_world" where
  "example_sink cap =
     (let rs = the (ms_sender (fst (memory_stream_new 2 [0] 1)));
          (_, rs1, w1) = memory_write example_mpsc cap (example_item 7) rs (\<lambda>_. ([], 0));
          (_, rs2, w2) = memory_write example_mpsc cap (example_item 8) rs1 w1
      in snd (memory_write example_mpsc cap (example_item 9) rs2 w2))"

lemma example_sink_run:
  "sink_run example_mpsc accepted_of cap (the (ms_sender (fst (memory_stream_new 2 [0] 1))), \<lambda>_. ([], 0))
     [example_item 7, example_item 8, example_item 9] (example_sink cap)"
proof -
  let ?rs = "the (ms_sender (fst (memory_stream_new 2 [0] 1)))"
  obtain st1 rs1 w1 where 1: "memory_write example_mpsc cap (example_item 7) ?rs (\<lambda>_. ([], 0)) = (st1, rs1, w1)"
    by (metis prod.exhaust)
  obtain st2 rs2 w2 where 2: "memory_write example_mpsc cap (example_item 8) rs1 w1 = (st2, rs2, w2)" by (metis prod.exhaust)
  obtain st3 rs3 w3 where 3: "memory_write example_mpsc cap (example_item 9) rs2 w2 = (st3, rs3, w3)" by (metis prod.exhaust)
  from run_write [OF run_write [OF run_write [OF run_start 1] 2] 3]
  show ?thesis unfolding example_sink_def Let_def 1 prod.case 2 3 by simp
qed

section \<open>Properties\<close>



text \<open>
  C26. With credit, no overflow buffer of a memory stream ever holds more than the credit: after
  every write the producer has waited until at most that many items overflow.
\<close>

theorem credit_bounds_overflow:
  assumes "memory_stream_new n senders next = (ms, next')" and "ms_sender ms = Some rs"
    and "distinct senders" and "\<forall>c \<in> set senders. c < next"
    and run: "sink_run ops acc cap (rs, w) items (rs1, w1)" and cap: "0 < cap"
  shows "\<forall>ov \<in> set (rs_overflow rs1). length ov \<le> cap"
proof -
  from memory_stream_new_fresh [OF assms(1,3,4)] assms(2) have fs: "fresh_sender rs" by auto
  have "case s of (rs1, w1) \<Rightarrow> list_all2 closed_empty (rs_senders rs1) (rs_overflow rs1) \<and>
      list_all2 (\<lambda>_ ov. length ov \<le> cap) (rs_senders rs1) (rs_overflow rs1)"
    if "sink_run ops acc cap (rs, w) items s" for s
    using that
  proof (induction rule: sink_run.induct)
    case run_start
    show ?case using fresh_sender_closed_empty [OF fs] by simp
  qed (use cap memory_write_closed_empty in fastforce)+
  from this [OF run] show ?thesis by (auto simp: list_all2_conv_all_nth in_set_conv_nth)
qed

theorem credit_bounds_overflow_witness:
  "list_all (\<lambda>ov. length ov \<le> 1) (rs_overflow (fst (example_sink 1))) \<and>
   map length (rs_overflow (fst (example_sink 0))) = [2, 2]"
proof
  let ?m = "memory_stream_new 2 [0] 1" and ?s = "example_sink 1"
  have s: "ms_sender (fst ?m) = Some (the (ms_sender (fst ?m)))" by code_simp
  from credit_bounds_overflow [OF surjective_pairing [of ?m] s, of example_mpsc accepted_of 1 "\<lambda>_. ([], 0)" _ "fst ?s" "snd ?s"]
    example_sink_run [of 1]
  show "list_all (\<lambda>ov. length ov \<le> 1) (rs_overflow (fst ?s))" by (simp add: list_all_iff)
  show "map length (rs_overflow (fst (example_sink 0))) = [2, 2]" by code_simp
qed

end
