(* ===== verification/Stream_Manager.thy ===== *)
theory Stream_Manager
  imports Local_Streams
begin

text \<open>
  The stream manager (\<open>stream_manager/core.rs\<close>) of the driver and of each worker: the local
  streams of a node by key, pending (subscribed to but not yet created), created or failed.
  Channels are numbered in the order in which they are made; \<open>sm_next_channel\<close> is the next number.
  Remote streams are not implemented by the source.
\<close>

section \<open>State\<close>

record stream_manager_options =
  mo_task_stream_buffer :: nat
  mo_task_stream_creation_timeout :: time
  mo_shuffle_spill_dir :: string

datatype local_stream_state =
    Stream_Pending "channel list"
  | Stream_Created local_stream
  | Stream_Failed common_error_cause

record stream_manager =
  sm_options :: stream_manager_options
  sm_local_streams :: "(task_stream_key, local_stream_state) index_map"
  sm_next_channel :: channel

definition stream_manager_new :: "stream_manager_options \<Rightarrow> stream_manager" where
  "stream_manager_new opts = \<lparr>sm_options = opts, sm_local_streams = [], sm_next_channel = 0\<rparr>"

abbreviation put_stream :: "task_stream_key \<Rightarrow> local_stream_state \<Rightarrow> stream_manager \<Rightarrow> stream_manager" where
  "put_stream k st sm \<equiv> sm\<lparr>sm_local_streams := im_insert k st (sm_local_streams sm)\<rparr>"

section \<open>Creating a stream\<close>

definition spill_path_of :: "stream_manager_options \<Rightarrow> task_stream_key \<Rightarrow> spill_path" where
  "spill_path_of opts k =
     Spill_Path (mo_shuffle_spill_dir opts) (sk_job_id k) (sk_stage k) (sk_partition k) (sk_attempt k)"

definition create_local_stream_with_senders ::
  "disk_io \<Rightarrow> local_stream_storage \<Rightarrow> channel list \<Rightarrow> stream_manager_options \<Rightarrow> task_stream_key \<Rightarrow> schema \<Rightarrow>
   channel \<Rightarrow> (local_stream \<times> channel) execution_result" where
  "create_local_stream_with_senders io storage senders opts k sch next =
     (case storage of
        Storage_Memory n \<Rightarrow>
          let (ms, next1) = memory_stream_new n senders next in Inr (Stream_Memory ms, next1)
      | Storage_Disk \<Rightarrow>
          (case create_dir_all io (mo_shuffle_spill_dir opts) of
             Some e \<Rightarrow> Inl (InternalError ''disk stream: failed to create spill dir {:?}: {e}'')
           | None \<Rightarrow> Inr (Stream_Disk (disk_stream_new (spill_path_of opts k) sch senders), next)))"

text \<open>The closure \<open>create\<close> of \<open>create_local_stream\<close>: make the stream, then publish it.\<close>

definition create_and_publish ::
  "disk_io \<Rightarrow> local_stream_storage \<Rightarrow> channel list \<Rightarrow> stream_manager_options \<Rightarrow> task_stream_key \<Rightarrow> schema \<Rightarrow>
   channel \<Rightarrow> (local_stream \<times> task_stream_sink \<times> channel) execution_result" where
  "create_and_publish io storage senders opts k sch next =
     (case create_local_stream_with_senders io storage senders opts k sch next of
        Inl e \<Rightarrow> Inl e
      | Inr (stream, next1) \<Rightarrow>
          (case local_publish io stream of
             (Inl e, _) \<Rightarrow> Inl e
           | (Inr sink, stream1) \<Rightarrow> Inr (stream1, sink, next1)))"

definition fail_senders :: "channel list \<Rightarrow> common_error_cause \<Rightarrow> effect list" where
  "fail_senders senders cause = map (\<lambda>tx. TrySend tx (Stream_Cause cause)) senders"

definition create_local_stream ::
  "disk_io \<Rightarrow> task_stream_key \<Rightarrow> local_stream_storage \<Rightarrow> schema \<Rightarrow> stream_manager \<Rightarrow>
   task_stream_sink execution_result \<times> stream_manager \<times> effect list" where
  "create_local_stream io k storage sch sm =
     (case im_get (sm_local_streams sm) k of
        Some (Stream_Created _) \<Rightarrow> (Inl (InternalError ''local stream {} is already created''), sm, [])
      | Some (Stream_Failed _) \<Rightarrow>
          (Inl (InternalError ''local stream creation has failed for {}: {}''), sm, [])
      | Some (Stream_Pending senders) \<Rightarrow>
          (case create_and_publish io storage senders (sm_options sm) k sch (sm_next_channel sm) of
             Inr (stream, sink, next) \<Rightarrow>
               (Inr sink, put_stream k (Stream_Created stream) (sm\<lparr>sm_next_channel := next\<rparr>), [])
           | Inl e \<Rightarrow>
               (Inl e, put_stream k (Stream_Failed (Cause_Of e)) sm, fail_senders senders (Cause_Of e)))
      | None \<Rightarrow>
          (case create_and_publish io storage [] (sm_options sm) k sch (sm_next_channel sm) of
             Inr (stream, sink, next) \<Rightarrow>
               (Inr sink, put_stream k (Stream_Created stream) (sm\<lparr>sm_next_channel := next\<rparr>), [])
           | Inl e \<Rightarrow> (Inl e, put_stream k (Stream_Failed (Cause_Of e)) sm, [])))"

definition create_remote_stream :: "string \<Rightarrow> task_stream_key \<Rightarrow> schema \<Rightarrow> task_stream_sink execution_result" where
  "create_remote_stream uri k sch = Inl (InternalError ''not implemented: remote stream'')"

section \<open>Fetching, failing and removing streams\<close>

definition fetch_local_stream ::
  "task_stream_key \<Rightarrow> stream_manager \<Rightarrow> task_stream_source execution_result \<times> stream_manager \<times> effect list" where
  "fetch_local_stream k sm =
     (let rx = sm_next_channel sm in
      case im_get (sm_local_streams sm) k of
        Some (Stream_Created stream) \<Rightarrow>
          let (r, stream1, next) = local_subscribe rx stream in
          (r, put_stream k (Stream_Created stream1) (sm\<lparr>sm_next_channel := next\<rparr>), [])
      | Some (Stream_Pending senders) \<Rightarrow>
          (Inr (Source_Receiver rx),
           put_stream k (Stream_Pending (senders @ [rx])) (sm\<lparr>sm_next_channel := rx + 1\<rparr>), [])
      | Some (Stream_Failed _) \<Rightarrow>
          (Inl (InternalError ''local stream creation has failed for {}: {}''), sm, [])
      | None \<Rightarrow>
          (Inr (Source_Receiver rx),
           put_stream k (Stream_Pending [rx]) (sm\<lparr>sm_next_channel := rx + 1\<rparr>),
           [SendWithDelay (ProbePendingLocalStream k) (mo_task_stream_creation_timeout (sm_options sm))]))"

definition fetch_remote_stream :: "string \<Rightarrow> task_stream_key \<Rightarrow> schema \<Rightarrow> task_stream_source execution_result" where
  "fetch_remote_stream uri k sch = Inl (InternalError ''not implemented: fetch remote stream'')"

definition remove_local_streams :: "job_id \<Rightarrow> nat option \<Rightarrow> stream_manager \<Rightarrow> stream_manager" where
  "remove_local_streams j stage sm =
     (case stage of
        Some s \<Rightarrow> sm\<lparr>sm_local_streams :=
          filter (\<lambda>(k, _). sk_job_id k \<noteq> j \<or> sk_stage k \<noteq> s) (sm_local_streams sm)\<rparr>
      | None \<Rightarrow> sm\<lparr>sm_local_streams := filter (\<lambda>(k, _). sk_job_id k \<noteq> j) (sm_local_streams sm)\<rparr>)"

definition fail_local_stream_if_pending :: "task_stream_key \<Rightarrow> stream_manager \<Rightarrow> stream_manager \<times> effect list" where
  "fail_local_stream_if_pending k sm =
     (case im_get (sm_local_streams sm) k of
        Some (Stream_Pending senders) \<Rightarrow>
          let cause = Cause_Execution ''local stream is not created within the expected time'' in
          (put_stream k (Stream_Failed cause) sm, fail_senders senders cause)
      | _ \<Rightarrow> (sm, []))"

end
