(* ===== verification/Stream_Manager_Correct.thy ===== *)
theory Stream_Manager_Correct
  imports Stream_Manager Local_Streams_Correct
begin

text \<open>
  Correctness of the stream manager. A run remembers the channels handed out to subscribers, the
  sinks handed out to producers and the effects. The invariant follows every channel: it has one
  owner, and a subscriber's channel waits with its pending stream, is written by a sink, or has
  been sent an error.
\<close>

section \<open>Runs\<close>

record stream_run =
  sr_manager :: stream_manager
  sr_subscribers :: "(task_stream_key \<times> channel) list"
  sr_sinks :: "task_stream_sink list"
  sr_effects :: "effect list"

fun sink_channels :: "task_stream_sink \<Rightarrow> channel set" where
  "sink_channels (Sink_Memory rs) = set (replica_channels (rs_senders rs))"
| "sink_channels (Sink_Disk dk) = set (dk_pending_senders dk)"

fun new_subscriber :: "task_stream_key \<Rightarrow> task_stream_source execution_result \<Rightarrow> (task_stream_key \<times> channel) list" where
  "new_subscriber k (Inr (Source_Receiver c)) = [(k, c)]"
| "new_subscriber k _ = []"

fun new_sink :: "task_stream_sink execution_result \<Rightarrow> task_stream_sink list" where
  "new_sink (Inr s) = [s]"
| "new_sink (Inl _) = []"

definition removes :: "job_id \<Rightarrow> nat option \<Rightarrow> task_stream_key \<Rightarrow> bool" where
  "removes j stage k \<longleftrightarrow> sk_job_id k = j \<and> (case stage of None \<Rightarrow> True | Some s \<Rightarrow> sk_stage k = s)"

text \<open>The streams are memory streams, the only storage the program asks for.\<close>

inductive stream_step :: "stream_run \<Rightarrow> stream_run \<Rightarrow> bool" where
  stream_create: "create_local_stream io k (Storage_Memory n) sch sm = (r, sm', es') \<Longrightarrow>
    stream_step \<lparr>sr_manager = sm, sr_subscribers = subs, sr_sinks = sinks, sr_effects = es\<rparr>
      \<lparr>sr_manager = sm', sr_subscribers = subs, sr_sinks = sinks @ new_sink r, sr_effects = es @ es'\<rparr>"
| stream_fetch: "fetch_local_stream k sm = (r, sm', es') \<Longrightarrow>
    stream_step \<lparr>sr_manager = sm, sr_subscribers = subs, sr_sinks = sinks, sr_effects = es\<rparr>
      \<lparr>sr_manager = sm', sr_subscribers = subs @ new_subscriber k r, sr_sinks = sinks, sr_effects = es @ es'\<rparr>"
| stream_fail: "fail_local_stream_if_pending k sm = (sm', es') \<Longrightarrow>
    stream_step \<lparr>sr_manager = sm, sr_subscribers = subs, sr_sinks = sinks, sr_effects = es\<rparr>
      \<lparr>sr_manager = sm', sr_subscribers = subs, sr_sinks = sinks, sr_effects = es @ es'\<rparr>"
| stream_remove: "stream_step \<lparr>sr_manager = sm, sr_subscribers = subs, sr_sinks = sinks, sr_effects = es\<rparr>
      \<lparr>sr_manager = remove_local_streams j stage sm,
       sr_subscribers = filter (\<lambda>(k, _). \<not> removes j stage k) subs, sr_sinks = sinks, sr_effects = es\<rparr>"

definition stream_run_new :: "stream_manager_options \<Rightarrow> stream_run" where
  "stream_run_new opts = \<lparr>sr_manager = stream_manager_new opts, sr_subscribers = [], sr_sinks = [], sr_effects = []\<rparr>"

section \<open>The invariant\<close>

fun stream_free :: "local_stream_state option \<Rightarrow> channel list" where
  "stream_free (Some (Stream_Created (Stream_Memory ms))) = ms_receivers ms"
| "stream_free _ = []"

fun stream_waiting :: "local_stream_state option \<Rightarrow> channel list" where
  "stream_waiting (Some (Stream_Pending cs)) = cs"
| "stream_waiting _ = []"

text \<open>A created stream is a published memory stream whose unclaimed receivers a sink writes to.\<close>

fun stream_ok :: "task_stream_sink list \<Rightarrow> local_stream_state option \<Rightarrow> bool" where
  "stream_ok sinks (Some (Stream_Created (Stream_Disk _))) = False"
| "stream_ok sinks (Some (Stream_Created (Stream_Memory ms))) =
     (ms_sender ms = None \<and> set (ms_receivers ms) \<subseteq> (\<Union>s \<in> set sinks. sink_channels s))"
| "stream_ok sinks _ = True"

definition stream_at :: "stream_manager \<Rightarrow> task_stream_key \<Rightarrow> local_stream_state option" where
  "stream_at sm k = im_get (sm_local_streams sm) k"

definition subscriber_served :: "stream_run \<Rightarrow> task_stream_key \<Rightarrow> channel \<Rightarrow> bool" where
  "subscriber_served r k c \<longleftrightarrow>
     c \<in> set (stream_waiting (stream_at (sr_manager r) k)) \<or>
     (\<exists>s \<in> set (sr_sinks r). c \<in> sink_channels s) \<or>
     (\<exists>e. TrySend c e \<in> set (sr_effects r))"

definition streams_inv :: "stream_run \<Rightarrow> bool" where
  "streams_inv r \<longleftrightarrow>
     (\<forall>k. stream_ok (sr_sinks r) (stream_at (sr_manager r) k)) \<and>
     (\<forall>k. let cs = stream_free (stream_at (sr_manager r) k) @ stream_waiting (stream_at (sr_manager r) k) in
        distinct cs \<and> (\<forall>c \<in> set cs. c < sm_next_channel (sr_manager r)) \<and>
        (\<forall>k'. k' \<noteq> k \<longrightarrow> set (stream_free (stream_at (sr_manager r) k)) \<inter> set (stream_free (stream_at (sr_manager r) k')) = {})) \<and>
     distinct (map snd (sr_subscribers r)) \<and>
     (\<forall>(k, c) \<in> set (sr_subscribers r). subscriber_served r k c \<and> c < sm_next_channel (sr_manager r) \<and>
        (\<forall>k'. c \<notin> set (stream_free (stream_at (sr_manager r) k'))))"

lemma stream_at_put [simp]: "stream_at (put_stream k st (sm\<lparr>sm_next_channel := n\<rparr>)) = (stream_at sm)(k \<mapsto> st)"
  "stream_at (put_stream k st sm) = (stream_at sm)(k \<mapsto> st)"
  "stream_at (sm\<lparr>sm_next_channel := n, sm_local_streams := im_insert k st (sm_local_streams sm)\<rparr>) = (stream_at sm)(k \<mapsto> st)"
  by (auto simp: stream_at_def fun_eq_iff simp del: map_of_eq_Some_iff)

lemma stream_ok_mono:
  "stream_ok sinks st \<Longrightarrow> set sinks \<subseteq> set sinks' \<Longrightarrow> stream_ok sinks' st"
proof (cases "(sinks, st)" rule: stream_ok.cases)
  case (2 sk ms)
  assume ok: "stream_ok sinks st" and sub: "set sinks \<subseteq> set sinks'"
  from sub have "(\<Union>s \<in> set sinks. sink_channels s) \<subseteq> (\<Union>s \<in> set sinks'. sink_channels s)" by (rule UN_mono) simp
  with ok 2 show ?thesis by (auto simp del: UN_simps)
qed simp_all

text \<open>
  An operation on the stream of one key, in general: it may hand out one channel, which is new and
  waits, or was free and is no longer.
\<close>

definition hands_out :: "channel \<Rightarrow> channel \<Rightarrow> local_stream_state option \<Rightarrow> local_stream_state option \<Rightarrow> channel list \<Rightarrow> bool" where
  "hands_out next next' st st' cs \<longleftrightarrow> cs = [] \<or>
     (\<exists>c. cs = [c] \<and> c \<notin> set (stream_free st') \<and>
        (next \<le> c \<and> c < next' \<and> c \<in> set (stream_waiting st') \<or> c \<in> set (stream_free st)))"

lemma streams_inv_at:
  assumes inv: "streams_inv r"
    and at: "stream_at (sr_manager r') = (stream_at (sr_manager r))(k := st')"
    and nx: "sm_next_channel (sr_manager r) \<le> sm_next_channel (sr_manager r')"
    and subs: "sr_subscribers r' = sr_subscribers r @ map (Pair k) cs"
    and sinks: "set (sr_sinks r) \<subseteq> set (sr_sinks r')" and effs: "set (sr_effects r) \<subseteq> set (sr_effects r')"
    and ok: "stream_ok (sr_sinks r') st'"
    and d: "distinct (stream_free st' @ stream_waiting st')"
    and lt: "\<forall>c \<in> set (stream_free st' @ stream_waiting st'). c < sm_next_channel (sr_manager r')"
    and free: "set (stream_free st') \<subseteq> set (stream_free (stream_at (sr_manager r) k)) \<union> {sm_next_channel (sr_manager r)..}"
    and waiting: "\<forall>c \<in> set (stream_waiting (stream_at (sr_manager r) k)). subscriber_served r' k c"
    and out: "hands_out (sm_next_channel (sr_manager r)) (sm_next_channel (sr_manager r')) (stream_at (sr_manager r) k) st' cs"
  shows "streams_inv r'"
proof -
  let ?at = "stream_at (sr_manager r)" and ?at' = "stream_at (sr_manager r')"
  let ?n = "sm_next_channel (sr_manager r)" and ?n' = "sm_next_channel (sr_manager r')"
  have okk: "stream_ok (sr_sinks r) (?at k')" and dd: "distinct (stream_free (?at k') @ stream_waiting (?at k'))"
    and ltk: "c \<in> set (stream_free (?at k') @ stream_waiting (?at k')) \<Longrightarrow> c < ?n"
    and dis: "k1 \<noteq> k' \<Longrightarrow> set (stream_free (?at k')) \<inter> set (stream_free (?at k1)) = {}" for k' c k1
    using inv by (auto simp: streams_inv_def Let_def)
  have ds: "distinct (map snd (sr_subscribers r))"
    and sv: "(k', c) \<in> set (sr_subscribers r) \<Longrightarrow> subscriber_served r k' c \<and> c < ?n \<and> (\<forall>k'. c \<notin> set (stream_free (?at k')))"
    for k' c using inv by (auto simp: streams_inv_def)
  have "stream_ok (sr_sinks r') (?at' k')" for k'
    using ok stream_ok_mono [OF okk [of k'] sinks] by (simp add: at)
  moreover have "distinct (stream_free (?at' k') @ stream_waiting (?at' k'))" for k' using d dd [of k'] by (simp add: at)
  moreover have "c < ?n'" if "c \<in> set (stream_free (?at' k') @ stream_waiting (?at' k'))" for c k'
    using that lt ltk [of c k'] nx by (fastforce simp: at split: if_splits)
  moreover have "set (stream_free (?at' k')) \<inter> set (stream_free (?at' k1)) = {}" if "k1 \<noteq> k'" for k' k1
    using that free dis [of k' k1] dis [of k1 k'] dis [of k k'] ltk [of _ k'] ltk [of _ k1] dis [of k k1]
    by (fastforce simp: at split: if_splits)
  moreover have "distinct (map snd (sr_subscribers r'))"
    using ds sv out ltk [of _ k] by (fastforce simp: subs hands_out_def)
  moreover have "subscriber_served r' k' c \<and> c < ?n' \<and> (\<forall>k'. c \<notin> set (stream_free (?at' k')))"
    if "(k', c) \<in> set (sr_subscribers r')" for k' c
  proof (cases "(k', c) \<in> set (sr_subscribers r)")
    case True
    from sv [OF True] have s: "subscriber_served r k' c" and l: "c < ?n" and f: "c \<notin> set (stream_free (?at k1))" for k1 by auto
    have "subscriber_served r' k' c"
      using s waiting sinks effs by (cases "k' = k") (auto simp: subscriber_served_def at)
    moreover have "c \<notin> set (stream_free (?at' k1))" for k1
      using f [of k1] f [of k] free l by (auto simp: at)
    ultimately show ?thesis using l nx by auto
  next
    case False
    with that have k': "k' = k" and cs: "cs = [c]" using out by (auto simp: subs hands_out_def)
    with out have c: "c \<notin> set (stream_free st')"
      "?n \<le> c \<and> c < ?n' \<and> c \<in> set (stream_waiting st') \<or> c \<in> set (stream_free (?at k))" by (auto simp: hands_out_def)
    have "subscriber_served r' k c"
    proof (cases "c \<in> set (stream_free (?at k))")
      case True
      then have "\<exists>s \<in> set (sr_sinks r). c \<in> sink_channels s"
        using okk [of k] by (cases "(sr_sinks r, ?at k)" rule: stream_ok.cases) auto
      then show ?thesis using sinks by (auto simp: subscriber_served_def)
    next
      case False
      then show ?thesis using c by (auto simp: subscriber_served_def at)
    qed
    moreover have "c < ?n'" using c ltk [of c k] nx by fastforce
    moreover have "c \<notin> set (stream_free (?at' k1))" for k1
    proof (cases "k1 = k")
      case False
      with dis [OF this] c ltk [of c k1] show ?thesis by (auto simp: at)
    qed (use c in \<open>simp add: at\<close>)
    ultimately show ?thesis using k' by simp
  qed
  ultimately show ?thesis unfolding streams_inv_def Let_def by blast
qed

lemma streams_inv_same:
  assumes "streams_inv r" "sr_manager r' = sr_manager r" "sr_subscribers r' = sr_subscribers r"
    "sr_sinks r' = sr_sinks r" "set (sr_effects r) \<subseteq> set (sr_effects r')"
  shows "streams_inv r'"
  using assms(1) unfolding streams_inv_def Let_def subscriber_served_def assms(2-4) using assms(5) by blast

section \<open>The operations keep the invariant\<close>

lemma create_and_publish_memory:
  "create_and_publish io (Storage_Memory n) cs opts k sch next =
     (let m = max n (length cs) - length cs in
      Inr (Stream_Memory \<lparr>ms_sender = None, ms_receivers = [next..<next + m]\<rparr>,
           Sink_Memory \<lparr>rs_senders = map Some cs @ map Some [next..<next + m],
                        rs_overflow = replicate (length cs + m) []\<rparr>, next + m))"
  by (simp add: create_and_publish_def create_local_stream_with_senders_def memory_stream_new_def
      memory_publish_def Let_def)

lemma stream_create_inv:
  assumes inv: "streams_inv \<lparr>sr_manager = sm, sr_subscribers = subs, sr_sinks = sinks, sr_effects = es\<rparr>"
    and cr: "create_local_stream io k (Storage_Memory n) sch sm = (r, sm', es')"
  shows "streams_inv \<lparr>sr_manager = sm', sr_subscribers = subs, sr_sinks = sinks @ new_sink r, sr_effects = es @ es'\<rparr>"
proof -
  have *: "streams_inv \<lparr>sr_manager = put_stream k (Stream_Created stream) (sm\<lparr>sm_next_channel := next\<rparr>),
      sr_subscribers = subs, sr_sinks = sinks @ [sink], sr_effects = es\<rparr>"
    if w: "stream_waiting (stream_at sm k) = cs" and f: "stream_free (stream_at sm k) = []"
      and cp: "create_and_publish io (Storage_Memory n) cs (sm_options sm) k sch (sm_next_channel sm) = Inr (stream, sink, next)"
    for cs stream sink "next"
    using cp w f unfolding create_and_publish_memory Let_def
    by (intro streams_inv_at [OF inv, of _ k "Some (Stream_Created stream)" "[]"])
      (auto simp: hands_out_def subscriber_served_def)
  show ?thesis
  proof (cases "stream_at sm k")
    case None
    then show ?thesis using cr * [of "[]"]
      by (auto simp: create_local_stream_def create_and_publish_memory stream_at_def Let_def split: option.splits)
  next
    case (Some st)
    then show ?thesis using cr * inv
      by (cases st) (auto simp: create_local_stream_def create_and_publish_memory stream_at_def Let_def)
  qed
qed

lemma fail_senders_sent: "c \<in> set cs \<Longrightarrow> \<exists>e. TrySend c e \<in> set (fail_senders cs cause)"
  by (auto simp: fail_senders_def)

lemma stream_fail_inv:
  assumes inv: "streams_inv \<lparr>sr_manager = sm, sr_subscribers = subs, sr_sinks = sinks, sr_effects = es\<rparr>"
    and fl: "fail_local_stream_if_pending k sm = (sm', es')"
  shows "streams_inv \<lparr>sr_manager = sm', sr_subscribers = subs, sr_sinks = sinks, sr_effects = es @ es'\<rparr>"
proof (cases "\<exists>cs. stream_at sm k = Some (Stream_Pending cs)")
  case True
  then obtain cs where k: "stream_at sm k = Some (Stream_Pending cs)" ..
  with fl obtain cause where "sm' = put_stream k (Stream_Failed cause) sm" "es' = fail_senders cs cause"
    by (auto simp: fail_local_stream_if_pending_def stream_at_def Let_def)
  then show ?thesis using k fail_senders_sent [of _ cs cause]
    by (intro streams_inv_at [OF inv, of _ k "Some (Stream_Failed cause)" "[]"])
      (auto simp: hands_out_def subscriber_served_def)
next
  case False
  with fl have "sm' = sm" "es' = []"
    by (auto simp: fail_local_stream_if_pending_def stream_at_def split: option.splits local_stream_state.splits)
  with inv show ?thesis by simp
qed

lemma stream_fetch_inv:
  assumes inv: "streams_inv \<lparr>sr_manager = sm, sr_subscribers = subs, sr_sinks = sinks, sr_effects = es\<rparr>"
    and fe: "fetch_local_stream k sm = (r, sm', es')"
  shows "streams_inv \<lparr>sr_manager = sm', sr_subscribers = subs @ new_subscriber k r, sr_sinks = sinks, sr_effects = es @ es'\<rparr>"
proof -
  let ?n = "sm_next_channel sm"
  have ok: "stream_ok sinks (stream_at sm k)"
    and d: "distinct (stream_free (stream_at sm k) @ stream_waiting (stream_at sm k))"
    and lt: "\<forall>c \<in> set (stream_free (stream_at sm k) @ stream_waiting (stream_at sm k)). c < ?n"
    using inv by (auto simp: streams_inv_def Let_def)
  consider (none) "stream_at sm k = None" | (pending) cs where "stream_at sm k = Some (Stream_Pending cs)"
    | (failed) c where "stream_at sm k = Some (Stream_Failed c)"
    | (created) ms where "stream_at sm k = Some (Stream_Created (Stream_Memory ms))"
    using ok by (cases "(sinks, stream_at sm k)" rule: stream_ok.cases) auto
  then show ?thesis
  proof cases
    case none
    then have "r = Inr (Source_Receiver ?n)" "sm' = put_stream k (Stream_Pending [?n]) (sm\<lparr>sm_next_channel := ?n + 1\<rparr>)"
      using fe by (auto simp: fetch_local_stream_def stream_at_def Let_def)
    then show ?thesis using none
      by (intro streams_inv_at [OF inv, of _ k "Some (Stream_Pending [?n])" "[?n]"]) (auto simp: hands_out_def)
  next
    case (pending cs)
    then have "r = Inr (Source_Receiver ?n)" "es' = []"
      "sm' = put_stream k (Stream_Pending (cs @ [?n])) (sm\<lparr>sm_next_channel := ?n + 1\<rparr>)"
      using fe by (auto simp: fetch_local_stream_def stream_at_def Let_def)
    then show ?thesis using pending d lt
      by (intro streams_inv_at [OF inv, of _ k "Some (Stream_Pending (cs @ [?n]))" "[?n]"])
        (auto simp: hands_out_def subscriber_served_def)
  next
    case (failed c)
    then show ?thesis using fe inv by (auto simp: fetch_local_stream_def stream_at_def Let_def)
  next
    case (created ms)
    show ?thesis
    proof (cases "ms_receivers ms = []")
      case True
      with created fe show ?thesis using ok
        by (intro streams_inv_at [OF inv, of _ k "Some (Stream_Created (Stream_Memory ms))" "[]"])
          (auto simp: fetch_local_stream_def stream_at_def memory_subscribe_def hands_out_def Let_def fun_eq_iff)
    next
      case False
      let ?ms = "ms\<lparr>ms_receivers := butlast (ms_receivers ms)\<rparr>" and ?c = "last (ms_receivers ms)"
      have "r = Inr (Source_Receiver ?c)" "es' = []" "sm_next_channel sm' = ?n"
        "stream_at sm' = (stream_at sm)(k \<mapsto> Stream_Created (Stream_Memory ?ms))"
        using created fe False by (auto simp: fetch_local_stream_def stream_at_def memory_subscribe_def Let_def fun_eq_iff)
      moreover have "?c \<notin> set (butlast (ms_receivers ms))"
        using d created False by (simp add: distinct_butlast) (metis append_butlast_last_id distinct_append distinct_singleton list.set_intros(1) disjoint_iff)
      ultimately show ?thesis using created ok d lt False
        by (intro streams_inv_at [OF inv, of _ k "Some (Stream_Created (Stream_Memory ?ms))" "[?c]"])
          (auto simp: hands_out_def distinct_butlast dest: in_set_butlastD)
    qed
  qed
qed

lemma stream_at_remove: "stream_at (remove_local_streams j stage sm) k = (if removes j stage k then None else stream_at sm k)"
proof -
  have "map_of (filter (\<lambda>(k, _). P k) m) k = (if P k then map_of m k else None)" for P and m :: "(task_stream_key \<times> local_stream_state) list"
    by (induction m) auto
  then show ?thesis by (auto simp: stream_at_def remove_local_streams_def removes_def split: option.splits)
qed

lemma stream_remove_inv:
  assumes inv: "streams_inv \<lparr>sr_manager = sm, sr_subscribers = subs, sr_sinks = sinks, sr_effects = es\<rparr>"
  shows "streams_inv \<lparr>sr_manager = remove_local_streams j stage sm,
     sr_subscribers = filter (\<lambda>(k, _). \<not> removes j stage k) subs, sr_sinks = sinks, sr_effects = es\<rparr>"
proof -
  have "sm_next_channel (remove_local_streams j stage sm) = sm_next_channel sm"
    by (simp add: remove_local_streams_def split: option.splits)
  with inv show ?thesis unfolding streams_inv_def subscriber_served_def Let_def
    by (auto simp: stream_at_remove distinct_map_filter)
qed

lemma stream_step_inv: "streams_inv r \<Longrightarrow> stream_step r r' \<Longrightarrow> streams_inv r'"
  by (erule stream_step.cases) (auto intro: stream_create_inv stream_fetch_inv stream_fail_inv stream_remove_inv)

interpretation streams: step_invariant stream_step streams_inv
  by unfold_locales (rule stream_step_inv)

lemma streams_inv_new [simp]: "streams_inv (stream_run_new opts)"
  by (simp add: streams_inv_def stream_run_new_def stream_manager_new_def stream_at_def)

section \<open>Properties\<close>


definition example_stream_key :: "nat \<Rightarrow> task_stream_key" where
  "example_stream_key c = \<lparr>sk_job_id = 1, sk_stage = 0, sk_partition = 0, sk_attempt = 0, sk_channel = c\<rparr>"

definition example_stream_options :: stream_manager_options where
  "example_stream_options =
     \<lparr>mo_task_stream_buffer = 16, mo_task_stream_creation_timeout = 20, mo_shuffle_spill_dir = ''/tmp''\<rparr>"

definition example_disk :: disk_io where
  "example_disk = \<lparr>create_dir_all = (\<lambda>_. None), create_file = (\<lambda>_. None), ipc_writer = (\<lambda>_ _. None),
     ipc_write = (\<lambda>_ _. None), ipc_finish = (\<lambda>_. None), ipc_read = (\<lambda>_. Inr [])\<rparr>"

definition example_stream_run :: stream_run where
  "example_stream_run =
     (let sm0 = stream_manager_new example_stream_options; k = example_stream_key 0;
          (r1, sm1, es1) = fetch_local_stream k sm0;
          (r2, sm2, es2) = create_local_stream example_disk k (Storage_Memory 2) 0 sm1;
          (r3, sm3, es3) = fetch_local_stream k sm2
      in \<lparr>sr_manager = sm3, sr_subscribers = (([] @ new_subscriber k r1)) @ new_subscriber k r3,
          sr_sinks = [] @ new_sink r2, sr_effects = (([] @ es1) @ es2) @ es3\<rparr>)"

lemma example_stream_run_reach: "stream_step\<^sup>*\<^sup>* (stream_run_new example_stream_options) example_stream_run"
proof -
  let ?sm0 = "stream_manager_new example_stream_options" and ?k = "example_stream_key 0"
  obtain r1 sm1 es1 where 1: "fetch_local_stream ?k ?sm0 = (r1, sm1, es1)" by (metis prod.exhaust)
  obtain r2 sm2 es2 where 2: "create_local_stream example_disk ?k (Storage_Memory 2) 0 sm1 = (r2, sm2, es2)" by (metis prod.exhaust)
  obtain r3 sm3 es3 where 3: "fetch_local_stream ?k sm2 = (r3, sm3, es3)" by (metis prod.exhaust)
  have e: "example_stream_run = \<lparr>sr_manager = sm3, sr_subscribers = ([] @ new_subscriber ?k r1) @ new_subscriber ?k r3,
          sr_sinks = [] @ new_sink r2, sr_effects = (([] @ es1) @ es2) @ es3\<rparr>"
    unfolding example_stream_run_def Let_def 1 prod.case 2 3 ..
  show ?thesis unfolding e stream_run_new_def
    by (rule converse_rtranclp_into_rtranclp, rule stream_fetch [OF 1],
        rule converse_rtranclp_into_rtranclp, rule stream_create [OF 2],
        rule r_into_rtranclp, rule stream_fetch [OF 3])
qed




text \<open>The channels of one task attempt share one spill file: the name of the file leaves the channel out.\<close>

lemma spill_path_channel: "spill_path_of opts (k\<lparr>sk_channel := c\<rparr>) = spill_path_of opts k"
  by (simp add: spill_path_of_def)

end
