(* ===== verification/Task_Runner.thy ===== *)
theory Task_Runner
  imports Task_Types
begin

text \<open>
  The task runner of the driver and of each worker (\<open>task_runner\<close>): it starts the plan of a task,
  keeps the cancellation signal of the running task, and its monitor reports the task's status.
  Decoding, rewriting and starting a plan is DataFusion's work: what \<open>execute_plan\<close> returns is an
  argument. What the runner asks of its actor is a \<open>runner_effect\<close>; the trait
  \<open>TaskRunnerMessage\<close> turns a report into an event of the driver or of the worker.
\<close>

record task_runner =
  tn_signals :: "task_key list"

datatype runner_effect =
    Runner_Report task_key task_status "string option" "common_error_cause option"
  | Runner_Monitor task_key
  | Runner_Signal task_key

definition task_runner_new :: task_runner where
  "task_runner_new = \<lparr>tn_signals = []\<rparr>"

definition runner_run_task :: "unit execution_result \<Rightarrow> task_key \<Rightarrow> task_runner \<Rightarrow> task_runner \<times> runner_effect list" where
  "runner_run_task executed k tn =
     (case executed of
        Inl e \<Rightarrow>
          (tn, [Runner_Report k Status_Failed (Some ''failed to execute plan: {e}'') (Some (Cause_Of e))])
      | Inr _ \<Rightarrow> (tn\<lparr>tn_signals := List.insert k (tn_signals tn)\<rparr>, [Runner_Monitor k]))"

definition runner_stop_task :: "task_key \<Rightarrow> task_runner \<Rightarrow> task_runner \<times> runner_effect list" where
  "runner_stop_task k tn =
     (if k \<in> set (tn_signals tn) then (tn\<lparr>tn_signals := remove1 k (tn_signals tn)\<rparr>, [Runner_Signal k])
      else (tn, []))"

section \<open>The monitor of a task\<close>

text \<open>
  The output stream of the task is the list of the results it yields. The monitor reports that the
  task runs, then races draining the stream against the cancellation signal: \<open>canceled\<close> says that
  the signal wins.
\<close>

definition monitor_running :: "task_key \<Rightarrow> runner_effect" where
  "monitor_running k = Runner_Report k Status_Running None None"

definition monitor_cancel :: "task_key \<Rightarrow> runner_effect" where
  "monitor_cancel k = Runner_Report k Status_Canceled (Some ''{} canceled'') None"

fun monitor_execute :: "task_key \<Rightarrow> (execution_error + record_batch) list \<Rightarrow> runner_effect" where
  "monitor_execute k [] = Runner_Report k Status_Succeeded None None"
| "monitor_execute k (Inr _ # bs) = monitor_execute k bs"
| "monitor_execute k (Inl e # _) = Runner_Report k Status_Failed (Some ''task error: {e}'') (Some (Cause_Of e))"

definition monitor_run :: "task_key \<Rightarrow> (execution_error + record_batch) list \<Rightarrow> bool \<Rightarrow> runner_effect list" where
  "monitor_run k results canceled =
     [monitor_running k, if canceled then monitor_cancel k else monitor_execute k results]"

fun report_status :: "runner_effect \<Rightarrow> task_status option" where
  "report_status (Runner_Report _ st _ _) = Some st"
| "report_status _ = None"

lemma monitor_execute_status:
  "report_status (monitor_execute k rs) =
     Some (if list_all (\<lambda>r. case r of Inr _ \<Rightarrow> True | Inl _ \<Rightarrow> False) rs then Status_Succeeded else Status_Failed)"
  by (induction k rs rule: monitor_execute.induct) auto

end
