(* ===== verification/Driver.thy ===== *)
theory Driver
  imports Job_Scheduler Task_Assigner Worker_Pool Stream_Manager Task_Runner
begin

text \<open>
  The driver actor (\<open>driver/actor\<close>): one handler per event, composed of the operations of the job
  scheduler, the task assigner, the worker pool, the task runner and the stream manager the way
  the source composes them. A handler takes the environment it runs in (the clocks, the placement
  policy of the process, the outcome of starting a plan on the driver, the file system) and
  returns the new state and the effects in order; \<open>None\<close> is a panic. Within one event the clocks
  stand still.
\<close>

section \<open>State and options\<close>

record driver_options =
  do_enable_tls :: bool
  do_driver_external_host :: string
  do_driver_external_port :: u16
  do_worker_initial_count :: nat
  do_worker_max_count :: nat
  do_worker_task_slots :: nat
  do_worker_max_idle_time :: time
  do_worker_heartbeat_interval :: time
  do_worker_heartbeat_timeout :: time
  do_worker_launch_timeout :: time
  do_task_launch_timeout :: time
  do_task_stream_buffer :: nat
  do_task_stream_creation_timeout :: time
  do_shuffle_spill_dir :: string
  do_task_max_attempts :: nat
  do_rpc_retry_strategy :: retry_strategy

definition worker_pool_options_from :: "driver_options \<Rightarrow> worker_pool_options" where
  "worker_pool_options_from opts =
     \<lparr>po_enable_tls = do_enable_tls opts, po_driver_external_host = do_driver_external_host opts,
      po_driver_external_port = do_driver_external_port opts, po_worker_max_idle_time = do_worker_max_idle_time opts,
      po_worker_heartbeat_interval = do_worker_heartbeat_interval opts,
      po_worker_heartbeat_timeout = do_worker_heartbeat_timeout opts,
      po_worker_launch_timeout = do_worker_launch_timeout opts, po_task_stream_buffer = do_task_stream_buffer opts,
      po_task_stream_creation_timeout = do_task_stream_creation_timeout opts,
      po_shuffle_spill_dir = do_shuffle_spill_dir opts, po_rpc_retry_strategy = do_rpc_retry_strategy opts\<rparr>"

definition job_scheduler_options_from :: "driver_options \<Rightarrow> job_scheduler_options" where
  "job_scheduler_options_from opts =
     \<lparr>jo_task_launch_timeout = do_task_launch_timeout opts, jo_task_max_attempts = do_task_max_attempts opts\<rparr>"

definition task_assigner_options_from :: "driver_options \<Rightarrow> task_assigner_options" where
  "task_assigner_options_from opts =
     \<lparr>ao_worker_task_slots = do_worker_task_slots opts, ao_worker_max_count = do_worker_max_count opts\<rparr>"

definition stream_manager_options_from :: "driver_options \<Rightarrow> stream_manager_options" where
  "stream_manager_options_from opts =
     \<lparr>mo_task_stream_buffer = do_task_stream_buffer opts,
      mo_task_stream_creation_timeout = do_task_stream_creation_timeout opts,
      mo_shuffle_spill_dir = do_shuffle_spill_dir opts\<rparr>"

datatype server_monitor = Server_Stopped | Server_Pending | Server_Running

definition server_ready :: "server_monitor \<Rightarrow> server_monitor execution_result" where
  "server_ready s =
     (case s of
        Server_Pending \<Rightarrow> Inr Server_Running
      | _ \<Rightarrow> Inl (InternalError ''the server must be in pending state before it can be ready''))"

record driver =
  dv_options :: driver_options
  dv_server :: server_monitor
  dv_worker_pool :: worker_pool
  dv_job_scheduler :: job_scheduler
  dv_task_assigner :: task_assigner
  dv_task_runner :: task_runner
  dv_stream_manager :: stream_manager
  dv_task_sequences :: "(task_key, u64) index_map"
  dv_history :: bool

record driver_env =
  env_clock :: clock
  env_policy :: placement_policy
  env_execute_plan :: "task_key \<Rightarrow> task_definition \<Rightarrow> task_context \<Rightarrow> unit execution_result"
  env_disk :: disk_io

datatype actor_action = Continue | Stop

definition driver_new :: "driver_options \<Rightarrow> codec \<Rightarrow> driver" where
  "driver_new opts cd =
     \<lparr>dv_options = opts, dv_server = Server_Stopped,
      dv_worker_pool = worker_pool_new (worker_pool_options_from opts),
      dv_job_scheduler = job_scheduler_new (job_scheduler_options_from opts) cd,
      dv_task_assigner = task_assigner_new (task_assigner_options_from opts),
      dv_task_runner = task_runner_new, dv_stream_manager = stream_manager_new (stream_manager_options_from opts),
      dv_task_sequences = [], dv_history = False\<rparr>"

text \<open>\<open>Actor::start\<close>: the server is spawned; it reports with the event \<open>ServerReady\<close>.\<close>

definition driver_start :: "driver \<Rightarrow> driver" where
  "driver_start d = d\<lparr>dv_server := Server_Pending\<rparr>"

section \<open>Sequencing\<close>

type_synonym driver_op = "driver \<Rightarrow> (driver \<times> effect list) option"

definition done_with :: "effect list \<Rightarrow> driver_op" where
  "done_with es d = Some (d, es)"

definition and_then :: "driver_op \<Rightarrow> driver_op \<Rightarrow> driver_op" where
  "and_then f g d =
     (case f d of
        None \<Rightarrow> None
      | Some (d1, es1) \<Rightarrow> (case g d1 of None \<Rightarrow> None | Some (d2, es2) \<Rightarrow> Some (d2, es1 @ es2)))"

fun for_each :: "('a \<Rightarrow> driver_op) \<Rightarrow> 'a list \<Rightarrow> driver_op" where
  "for_each f [] d = Some (d, [])"
| "for_each f (x # xs) d = and_then (f x) (for_each f xs) d"

text \<open>Operations of the components, on the driver.\<close>

definition on_pool :: "(worker_pool \<Rightarrow> worker_pool \<times> effect list) \<Rightarrow> driver_op" where
  "on_pool f d = (let (wp, es) = f (dv_worker_pool d) in Some (d\<lparr>dv_worker_pool := wp\<rparr>, es))"

definition on_assigner :: "(task_assigner \<Rightarrow> task_assigner) \<Rightarrow> driver_op" where
  "on_assigner f d = Some (d\<lparr>dv_task_assigner := f (dv_task_assigner d)\<rparr>, [])"

definition on_scheduler :: "(job_scheduler \<Rightarrow> job_scheduler) \<Rightarrow> driver_op" where
  "on_scheduler f d = Some (d\<lparr>dv_job_scheduler := f (dv_job_scheduler d)\<rparr>, [])"

definition on_streams :: "(stream_manager \<Rightarrow> stream_manager \<times> effect list) \<Rightarrow> driver_op" where
  "on_streams f d = (let (sm, es) = f (dv_stream_manager d) in Some (d\<lparr>dv_stream_manager := sm\<rparr>, es))"

fun runner_to_driver :: "runner_effect \<Rightarrow> effect" where
  "runner_to_driver (Runner_Report k st m c) = Send (UpdateTask k st m c None)"
| "runner_to_driver (Runner_Monitor k) = Spawn (Call_MonitorTask k)"
| "runner_to_driver (Runner_Signal k) = Spawn (Call_SignalTask k)"

definition on_runner :: "(task_runner \<Rightarrow> task_runner \<times> runner_effect list) \<Rightarrow> driver_op" where
  "on_runner f d =
     (let (tn, es) = f (dv_task_runner d) in Some (d\<lparr>dv_task_runner := tn\<rparr>, map runner_to_driver es))"

section \<open>Running job actions\<close>

definition probe_region_tasks :: "time \<Rightarrow> task_region \<Rightarrow> effect list" where
  "probe_region_tasks timeout region =
     concat (map (\<lambda>(_, ts). map (\<lambda>e. SendWithDelay (ProbePendingTask (te_key e)) timeout) (ts_entries ts))
       (tr_tasks region))"

definition cancel_task :: "driver_env \<Rightarrow> task_key \<Rightarrow> driver_op" where
  "cancel_task env k d =
     (let ta1 = exclude_task k (dv_task_assigner d);
          (asg, ta2) = unassign_task k ta1;
          d1 = d\<lparr>dv_task_assigner := ta2\<rparr>
      in case asg of
           None \<Rightarrow> Some (d1, [])
         | Some Assign_Driver \<Rightarrow> on_runner (runner_stop_task k) d1
         | Some (Assign_Worker w _) \<Rightarrow> on_pool (pool_stop_task (env_clock env) w k) d1)"

definition extend_output :: "driver_env \<Rightarrow> job_id \<Rightarrow> task_stream_key \<Rightarrow> schema \<Rightarrow> driver_op" where
  "extend_output env j k sch d =
     (case get_assignment (dv_task_assigner d) (task_key_from_stream k) of
        None \<Rightarrow> Some (d, [])
      | Some Assign_Driver \<Rightarrow>
          let (r, sm, es) = fetch_local_stream k (dv_stream_manager d) in
          Some (d\<lparr>dv_stream_manager := sm\<rparr>, es @ [Spawn (Call_OutputStream j k r)])
      | Some (Assign_Worker w _) \<Rightarrow>
          let (r, wp, es) = fetch_task_stream (env_clock env) w k sch (dv_worker_pool d) in
          Some (d\<lparr>dv_worker_pool := wp\<rparr>, es @ [Spawn (Call_OutputStream j k r)]))"

text \<open>
  Removing the streams of a job or of one of its stages. Removing remote streams only logs.
\<close>

definition clean_up_stream :: "driver_env \<Rightarrow> job_id \<Rightarrow> nat option \<Rightarrow> task_stream_assignment \<Rightarrow> driver_op" where
  "clean_up_stream env j stage x =
     (case x of
        Stream_Driver \<Rightarrow> on_streams (\<lambda>sm. (remove_local_streams j stage sm, []))
      | Stream_Worker w \<Rightarrow> on_pool (pool_clean_up_job (env_clock env) w j stage))"

definition clean_up_streams :: "driver_env \<Rightarrow> job_id \<Rightarrow> nat option \<Rightarrow> driver_op" where
  "clean_up_streams env j stage d =
     (let (_, ta1) = untrack_remote_streams j stage (dv_task_assigner d);
          (xs, ta2) = untrack_local_streams j stage ta1
      in for_each (clean_up_stream env j stage) xs (d\<lparr>dv_task_assigner := ta2\<rparr>))"

fun run_job_action :: "driver_env \<Rightarrow> job_action \<Rightarrow> driver_op" where
  "run_job_action env (ScheduleTaskRegion region) d =
     Some (d\<lparr>dv_task_assigner := enqueue_tasks region (dv_task_assigner d)\<rparr>,
           probe_region_tasks (do_task_launch_timeout (dv_options d)) region)"
| "run_job_action env (CancelTask k) d = cancel_task env k d"
| "run_job_action env (ExtendJobOutput j k sch) d = extend_output env j k sch d"
| "run_job_action env (FailJobOutput j cause) d = Some (d, [Spawn (Call_OutputError j cause)])"
| "run_job_action env (CleanUpStreams j stage) d = clean_up_streams env j stage d"

definition driver_refresh_job :: "driver_env \<Rightarrow> job_id \<Rightarrow> driver_op" where
  "driver_refresh_job env j d =
     (let (js, acts) = refresh_job (env_clock env) j (dv_job_scheduler d)
      in for_each (run_job_action env) acts (d\<lparr>dv_job_scheduler := js\<rparr>))"

definition driver_clean_up_job :: "driver_env \<Rightarrow> job_id \<Rightarrow> driver_op" where
  "driver_clean_up_job env j d =
     (let (js, acts) = clean_up_job (env_clock env) j (dv_job_scheduler d)
      in for_each (run_job_action env) acts (d\<lparr>dv_job_scheduler := js\<rparr>))"

section \<open>Assigning and dispatching tasks\<close>

definition run_entry :: "driver_env \<Rightarrow> task_assignment \<Rightarrow> task_set_entry \<Rightarrow> driver_op" where
  "run_entry env asg entry d =
     (let k = te_key entry in
      case get_task_definition (dv_job_scheduler d) k (get_assignment (dv_task_assigner d)) of
        Inl e \<Rightarrow> Some (d, [Send (UpdateTask k Status_Failed (Some ''{e}'') (Some (Cause_Of e)) None)])
      | Inr (def, ctx) \<Rightarrow>
          and_then (on_scheduler (update_task (env_clock env) k Task_Scheduled None None))
            (case asg of
               Assign_Driver \<Rightarrow> on_runner (runner_run_task (env_execute_plan env k def ctx) k)
             | Assign_Worker w _ \<Rightarrow> on_pool (pool_run_task (env_clock env) w k def)) d)"

definition run_assignment :: "driver_env \<Rightarrow> task_set_assignment \<Rightarrow> driver_op" where
  "run_assignment env a = for_each (run_entry env (ta_assignment a)) (ts_entries (ta_set a))"

definition run_tasks :: "driver_env \<Rightarrow> driver_op" where
  "run_tasks env d =
     (let (asgs, ta1) = assign_tasks (env_policy env) (dv_task_assigner d);
          ta2 = track_streams asgs ta1
      in for_each (run_assignment env) asgs (d\<lparr>dv_task_assigner := ta2\<rparr>))"

definition start_workers :: "driver_env \<Rightarrow> nat \<Rightarrow> driver_op" where
  "start_workers env n = for_each (\<lambda>_. on_pool (start_worker (env_clock env))) (replicate n ())"

definition scale_up_workers :: "driver_env \<Rightarrow> driver_op" where
  "scale_up_workers env d =
     (case request_workers (dv_task_assigner d) of
        None \<Rightarrow> None
      | Some (n, ta) \<Rightarrow> start_workers env n (d\<lparr>dv_task_assigner := ta\<rparr>))"

text \<open>The sequence of calls with which most handlers end.\<close>

definition refresh_run_scale :: "driver_env \<Rightarrow> job_id \<Rightarrow> driver_op" where
  "refresh_run_scale env j =
     and_then (driver_refresh_job env j) (and_then (run_tasks env) (scale_up_workers env))"

section \<open>Handlers\<close>

definition handle_server_ready :: "driver_env \<Rightarrow> u16 \<Rightarrow> driver \<Rightarrow> (driver \<times> effect list \<times> actor_action) option" where
  "handle_server_ready env port d =
     (case server_ready (dv_server d) of
        Inl e \<Rightarrow> Some (d\<lparr>dv_server := Server_Stopped\<rparr>, [], Stop)
      | Inr server \<Rightarrow>
          map_option (\<lambda>(d', es). (d', es, Continue))
            (start_workers env (do_worker_initial_count (dv_options d))
               (d\<lparr>dv_server := server, dv_worker_pool := set_driver_server_port port (dv_worker_pool d)\<rparr>)))"

definition handle_register_worker :: "driver_env \<Rightarrow> worker_id \<Rightarrow> string \<Rightarrow> u16 \<Rightarrow> driver_op" where
  "handle_register_worker env w host port d =
     (let (out, wp, es) = register_worker (env_clock env) w host port (dv_worker_pool d);
          d1 = d\<lparr>dv_worker_pool := wp\<rparr>
      in and_then (done_with es)
           (and_then (if isl out then done_with []
                      else and_then (on_assigner (activate_worker w)) (run_tasks env))
              (done_with [Reply (Reply_Registered out)])) d1)"

definition handle_worker_heartbeat :: "driver_env \<Rightarrow> worker_id \<Rightarrow> driver_op" where
  "handle_worker_heartbeat env w = on_pool (update_worker_heartbeat (env_clock env) w)"

definition handle_worker_known_peers :: "worker_id \<Rightarrow> worker_id list \<Rightarrow> driver_op" where
  "handle_worker_known_peers w peers = on_pool (\<lambda>wp. (update_worker_known_peers w peers wp, []))"

definition handle_probe_pending_worker :: "driver_env \<Rightarrow> worker_id \<Rightarrow> driver_op" where
  "handle_probe_pending_worker env w d =
     (let (failed, wp) = fail_worker_if_pending w (dv_worker_pool d);
          d1 = d\<lparr>dv_worker_pool := wp\<rparr>
      in if failed then and_then (on_assigner track_worker_failed_to_start) (scale_up_workers env) d1
         else Some (d1, []))"

definition handle_probe_idle_worker :: "driver_env \<Rightarrow> worker_id \<Rightarrow> time \<Rightarrow> driver_op" where
  "handle_probe_idle_worker env w instant d =
     (if is_worker_idle (dv_task_assigner d) w \<and>
         (case get_worker_last_update (dv_worker_pool d) w of None \<Rightarrow> False | Some x \<Rightarrow> x \<le> instant)
      then and_then (on_pool (stop_worker (env_clock env) w (Some ''worker has been idle for too long'')))
             (on_assigner (deactivate_worker w)) d
      else Some (d, []))"

definition fail_lost_tasks :: "driver_env \<Rightarrow> task_key list \<Rightarrow> driver_op" where
  "fail_lost_tasks env =
     for_each (\<lambda>k. on_scheduler (update_task (env_clock env) k Task_Failed (Some ''task failed for lost worker'')
       (Some (Cause_Execution ''task failed for lost worker''))))"

text \<open>The jobs of the lost tasks are a hash set in the source, visited in an unspecified order.\<close>

definition handle_probe_lost_worker :: "driver_env \<Rightarrow> worker_id \<Rightarrow> time \<Rightarrow> driver_op" where
  "handle_probe_lost_worker env w instant d =
     (if (case get_worker_last_heartbeat (dv_worker_pool d) w of None \<Rightarrow> False | Some x \<Rightarrow> x \<le> instant)
      then
        let keys = find_worker_tasks (dv_task_assigner d) w in
        and_then (on_pool (stop_worker (env_clock env) w (Some ''worker heartbeat timeout'')))
          (and_then (on_assigner (deactivate_worker w))
             (and_then (fail_lost_tasks env keys)
                (for_each (refresh_run_scale env) (remdups (map tk_job_id keys))))) d
      else Some (d, []))"

definition handle_execute_job :: "driver_env \<Rightarrow> job_graph execution_result \<Rightarrow> task_context \<Rightarrow> driver_op" where
  "handle_execute_job env graph ctx d =
     (case accept_job (env_clock env) graph ctx (dv_job_scheduler d) of
        None \<Rightarrow> None
      | Some (out, js, es) \<Rightarrow>
          and_then (done_with es)
            (and_then (case out of Inr j \<Rightarrow> refresh_run_scale env j | Inl _ \<Rightarrow> done_with [])
               (done_with [Reply (Reply_Job out)])) (d\<lparr>dv_job_scheduler := js\<rparr>))"

definition handle_clean_up_job :: "driver_env \<Rightarrow> job_id \<Rightarrow> driver_op" where
  "handle_clean_up_job env j = driver_clean_up_job env j"

definition stale :: "driver \<Rightarrow> task_key \<Rightarrow> u64 option \<Rightarrow> bool" where
  "stale d k sequence =
     (case sequence of
        None \<Rightarrow> False
      | Some s \<Rightarrow> (case im_get (dv_task_sequences d) k of None \<Rightarrow> False | Some s0 \<Rightarrow> s \<le> s0))"

definition record_sequence :: "task_key \<Rightarrow> u64 option \<Rightarrow> driver \<Rightarrow> driver" where
  "record_sequence k sequence d =
     (case sequence of
        None \<Rightarrow> d
      | Some s \<Rightarrow> d\<lparr>dv_task_sequences := im_insert k s (dv_task_sequences d)\<rparr>)"

definition finish_task ::
  "driver_env \<Rightarrow> task_key \<Rightarrow> task_state \<Rightarrow> string option \<Rightarrow> common_error_cause option \<Rightarrow> driver_op" where
  "finish_task env k st message cause =
     and_then (on_scheduler (update_task (env_clock env) k st message cause))
       (and_then (on_assigner (\<lambda>ta. snd (unassign_task k ta))) (refresh_run_scale env (tk_job_id k)))"

definition handle_update_task ::
  "driver_env \<Rightarrow> task_key \<Rightarrow> task_status \<Rightarrow> string option \<Rightarrow> common_error_cause option \<Rightarrow> u64 option \<Rightarrow> driver_op" where
  "handle_update_task env k status message cause sequence d =
     (if stale d k sequence then Some (d, [])
      else
        (case status of
           Status_Running \<Rightarrow>
             and_then (on_scheduler (update_task (env_clock env) k Task_Running message cause))
               (driver_refresh_job env (tk_job_id k))
         | Status_Succeeded \<Rightarrow> finish_task env k Task_Succeeded message cause
         | Status_Failed \<Rightarrow> finish_task env k Task_Failed message cause
         | Status_Canceled \<Rightarrow> on_scheduler (update_task (env_clock env) k Task_Canceled message cause))
          (record_sequence k sequence d))"

definition handle_probe_pending_task :: "task_key \<Rightarrow> driver_op" where
  "handle_probe_pending_task k d =
     (if get_task_state (dv_job_scheduler d) k = Some Task_Created
      then Some (d, [Send (UpdateTask k Status_Failed (Some ''task scheduling timeout'')
                       (Some (Cause_Execution ''task scheduling timeout'')) None)])
      else Some (d, []))"

definition handle_probe_pending_local_stream :: "task_stream_key \<Rightarrow> driver_op" where
  "handle_probe_pending_local_stream k = on_streams (fail_local_stream_if_pending k)"

definition handle_create_local_stream :: "driver_env \<Rightarrow> task_stream_key \<Rightarrow> local_stream_storage \<Rightarrow> schema \<Rightarrow> driver_op" where
  "handle_create_local_stream env k storage sch =
     on_streams (\<lambda>sm. let (r, sm1, es) = create_local_stream (env_disk env) k storage sch sm
                      in (sm1, es @ [Reply (Reply_Sink r)]))"

definition handle_create_remote_stream :: "string \<Rightarrow> task_stream_key \<Rightarrow> schema \<Rightarrow> driver_op" where
  "handle_create_remote_stream uri k sch = done_with [Reply (Reply_Sink (create_remote_stream uri k sch))]"

definition handle_fetch_driver_stream :: "task_stream_key \<Rightarrow> driver_op" where
  "handle_fetch_driver_stream k =
     on_streams (\<lambda>sm. let (r, sm1, es) = fetch_local_stream k sm in (sm1, es @ [Reply (Reply_Source r)]))"

definition handle_fetch_worker_stream :: "driver_env \<Rightarrow> worker_id \<Rightarrow> task_stream_key \<Rightarrow> schema \<Rightarrow> driver_op" where
  "handle_fetch_worker_stream env w k sch =
     on_pool (\<lambda>wp. let (r, wp1, es) = fetch_task_stream (env_clock env) w k sch wp
                   in (wp1, es @ [Reply (Reply_Source r)]))"

definition handle_fetch_remote_stream :: "string \<Rightarrow> task_stream_key \<Rightarrow> schema \<Rightarrow> driver_op" where
  "handle_fetch_remote_stream uri k sch = done_with [Reply (Reply_Source (fetch_remote_stream uri k sch))]"

definition handle_shutdown :: "bool \<Rightarrow> driver \<Rightarrow> driver \<times> effect list \<times> actor_action" where
  "handle_shutdown history d = (d\<lparr>dv_history := history\<rparr>, [], Stop)"

definition continuing :: "driver_op \<Rightarrow> driver \<Rightarrow> (driver \<times> effect list \<times> actor_action) option" where
  "continuing f d = map_option (\<lambda>(d', es). (d', es, Continue)) (f d)"

fun receive :: "driver_env \<Rightarrow> driver_event \<Rightarrow> driver \<Rightarrow> (driver \<times> effect list \<times> actor_action) option" where
  "receive env (ServerReady port) = handle_server_ready env port"
| "receive env (RegisterWorker w host port) = continuing (handle_register_worker env w host port)"
| "receive env (WorkerHeartbeat w) = continuing (handle_worker_heartbeat env w)"
| "receive env (WorkerKnownPeers w peers) = continuing (handle_worker_known_peers w peers)"
| "receive env (ProbePendingWorker w) = continuing (handle_probe_pending_worker env w)"
| "receive env (ProbeIdleWorker w instant) = continuing (handle_probe_idle_worker env w instant)"
| "receive env (ProbeLostWorker w instant) = continuing (handle_probe_lost_worker env w instant)"
| "receive env (ExecuteJob graph ctx) = continuing (handle_execute_job env graph ctx)"
| "receive env (CleanUpJob j) = continuing (handle_clean_up_job env j)"
| "receive env (UpdateTask k status message cause sequence) =
     continuing (handle_update_task env k status message cause sequence)"
| "receive env (ProbePendingTask k) = continuing (handle_probe_pending_task k)"
| "receive env (ProbePendingLocalStream k) = continuing (handle_probe_pending_local_stream k)"
| "receive env (CreateLocalStream k storage sch) = continuing (handle_create_local_stream env k storage sch)"
| "receive env (CreateRemoteStream uri k sch) = continuing (handle_create_remote_stream uri k sch)"
| "receive env (FetchDriverStream k) = continuing (handle_fetch_driver_stream k)"
| "receive env (FetchWorkerStream w k sch) = continuing (handle_fetch_worker_stream env w k sch)"
| "receive env (FetchRemoteStream uri k sch) = continuing (handle_fetch_remote_stream uri k sch)"
| "receive env (Shutdown history) = (\<lambda>d. Some (handle_shutdown history d))"

section \<open>Stopping the driver\<close>

record job_runner_history =
  rh_jobs :: "job_snapshot list"
  rh_tasks :: "task_snapshot list"
  rh_workers :: "worker_snapshot list"

text \<open>The snapshots of the stages, which print plans, are left out of the history.\<close>

definition build_history :: "driver \<Rightarrow> job_runner_history" where
  "build_history d =
     \<lparr>rh_jobs = map (\<lambda>(j, job). job_snapshot_of j job) (js_jobs (dv_job_scheduler d)),
      rh_tasks = concat (map (\<lambda>(j, job). task_snapshots_of j job) (js_jobs (dv_job_scheduler d))),
      rh_workers = observe_worker_snapshots (dv_worker_pool d)\<rparr>"

definition driver_stop ::
  "driver_env \<Rightarrow> unit execution_result \<Rightarrow> driver \<Rightarrow> driver \<times> job_runner_history option \<times> effect list" where
  "driver_stop env manager_stop d =
     (let d1 = d\<lparr>dv_job_scheduler := job_scheduler_stop (env_clock env) (dv_job_scheduler d)\<rparr>;
          (_, wp, es) = pool_close (env_clock env) manager_stop (dv_worker_pool d1);
          d2 = d1\<lparr>dv_worker_pool := wp\<rparr>
      in (d2\<lparr>dv_history := False, dv_server := Server_Stopped\<rparr>,
          if dv_history d2 then Some (build_history d2) else None, es))"

end
