(* ===== verification/Driver_Regions.thy ===== *)
theory Driver_Regions
  imports Job_Region_Build Task_Assigner_Correct
begin

text \<open>
  The link between the job scheduler and the task assigner. The regions a refresh schedules name
  task attempts that did not exist before it, no attempt twice; so they are new to an assigner that
  holds only attempts the scheduler knows, which is what the assigner's invariant asks of them.
\<close>

definition attempt_known :: "job_scheduler \<Rightarrow> task_key \<Rightarrow> bool" where
  "attempt_known js k \<longleftrightarrow> get_task_state js k \<noteq> None"

lemma attempt_known_iff:
  "attempt_known js k \<longleftrightarrow> (\<exists>job. im_get (js_jobs js) (tk_job_id k) = Some job \<and>
     task_in_range (jd_stages job) (tk_stage k) (tk_partition k) \<and>
     tk_attempt k < length (attempts_at (jd_stages job) (tk_stage k) (tk_partition k)))"
  by (auto simp: attempt_known_def get_task_state_def Let_def split: option.splits if_splits)

lemma attempt_known_mono: "js_le js js' \<Longrightarrow> attempt_known js k \<Longrightarrow> attempt_known js' k"
  unfolding attempt_known_def by (auto dest: js_le_task_state)

definition scheduled_regions :: "job_action list \<Rightarrow> task_region list" where
  "scheduled_regions acts = List.map_filter (\<lambda>a. case a of ScheduleTaskRegion r \<Rightarrow> Some r | _ \<Rightarrow> None) acts"

lemma scheduled_regions_simps [simp]:
  "scheduled_regions [] = []"
  "scheduled_regions (ScheduleTaskRegion r # acts) = r # scheduled_regions acts"
  "scheduled_regions (CancelTask k # acts) = scheduled_regions acts"
  "scheduled_regions (ExtendJobOutput j sk sch # acts) = scheduled_regions acts"
  "scheduled_regions (FailJobOutput j c # acts) = scheduled_regions acts"
  "scheduled_regions (CleanUpStreams j st # acts) = scheduled_regions acts"
  by (simp_all add: scheduled_regions_def)

lemma scheduled_regions_append [simp]: "scheduled_regions (a @ b) = scheduled_regions a @ scheduled_regions b"
  by (simp add: scheduled_regions_def List.map_filter_def)

lemma scheduled_regions_map [simp]: "scheduled_regions (map (\<lambda>x. ScheduleTaskRegion (f x)) xs) = map f xs"
  by (induction xs) auto

lemma scheduled_regions_none: "(\<And>r. ScheduleTaskRegion r \<notin> set acts) \<Longrightarrow> scheduled_regions acts = []"
  by (induction acts) (auto simp: scheduled_regions_def split: job_action.splits)

text \<open>The attempts of every region, and of all regions together, are distinct and new.\<close>

definition regions_new :: "job_scheduler \<Rightarrow> job_scheduler \<Rightarrow> task_region list \<Rightarrow> bool" where
  "regions_new js js' rs \<longleftrightarrow> distinct (concat (map region_keys rs)) \<and> list_all sets_ok rs \<and>
     (\<forall>k \<in> set (concat (map region_keys rs)). \<not> attempt_known js k \<and> attempt_known js' k)"

lemma region_sets_ok_sets_ok: "region_sets_ok g tr \<Longrightarrow> sets_ok tr"
  unfolding region_sets_ok_def sets_ok_def by (auto simp: list_all_iff)

lemma distinct_concat_mset:
  assumes "list_all2 (\<lambda>a b. mset a = mset (map f b)) xss yss" "distinct (concat yss)" "inj_on f (set (concat yss))"
  shows "distinct (concat xss) \<and> set (concat xss) = f ` set (concat yss)"
  using assms
proof (induction xss yss rule: list_all2_induct)
  case (Cons xs xss ys yss)
  have "distinct (map f ys)" using Cons.prems by (auto simp: distinct_map inj_on_def)
  then have "distinct xs" "set xs = f ` set ys"
    using mset_eq_imp_distinct_iff [OF Cons.hyps(1)] mset_eq_setD [OF Cons.hyps(1)] by simp_all
  moreover have "f ` set ys \<inter> f ` set (concat yss) = {}"
    using Cons.prems by (fastforce simp: inj_on_def)
  moreover have "inj_on f (set (concat yss))" by (rule inj_on_subset [OF Cons.prems(2)]) auto
  with Cons.IH Cons.prems(1) have "distinct (concat xss) \<and> set (concat xss) = f ` set (concat yss)" by simp
  ultimately show ?case by (simp add: image_Un)
qed simp

lemma distinct_concat_filter: "distinct (concat (map f xs)) \<Longrightarrow> distinct (concat (map f (filter P xs)))"
  by (induction xs) auto

lemma entry_key_inj: "inj_on (\<lambda>t :: task_topology. te_key (entry_of j job t)) T"
  by (rule inj_onI) (auto simp: entry_of_def)

lemma schedule_regions_new:
  assumes wf: "job_wf st" and sch: "schedule_task_regions ck j st = (job', acts)"
  shows "distinct (concat (map region_keys (scheduled_regions acts))) \<and> list_all sets_ok (scheduled_regions acts) \<and>
    (\<forall>k \<in> set (concat (map region_keys (scheduled_regions acts))). tk_job_id k = j \<and>
       task_in_range (jd_stages st) (tk_stage k) (tk_partition k) \<and>
       tk_attempt k = length (attempts_at (jd_stages st) (tk_stage k) (tk_partition k)) \<and>
       length (attempts_at (jd_stages job') (tk_stage k) (tk_partition k)) = Suc (tk_attempt k))"
proof -
  let ?rs = "jt_regions (jd_topology st)"
  let ?sel = "filter (region_schedulable st) (enumerate 0 ?rs)"
  let ?key = "\<lambda>t :: task_topology. te_key (entry_of j job' t)"
  have job': "job' = fst (schedule_task_regions ck j st)" by (simp add: sch)
  have rng: "list_all (\<lambda>rr. tasks_in_range (jd_stages (fst (st, []))) (rt_tasks (snd rr))) (enumerate 0 ?rs)"
    using job_wf_tasks_in_range [OF wf] by (auto simp: list_all_iff in_set_enumerate_eq)
  have dist: "distinct (concat (map (\<lambda>rr. rt_tasks (snd rr)) (enumerate 0 ?rs)))"
    using job_wf_region_distinct [OF wf] by simp
  have "acts = map (\<lambda>rr. ScheduleTaskRegion (build_task_region j job' (snd rr))) ?sel"
    using schedule_actions_built [OF dist rng, of ck j] sch by (simp add: schedule_task_regions_def)
  then have regs: "scheduled_regions acts = map (\<lambda>rr. build_task_region j job' (snd rr)) ?sel" by simp
  have wf': "job_wf job'" unfolding job' by (rule job_wf_frame [OF wf]) simp_all
  have at: "attempts_at (jd_stages job') (tt_stage t) (tt_partition t) =
      attempts_at (jd_stages st) (tt_stage t) (tt_partition t) @ [new_attempt ck]"
    if "rr \<in> set ?sel" "t \<in> set (rt_tasks (snd rr))" for rr t
    using that scheduled_now_region [OF wf, of "fst rr" "tt_stage t" "tt_partition t"]
    by (auto simp: job' schedule_task_regions_attempts [OF wf] in_set_enumerate_eq)
  have reg: "snd rr \<in> set (jt_regions (jd_topology job'))" if "rr \<in> set ?sel" for rr
    using that nth_mem [of "fst rr" ?rs] by (auto simp: job' in_set_enumerate_eq)
  note spec = build_task_region_spec [OF wf' reg, of _ j]
  have keys: "mset (region_keys (build_task_region j job' (snd rr))) = mset (map ?key (rt_tasks (snd rr)))"
    and ok: "sets_ok (build_task_region j job' (snd rr))" if "rr \<in> set ?sel" for rr
    using spec(1,3) [OF that] at [OF that] by (auto intro: region_sets_ok_sets_ok)
  have "list_all2 (\<lambda>a b. mset a = mset (map ?key b)) (map region_keys (scheduled_regions acts)) (map (\<lambda>rr. rt_tasks (snd rr)) ?sel)"
    using keys by (auto simp: regs list_all2_map1 list_all2_map2 comp_def intro!: list.rel_refl_strong)
  from distinct_concat_mset [OF this distinct_concat_filter [OF dist] entry_key_inj]
  have d: "distinct (concat (map region_keys (scheduled_regions acts)))"
    and ks: "set (concat (map region_keys (scheduled_regions acts))) = ?key ` set (concat (map (\<lambda>rr. rt_tasks (snd rr)) ?sel))" by auto
  have "tk_job_id k = j \<and> task_in_range (jd_stages st) (tk_stage k) (tk_partition k) \<and>
       tk_attempt k = length (attempts_at (jd_stages st) (tk_stage k) (tk_partition k)) \<and>
       length (attempts_at (jd_stages job') (tk_stage k) (tk_partition k)) = Suc (tk_attempt k)"
    if "k \<in> set (concat (map region_keys (scheduled_regions acts)))" for k
  proof -
    from that obtain rr t where t: "rr \<in> set ?sel" "t \<in> set (rt_tasks (snd rr))" "k = ?key t" unfolding ks by auto
    have "snd rr \<in> set ?rs" using t(1) reg by (simp add: job')
    from job_wf_region_task [OF wf this t(2)] at [OF t(1,2)] t(3) show ?thesis by (simp add: entry_of_def)
  qed
  with d ok show ?thesis by (simp add: regs list_all_iff)
qed

lemma refresh_regions_new:
  assumes inv: "js_inv js" and ref: "refresh_job ck j js = (js', acts)"
  shows "regions_new js js' (scheduled_regions acts)"
proof (cases "\<exists>job. im_get (js_jobs js) j = Some job \<and> is_running (jd_state job)")
  case False
  then have "acts = []" using ref
    by (auto simp: refresh_job_def refresh_job_in_def split: option.splits)
  then show ?thesis by (simp add: regions_new_def)
next
  case True
  then obtain job where job: "im_get (js_jobs js) j = Some job" and run: "is_running (jd_state job)" by blast
  from inv job run ref show ?thesis
  proof (cases rule: refresh_job_cases)
    case (refresh job' st acts0 acts1)
    have none: "scheduled_regions acts0 = []"
      by (rule settle_actions [OF refresh(1,2) run])
        (auto intro!: scheduled_regions_none simp: cancel_actions_def output_actions_def split: if_splits)
    show ?thesis
    proof (cases "acts1 = snd (schedule_task_regions ck j st) \<and> job' = fst (schedule_task_regions ck j st)")
      case False
      then have "scheduled_regions acts1 = []" using refresh(7) by auto
      then show ?thesis using none by (simp add: refresh(6) regions_new_def)
    next
      case True
      then have sch: "schedule_task_regions ck j st = (job', acts1)" by simp
      note sp = settle_spec [OF refresh(1,2) run]
      have len: "length (attempts_at (jd_stages st) s p) = length (attempts_at (jd_stages job) s p)" for s p
        by (simp add: sp(5) settled_cascaded)
      have sh: "shape (jd_stages job') = shape (jd_stages st)" using sch by (metis fst_conv schedule_task_regions_frame(5))
      show ?thesis
        using schedule_regions_new [OF refresh(3) sch] job refresh(5) none
        by (auto simp: regions_new_def refresh(6) attempt_known_iff len task_in_range_shape [OF sh])
    qed
  qed
qed

end
