(* ===== verification/Driver_Correct.thy ===== *)
theory Driver_Correct
  imports Driver Driver_Regions Worker_Pool_Correct Stream_Manager_Correct
begin

text \<open>
  Correctness of the driver actor. Every operation of a handler keeps the invariant of the driver
  and moves its components by steps of their own; the locale \<open>op_logic\<close> carries this over the
  sequencing of operations. The invariant joins those of the components: the task assigner knows
  only attempts the job scheduler knows, and the workers it assigns tasks to are exactly the
  running workers of the pool.
\<close>

section \<open>Reasoning about operations\<close>

definition op_spec :: "(driver \<Rightarrow> bool) \<Rightarrow> (driver \<Rightarrow> effect list \<Rightarrow> driver \<Rightarrow> bool) \<Rightarrow> driver_op \<Rightarrow> bool" where
  "op_spec P R f \<longleftrightarrow> (\<forall>d d' es. P d \<longrightarrow> f d = Some (d', es) \<longrightarrow> P d' \<and> R d es d')"

lemma op_specI: "(\<And>d d' es. P d \<Longrightarrow> f d = Some (d', es) \<Longrightarrow> P d' \<and> R d es d') \<Longrightarrow> op_spec P R f"
  by (simp add: op_spec_def)

lemma op_specD: "op_spec P R f \<Longrightarrow> P d \<Longrightarrow> f d = Some (d', es) \<Longrightarrow> P d' \<and> R d es d'"
  by (simp add: op_spec_def)

lemma and_then_Some:
  "and_then f g d = Some (d', es) \<longleftrightarrow>
     (\<exists>d1 es1 es2. f d = Some (d1, es1) \<and> g d1 = Some (d', es2) \<and> es = es1 @ es2)"
  by (auto simp: and_then_def split: option.splits prod.splits)

locale op_logic =
  fixes P :: "driver \<Rightarrow> bool"
    and R :: "driver \<Rightarrow> effect list \<Rightarrow> driver \<Rightarrow> bool"
  assumes refl_rel: "R d [] d"
    and comp_rel: "R d es d1 \<Longrightarrow> R d1 es1 d2 \<Longrightarrow> R d (es @ es1) d2"
begin

lemma op_and_then: "op_spec P R f \<Longrightarrow> op_spec P R g \<Longrightarrow> op_spec P R (and_then f g)"
  unfolding op_spec_def and_then_Some by (blast intro: comp_rel)

lemma op_for_each: "(\<And>x. x \<in> set xs \<Longrightarrow> op_spec P R (f x)) \<Longrightarrow> op_spec P R (for_each f xs)"
proof (induction xs)
  case Nil
  show ?case by (simp add: op_spec_def refl_rel)
next
  case (Cons x xs)
  then have "op_spec P R (and_then (f x) (for_each f xs))" by (intro op_and_then) auto
  then show ?case by (simp add: op_spec_def)
qed

end

section \<open>The pool and the assigner agree on the workers\<close>

datatype worker_phase = Phase_Pending | Phase_Running | Phase_Stopped

fun phase_of :: "worker_state \<Rightarrow> worker_phase" where
  "phase_of Worker_Pending = Phase_Pending"
| "phase_of (Worker_Running _ _ _ _ _) = Phase_Running"
| "phase_of Worker_Completed = Phase_Stopped"
| "phase_of Worker_Failed = Phase_Stopped"

definition pool_view :: "worker_pool \<Rightarrow> worker_id \<Rightarrow> worker_phase option" where
  "pool_view wp w = map_option (\<lambda>wd. phase_of (wd_state wd)) (im_get (wp_workers wp) w)"

definition assigner_view :: "task_assigner \<Rightarrow> worker_id \<Rightarrow> bool option" where
  "assigner_view ta w = map_option is_active (im_get (tg_workers ta) w)"

fun view_agree :: "worker_phase option \<Rightarrow> bool option \<Rightarrow> bool" where
  "view_agree (Some Phase_Running) v = (v = Some True)"
| "view_agree (Some Phase_Stopped) v = (v \<noteq> Some True)"
| "view_agree (Some Phase_Pending) v = (v = None)"
| "view_agree None v = (v = None)"

definition workers_agree :: "worker_pool \<Rightarrow> task_assigner \<Rightarrow> bool" where
  "workers_agree wp ta \<longleftrightarrow> (\<forall>w. view_agree (pool_view wp w) (assigner_view ta w))"

lemma workers_agree_cong:
  "pool_view wp' = pool_view wp \<Longrightarrow> assigner_view ta' = assigner_view ta \<Longrightarrow> workers_agree wp ta \<Longrightarrow> workers_agree wp' ta'"
  by (simp add: workers_agree_def)

lemma workers_agreeD: "workers_agree wp ta \<Longrightarrow> view_agree (pool_view wp w) (assigner_view ta w)"
  by (simp add: workers_agree_def)

lemma workers_agree_upd:
  "workers_agree wp ta \<Longrightarrow> pool_view wp' = (pool_view wp)(w \<mapsto> ph) \<Longrightarrow> assigner_view ta' = (assigner_view ta)(w := v) \<Longrightarrow>
   view_agree (Some ph) v \<Longrightarrow> workers_agree wp' ta'"
  by (simp add: workers_agree_def)

lemma pool_view_put [simp]:
  "im_get (wp_workers wp) w \<noteq> None \<Longrightarrow>
   pool_view (put_worker w wd wp) = (pool_view wp)(w \<mapsto> phase_of (wd_state wd))"
  by (auto simp: pool_view_def fun_eq_iff simp del: map_of_eq_Some_iff)

lemma track_worker_activity_phase:
  "track_worker_activity ck w wd opts = (wd', es) \<Longrightarrow> phase_of (wd_state wd') = phase_of (wd_state wd)"
  by (auto simp: track_worker_activity_def Let_def split: worker_state.splits)

lemma get_client_set_phase:
  "get_client_set wd opts = (r, wd') \<Longrightarrow> phase_of (wd_state wd') = phase_of (wd_state wd)"
  by (auto simp: get_client_set_def Let_def split: worker_state.splits)

lemma pool_view_same:
  "im_get (wp_workers wp) w = Some wd \<Longrightarrow> phase_of (wd_state wd') = phase_of (wd_state wd) \<Longrightarrow>
   pool_view (put_worker w wd' wp) = pool_view wp"
  by (auto simp: pool_view_def fun_eq_iff simp del: map_of_eq_Some_iff)

lemmas phase_lemmas = track_worker_activity_phase get_client_set_phase

lemma pool_run_task_view: "pool_run_task ck w k def wp = (wp', es) \<Longrightarrow> pool_view wp' = pool_view wp"
  by (auto simp: pool_run_task_def Let_def split: option.splits prod.splits sum.splits worker_state.splits
      intro!: pool_view_same dest!: phase_lemmas simp del: map_of_eq_Some_iff)

lemma pool_stop_task_view: "pool_stop_task ck w k wp = (wp', es) \<Longrightarrow> pool_view wp' = pool_view wp"
  by (auto simp: pool_stop_task_def Let_def split: option.splits prod.splits sum.splits
      intro!: pool_view_same dest!: phase_lemmas simp del: map_of_eq_Some_iff)

lemma fetch_task_stream_view: "fetch_task_stream ck w k sch wp = (r, wp', es) \<Longrightarrow> pool_view wp' = pool_view wp"
  by (auto simp: fetch_task_stream_def Let_def split: option.splits prod.splits sum.splits
      intro!: pool_view_same dest!: phase_lemmas simp del: map_of_eq_Some_iff)

lemma pool_clean_up_job_view: "pool_clean_up_job ck w j st wp = (wp', es) \<Longrightarrow> pool_view wp' = pool_view wp"
  by (auto simp: pool_clean_up_job_def clean_up_job_for_worker_def Let_def split: option.splits prod.splits sum.splits
      intro!: pool_view_same dest!: phase_lemmas simp del: map_of_eq_Some_iff)

lemma update_worker_heartbeat_view: "update_worker_heartbeat ck w wp = (wp', es) \<Longrightarrow> pool_view wp' = pool_view wp"
  by (auto simp: update_worker_heartbeat_def Let_def split: option.splits worker_state.splits
      intro!: pool_view_same simp del: map_of_eq_Some_iff)

lemma update_worker_known_peers_view: "pool_view (update_worker_known_peers w ps wp) = pool_view wp"
  by (auto simp: pool_view_def update_worker_known_peers_def fun_eq_iff option.map_comp comp_def)

lemma register_worker_view:
  "register_worker ck w host port wp = (r, wp', es) \<Longrightarrow>
   if isl r then wp' = wp else pool_view wp w = Some Phase_Pending \<and> pool_view wp' = (pool_view wp)(w \<mapsto> Phase_Running)"
  by (auto simp: register_worker_def Let_def pool_view_def fun_eq_iff
      split: option.splits worker_state.splits simp del: map_of_eq_Some_iff)

lemma stop_worker_view:
  "stop_worker ck w reason wp = (wp', es) \<Longrightarrow>
   pool_view wp' = (if pool_view wp w = None then pool_view wp else (pool_view wp)(w \<mapsto> Phase_Stopped))"
  by (auto simp: stop_worker_def pool_view_def fun_eq_iff split: option.splits worker_state.splits prod.splits sum.splits
      simp del: map_of_eq_Some_iff)

lemma fail_worker_if_pending_view:
  "fail_worker_if_pending w wp = (b, wp') \<Longrightarrow>
   if b then pool_view wp w = Some Phase_Pending \<and> pool_view wp' = (pool_view wp)(w \<mapsto> Phase_Stopped) else wp' = wp"
  by (auto simp: fail_worker_if_pending_def pool_view_def fun_eq_iff split: option.splits if_splits
      simp del: map_of_eq_Some_iff)

lemma start_worker_view:
  assumes "start_worker ck wp = (wp', es)" "set (im_keys (wp_workers wp)) \<subseteq> issued (wp_worker_id_generator wp)"
  shows "pool_view wp' = pool_view wp \<or> (\<exists>w. pool_view wp w = None \<and> pool_view wp' = (pool_view wp)(w \<mapsto> Phase_Pending))"
proof (cases "id_generator_next (wp_worker_id_generator wp)")
  case (Inl e)
  with start_worker_Inl [OF assms(1)] show ?thesis by simp
next
  case (Inr r)
  then obtain w gen where n: "id_generator_next (wp_worker_id_generator wp) = Inr (w, gen)" by (cases r) auto
  from start_worker_Inr [OF assms(1) n] obtain wd where
    "wp' = wp\<lparr>wp_worker_id_generator := gen, wp_workers := im_insert w wd (wp_workers wp)\<rparr>"
    "wd_state wd = Worker_Pending" by blast
  then have "pool_view wp' = (pool_view wp)(w \<mapsto> Phase_Pending)" by (auto simp: pool_view_def)
  moreover have "im_get (wp_workers wp) w = None"
    using assms(2) ids.nxt_fresh [OF n] by (auto simp: map_of_eq_None_iff)
  then have "pool_view wp w = None" by (simp add: pool_view_def)
  ultimately show ?thesis by blast
qed

section \<open>What the assigner holds\<close>

definition assigner_knows :: "task_assigner \<Rightarrow> task_key \<Rightarrow> bool" where
  "assigner_knows ta k \<longleftrightarrow> k \<in> set (queue_keys ta) \<or> get_assignment ta k \<noteq> None"

definition keys_known :: "job_scheduler \<Rightarrow> task_assigner \<Rightarrow> bool" where
  "keys_known js ta \<longleftrightarrow> (\<forall>k. assigner_knows ta k \<longrightarrow> attempt_known js k)"

text \<open>An operation that adds no task and neither activates nor deactivates a worker.\<close>

definition ta_quiet :: "task_assigner \<Rightarrow> task_assigner \<Rightarrow> bool" where
  "ta_quiet ta ta' \<longleftrightarrow> ta_step\<^sup>*\<^sup>* ta ta' \<and> assigner_view ta' = assigner_view ta \<and>
     (\<forall>k. assigner_knows ta' k \<longrightarrow> assigner_knows ta k)"

lemma ta_quiet_refl [simp]: "ta_quiet ta ta"
  by (simp add: ta_quiet_def)

lemma ta_quiet_trans: "ta_quiet ta ta1 \<Longrightarrow> ta_quiet ta1 ta2 \<Longrightarrow> ta_quiet ta ta2"
  unfolding ta_quiet_def by (metis rtranclp_trans)

lemma ta_quiet_same:
  "ta_step ta ta' \<Longrightarrow> tg_workers ta' = tg_workers ta \<Longrightarrow> tg_task_assignments ta' = tg_task_assignments ta \<Longrightarrow>
   set (queue_keys ta') \<subseteq> set (queue_keys ta) \<Longrightarrow> ta_quiet ta ta'"
  by (auto simp: ta_quiet_def assigner_knows_def get_assignment_def assigner_view_def)

lemma request_workers_quiet: "request_workers ta = Some (n, ta') \<Longrightarrow> ta_quiet ta ta'"
  by (rule ta_quiet_same, erule ta_request) (auto simp: request_workers_def Let_def queue_keys_def split: option.splits)

lemma failed_to_start_quiet: "ta_quiet ta (track_worker_failed_to_start ta)"
  by (rule ta_quiet_same, rule ta_failed) (auto simp: track_worker_failed_to_start_def queue_keys_def)

lemma exclude_task_quiet: "ta_quiet ta (exclude_task k ta)"
  by (rule ta_quiet_same, rule ta_exclude) (auto simp: exclude_task_def queue_keys_def)

lemma untrack_remote_quiet: "ta_quiet ta (snd (untrack_remote_streams j stage ta))"
  by (rule ta_quiet_same, rule ta_untrack_remote) (auto simp: untrack_remote_streams_def queue_keys_def split: prod.splits)

lemma assigner_view_modify:
  "(\<And>res. is_active (f res) = is_active res) \<Longrightarrow>
   assigner_view (ta\<lparr>tg_workers := im_modify w f (tg_workers ta)\<rparr>) = assigner_view ta"
  by (auto simp: assigner_view_def fun_eq_iff option.map_comp comp_def)

lemma assigner_view_frame [simp]:
  "assigner_view (ta\<lparr>tg_driver := d\<rparr>) = assigner_view ta"
  "assigner_view (ta\<lparr>tg_task_queue := q\<rparr>) = assigner_view ta"
  by (simp_all add: assigner_view_def fun_eq_iff)

lemma is_active_ops [simp]:
  "is_active (worker_add_task_set slot ts res) = is_active res"
  "is_active (fst (worker_remove_task k slot res)) = is_active res"
  "is_active (worker_track_local_streams ts res) = is_active res"
  "is_active (fst (worker_untrack_local_streams j stage res)) = is_active res"
  by (cases res; simp add: Let_def split: prod.splits)+

lemma unassign_task_quiet: "ta_quiet ta (snd (unassign_task k ta))"
proof -
  have "assigner_view (snd (unassign_task k ta)) = assigner_view ta"
    by (auto simp: unassign_task_def assigner_view_modify split: option.splits task_assignment.splits)
  moreover have "queue_keys (snd (unassign_task k ta)) = queue_keys ta"
    "get_assignment (snd (unassign_task k ta)) = get_assignment ta"
    by (auto simp: unassign_task_def queue_keys_def get_assignment_def fun_eq_iff split: option.splits task_assignment.splits)
  ultimately show ?thesis by (auto simp: ta_quiet_def assigner_knows_def intro: ta_unassign)
qed

lemma untrack_local_quiet: "ta_quiet ta (snd (untrack_local_streams j stage ta))"
proof -
  have "map_option is_active (im_get (map (\<lambda>x. (fst x, fst (worker_untrack_local_streams j stage (snd x)))) m) w) =
      map_option is_active (im_get m w)" for m :: "(worker_id \<times> worker_resource) list" and w
    by (induction m) auto
  then have "assigner_view (snd (untrack_local_streams j stage ta)) = assigner_view ta"
    by (auto simp: untrack_local_streams_def assigner_view_def fun_eq_iff Let_def comp_def case_prod_unfold)
  moreover have "queue_keys (snd (untrack_local_streams j stage ta)) = queue_keys ta"
    "get_assignment (snd (untrack_local_streams j stage ta)) = get_assignment ta"
    by (auto simp: untrack_local_streams_def Let_def queue_keys_def get_assignment_def fun_eq_iff split: prod.splits)
  ultimately show ?thesis by (auto simp: ta_quiet_def assigner_knows_def intro: ta_untrack_local)
qed

lemma track_streams_quiet: "ta_quiet ta (track_streams as ta)"
proof -
  have "assigner_view (track_streams as ta) = assigner_view ta \<and> queue_keys (track_streams as ta) = queue_keys ta \<and>
    get_assignment (track_streams as ta) = get_assignment ta"
    unfolding track_streams_def
  proof (rule foldl_inv [of "\<lambda>t. assigner_view t = assigner_view ta \<and> queue_keys t = queue_keys ta \<and> get_assignment t = get_assignment ta"])
    fix t x
    assume "assigner_view t = assigner_view ta \<and> queue_keys t = queue_keys ta \<and> get_assignment t = get_assignment ta"
    then show "assigner_view (track_assignment_streams t x) = assigner_view ta \<and>
      queue_keys (track_assignment_streams t x) = queue_keys ta \<and> get_assignment (track_assignment_streams t x) = get_assignment ta"
      by (cases "ta_assignment x") (auto simp: track_assignment_streams_def assigner_view_def queue_keys_def
          get_assignment_def fun_eq_iff Let_def option.map_comp comp_def)
  qed simp
  then show ?thesis by (auto simp: ta_quiet_def assigner_knows_def intro: ta_track)
qed

lemma apply_assignment_view: "assigner_view (apply_assignment ta a) = assigner_view ta"
  by (auto simp: apply_assignment_def assigner_view_def fun_eq_iff option.map_comp comp_def
      split: task_assignment.splits option.splits)

lemma apply_assignment_knows:
  "assigner_knows (apply_assignment ta a) k \<Longrightarrow> assigner_knows ta k \<or> k \<in> set (ts_tasks (ta_set a))"
  by (auto simp: apply_assignment_def assigner_knows_def queue_keys_def get_assignment_def insert_assignments_get
      simp del: map_of_eq_Some_iff split: task_assignment.splits option.splits if_splits)

lemma assign_tasks_quiet: "ta_quiet ta (snd (assign_tasks policy ta))"
proof (cases "0 < tg_requested_worker_count ta")
  case True
  then show ?thesis by (simp add: assign_tasks_def)
next
  case False
  obtain as rest where ar: "assign_regions (slot_next policy) (build_worker_task_slot_assigner ta) (tg_task_queue ta) = (as, rest)"
    by (metis prod.exhaust)
  let ?ta0 = "ta\<lparr>tg_task_queue := rest\<rparr>"
  have e: "snd (assign_tasks policy ta) = foldl apply_assignment ?ta0 as" using False ar by (simp add: assign_tasks_def)
  from policies.assign_regions_spec [OF ar] obtain taken where
    sp: "tg_task_queue ta = taken @ rest" "list_all2 placed (concat (map tr_tasks taken)) as" by blast
  have keys: "set (queue_keys ta) = set (assignment_keys as) \<union> set (queue_keys ?ta0)"
    using placed_keys [OF sp(2)] by (simp add: queue_keys_def sp(1) region_keys_concat)
  have "assigner_view (foldl apply_assignment t as) = assigner_view t" for t
    by (induction as arbitrary: t) (auto simp: apply_assignment_view)
  moreover have "assigner_knows (foldl apply_assignment t as) k \<Longrightarrow> assigner_knows t k \<or> k \<in> set (assignment_keys as)" for t k
    by (induction as arbitrary: t) (auto dest!: apply_assignment_knows)
  moreover have "assigner_knows ?ta0 k \<or> k \<in> set (assignment_keys as) \<Longrightarrow> assigner_knows ta k" for k
    using keys by (auto simp: assigner_knows_def get_assignment_def)
  moreover have "assigner_view ?ta0 = assigner_view ta" by simp
  ultimately show ?thesis using ta_assign [of ta policy] unfolding ta_quiet_def e by (metis r_into_rtranclp)
qed

end
