(* ===== verification/Driver_Invariant.thy ===== *)
theory Driver_Invariant
  imports Driver_Correct
begin

text \<open>
  The invariant of the driver and that every handler keeps it. Most operations are quiet: they
  start no worker and stop none, and enqueue no task. Quiet operations compose without any
  assumption; the others are treated one by one.
\<close>

section \<open>The invariant\<close>

definition driver_inv :: "driver \<Rightarrow> bool" where
  "driver_inv d \<longleftrightarrow> js_inv (dv_job_scheduler d) \<and> ta_inv (dv_task_assigner d) \<and>
     keys_known (dv_job_scheduler d) (dv_task_assigner d) \<and>
     workers_agree (dv_worker_pool d) (dv_task_assigner d) \<and> (\<exists>h. pool_inv (dv_worker_pool d, h))"

text \<open>How the driver moves: its components by their own steps, and the table of sequence numbers not at all.\<close>

definition driver_rel :: "driver \<Rightarrow> effect list \<Rightarrow> driver \<Rightarrow> bool" where
  "driver_rel d es d' \<longleftrightarrow> js_step\<^sup>*\<^sup>* (dv_job_scheduler d) (dv_job_scheduler d') \<and>
     ta_step\<^sup>*\<^sup>* (dv_task_assigner d) (dv_task_assigner d') \<and>
     (\<forall>h. pool_step\<^sup>*\<^sup>* (dv_worker_pool d, h) (dv_worker_pool d', h @ es)) \<and>
     dv_task_sequences d' = dv_task_sequences d \<and> dv_options d' = dv_options d"

definition driver_quiet :: "driver \<Rightarrow> effect list \<Rightarrow> driver \<Rightarrow> bool" where
  "driver_quiet d es d' \<longleftrightarrow> driver_rel d es d' \<and> ta_quiet (dv_task_assigner d) (dv_task_assigner d') \<and>
     pool_view (dv_worker_pool d') = pool_view (dv_worker_pool d)"

lemma pool_other_run: "pool_step\<^sup>*\<^sup>* (wp, h) (wp, h @ es)"
  by (rule r_into_rtranclp) (rule pool_other)

lemma driver_rel_refl [simp]: "driver_rel d [] d"
  by (simp add: driver_rel_def)

lemma driver_rel_trans: "driver_rel d es d1 \<Longrightarrow> driver_rel d1 es1 d2 \<Longrightarrow> driver_rel d (es @ es1) d2"
  unfolding driver_rel_def by (metis append_assoc rtranclp_trans)

interpretation rel_logic: op_logic driver_inv driver_rel
  by unfold_locales (auto intro: driver_rel_trans)

interpretation quiet_logic: op_logic "\<lambda>_. True" driver_quiet
proof
  fix d es d1 es1 d2
  show "driver_quiet d [] d" by (simp add: driver_quiet_def)
  assume "driver_quiet d es d1" "driver_quiet d1 es1 d2"
  then show "driver_quiet d (es @ es1) d2"
    unfolding driver_quiet_def by (metis driver_rel_trans ta_quiet_trans)
qed

abbreviation quiet :: "driver_op \<Rightarrow> bool" where
  "quiet f \<equiv> op_spec (\<lambda>_. True) driver_quiet f"

abbreviation keeps :: "driver_op \<Rightarrow> bool" where
  "keeps f \<equiv> op_spec driver_inv driver_rel f"

lemma keys_known_step:
  "keys_known js ta \<Longrightarrow> js_le js js' \<Longrightarrow> (\<And>k. assigner_knows ta' k \<Longrightarrow> assigner_knows ta k) \<Longrightarrow> keys_known js' ta'"
  unfolding keys_known_def by (blast intro: attempt_known_mono)

lemma driver_inv_rel:
  assumes "driver_inv d" "driver_rel d es d'"
  shows "js_inv (dv_job_scheduler d')" "ta_inv (dv_task_assigner d')" "\<exists>h. pool_inv (dv_worker_pool d', h)"
    "js_le (dv_job_scheduler d) (dv_job_scheduler d')"
  using assms jobs.run_inv jobs.run_le assigner.run_inv pool.run_inv unfolding driver_inv_def driver_rel_def by blast+

lemma quiet_inv: "driver_inv d \<Longrightarrow> driver_quiet d es d' \<Longrightarrow> driver_inv d'"
proof -
  assume inv: "driver_inv d" and q: "driver_quiet d es d'"
  then have rel: "driver_rel d es d'" by (simp add: driver_quiet_def)
  note r = driver_inv_rel [OF inv rel]
  have "keys_known (dv_job_scheduler d') (dv_task_assigner d')"
    using inv q r(4) by (auto simp: driver_inv_def driver_quiet_def ta_quiet_def intro: keys_known_step)
  moreover have "workers_agree (dv_worker_pool d') (dv_task_assigner d')"
    using inv q by (auto simp: driver_inv_def driver_quiet_def ta_quiet_def intro: workers_agree_cong)
  ultimately show ?thesis using r unfolding driver_inv_def by blast
qed

lemma quiet_keeps: "quiet f \<Longrightarrow> keeps f"
proof (rule op_specI)
  fix d d' :: driver and es
  assume "quiet f" and d: "driver_inv d" and "f d = Some (d', es)"
  then have q: "driver_quiet d es d'" by (simp add: op_spec_def)
  then show "driver_inv d' \<and> driver_rel d es d'" using quiet_inv [OF d q] by (simp add: driver_quiet_def)
qed

section \<open>Quiet operations\<close>

lemma quiet_done: "quiet (done_with es)"
  by (auto simp: op_spec_def done_with_def driver_quiet_def driver_rel_def pool_other_run)

lemma quiet_scheduler: "(\<And>js. js_step js (f js)) \<Longrightarrow> quiet (on_scheduler f)"
  by (auto simp: op_spec_def on_scheduler_def driver_quiet_def driver_rel_def)

lemma quiet_update_task: "quiet (on_scheduler (update_task ck k st m c))"
  by (rule quiet_scheduler) (rule js_update)

lemma quiet_assigner: "(\<And>ta. ta_quiet ta (f ta)) \<Longrightarrow> quiet (on_assigner f)"
  by (auto simp: op_spec_def on_assigner_def driver_quiet_def driver_rel_def ta_quiet_def)

lemma quiet_streams: "quiet (on_streams f)"
  by (auto simp: op_spec_def on_streams_def driver_quiet_def driver_rel_def pool_other_run split: prod.splits)

lemma quiet_runner: "quiet (on_runner f)"
  by (auto simp: op_spec_def on_runner_def driver_quiet_def driver_rel_def pool_other_run split: prod.splits)

lemma quiet_pool:
  assumes "\<And>wp wp' es h. f wp = (wp', es) \<Longrightarrow> pool_step (wp, h) (wp', h @ es)"
    and "\<And>wp wp' es. f wp = (wp', es) \<Longrightarrow> pool_view wp' = pool_view wp"
  shows "quiet (on_pool f)"
  using assms by (auto simp: op_spec_def on_pool_def driver_quiet_def driver_rel_def split: prod.splits)

lemma quiet_pool_ops:
  "quiet (on_pool (pool_run_task ck w k def))" "quiet (on_pool (pool_stop_task ck w k))"
  "quiet (on_pool (pool_clean_up_job ck w j stage))" "quiet (on_pool (update_worker_heartbeat ck w))"
  by (rule quiet_pool; blast intro: pool_run pool_stop_t pool_clean pool_heartbeat
      dest: pool_run_task_view pool_stop_task_view pool_clean_up_job_view update_worker_heartbeat_view)+

lemma quiet_peers: "quiet (on_pool (\<lambda>wp. (update_worker_known_peers w ps wp, [])))"
  using pool_peers by (intro quiet_pool) (auto simp: update_worker_known_peers_view)

lemma driver_quiet_pool:
  assumes "\<And>h. pool_step (dv_worker_pool d, h) (wp, h @ es)" "pool_view wp = pool_view (dv_worker_pool d)"
  shows "driver_quiet d (es @ es') (d\<lparr>dv_worker_pool := wp\<rparr>)"
proof -
  have "pool_step\<^sup>*\<^sup>* (dv_worker_pool d, h) (wp, h @ es @ es')" for h
    using assms(1) [of h] pool_other [of wp "h @ es" es'] by (metis append_assoc converse_rtranclp_into_rtranclp r_into_rtranclp)
  then show ?thesis using assms(2) by (simp add: driver_quiet_def driver_rel_def)
qed

lemma quiet_fetch_worker: "quiet (handle_fetch_worker_stream env w k sch)"
  unfolding op_spec_def handle_fetch_worker_stream_def on_pool_def
  by (auto split: prod.splits intro!: driver_quiet_pool pool_fetch dest: fetch_task_stream_view)

lemma quiet_extend_output: "quiet (extend_output env j k sch)"
proof (rule op_specI)
  fix d d' :: driver and es
  assume "extend_output env j k sch d = Some (d', es)"
  then show "True \<and> driver_quiet d es d'"
    unfolding extend_output_def
    by (auto split: option.splits task_assignment.splits prod.splits intro!: driver_quiet_pool pool_fetch
        dest: fetch_task_stream_view)
      (auto simp: driver_quiet_def driver_rel_def pool_other_run)
qed

lemma quiet_set_assigner:
  assumes "ta_quiet (dv_task_assigner d) ta"
  shows "driver_quiet d [] (d\<lparr>dv_task_assigner := ta\<rparr>)"
  using assms by (auto simp: driver_quiet_def driver_rel_def ta_quiet_def)

lemma quiet_after:
  assumes "quiet f" "driver_quiet d [] d1" "f d1 = Some (d', es)"
  shows "driver_quiet d es d'"
  using quiet_logic.comp_rel [OF assms(2)] op_specD [OF assms(1) _ assms(3)] by force

lemma quiet_cancel_task: "quiet (cancel_task env k)"
proof (rule op_specI)
  fix d d' :: driver and es
  assume c: "cancel_task env k d = Some (d', es)"
  obtain asg ta2 where un: "unassign_task k (exclude_task k (dv_task_assigner d)) = (asg, ta2)" by (metis prod.exhaust)
  have "ta_quiet (dv_task_assigner d) ta2"
    using ta_quiet_trans [OF exclude_task_quiet unassign_task_quiet, of "dv_task_assigner d" k k] un by simp
  note q = quiet_set_assigner [OF this]
  show "True \<and> driver_quiet d es d'"
    using c q quiet_after [OF quiet_runner q] quiet_after [OF quiet_pool_ops(2) q]
    by (auto simp: cancel_task_def un Let_def split: option.splits task_assignment.splits)
qed

lemma quiet_clean_up_stream: "quiet (clean_up_stream env j stage x)"
  by (cases x) (simp_all add: clean_up_stream_def quiet_streams quiet_pool_ops)

lemma quiet_clean_up_streams: "quiet (clean_up_streams env j stage)"
proof (rule op_specI)
  fix d d' :: driver and es
  assume c: "clean_up_streams env j stage d = Some (d', es)"
  let ?ta1 = "snd (untrack_remote_streams j stage (dv_task_assigner d))"
  have "ta_quiet (dv_task_assigner d) (snd (untrack_local_streams j stage ?ta1))"
    by (rule ta_quiet_trans [OF untrack_remote_quiet untrack_local_quiet])
  note q = quiet_set_assigner [OF this]
  have "quiet (for_each (clean_up_stream env j stage) xs)" for xs
    by (rule quiet_logic.op_for_each) (rule quiet_clean_up_stream)
  from quiet_after [OF this q] c show "True \<and> driver_quiet d es d'"
    by (simp add: clean_up_streams_def case_prod_unfold Let_def)
qed

lemma run_job_action_eqs:
  "run_job_action env (CancelTask k) = cancel_task env k"
  "run_job_action env (ExtendJobOutput j sk sch) = extend_output env j sk sch"
  "run_job_action env (FailJobOutput j c) = done_with [Spawn (Call_OutputError j c)]"
  "run_job_action env (CleanUpStreams j st) = clean_up_streams env j st"
  by (simp_all add: fun_eq_iff done_with_def)

lemma quiet_run_job_action: "(\<And>r. a \<noteq> ScheduleTaskRegion r) \<Longrightarrow> quiet (run_job_action env a)"
  by (cases a) (auto simp only: run_job_action_eqs quiet_cancel_task quiet_extend_output quiet_clean_up_streams quiet_done)

lemma quiet_clean_up_job: "quiet (driver_clean_up_job env j)"
proof (rule op_specI)
  fix d d' :: driver and es
  assume c: "driver_clean_up_job env j d = Some (d', es)"
  obtain js acts where cl: "clean_up_job (env_clock env) j (dv_job_scheduler d) = (js, acts)" by (metis prod.exhaust)
  have "a \<noteq> ScheduleTaskRegion r" if "a \<in> set acts" for a r
    using cl that by (auto simp: clean_up_job_def clean_up_job_in_def split: option.splits)
  then have "quiet (for_each (run_job_action env) acts)"
    by (intro quiet_logic.op_for_each quiet_run_job_action) auto
  moreover have "driver_quiet d [] (d\<lparr>dv_job_scheduler := js\<rparr>)"
    using js_clean_up [of "dv_job_scheduler d" "env_clock env" j] cl by (auto simp: driver_quiet_def driver_rel_def)
  ultimately show "True \<and> driver_quiet d es d'"
    using quiet_after c by (simp add: driver_clean_up_job_def cl)
qed

lemma quiet_run_entry: "quiet (run_entry env asg entry)"
proof (rule op_specI)
  fix d d' :: driver and es
  let ?k = "te_key entry"
  let ?def = "get_task_definition (dv_job_scheduler d) ?k (get_assignment (dv_task_assigner d))"
  assume r: "run_entry env asg entry d = Some (d', es)"
  have q: "quiet (and_then (on_scheduler (update_task (env_clock env) ?k Task_Scheduled None None))
            (case asg of
               Assign_Driver \<Rightarrow> on_runner (runner_run_task (env_execute_plan env ?k def ctx) ?k)
             | Assign_Worker w _ \<Rightarrow> on_pool (pool_run_task (env_clock env) w ?k def)))" for def ctx
    by (rule quiet_logic.op_and_then [OF quiet_update_task]) (auto simp: quiet_runner quiet_pool_ops split: task_assignment.splits)
  show "True \<and> driver_quiet d es d'"
  proof (cases ?def)
    case (Inl e)
    with r have "d' = d" by (simp add: run_entry_def Let_def)
    then show ?thesis by (simp add: driver_quiet_def driver_rel_def pool_other_run)
  next
    case (Inr x)
    then show ?thesis using r op_specD [OF q] by (cases x) (auto simp: run_entry_def Let_def)
  qed
qed

lemma quiet_run_assignment: "quiet (run_assignment env a)"
  unfolding run_assignment_def by (rule quiet_logic.op_for_each) (rule quiet_run_entry)

lemma quiet_run_tasks: "quiet (run_tasks env)"
proof (rule op_specI)
  fix d d' :: driver and es
  assume r: "run_tasks env d = Some (d', es)"
  let ?a = "assign_tasks (env_policy env) (dv_task_assigner d)"
  have "quiet (for_each (run_assignment env) (fst ?a))" by (rule quiet_logic.op_for_each) (rule quiet_run_assignment)
  moreover have "driver_quiet d [] (d\<lparr>dv_task_assigner := track_streams (fst ?a) (snd ?a)\<rparr>)"
    by (rule quiet_set_assigner) (rule ta_quiet_trans [OF assign_tasks_quiet track_streams_quiet])
  ultimately show "True \<and> driver_quiet d es d'"
    using r quiet_after by (simp add: run_tasks_def case_prod_unfold Let_def)
qed

lemmas quiet_ops = quiet_done quiet_update_task quiet_streams quiet_runner quiet_pool_ops quiet_peers quiet_fetch_worker
  quiet_clean_up_job quiet_run_tasks

section \<open>Refreshing a job\<close>

text \<open>What is left to run of the actions of a refresh: its regions are new to the assigner.\<close>

definition actions_ok :: "driver \<Rightarrow> job_action list \<Rightarrow> bool" where
  "actions_ok d acts \<longleftrightarrow> distinct (concat (map region_keys (scheduled_regions acts))) \<and>
     list_all sets_ok (scheduled_regions acts) \<and>
     (\<forall>k \<in> set (concat (map region_keys (scheduled_regions acts))).
        \<not> assigner_knows (dv_task_assigner d) k \<and> attempt_known (dv_job_scheduler d) k)"

lemma enqueue_keeps:
  assumes inv: "driver_inv d" and ok: "actions_ok d (ScheduleTaskRegion r # acts)"
    and run: "run_job_action env (ScheduleTaskRegion r) d = Some (d1, es)"
  shows "driver_inv d1 \<and> driver_rel d es d1 \<and> actions_ok d1 acts"
proof -
  let ?ta = "dv_task_assigner d"
  have d1: "d1 = d\<lparr>dv_task_assigner := enqueue_tasks r ?ta\<rparr>" using run by simp
  have fresh: "region_fresh ?ta r" using ok by (auto simp: actions_ok_def region_fresh_def assigner_knows_def)
  have knows: "assigner_knows (enqueue_tasks r ?ta) k \<longleftrightarrow> assigner_knows ?ta k \<or> k \<in> set (region_keys r)" for k
    by (auto simp: assigner_knows_def enqueue_tasks_def queue_keys_def get_assignment_def)
  have rel: "driver_rel d es d1"
    using ta_enqueue [OF fresh] by (auto simp: driver_rel_def d1 pool_other_run)
  have "keys_known (dv_job_scheduler d1) (dv_task_assigner d1)"
    using inv ok by (auto simp: driver_inv_def keys_known_def d1 knows actions_ok_def)
  moreover have "workers_agree (dv_worker_pool d1) (dv_task_assigner d1)"
    using inv by (auto simp: driver_inv_def d1 enqueue_tasks_def intro: workers_agree_cong)
  moreover have "actions_ok d1 acts" using ok by (auto simp: actions_ok_def d1 knows)
  ultimately show ?thesis using driver_inv_rel(1-3) [OF inv rel] rel by (simp add: driver_inv_def)
qed

lemma run_actions_keep:
  assumes "driver_inv d" "actions_ok d acts" "for_each (run_job_action env) acts d = Some (d', es)"
  shows "driver_inv d' \<and> driver_rel d es d'"
  using assms
proof (induction acts arbitrary: d es)
  case (Cons a acts)
  from Cons.prems(3) obtain d1 es1 es2 where a: "run_job_action env a d = Some (d1, es1)"
    and rest: "for_each (run_job_action env) acts d1 = Some (d', es2)" and es: "es = es1 @ es2"
    by (auto simp: and_then_Some)
  have "driver_inv d1 \<and> driver_rel d es1 d1 \<and> actions_ok d1 acts"
  proof (cases "\<exists>r. a = ScheduleTaskRegion r")
    case True
    then show ?thesis using enqueue_keeps Cons.prems(1,2) a by blast
  next
    case False
    then have q: "driver_quiet d es1 d1" using op_specD [OF quiet_run_job_action _ a] by blast
    then have rel: "driver_rel d es1 d1" by (simp add: driver_quiet_def)
    have "scheduled_regions (a # acts) = scheduled_regions acts" using False by (cases a) auto
    with Cons.prems(2) q driver_inv_rel(4) [OF Cons.prems(1) rel] have "actions_ok d1 acts"
      by (auto simp: actions_ok_def driver_quiet_def ta_quiet_def intro: attempt_known_mono)
    with rel quiet_inv [OF Cons.prems(1) q] show ?thesis by simp
  qed
  with Cons.IH rest es show ?case using driver_rel_trans by blast
qed simp

lemma keeps_refresh_job: "keeps (driver_refresh_job env j)"
proof (rule op_specI)
  fix d d' :: driver and es
  assume inv: "driver_inv d" and r: "driver_refresh_job env j d = Some (d', es)"
  obtain js acts where ref: "refresh_job (env_clock env) j (dv_job_scheduler d) = (js, acts)" by (metis prod.exhaust)
  let ?d = "d\<lparr>dv_job_scheduler := js\<rparr>"
  have q: "driver_quiet d [] ?d"
    using js_refresh [of "dv_job_scheduler d" "env_clock env" j] ref by (auto simp: driver_quiet_def driver_rel_def)
  have "regions_new (dv_job_scheduler d) js (scheduled_regions acts)"
    using refresh_regions_new [OF _ ref] inv by (simp add: driver_inv_def)
  then have "actions_ok ?d acts"
    using inv by (auto simp: regions_new_def actions_ok_def driver_inv_def keys_known_def)
  from run_actions_keep [OF quiet_inv [OF inv q] this] r ref
  have "driver_inv d'" "driver_rel ?d es d'" by (auto simp: driver_refresh_job_def)
  then show "driver_inv d' \<and> driver_rel d es d'"
    using driver_rel_trans [of d "[]" ?d es d'] q by (simp add: driver_quiet_def)
qed

section \<open>Starting, registering and stopping workers\<close>

lemma driver_inv_pool:
  assumes inv: "driver_inv d" and st: "\<And>h. pool_step\<^sup>*\<^sup>* (dv_worker_pool d, h) (wp, h @ es)"
    and ta: "ta_step\<^sup>*\<^sup>* (dv_task_assigner d) ta" and agree: "workers_agree wp ta"
    and knows: "\<And>k. assigner_knows ta k \<Longrightarrow> assigner_knows (dv_task_assigner d) k"
  shows "driver_inv (d\<lparr>dv_worker_pool := wp, dv_task_assigner := ta\<rparr>) \<and>
    driver_rel d es (d\<lparr>dv_worker_pool := wp, dv_task_assigner := ta\<rparr>)"
proof -
  let ?d = "d\<lparr>dv_worker_pool := wp, dv_task_assigner := ta\<rparr>"
  have rel: "driver_rel d es ?d" using st ta by (simp add: driver_rel_def)
  have "keys_known (dv_job_scheduler ?d) (dv_task_assigner ?d)"
    using inv knows by (auto simp: driver_inv_def keys_known_def)
  with driver_inv_rel(1-3) [OF inv rel] agree rel show ?thesis by (simp add: driver_inv_def)
qed

lemma keeps_start_worker: "keeps (on_pool (start_worker ck))"
proof (rule op_specI)
  fix d d' :: driver and es
  assume inv: "driver_inv d" and r: "on_pool (start_worker ck) d = Some (d', es)"
  let ?wp = "fst (start_worker ck (dv_worker_pool d))"
  have st: "start_worker ck (dv_worker_pool d) = (?wp, es)" and d': "d' = d\<lparr>dv_worker_pool := ?wp\<rparr>"
    using r by (auto simp: on_pool_def split: prod.splits)
  have "set (im_keys (wp_workers (dv_worker_pool d))) \<subseteq> issued (wp_worker_id_generator (dv_worker_pool d))"
    using inv by (auto simp: driver_inv_def pool_inv_def)
  from start_worker_view [OF st this] have "workers_agree ?wp (dv_task_assigner d)"
  proof
    assume "pool_view ?wp = pool_view (dv_worker_pool d)"
    then show ?thesis using inv by (auto simp: driver_inv_def intro: workers_agree_cong)
  next
    assume "\<exists>w. pool_view (dv_worker_pool d) w = None \<and> pool_view ?wp = (pool_view (dv_worker_pool d))(w \<mapsto> Phase_Pending)"
    then obtain w where w: "pool_view (dv_worker_pool d) w = None" "pool_view ?wp = (pool_view (dv_worker_pool d))(w \<mapsto> Phase_Pending)"
      by blast
    have a: "workers_agree (dv_worker_pool d) (dv_task_assigner d)" using inv by (simp add: driver_inv_def)
    have "assigner_view (dv_task_assigner d) w = None" using w(1) workers_agreeD [OF a, of w] by simp
    then have "assigner_view (dv_task_assigner d) = (assigner_view (dv_task_assigner d))(w := None)" by (simp add: fun_upd_idem)
    from workers_agree_upd [OF a w(2) this] show ?thesis by simp
  qed
  from driver_inv_pool [OF inv _ _ this, of es] pool_start [OF st] show "driver_inv d' \<and> driver_rel d es d'"
    by (auto simp: d')
qed

lemma keeps_start_workers: "keeps (start_workers env n)"
  unfolding start_workers_def by (rule rel_logic.op_for_each) (rule keeps_start_worker)

lemma keeps_after:
  assumes "keeps f" "driver_inv d1 \<and> driver_rel d es1 d1" "f d1 = Some (d', es2)"
  shows "driver_inv d' \<and> driver_rel d (es1 @ es2) d'"
  using op_specD [OF assms(1) _ assms(3)] assms(2) by (auto intro: driver_rel_trans)

lemma keeps_scale_up: "keeps (scale_up_workers env)"
proof (rule op_specI)
  fix d d' :: driver and es
  assume inv: "driver_inv d" and r: "scale_up_workers env d = Some (d', es)"
  then obtain n ta where rq: "request_workers (dv_task_assigner d) = Some (n, ta)"
    and st: "start_workers env n (d\<lparr>dv_task_assigner := ta\<rparr>) = Some (d', es)"
    by (auto simp: scale_up_workers_def split: option.splits)
  have q: "driver_quiet d [] (d\<lparr>dv_task_assigner := ta\<rparr>)"
    by (rule quiet_set_assigner) (rule request_workers_quiet [OF rq])
  have "driver_inv (d\<lparr>dv_task_assigner := ta\<rparr>) \<and> driver_rel d [] (d\<lparr>dv_task_assigner := ta\<rparr>)"
    using quiet_inv [OF inv q] q by (simp add: driver_quiet_def)
  from keeps_after [OF keeps_start_workers this st] show "driver_inv d' \<and> driver_rel d es d'" by simp
qed

lemma keeps_refresh_run_scale: "keeps (refresh_run_scale env j)"
  unfolding refresh_run_scale_def
  by (intro rel_logic.op_and_then keeps_refresh_job quiet_keeps [OF quiet_run_tasks] keeps_scale_up)

lemma assigner_view_activate:
  "assigner_view ta w = None \<Longrightarrow> assigner_view (activate_worker w ta) = (assigner_view ta)(w \<mapsto> True)"
  by (auto simp: assigner_view_def activate_worker_def Let_def fun_eq_iff)

lemma assigner_view_deactivate:
  "assigner_view ta w \<noteq> None \<Longrightarrow> assigner_view (deactivate_worker w ta) = (assigner_view ta)(w \<mapsto> False)"
  by (auto simp: assigner_view_def deactivate_worker_def fun_eq_iff)

lemma activation_knows:
  "assigner_knows (activate_worker w ta) k = assigner_knows ta k"
  "assigner_knows (deactivate_worker w ta) k = assigner_knows ta k"
  by (auto simp: assigner_knows_def activate_worker_def deactivate_worker_def queue_keys_def get_assignment_def Let_def)

lemma keeps_stop_worker:
  assumes inv: "driver_inv d" and run: "pool_view (dv_worker_pool d) w = Some Phase_Running"
    and r: "and_then (on_pool (stop_worker ck w reason)) (on_assigner (deactivate_worker w)) d = Some (d', es)"
  shows "driver_inv d' \<and> driver_rel d es d'"
proof -
  let ?wp = "fst (stop_worker ck w reason (dv_worker_pool d))" and ?ta = "dv_task_assigner d"
  have st: "stop_worker ck w reason (dv_worker_pool d) = (?wp, es)"
    and d': "d' = d\<lparr>dv_worker_pool := ?wp, dv_task_assigner := deactivate_worker w ?ta\<rparr>"
    using r by (auto simp: and_then_Some on_pool_def on_assigner_def split: prod.splits)
  have a: "workers_agree (dv_worker_pool d) ?ta" using inv by (simp add: driver_inv_def)
  have v: "pool_view ?wp = (pool_view (dv_worker_pool d))(w \<mapsto> Phase_Stopped)" using stop_worker_view [OF st] run by simp
  have "assigner_view ?ta w \<noteq> None" using workers_agreeD [OF a, of w] run by simp
  from workers_agree_upd [OF a v assigner_view_deactivate [OF this]]
  have "workers_agree ?wp (deactivate_worker w ?ta)" by simp
  then show ?thesis
    unfolding d' using pool_stop [OF st] ta_deactivate
    by (intro driver_inv_pool [OF inv]) (auto simp: activation_knows)
qed

lemma keeps_register_worker: "keeps (handle_register_worker env w host port)"
proof (rule op_specI)
  fix d d' :: driver and es
  assume inv: "driver_inv d" and r: "handle_register_worker env w host port d = Some (d', es)"
  obtain out wp es0 where reg: "register_worker (env_clock env) w host port (dv_worker_pool d) = (out, wp, es0)"
    by (metis prod.exhaust)
  let ?d1 = "d\<lparr>dv_worker_pool := wp\<rparr>" and ?ta = "dv_task_assigner d"
  have st: "pool_step\<^sup>*\<^sup>* (dv_worker_pool d, h) (wp, h @ es0)" for h using pool_register [OF reg] by blast
  show "driver_inv d' \<and> driver_rel d es d'"
  proof (cases "isl out")
    case True
    then have "wp = dv_worker_pool d" using register_worker_view [OF reg] by simp
    then have "d' = d" using r True by (auto simp: handle_register_worker_def reg and_then_Some done_with_def)
    then show ?thesis using inv by (simp add: driver_rel_def pool_other_run)
  next
    case False
    then have v: "pool_view (dv_worker_pool d) w = Some Phase_Pending" "pool_view wp = (pool_view (dv_worker_pool d))(w \<mapsto> Phase_Running)"
      using register_worker_view [OF reg] by auto
    have a: "workers_agree (dv_worker_pool d) ?ta" using inv by (simp add: driver_inv_def)
    have n: "assigner_view ?ta w = None" using v(1) workers_agreeD [OF a, of w] by simp
    from workers_agree_upd [OF a v(2) assigner_view_activate [OF n]]
    have "workers_agree wp (activate_worker w ?ta)" by simp
    then have k: "driver_inv (?d1\<lparr>dv_task_assigner := activate_worker w ?ta\<rparr>) \<and>
        driver_rel d es0 (?d1\<lparr>dv_task_assigner := activate_worker w ?ta\<rparr>)"
      using ta_activate by (intro driver_inv_pool [OF inv st]) (auto simp: activation_knows)
    from r False obtain es2 where
      "and_then (run_tasks env) (done_with [Reply (Reply_Registered out)]) (?d1\<lparr>dv_task_assigner := activate_worker w ?ta\<rparr>) = Some (d', es2)"
      "es = es0 @ es2"
      by (auto simp: handle_register_worker_def reg and_then_Some done_with_def on_assigner_def)
    with keeps_after [OF rel_logic.op_and_then [OF quiet_keeps [OF quiet_run_tasks] quiet_keeps [OF quiet_done]] k]
    show ?thesis by blast
  qed
qed

end
