(* ===== verification/Driver_Run.thy ===== *)
theory Driver_Run
  imports Driver_Invariant
begin

text \<open>
  Runs of the driver: every event keeps the invariant, and moves the components by their own
  steps, so that what was proved of the job scheduler, the task assigner and the worker pool holds
  of them inside the driver.
\<close>

section \<open>Handlers keep the invariant\<close>

lemma keeps_probe_pending_worker: "keeps (handle_probe_pending_worker env w)"
proof (rule op_specI)
  fix d d' :: driver and es
  assume inv: "driver_inv d" and r: "handle_probe_pending_worker env w d = Some (d', es)"
  obtain failed wp where f: "fail_worker_if_pending w (dv_worker_pool d) = (failed, wp)" by (metis prod.exhaust)
  show "driver_inv d' \<and> driver_rel d es d'"
  proof (cases failed)
    case False
    then have "d' = d" "es = []" using fail_worker_if_pending_view [OF f] r by (auto simp: handle_probe_pending_worker_def f)
    then show ?thesis using inv by simp
  next
    case True
    let ?d1 = "d\<lparr>dv_worker_pool := wp, dv_task_assigner := dv_task_assigner d\<rparr>"
    have v: "pool_view (dv_worker_pool d) w = Some Phase_Pending" "pool_view wp = (pool_view (dv_worker_pool d))(w \<mapsto> Phase_Stopped)"
      using fail_worker_if_pending_view [OF f] True by auto
    have a: "workers_agree (dv_worker_pool d) (dv_task_assigner d)" using inv by (simp add: driver_inv_def)
    have "assigner_view (dv_task_assigner d) w = None" using workers_agreeD [OF a, of w] v(1) by simp
    then have "assigner_view (dv_task_assigner d) = (assigner_view (dv_task_assigner d))(w := None)" by (simp add: fun_upd_idem)
    from workers_agree_upd [OF a v(2) this] have ag: "workers_agree wp (dv_task_assigner d)" by simp
    have "driver_inv ?d1 \<and> driver_rel d [] ?d1"
      using pool_fail_pending [OF f] ag by (intro driver_inv_pool [OF inv]) auto
    moreover have "and_then (on_assigner track_worker_failed_to_start) (scale_up_workers env) ?d1 = Some (d', es)"
      using r True by (simp add: handle_probe_pending_worker_def f)
    ultimately show ?thesis
      using keeps_after [OF rel_logic.op_and_then [OF quiet_keeps [OF quiet_assigner [OF failed_to_start_quiet]] keeps_scale_up]]
      by fastforce
  qed
qed

lemma running_view:
  "get_worker_last_update wp w \<noteq> None \<Longrightarrow> pool_view wp w = Some Phase_Running"
  "get_worker_last_heartbeat wp w \<noteq> None \<Longrightarrow> pool_view wp w = Some Phase_Running"
  by (auto simp: get_worker_last_update_def get_worker_last_heartbeat_def pool_view_def
      split: option.splits worker_state.splits)

lemma keeps_probe_idle_worker: "keeps (handle_probe_idle_worker env w instant)"
proof (rule op_specI)
  fix d d' :: driver and es
  assume inv: "driver_inv d" and r: "handle_probe_idle_worker env w instant d = Some (d', es)"
  show "driver_inv d' \<and> driver_rel d es d'"
  proof (cases "is_worker_idle (dv_task_assigner d) w \<and>
      (case get_worker_last_update (dv_worker_pool d) w of None \<Rightarrow> False | Some x \<Rightarrow> x \<le> instant)")
    case True
    then have "get_worker_last_update (dv_worker_pool d) w \<noteq> None" by (auto split: option.splits)
    from keeps_stop_worker [OF inv running_view(1) [OF this]] r True show ?thesis
      unfolding handle_probe_idle_worker_def if_P [OF True] by blast
  next
    case False
    then show ?thesis using r inv unfolding handle_probe_idle_worker_def if_not_P [OF False] by auto
  qed
qed

lemma keeps_fail_lost_tasks: "keeps (fail_lost_tasks env keys)"
  unfolding fail_lost_tasks_def by (intro rel_logic.op_for_each quiet_keeps quiet_update_task)

lemma keeps_probe_lost_worker: "keeps (handle_probe_lost_worker env w instant)"
proof (rule op_specI)
  fix d d' :: driver and es
  assume inv: "driver_inv d" and r: "handle_probe_lost_worker env w instant d = Some (d', es)"
  let ?keys = "find_worker_tasks (dv_task_assigner d) w"
  let ?rest = "and_then (fail_lost_tasks env ?keys) (for_each (refresh_run_scale env) (remdups (map tk_job_id ?keys)))"
  show "driver_inv d' \<and> driver_rel d es d'"
  proof (cases "case get_worker_last_heartbeat (dv_worker_pool d) w of None \<Rightarrow> False | Some x \<Rightarrow> x \<le> instant")
    case False
    then show ?thesis using r inv by (auto simp: handle_probe_lost_worker_def)
  next
    case True
    then have run: "pool_view (dv_worker_pool d) w = Some Phase_Running"
      by (intro running_view(2)) (auto split: option.splits)
    from r True obtain d1 es1 es2 where
      1: "and_then (on_pool (stop_worker (env_clock env) w (Some ''worker heartbeat timeout''))) (on_assigner (deactivate_worker w)) d = Some (d1, es1)"
      and 2: "?rest d1 = Some (d', es2)" and es: "es = es1 @ es2"
      by (auto simp: handle_probe_lost_worker_def Let_def and_then_Some)
    have "keeps ?rest" by (intro rel_logic.op_and_then keeps_fail_lost_tasks rel_logic.op_for_each keeps_refresh_run_scale)
    from keeps_after [OF this keeps_stop_worker [OF inv run 1] 2] show ?thesis by (simp add: es)
  qed
qed

lemma keeps_execute_job: "keeps (handle_execute_job env graph ctx)"
proof (rule op_specI)
  fix d d' :: driver and es
  assume inv: "driver_inv d" and r: "handle_execute_job env graph ctx d = Some (d', es)"
  then obtain out js es0 where acc: "accept_job (env_clock env) graph ctx (dv_job_scheduler d) = Some (out, js, es0)"
    by (auto simp: handle_execute_job_def split: option.splits)
  let ?d1 = "d\<lparr>dv_job_scheduler := js\<rparr>"
  have q: "driver_quiet d [] ?d1" using js_accept [OF acc] by (auto simp: driver_quiet_def driver_rel_def)
  have "keeps (and_then (done_with es0) (and_then (case out of Inr j \<Rightarrow> refresh_run_scale env j | Inl _ \<Rightarrow> done_with [])
      (done_with [Reply (Reply_Job out)])))"
    by (intro rel_logic.op_and_then quiet_keeps [OF quiet_done])
      (auto simp: keeps_refresh_run_scale quiet_keeps [OF quiet_done] split: sum.splits)
  moreover have "driver_inv ?d1 \<and> driver_rel d [] ?d1" using quiet_inv [OF inv q] q by (simp add: driver_quiet_def)
  ultimately show "driver_inv d' \<and> driver_rel d es d'"
    using keeps_after [of _ ?d1 d "[]"] r by (fastforce simp: handle_execute_job_def acc)
qed

lemma keeps_finish_task: "keeps (finish_task env k st m c)"
  unfolding finish_task_def
  by (intro rel_logic.op_and_then keeps_refresh_run_scale quiet_keeps quiet_update_task quiet_assigner unassign_task_quiet)

lemma keeps_status_update:
  "keeps (case status of
     Status_Running \<Rightarrow> and_then (on_scheduler (update_task (env_clock env) k Task_Running m c)) (driver_refresh_job env (tk_job_id k))
   | Status_Succeeded \<Rightarrow> finish_task env k Task_Succeeded m c
   | Status_Failed \<Rightarrow> finish_task env k Task_Failed m c
   | Status_Canceled \<Rightarrow> on_scheduler (update_task (env_clock env) k Task_Canceled m c))"
  using rel_logic.op_and_then [OF quiet_keeps [OF quiet_update_task] keeps_refresh_job] keeps_finish_task
    quiet_keeps [OF quiet_update_task] by (cases status) simp_all

lemma keeps_server_ready:
  assumes inv: "driver_inv d" and r: "handle_server_ready env port d = Some (d', es, a)"
  shows "driver_inv d' \<and> driver_rel d es d'"
proof (cases "server_ready (dv_server d)")
  case (Inl e)
  then show ?thesis using inv r by (auto simp: handle_server_ready_def driver_inv_def driver_rel_def)
next
  case (Inr server)
  let ?wp = "set_driver_server_port port (dv_worker_pool d)"
  let ?d0 = "d\<lparr>dv_worker_pool := ?wp, dv_task_assigner := dv_task_assigner d\<rparr>"
  let ?d1 = "d\<lparr>dv_server := server, dv_worker_pool := ?wp\<rparr>"
  have "workers_agree ?wp (dv_task_assigner d)"
    using inv by (auto simp: driver_inv_def set_driver_server_port_def pool_view_def workers_agree_def)
  then have "driver_inv ?d0 \<and> driver_rel d [] ?d0" using pool_port by (intro driver_inv_pool [OF inv]) auto
  then have "driver_inv ?d1 \<and> driver_rel d [] ?d1" by (simp add: driver_inv_def driver_rel_def)
  moreover have "start_workers env (do_worker_initial_count (dv_options d)) ?d1 = Some (d', es)"
    using r Inr by (auto simp: handle_server_ready_def)
  ultimately show ?thesis using keeps_after [OF keeps_start_workers] by fastforce
qed

section \<open>Runs\<close>

lemma record_sequence_inv: "driver_inv d \<Longrightarrow> driver_inv (record_sequence k s d)"
  by (simp add: record_sequence_def driver_inv_def split: option.splits)

text \<open>
  What an event does to the driver, besides the table of sequence numbers: a status update records
  its sequence number first.
\<close>

fun recorded :: "driver_event \<Rightarrow> driver \<Rightarrow> driver" where
  "recorded (UpdateTask k _ _ _ s) d = (if stale d k s then d else record_sequence k s d)"
| "recorded _ d = d"

lemma continuing_Some: "continuing f d = Some (d', es, a) \<longleftrightarrow> f d = Some (d', es) \<and> a = Continue"
  by (auto simp: continuing_def)

lemma receive_keeps:
  assumes inv: "driver_inv d" and r: "receive env ev d = Some (d', es, a)"
  shows "driver_inv d' \<and> driver_rel (recorded ev d) es d'"
proof -
  have keeps: "driver_inv d' \<and> driver_rel d es d'" if "keeps f" "continuing f d = Some (d', es, a)" for f
    using op_specD [OF that(1) inv] that(2) by (auto simp: continuing_Some)
  show ?thesis
  proof (cases ev)
    case (ServerReady port)
    then show ?thesis using keeps_server_ready [OF inv] r by simp
  next
    case (UpdateTask k status m c s)
    show ?thesis
    proof (cases "stale d k s")
      case True
      then show ?thesis using r inv UpdateTask by (simp add: continuing_Some handle_update_task_def)
    next
      case False
      with r have "(case status of
           Status_Running \<Rightarrow> and_then (on_scheduler (update_task (env_clock env) k Task_Running m c)) (driver_refresh_job env (tk_job_id k))
         | Status_Succeeded \<Rightarrow> finish_task env k Task_Succeeded m c
         | Status_Failed \<Rightarrow> finish_task env k Task_Failed m c
         | Status_Canceled \<Rightarrow> on_scheduler (update_task (env_clock env) k Task_Canceled m c)) (record_sequence k s d) = Some (d', es)"
        by (simp add: UpdateTask continuing_Some handle_update_task_def)
      from op_specD [OF keeps_status_update record_sequence_inv [OF inv] this] show ?thesis by (simp add: UpdateTask False)
    qed
  next
    case (ProbePendingTask k)
    then have "d' = d" using r by (auto simp: continuing_Some handle_probe_pending_task_def split: if_splits)
    then show ?thesis using inv by (simp add: ProbePendingTask driver_rel_def pool_other_run)
  next
    case (Shutdown b)
    then have "d' = d\<lparr>dv_history := b\<rparr>" "es = []" using r by (auto simp: handle_shutdown_def)
    then show ?thesis using inv by (simp add: Shutdown driver_inv_def driver_rel_def)
  qed (use r keeps in \<open>auto simp: handle_worker_heartbeat_def handle_worker_known_peers_def
        handle_probe_pending_local_stream_def handle_create_local_stream_def handle_create_remote_stream_def
        handle_fetch_driver_stream_def handle_fetch_remote_stream_def handle_clean_up_job_def
        intro!: keeps_register_worker keeps_probe_pending_worker keeps_probe_idle_worker keeps_probe_lost_worker
          keeps_execute_job quiet_keeps quiet_ops\<close>)
qed

inductive driver_step :: "driver \<times> effect list \<Rightarrow> driver \<times> effect list \<Rightarrow> bool" where
  driver_event: "receive env ev d = Some (d', es, a) \<Longrightarrow> driver_step (d, h) (d', h @ es)"

interpretation drivers: step_invariant driver_step "\<lambda>(d, h). driver_inv d"
  by unfold_locales (auto elim!: driver_step.cases dest: receive_keeps)

definition driver_started :: "driver_options \<Rightarrow> codec \<Rightarrow> driver" where
  "driver_started opts cd = driver_start (driver_new opts cd)"

lemma driver_inv_started: "driver_inv (driver_started opts cd)"
proof -
  have "ta_inv (task_assigner_new o1)" "pool_inv (worker_pool_new o2, [])" for o1 o2 by (simp_all add: ta_inv_new)
  then show ?thesis
    by (auto simp: driver_inv_def driver_started_def driver_start_def driver_new_def keys_known_def assigner_knows_def
        queue_keys_def get_assignment_def workers_agree_def pool_view_def assigner_view_def worker_pool_new_def
        task_assigner_new_def)
qed

text \<open>Inside the driver the components only ever make steps of their own.\<close>

lemma recorded_frame [simp]:
  "dv_job_scheduler (recorded ev d) = dv_job_scheduler d" "dv_task_assigner (recorded ev d) = dv_task_assigner d"
  "dv_worker_pool (recorded ev d) = dv_worker_pool d" "dv_options (recorded ev d) = dv_options d"
  by (cases ev; simp add: record_sequence_def split: option.splits)+

lemma driver_components_run:
  assumes "driver_step\<^sup>*\<^sup>* (driver_started opts cd, []) (d, h)"
  shows "js_step\<^sup>*\<^sup>* (job_scheduler_new (job_scheduler_options_from opts) cd) (dv_job_scheduler d) \<and>
    ta_step\<^sup>*\<^sup>* (task_assigner_new (task_assigner_options_from opts)) (dv_task_assigner d) \<and>
    pool_step\<^sup>*\<^sup>* (worker_pool_new (worker_pool_options_from opts), []) (dv_worker_pool d, h)"
  using assms
proof (induction "(d, h)" arbitrary: d h rule: rtranclp_induct)
  case base
  then show ?case by (simp add: driver_started_def driver_start_def driver_new_def)
next
  case (step y)
  obtain d1 h1 where y: "y = (d1, h1)" by (cases y)
  from step(2) y obtain env ev es a where r: "receive env ev d1 = Some (d, es, a)" and h: "h = h1 @ es"
    by (auto elim: driver_step.cases)
  have "driver_inv d1" using drivers.run_inv [OF step(1)] driver_inv_started by (simp add: y)
  from receive_keeps [OF this r] have "driver_rel (recorded ev d1) es d" by simp
  with step(3) [OF y] show ?case
    unfolding driver_rel_def recorded_frame h by (meson rtranclp_trans)
qed

lemma driver_reachable_inv: "driver_step\<^sup>*\<^sup>* (driver_started opts cd, []) (d, h) \<Longrightarrow> driver_inv d"
  using drivers.run_inv [of "(driver_started opts cd, [])" "(d, h)"] driver_inv_started by simp

end
