(* ===== verification/Driver_Properties.thy ===== *)
theory Driver_Properties
  imports Driver_Run
begin

text \<open>The properties of the driver as a whole: that its parts agree, that lost workers are handled, that
  status updates apply in order, that assigned tasks are dispatched and that no handler panics.\<close>

section \<open>Workers\<close>

lemma pool_view_running:
  "pool_view wp w = Some Phase_Running \<longleftrightarrow>
     (\<exists>wd host port upd hb client. im_get (wp_workers wp) w = Some wd \<and> wd_state wd = Worker_Running host port upd hb client)"
  by (auto simp: pool_view_def elim!: phase_of.elims simp del: map_of_eq_Some_iff)

lemma assigner_view_active:
  "assigner_view ta w = Some True \<longleftrightarrow> (\<exists>ss ls. im_get (tg_workers ta) w = Some (Res_Active ss ls))"
  by (auto simp: assigner_view_def elim!: is_active.elims simp del: map_of_eq_Some_iff)

lemma view_agree_running: "view_agree p v \<Longrightarrow> (v = Some True) = (p = Some Phase_Running)"
  by (cases "(p, v)" rule: view_agree.cases) auto

lemma driver_inv_running:
  "driver_inv d \<Longrightarrow> (assigner_view (dv_task_assigner d) w = Some True) = (pool_view (dv_worker_pool d) w = Some Phase_Running)"
  by (auto simp: driver_inv_def dest!: workers_agreeD [of _ _ w] view_agree_running)

text \<open>
  C24. The driver's parts agree on the workers. In every state the driver reaches, the workers the
  task assigner places tasks on are exactly the workers that are running in the worker pool.
\<close>

theorem driver_workers_agree:
  assumes "driver_step\<^sup>*\<^sup>* (driver_started opts cd, []) (d, h)"
  shows "(\<exists>ss ls. im_get (tg_workers (dv_task_assigner d)) w = Some (Res_Active ss ls)) \<longleftrightarrow>
    (\<exists>wd host port upd hb client. im_get (wp_workers (dv_worker_pool d)) w = Some wd \<and>
       wd_state wd = Worker_Running host port upd hb client)"
  using driver_inv_running [OF driver_reachable_inv [OF assms], of w]
  unfolding assigner_view_active pool_view_running .

text \<open>
  C3. Every task on a slot is accounted for. In every state the driver reaches, a task attempt that
  occupies a slot of a worker is an attempt of a job of the scheduler, is assigned to exactly that
  worker and slot, and its worker is running; so no attempt occupies two slots.
\<close>

theorem driver_slots_accounted:
  assumes "driver_step\<^sup>*\<^sup>* (driver_started opts cd, []) (d, h)"
    and "im_get (tg_workers (dv_task_assigner d)) w = Some (Res_Active ss ls)" and "i < length ss"
    and "k \<in> set (sl_tasks (ss ! i))"
  shows "get_task_state (dv_job_scheduler d) k \<noteq> None \<and>
    get_assignment (dv_task_assigner d) k = Some (Assign_Worker w i) \<and>
    get_worker_last_heartbeat (dv_worker_pool d) w \<noteq> None"
proof -
  have inv: "driver_inv d" by (rule driver_reachable_inv [OF assms(1)])
  have "k \<in> set (slot_tasks (dv_task_assigner d) w i)"
    using assms(2-4) by (simp add: slot_tasks_def worker_slot_def)
  then have asg: "get_assignment (dv_task_assigner d) k = Some (Assign_Worker w i)"
    using inv by (auto simp: driver_inv_def ta_inv_def slots_inv_def)
  then have "attempt_known (dv_job_scheduler d) k"
    using inv by (auto simp: driver_inv_def keys_known_def assigner_knows_def)
  moreover have "assigner_view (dv_task_assigner d) w = Some True" using assms(2) by (auto simp: assigner_view_active)
  then have "pool_view (dv_worker_pool d) w = Some Phase_Running"
    using driver_inv_running [OF inv] by blast
  then have "get_worker_last_heartbeat (dv_worker_pool d) w \<noteq> None"
    by (auto simp: pool_view_running get_worker_last_heartbeat_def simp del: map_of_eq_Some_iff)
  ultimately show ?thesis using asg by (simp add: attempt_known_def)
qed

section \<open>Lost workers\<close>

lemma update_task_state:
  assumes "attempt_known js k" and "is_terminal st"
  shows "\<exists>st'. get_task_state (update_task ck k st m c js) k = Some st' \<and> is_terminal st'"
proof -
  from assms(1) obtain job where job: "im_get (js_jobs js) (tk_job_id k) = Some job"
    "task_in_range (jd_stages job) (tk_stage k) (tk_partition k)"
    "tk_attempt k < length (attempts_at (jd_stages job) (tk_stage k) (tk_partition k))"
    unfolding attempt_known_iff by blast
  let ?a = "attempts_at (jd_stages job) (tk_stage k) (tk_partition k) ! tk_attempt k"
  have "is_terminal (consolidate (at_state ?a) st)"
    using consolidate_latest [of st "at_state ?a"] assms(2) is_terminal_maximal by (metis consolidate_terminal)
  moreover have "get_task_state (update_task ck k st m c js) k = Some (consolidate (at_state ?a) st)"
    using job task_in_range_shape [OF shape_set_attempts]
    by (simp add: get_task_state_def update_task_def update_task_in_def update_attempt_def Let_def)
  ultimately show ?thesis by blast
qed

definition task_done :: "driver \<Rightarrow> task_key \<Rightarrow> bool" where
  "task_done d k \<longleftrightarrow> (\<exists>st. get_task_state (dv_job_scheduler d) k = Some st \<and> is_terminal st)"

lemma task_done_rel: "driver_inv d \<Longrightarrow> driver_rel d es d' \<Longrightarrow> task_done d k \<Longrightarrow> task_done d' k"
  unfolding task_done_def using js_le_task_state [OF driver_inv_rel(4)] is_terminal_maximal by metis

lemma fail_lost_tasks_done:
  assumes "driver_inv d" "fail_lost_tasks env ks d = Some (d', es)"
    and "\<And>k. k \<in> set ks \<Longrightarrow> attempt_known (dv_job_scheduler d) k"
  shows "\<forall>k \<in> set ks. task_done d' k"
  using assms
proof (induction ks arbitrary: d es)
  case (Cons k ks)
  let ?f = "on_scheduler (update_task (env_clock env) k Task_Failed (Some ''task failed for lost worker'')
       (Some (Cause_Execution ''task failed for lost worker'')))"
  from Cons.prems(2) obtain d1 es1 es2 where 1: "?f d = Some (d1, es1)" and 2: "fail_lost_tasks env ks d1 = Some (d', es2)"
    by (auto simp: fail_lost_tasks_def and_then_Some)
  have k1: "driver_inv d1 \<and> driver_rel d es1 d1" by (rule op_specD [OF quiet_keeps [OF quiet_update_task] Cons.prems(1) 1])
  have "task_done d1 k"
    using update_task_state [of "dv_job_scheduler d" k Task_Failed] Cons.prems(3) 1
    by (auto simp: on_scheduler_def task_done_def)
  then have "task_done d' k"
    using task_done_rel op_specD [OF keeps_fail_lost_tasks _ 2] k1 by blast
  moreover have "attempt_known (dv_job_scheduler d1) x" if "x \<in> set ks" for x
    using Cons.prems that attempt_known_mono driver_inv_rel(4) k1 by (metis list.set_intros(2))
  ultimately show ?case using Cons.IH [OF _ 2] k1 by auto
qed (simp add: fail_lost_tasks_def)

lemma in_find_worker_tasks:
  "k \<in> set (find_worker_tasks ta w) \<longleftrightarrow>
     (\<exists>ss ls x. im_get (tg_workers ta) w = Some (Res_Active ss ls) \<and> x \<in> set ss \<and> k \<in> set (sl_tasks x))"
  unfolding find_worker_tasks_def
  by (cases "im_get (tg_workers ta) w"; cases "the (im_get (tg_workers ta) w)") auto

lemma find_worker_tasks_known:
  assumes "driver_inv d" "k \<in> set (find_worker_tasks (dv_task_assigner d) w)"
  shows "attempt_known (dv_job_scheduler d) k"
proof -
  from assms(2) obtain ss ls x where res: "im_get (tg_workers (dv_task_assigner d)) w = Some (Res_Active ss ls)"
    and x: "x \<in> set ss" "k \<in> set (sl_tasks x)"
    unfolding in_find_worker_tasks by blast
  from x obtain i where "i < length ss" "k \<in> set (sl_tasks (ss ! i))" by (auto simp: in_set_conv_nth [of x ss])
  with res have "k \<in> set (slot_tasks (dv_task_assigner d) w i)" by (simp add: slot_tasks_def worker_slot_def)
  then show ?thesis using assms(1)
    by (auto simp: driver_inv_def ta_inv_def slots_inv_def keys_known_def assigner_knows_def)
qed

lemma pool_view_stopped_stays:
  assumes "driver_inv d" "driver_rel d es d'" "pool_view (dv_worker_pool d) w = Some Phase_Stopped"
  shows "pool_view (dv_worker_pool d') w = Some Phase_Stopped"
proof -
  obtain h where "pool_inv (dv_worker_pool d, h)" using assms(1) by (auto simp: driver_inv_def)
  then have "pool_le (dv_worker_pool d, h) (dv_worker_pool d', h @ es)"
    using assms(2) pool.run_le unfolding driver_rel_def by blast
  moreover obtain wd where "im_get (wp_workers (dv_worker_pool d)) w = Some wd" "phase_of (wd_state wd) = Phase_Stopped"
    using assms(3) by (auto simp: pool_view_def)
  ultimately obtain wd' where "im_get (wp_workers (dv_worker_pool d')) w = Some wd'" "lifecycle (wd_state wd) (wd_state wd')"
    by (auto simp: pool_le_def)
  then show ?thesis using \<open>phase_of (wd_state wd) = Phase_Stopped\<close>
    by (cases "wd_state wd") (auto simp: pool_view_def)
qed

lemma inactive_no_tasks: "assigner_view ta w \<noteq> Some True \<Longrightarrow> find_worker_tasks ta w = []"
  by (auto simp: assigner_view_def find_worker_tasks_def split: option.splits worker_resource.splits)

lemma stop_running_worker:
  assumes "im_get (wp_workers wp) w = Some wd" "phase_of (wd_state wd) = Phase_Running"
  shows "Spawn (Call_StopWorker w) \<in> set (snd (stop_worker ck w reason wp))"
  using assms by (cases "wd_state wd") (auto simp: stop_worker_def get_client_set_def Let_def split: prod.splits sum.splits option.splits)

text \<open>
  C4. A lost worker is noticed and its tasks are not. In every state the driver reaches, a probe
  that carries the instant of the last heartbeat of a running worker is on its way. When the probe
  arrives and no heartbeat came since, the driver tells the worker to stop, the pool has it
  stopped for good, the assigner keeps no task on it, and every attempt that occupied one of its slots is
  in a final state, so that the refresh of its job can retry it.
\<close>

theorem lost_worker_handled:
  assumes "driver_step\<^sup>*\<^sup>* (driver_started opts cd, []) (d, h)"
    and "im_get (wp_workers (dv_worker_pool d)) w = Some wd" and "wd_state wd = Worker_Running host port upd hb client"
    and "receive env (ProbeLostWorker w hb) d = Some (d', es, a)"
  shows "SendWithDelay (ProbeLostWorker w hb) (do_worker_heartbeat_timeout opts) \<in> set h \<and>
    Spawn (Call_StopWorker w) \<in> set es \<and>
    map_option (\<lambda>wd. phase_of (wd_state wd)) (im_get (wp_workers (dv_worker_pool d')) w) = Some Phase_Stopped \<and>
    find_worker_tasks (dv_task_assigner d') w = [] \<and>
    (\<forall>k \<in> set (find_worker_tasks (dv_task_assigner d) w).
       \<exists>st. get_task_state (dv_job_scheduler d') k = Some st \<and> is_terminal st)"
proof (intro conjI)
  let ?keys = "find_worker_tasks (dv_task_assigner d) w"
  let ?jobs = "for_each (refresh_run_scale env) (remdups (map tk_job_id ?keys))"
  have inv: "driver_inv d" by (rule driver_reachable_inv [OF assms(1)])
  have run: "pool_view (dv_worker_pool d) w = Some Phase_Running" using assms(2,3) by (auto simp: pool_view_running)
  have "get_worker_last_heartbeat (dv_worker_pool d) w = Some hb"
    using assms(2,3) by (simp add: get_worker_last_heartbeat_def)
  with assms(4) obtain d1 es1 d2 es2 es3 where
    1: "and_then (on_pool (stop_worker (env_clock env) w (Some ''worker heartbeat timeout''))) (on_assigner (deactivate_worker w)) d = Some (d1, es1)"
    and 2: "fail_lost_tasks env ?keys d1 = Some (d2, es2)" and 3: "?jobs d2 = Some (d', es3)" and es: "es = es1 @ es2 @ es3"
    by (auto simp: continuing_Some handle_probe_lost_worker_def Let_def and_then_Some)
  have k1: "driver_inv d1 \<and> driver_rel d es1 d1" by (rule keeps_stop_worker [OF inv run 1])
  have k2: "driver_inv d2 \<and> driver_rel d1 es2 d2" using op_specD [OF keeps_fail_lost_tasks _ 2] k1 by blast
  have "keeps ?jobs" by (intro rel_logic.op_for_each keeps_refresh_run_scale)
  from op_specD [OF this _ 3] k2 have k3: "driver_inv d' \<and> driver_rel d2 es3 d'" by blast
  have d1: "dv_worker_pool d1 = fst (stop_worker (env_clock env) w (Some ''worker heartbeat timeout'') (dv_worker_pool d))"
    "es1 = snd (stop_worker (env_clock env) w (Some ''worker heartbeat timeout'') (dv_worker_pool d))"
    "dv_job_scheduler d1 = dv_job_scheduler d"
    using 1 by (auto simp: and_then_Some on_pool_def on_assigner_def split: prod.splits)
  have "phase_of (wd_state wd) = Phase_Running" using assms(3) by simp
  from stop_running_worker [OF assms(2) this] show "Spawn (Call_StopWorker w) \<in> set es" unfolding es d1(2) by simp
  have "pool_view (dv_worker_pool d1) w = Some Phase_Stopped"
    using stop_worker_view [of "env_clock env" w _ "dv_worker_pool d"] run unfolding d1(1) by (metis fun_upd_same option.distinct(1) prod.collapse)
  then have st: "pool_view (dv_worker_pool d') w = Some Phase_Stopped"
    using pool_view_stopped_stays k1 k2 k3 by blast
  then show "map_option (\<lambda>wd. phase_of (wd_state wd)) (im_get (wp_workers (dv_worker_pool d')) w) = Some Phase_Stopped"
    by (simp add: pool_view_def)
  show "find_worker_tasks (dv_task_assigner d') w = []"
    using driver_inv_running [of d' w] k3 st by (intro inactive_no_tasks) auto
  have "\<forall>k \<in> set ?keys. task_done d2 k"
    using fail_lost_tasks_done [OF _ 2] k1 find_worker_tasks_known [OF inv] d1(3) by simp
  then show "\<forall>k \<in> set ?keys. \<exists>st. get_task_state (dv_job_scheduler d') k = Some st \<and> is_terminal st"
    using task_done_rel k2 k3 unfolding task_done_def by blast
  have p: "pool_step\<^sup>*\<^sup>* (worker_pool_new (worker_pool_options_from opts), []) (dv_worker_pool d, h)"
    using driver_components_run [OF assms(1)] by blast
  show "SendWithDelay (ProbeLostWorker w hb) (do_worker_heartbeat_timeout opts) \<in> set h"
    using pool_reachable_ok [OF p assms(2)] assms(3)
    by (simp add: worker_ok_def worker_pool_options_from_def)
qed

section \<open>Status updates\<close>

lemma record_sequence_get:
  "im_get (dv_task_sequences (recorded ev d)) k =
     (case ev of UpdateTask k' _ _ _ (Some s) \<Rightarrow>
        if k' = k \<and> \<not> stale d k (Some s) then Some s else im_get (dv_task_sequences d) k
      | _ \<Rightarrow> im_get (dv_task_sequences d) k)"
  by (cases ev) (auto simp: record_sequence_def split: option.splits)

lemma sequences_monotone:
  assumes "driver_step\<^sup>*\<^sup>* (d, h) (d', h')" "driver_inv d" "im_get (dv_task_sequences d) k = Some s0"
  shows "\<exists>s. im_get (dv_task_sequences d') k = Some s \<and> s0 \<le> s"
  using assms(1)
proof (induction "(d', h')" arbitrary: d' h' rule: rtranclp_induct)
  case base
  then show ?case using assms(3) by simp
next
  case (step y)
  obtain d1 h1 where y: "y = (d1, h1)" by (cases y)
  from step(2) y obtain env ev es a where r: "receive env ev d1 = Some (d', es, a)" by (auto elim: driver_step.cases)
  have "driver_inv d1" using drivers.run_inv [OF step(1)] assms(2) by (simp add: y)
  from receive_keeps [OF this r] have e: "dv_task_sequences d' = dv_task_sequences (recorded ev d1)"
    by (simp add: driver_rel_def)
  from step(3) [OF y] obtain s where s: "im_get (dv_task_sequences d1) k = Some s" "s0 \<le> s" by blast
  then show ?case unfolding e record_sequence_get
    by (auto simp: stale_def simp del: map_of_eq_Some_iff split: driver_event.splits option.splits)
qed

text \<open>
  C9. Status updates are applied in order. An update of a task that carries a sequence number is
  applied only if the number exceeds the one applied last; it is then recorded, and from there on, through whatever
  events the driver handles, an update of the task with this number or a smaller one changes
  nothing and causes nothing.
\<close>

theorem stale_updates_ignored:
  assumes "driver_step\<^sup>*\<^sup>* (driver_started opts cd, []) (d, h)"
    and "receive env (UpdateTask k st m c (Some s)) d = Some (d1, es1, a1)"
    and "driver_step\<^sup>*\<^sup>* (d1, h1) (d2, h2)" and "s' \<le> s"
  shows "receive env' (UpdateTask k st' m' c' (Some s')) d2 = Some (d2, [], Continue)"
proof -
  have inv: "driver_inv d" by (rule driver_reachable_inv [OF assms(1)])
  from receive_keeps [OF inv assms(2)] have k1: "driver_inv d1"
    "dv_task_sequences d1 = dv_task_sequences (recorded (UpdateTask k st m c (Some s)) d)"
    by (auto simp: driver_rel_def)
  have "\<exists>s0. im_get (dv_task_sequences d1) k = Some s0 \<and> s \<le> s0"
    unfolding k1(2) record_sequence_get by (cases "im_get (dv_task_sequences d) k") (auto simp: stale_def)
  then obtain s0 where "im_get (dv_task_sequences d1) k = Some s0" "s \<le> s0" by blast
  with sequences_monotone [OF assms(3) k1(1)] obtain s2 where "im_get (dv_task_sequences d2) k = Some s2" "s' \<le> s2"
    using assms(4) by (meson order_trans)
  then have "stale d2 k (Some s')" by (simp add: stale_def)
  then show ?thesis by (simp add: continuing_Some handle_update_task_def)
qed

section \<open>Dispatching tasks\<close>

lemma for_each_quiet:
  assumes "\<And>x. quiet (f x)" "for_each f xs d = Some (d', es)" "x \<in> set xs"
  shows "\<exists>d1 d2 es0 es1. driver_quiet d es0 d1 \<and> f x d1 = Some (d2, es1) \<and> set es1 \<subseteq> set es"
  using assms(2,3)
proof (induction xs arbitrary: d es)
  case (Cons y ys)
  from Cons.prems(1) obtain d1 es1 es2 where 1: "f y d = Some (d1, es1)" and 2: "for_each f ys d1 = Some (d', es2)"
    and es: "es = es1 @ es2" by (auto simp: and_then_Some)
  show ?case
  proof (cases "x = y")
    case True
    then show ?thesis using 1 es quiet_logic.refl_rel by fastforce
  next
    case False
    with Cons.IH [OF 2] Cons.prems(2) obtain d2 d3 es0 es3 where
      "driver_quiet d1 es0 d2" "f x d2 = Some (d3, es3)" "set es3 \<subseteq> set es2" by auto
    moreover have "driver_quiet d es1 d1" using assms(1) 1 by (auto simp: op_spec_def)
    ultimately show ?thesis using quiet_logic.comp_rel es by (metis le_supI2 set_append)
  qed
qed simp

lemma pool_run_task_running:
  "pool_view wp w = Some Phase_Running \<Longrightarrow> \<exists>ps. Spawn (Call_RunTask w k def ps) \<in> set (snd (pool_run_task ck w k def wp))"
  by (auto simp: pool_view_running pool_run_task_def track_worker_activity_def get_client_set_def Let_def
      simp del: map_of_eq_Some_iff)

lemma run_entry_dispatch:
  assumes "run_entry env asg e d = Some (d', es)"
    and "\<And>w i. asg = Assign_Worker w i \<Longrightarrow> pool_view (dv_worker_pool d) w = Some Phase_Running"
  shows "(\<exists>m c. Send (UpdateTask (te_key e) Status_Failed (Some m) (Some c) None) \<in> set es) \<or>
    (case asg of
       Assign_Driver \<Rightarrow> Spawn (Call_MonitorTask (te_key e)) \<in> set es
     | Assign_Worker w i \<Rightarrow> \<exists>def ps. Spawn (Call_RunTask w (te_key e) def ps) \<in> set es)"
proof (cases "get_task_definition (dv_job_scheduler d) (te_key e) (get_assignment (dv_task_assigner d))")
  case (Inl x)
  then show ?thesis using assms(1) by (auto simp: run_entry_def Let_def)
next
  case (Inr x)
  then obtain def ctx where g: "get_task_definition (dv_job_scheduler d) (te_key e) (get_assignment (dv_task_assigner d)) = Inr (def, ctx)"
    by (cases x) auto
  show ?thesis
  proof (cases asg)
    case Assign_Driver
    then show ?thesis using assms(1) g
      by (auto simp: run_entry_def Let_def and_then_Some on_scheduler_def on_runner_def runner_run_task_def split: sum.splits)
  next
    case (Assign_Worker w i)
    then have "es = snd (pool_run_task (env_clock env) w (te_key e) def (dv_worker_pool d))"
      using assms(1) g by (auto simp: run_entry_def Let_def and_then_Some on_scheduler_def on_pool_def split: prod.splits)
    then show ?thesis
      using Assign_Worker pool_run_task_running [OF assms(2) [OF Assign_Worker], of "te_key e" def "env_clock env"] by auto
  qed
qed

lemma assigned_running:
  assumes inv: "driver_inv d" and "a \<in> set (fst (assign_tasks policy (dv_task_assigner d)))"
    and "ta_assignment a = Assign_Worker w i"
  shows "pool_view (dv_worker_pool d) w = Some Phase_Running"
proof -
  let ?ta = "dv_task_assigner d"
  obtain as rest where ar: "assign_regions (slot_next policy) (build_worker_task_slot_assigner ?ta) (tg_task_queue ?ta) = (as, rest)"
    by (metis prod.exhaust)
  have as: "a \<in> set as" using assms(2) ar by (auto simp: assign_tasks_def split: if_splits)
  have "pending_ok (?ta\<lparr>tg_task_queue := rest\<rparr>) as"
    by (rule assign_tasks_pending(2) [OF _ ar]) (use inv in \<open>simp add: driver_inv_def\<close>)
  moreover have "(w, i) \<in> set (assigned_slots as)" using as assms(3) by (force simp: assigned_slots_def)
  ultimately have "slot_vacant (?ta\<lparr>tg_task_queue := rest\<rparr>) (w, i)" by (auto simp: pending_ok_def)
  then have "assigner_view ?ta w = Some True" by (auto simp: assigner_view_active elim: slot_vacantE)
  then show ?thesis using driver_inv_running [OF inv] by blast
qed


section \<open>Panics\<close>

lemma ta_step_options: "ta_step ta ta' \<Longrightarrow> tg_options ta' = tg_options ta"
proof (induction rule: ta_step.induct)
  case (ta_assign ta policy)
  have "tg_options (foldl apply_assignment t as) = tg_options t" for t as
    by (induction as arbitrary: t) (auto simp: apply_assignment_def split: task_assignment.splits option.splits)
  then show ?case by (auto simp: assign_tasks_def split: prod.splits)
next
  case (ta_track ta as)
  show ?case unfolding track_streams_def
    by (rule foldl_inv [of "\<lambda>t. tg_options t = tg_options ta"])
      (auto simp: track_assignment_streams_def Let_def split: task_assignment.splits)
qed (auto simp: request_workers_def track_worker_failed_to_start_def activate_worker_def deactivate_worker_def
    enqueue_tasks_def exclude_task_def unassign_task_def untrack_local_streams_def untrack_remote_streams_def Let_def
    split: option.splits prod.splits task_assignment.splits)

lemma ta_run_options: "ta_step\<^sup>*\<^sup>* ta ta' \<Longrightarrow> tg_options ta' = tg_options ta"
  by (induction rule: rtranclp_induct) (auto dest: ta_step_options)

definition driver_sound :: "driver \<Rightarrow> bool" where
  "driver_sound d \<longleftrightarrow> driver_inv d \<and> 0 < ao_worker_task_slots (tg_options (dv_task_assigner d))"

text \<open>An operation that keeps the invariant and does not panic.\<close>

definition runs :: "driver_op \<Rightarrow> bool" where
  "runs f \<longleftrightarrow> keeps f \<and> (\<forall>d. driver_sound d \<longrightarrow> f d \<noteq> None)"

lemma runs_sound: "runs f \<Longrightarrow> driver_sound d \<Longrightarrow> \<exists>d' es. f d = Some (d', es) \<and> driver_sound d'"
proof -
  assume r: "runs f" and d: "driver_sound d"
  then obtain d' es where f: "f d = Some (d', es)" unfolding runs_def by fastforce
  with r d have "driver_inv d'" "driver_rel d es d'" by (auto simp: runs_def driver_sound_def dest: op_specD)
  then show ?thesis using f d ta_run_options by (auto simp: driver_sound_def driver_rel_def)
qed

lemma runs_and_then: "runs f \<Longrightarrow> runs g \<Longrightarrow> runs (and_then f g)"
proof -
  assume f: "runs f" and g: "runs g"
  have "and_then f g d \<noteq> None" if "driver_sound d" for d
  proof -
    from runs_sound [OF f that] obtain d1 es1 where 1: "f d = Some (d1, es1)" "driver_sound d1" by blast
    from runs_sound [OF g 1(2)] 1(1) show ?thesis by (auto simp: and_then_def)
  qed
  then show ?thesis using f g rel_logic.op_and_then by (auto simp: runs_def)
qed

lemma runs_for_each: "(\<And>x. runs (f x)) \<Longrightarrow> runs (for_each f xs)"
proof (induction xs)
  case Nil
  show ?case by (auto simp: runs_def op_spec_def)
next
  case (Cons x xs)
  then have "runs (and_then (f x) (for_each f xs))" by (intro runs_and_then) auto
  then show ?case by (simp add: runs_def op_spec_def)
qed

definition op_total :: "driver_op \<Rightarrow> bool" where
  "op_total f \<longleftrightarrow> (\<forall>d. f d \<noteq> None)"

lemma total_runs: "keeps f \<Longrightarrow> op_total f \<Longrightarrow> runs f"
  by (simp add: runs_def op_total_def)

lemma total_and_then: "op_total f \<Longrightarrow> op_total g \<Longrightarrow> op_total (and_then f g)"
  unfolding op_total_def and_then_def by (simp split: option.split prod.split) (metis option.distinct(1))

lemma total_for_each: "(\<And>x. op_total (f x)) \<Longrightarrow> op_total (for_each f xs)"
proof (induction xs)
  case (Cons x xs)
  then have "op_total (and_then (f x) (for_each f xs))" by (intro total_and_then) auto
  then show ?case by (simp add: op_total_def)
qed (simp add: op_total_def)

lemma total_ops:
  "op_total (on_pool f1)" "op_total (on_assigner f2)" "op_total (on_scheduler f3)" "op_total (on_streams f4)" "op_total (on_runner f5)"
  "op_total (done_with es)"
  by (simp_all add: op_total_def on_pool_def on_assigner_def on_scheduler_def on_streams_def on_runner_def done_with_def Let_def
      split: prod.splits)

lemma runs_done: "runs (done_with es)"
  by (intro total_runs quiet_keeps quiet_done total_ops)

lemma total_clean_up_streams: "op_total (clean_up_streams env j stage)"
  using total_for_each [of "clean_up_stream env j stage"]
  by (auto simp: op_total_def clean_up_streams_def clean_up_stream_def on_streams_def on_pool_def
      split: prod.splits task_stream_assignment.splits)

lemma total_run_job_action: "op_total (run_job_action env a)"
proof (cases a)
  case (CancelTask k)
  then show ?thesis
    by (auto simp: op_total_def cancel_task_def on_runner_def on_pool_def Let_def split: prod.splits option.splits task_assignment.splits)
next
  case (CleanUpStreams j stage)
  then show ?thesis using total_clean_up_streams by (simp add: op_total_def)
qed (auto simp: op_total_def extend_output_def Let_def split: prod.splits option.splits task_assignment.splits)

lemma total_refresh_job: "op_total (driver_refresh_job env j)"
  using total_for_each [of "run_job_action env", OF total_run_job_action] by (auto simp: op_total_def driver_refresh_job_def split: prod.splits)

lemma total_clean_up_job: "op_total (driver_clean_up_job env j)"
  using total_for_each [of "run_job_action env", OF total_run_job_action] by (auto simp: op_total_def driver_clean_up_job_def split: prod.splits)

lemma total_run_entry: "op_total (run_entry env asg e)"
  by (auto simp: op_total_def run_entry_def and_then_def on_scheduler_def on_runner_def on_pool_def Let_def
      split: sum.splits prod.splits task_assignment.splits)

lemma total_run_assignment: "op_total (run_assignment env a)"
  unfolding run_assignment_def by (rule total_for_each) (rule total_run_entry)

lemma total_run_tasks: "op_total (run_tasks env)"
  using total_for_each [of "run_assignment env", OF total_run_assignment]
  by (auto simp: op_total_def run_tasks_def split: prod.splits)

lemma total_start_workers: "op_total (start_workers env n)"
  unfolding start_workers_def by (rule total_for_each) (rule total_ops)

lemma scale_up_total:
  assumes "0 < ao_worker_task_slots (tg_options (dv_task_assigner d))"
  shows "scale_up_workers env d \<noteq> None"
proof -
  from assms obtain n ta where "request_workers (dv_task_assigner d) = Some (n, ta)"
    by (auto simp: request_workers_def div_ceil_def Let_def)
  then show ?thesis using total_start_workers by (simp add: scale_up_workers_def op_total_def)
qed

lemma runs_scale_up: "runs (scale_up_workers env)"
  using keeps_scale_up scale_up_total by (simp add: runs_def driver_sound_def)

lemma runs_refresh_run_scale: "runs (refresh_run_scale env j)"
  unfolding refresh_run_scale_def
  by (intro runs_and_then runs_scale_up total_runs keeps_refresh_job total_refresh_job
      quiet_keeps [OF quiet_run_tasks] total_run_tasks)

lemma runs_update_task: "runs (on_scheduler (update_task ck k st m c))"
  by (intro total_runs quiet_keeps quiet_update_task total_ops)

lemma runs_finish_task: "runs (finish_task env k st m c)"
  unfolding finish_task_def
  by (intro runs_and_then runs_refresh_run_scale runs_update_task total_runs quiet_keeps quiet_assigner
      unassign_task_quiet total_ops)

lemma handle_update_task_total:
  assumes "driver_sound d"
  shows "handle_update_task env k status m c s d \<noteq> None"
proof (cases "stale d k s")
  case False
  have "runs (case status of
     Status_Running \<Rightarrow> and_then (on_scheduler (update_task (env_clock env) k Task_Running m c)) (driver_refresh_job env (tk_job_id k))
   | Status_Succeeded \<Rightarrow> finish_task env k Task_Succeeded m c
   | Status_Failed \<Rightarrow> finish_task env k Task_Failed m c
   | Status_Canceled \<Rightarrow> on_scheduler (update_task (env_clock env) k Task_Canceled m c))"
    using runs_and_then [OF runs_update_task total_runs [OF keeps_refresh_job total_refresh_job]] runs_finish_task runs_update_task
    by (cases status) simp_all
  moreover have "driver_sound (record_sequence k s d)"
    using assms record_sequence_inv by (auto simp: driver_sound_def record_sequence_def split: option.splits)
  ultimately show ?thesis using False unfolding handle_update_task_def runs_def by simp
qed (simp add: handle_update_task_def)

lemma lost_worker_total:
  assumes "driver_sound d"
  shows "handle_probe_lost_worker env w t d \<noteq> None"
proof (cases "case get_worker_last_heartbeat (dv_worker_pool d) w of None \<Rightarrow> False | Some x \<Rightarrow> x \<le> t")
  case True
  let ?keys = "find_worker_tasks (dv_task_assigner d) w"
  let ?rest = "and_then (fail_lost_tasks env ?keys) (for_each (refresh_run_scale env) (remdups (map tk_job_id ?keys)))"
  let ?stop = "and_then (on_pool (stop_worker (env_clock env) w (Some ''worker heartbeat timeout''))) (on_assigner (deactivate_worker w))"
  have run: "pool_view (dv_worker_pool d) w = Some Phase_Running"
    using True by (intro running_view(2)) (auto split: option.splits)
  obtain d1 es1 where s: "?stop d = Some (d1, es1)"
    using total_and_then [OF total_ops(1,2)] by (metis op_total_def not_None_eq surj_pair)
  have k: "driver_inv d1 \<and> driver_rel d es1 d1" by (rule keeps_stop_worker [OF _ run s]) (use assms in \<open>simp add: driver_sound_def\<close>)
  then have "driver_sound d1" using assms ta_run_options by (auto simp: driver_sound_def driver_rel_def)
  moreover have "runs ?rest"
    unfolding fail_lost_tasks_def by (intro runs_and_then runs_for_each runs_refresh_run_scale runs_update_task)
  ultimately obtain d2 es2 where "?rest d1 = Some (d2, es2)" using runs_sound by blast
  with s True show ?thesis by (auto simp: handle_probe_lost_worker_def Let_def and_then_Some and_then_def split: option.splits)
qed (simp add: handle_probe_lost_worker_def)

lemma probe_pending_worker_total:
  assumes "driver_sound d"
  shows "handle_probe_pending_worker env w d \<noteq> None"
proof -
  obtain failed wp where f: "fail_worker_if_pending w (dv_worker_pool d) = (failed, wp)" by (metis prod.exhaust)
  let ?d = "d\<lparr>dv_worker_pool := wp, dv_task_assigner := track_worker_failed_to_start (dv_task_assigner d)\<rparr>"
  have "scale_up_workers env ?d \<noteq> None"
    by (rule scale_up_total) (use assms in \<open>simp add: driver_sound_def track_worker_failed_to_start_def\<close>)
  then show ?thesis by (auto simp: handle_probe_pending_worker_def f Let_def and_then_def on_assigner_def)
qed

lemma register_worker_total: "op_total (handle_register_worker env w host port)"
  unfolding op_total_def handle_register_worker_def
  using total_and_then [OF total_ops(6) total_and_then [OF _ total_ops(6)]] total_ops total_and_then [OF total_ops(2) total_run_tasks]
  by (auto simp: op_total_def split: prod.splits)

lemma execute_job_total:
  assumes d: "driver_sound d" and g: "\<And>g. graph = Inr g \<Longrightarrow> inputs_in_range g"
  shows "handle_execute_job env graph ctx d \<noteq> None"
proof -
  have "job_descriptor_try_new (env_clock env) x (Job_Running ctx) \<noteq> None" if "graph = Inr x" for x
    using g [OF that] unfolding job_descriptor_try_new_def job_topology_try_new_def inputs_in_range_def list_all_iff
    by (simp add: Let_def split: sum.split)
  then have "accept_job (env_clock env) graph ctx (dv_job_scheduler d) \<noteq> None"
    unfolding accept_job_def Let_def by (auto split: sum.split option.split)
  then obtain out js es where acc: "accept_job (env_clock env) graph ctx (dv_job_scheduler d) = Some (out, js, es)"
    by (metis not_None_eq surj_pair)
  let ?d = "d\<lparr>dv_job_scheduler := js\<rparr>"
  have "driver_quiet d [] ?d" using js_accept [OF acc] by (auto simp: driver_quiet_def driver_rel_def)
  then have s: "driver_sound ?d" using d quiet_inv [of d "[]" ?d] by (simp add: driver_sound_def)
  have "runs (and_then (done_with es) (and_then (case out of Inr j \<Rightarrow> refresh_run_scale env j | Inl _ \<Rightarrow> done_with [])
      (done_with [Reply (Reply_Job out)])))"
    by (intro runs_and_then runs_done) (cases out, simp_all add: runs_done runs_refresh_run_scale)
  from runs_sound [OF this s] show ?thesis by (auto simp: handle_execute_job_def acc)
qed

lemma driver_sound_reach:
  assumes "driver_step\<^sup>*\<^sup>* (driver_started opts cd, []) (d, h)" and "0 < do_worker_task_slots opts"
  shows "driver_sound d"
proof -
  have "tg_options (dv_task_assigner d) = task_assigner_options_from opts"
    using driver_components_run [OF assms(1)] ta_run_options by (fastforce simp: task_assigner_new_def)
  then show ?thesis
    using driver_reachable_inv [OF assms(1)] assms(2) by (simp add: driver_sound_def task_assigner_options_from_def)
qed


section \<open>A worker that does not start\<close>

text \<open>
  When a worker fails to start, its request is given up and new workers are requested, but no task is
  assigned or dispatched, even if the queue was only waiting for that request: the queue and the
  assignments stay as they are.
\<close>

lemma request_workers_frame:
  "request_workers ta = Some (n, ta') \<Longrightarrow> tg_task_queue ta' = tg_task_queue ta \<and> tg_task_assignments ta' = tg_task_assignments ta"
  by (auto simp: request_workers_def Let_def split: option.splits)

lemma for_each_pool_assigner:
  "for_each (\<lambda>_. on_pool f) xs d = Some (d', es) \<Longrightarrow> dv_task_assigner d' = dv_task_assigner d"
  by (induction xs arbitrary: d es) (auto simp: and_then_Some on_pool_def split: prod.splits)

lemma start_workers_assigner: "start_workers env n d = Some (d', es) \<Longrightarrow> dv_task_assigner d' = dv_task_assigner d"
  unfolding start_workers_def by (rule for_each_pool_assigner)

lemma probe_pending_worker_assigns_nothing:
  assumes "handle_probe_pending_worker env w d = Some (d', es)"
  shows "tg_task_queue (dv_task_assigner d') = tg_task_queue (dv_task_assigner d) \<and>
    tg_task_assignments (dv_task_assigner d') = tg_task_assignments (dv_task_assigner d)"
proof -
  obtain failed wp where f: "fail_worker_if_pending w (dv_worker_pool d) = (failed, wp)" by (metis prod.exhaust)
  show ?thesis
  proof (cases failed)
    case True
    then obtain n ta d1 where r: "request_workers (track_worker_failed_to_start (dv_task_assigner d)) = Some (n, ta)"
      and s: "start_workers env n d1 = Some (d', es)" and d1: "dv_task_assigner d1 = ta"
      using assms by (auto simp: handle_probe_pending_worker_def f Let_def and_then_Some on_assigner_def scale_up_workers_def
          split: option.splits)
    from start_workers_assigner [OF s] d1 request_workers_frame [OF r] show ?thesis
      by (simp add: track_worker_failed_to_start_def)
  next
    case False
    then show ?thesis using assms by (auto simp: handle_probe_pending_worker_def f)
  qed
qed

end
