(* ===== verification/Driver_Examples.thy ===== *)
theory Driver_Examples
  imports Driver_Properties
begin

text \<open>
  Runs of the driver on concrete events: a worker registers and a job is executed on it, the worker
  is lost, and a worker that does not start leaves tasks in the queue. The properties of the driver
  are applied to them.
\<close>

section \<open>An example run\<close>

lemma saturating_add_small [code]:
  "saturating_add a b = (if a + b < 4096 then a + b else min (a + b) usize_max)"
  by (simp add: saturating_add_def usize_max_def)

definition example_driver_options :: driver_options where
  "example_driver_options =
     \<lparr>do_enable_tls = False, do_driver_external_host = ''driver'', do_driver_external_port = 0,
      do_worker_initial_count = 1, do_worker_max_count = 2, do_worker_task_slots = 2, do_worker_max_idle_time = 60,
      do_worker_heartbeat_interval = 10, do_worker_heartbeat_timeout = 120, do_worker_launch_timeout = 30,
      do_task_launch_timeout = 40, do_task_stream_buffer = 16, do_task_stream_creation_timeout = 20,
      do_shuffle_spill_dir = ''/tmp'', do_task_max_attempts = 2, do_rpc_retry_strategy = Retry_Fixed 3 1\<rparr>"

definition example_env :: "nat \<Rightarrow> driver_env" where
  "example_env t = \<lparr>env_clock = \<lparr>instant_now = t, utc_now = 1000 + t\<rparr>, env_policy = EvenSpread,
     env_execute_plan = (\<lambda>_ _ _. Inr ()), env_disk = example_disk\<rparr>"

fun run_events :: "(nat \<times> driver_event) list \<Rightarrow> driver \<times> effect list \<Rightarrow> driver \<times> effect list" where
  "run_events [] s = s"
| "run_events ((t, ev) # evs) (d, h) =
     (case receive (example_env t) ev d of
        None \<Rightarrow> (d, h)
      | Some (d', es, _) \<Rightarrow> run_events evs (d', h @ es))"

definition example_events :: "(nat \<times> driver_event) list" where
  "example_events = [(1, ServerReady 50051), (5, RegisterWorker 1 ''w1'' 7000), (6, ExecuteJob (Inr example_graph) 0)]"

definition example_driver :: "driver \<times> effect list" where
  "example_driver = run_events example_events (driver_started example_driver_options example_codec, [])"

lemma run_events_reach: "driver_step\<^sup>*\<^sup>* s (run_events evs s)"
proof (induction evs s rule: run_events.induct)
  case (2 t ev evs d h)
  then show ?case
    by (auto split: option.splits intro: converse_rtranclp_into_rtranclp driver_event)
qed simp

lemma example_driver_reach: "driver_step\<^sup>*\<^sup>* (driver_started example_driver_options example_codec, []) (fst example_driver, snd example_driver)"
  unfolding example_driver_def using run_events_reach by simp

abbreviation example_task :: "job_id \<Rightarrow> nat \<Rightarrow> nat \<Rightarrow> task_key" where
  "example_task j s p \<equiv> \<lparr>tk_job_id = j, tk_stage = s, tk_partition = p, tk_attempt = 0\<rparr>"

lemma example_driver_state:
  "(case example_driver of (d, _) \<Rightarrow>
      (im_get (tg_workers (dv_task_assigner d)) 1, map_option wd_state (im_get (wp_workers (dv_worker_pool d)) 1))) =
   (Some (Res_Active [\<lparr>sl_tasks = [example_task 1 0 1]\<rparr>, \<lparr>sl_tasks = [example_task 1 0 0]\<rparr>]
      [example_task 1 0 0, example_task 1 0 1]),
    Some (Worker_Running ''w1'' 7000 6 5
       (Some (Client_Set \<lparr>co_enable_tls = False, co_host = ''w1'', co_port = 7000\<rparr>))))"
  by code_simp

lemma example_driver_worker:
  "im_get (tg_workers (dv_task_assigner (fst example_driver))) 1 =
     Some (Res_Active [\<lparr>sl_tasks = [example_task 1 0 1]\<rparr>, \<lparr>sl_tasks = [example_task 1 0 0]\<rparr>]
       [example_task 1 0 0, example_task 1 0 1])"
  using example_driver_state by (simp add: case_prod_unfold)

lemma example_driver_sound: "driver_sound (fst example_driver)"
  using driver_sound_reach [OF example_driver_reach] by (simp add: example_driver_options_def)

theorem driver_workers_agree_witness:
  "\<exists>wd host port upd hb client. im_get (wp_workers (dv_worker_pool (fst example_driver))) 1 = Some wd \<and>
     wd_state wd = Worker_Running host port upd hb client"
  using driver_workers_agree [OF example_driver_reach, of 1] example_driver_worker by blast

theorem driver_slots_accounted_witness:
  "get_assignment (dv_task_assigner (fst example_driver)) (example_task 1 0 1) = Some (Assign_Worker 1 0)"
  using driver_slots_accounted [OF example_driver_reach example_driver_worker, of 0 "example_task 1 0 1"] by simp

section \<open>The worker is lost\<close>

theorem lost_worker_handled_witness:
  "\<exists>d' es a st. receive (example_env 125) (ProbeLostWorker 1 5) (fst example_driver) = Some (d', es, a) \<and>
     Spawn (Call_StopWorker 1) \<in> set es \<and> find_worker_tasks (dv_task_assigner d') 1 = [] \<and>
     get_task_state (dv_job_scheduler d') (example_task 1 0 1) = Some st \<and> is_terminal st"
proof -
  let ?d = "fst example_driver"
  obtain wd client where w: "im_get (wp_workers (dv_worker_pool ?d)) 1 = Some wd" "wd_state wd = Worker_Running ''w1'' 7000 6 5 client"
    using example_driver_state by (auto simp: case_prod_unfold simp del: map_of_eq_Some_iff)
  obtain d' es a where r: "receive (example_env 125) (ProbeLostWorker 1 5) ?d = Some (d', es, a)"
    using lost_worker_total [OF example_driver_sound, of "example_env 125" 1 5] by (auto simp: continuing_def)
  have "example_task 1 0 1 \<in> set (find_worker_tasks (dv_task_assigner ?d) 1)"
    using example_driver_worker by (simp add: find_worker_tasks_def)
  with lost_worker_handled [OF example_driver_reach w r] r show ?thesis by blast
qed


section \<open>A stale status update\<close>

theorem stale_updates_ignored_witness:
  "\<exists>d1 es1 a1. receive (example_env 7) (UpdateTask (example_task 1 0 0) Status_Running None None (Some 5)) (fst example_driver) =
       Some (d1, es1, a1) \<and>
     receive (example_env 9) (UpdateTask (example_task 1 0 0) Status_Failed None None (Some 3)) d1 = Some (d1, [], Continue)"
proof -
  obtain d1 es1 a1 where r: "receive (example_env 7) (UpdateTask (example_task 1 0 0) Status_Running None None (Some 5))
      (fst example_driver) = Some (d1, es1, a1)"
    using handle_update_task_total [OF example_driver_sound, of "example_env 7" "example_task 1 0 0" Status_Running None None "Some 5"]
    by (auto simp: continuing_def)
  have "(3 :: 64 word) \<le> 5" by simp
  from stale_updates_ignored [OF example_driver_reach r rtranclp.rtrancl_refl this] r show ?thesis by blast
qed

section \<open>Tasks left in the queue\<close>

text \<open>
  The second job waits for a second worker, which never registers. When the probe for it arrives the
  first worker is idle and has room for the tasks of the second job, and no worker is requested any
  more; the driver still leaves the tasks in the queue, until another event makes it assign tasks.
\<close>

definition stalled_events :: "(nat \<times> driver_event) list" where
  "stalled_events =
     [(7, ExecuteJob (Inr example_graph) 0),
      (8, UpdateTask (example_task 1 0 0) Status_Succeeded None None (Some 1)),
      (9, UpdateTask (example_task 1 0 1) Status_Succeeded None None (Some 1)),
      (37, ProbePendingWorker 2)]"

definition stalled_driver :: "driver \<times> effect list" where
  "stalled_driver = run_events stalled_events example_driver"

lemma stalled_driver_reach:
  "driver_step\<^sup>*\<^sup>* (driver_started example_driver_options example_codec, []) (fst stalled_driver, snd stalled_driver)"
  using rtranclp_trans [OF example_driver_reach run_events_reach [of _ stalled_events]] by (simp add: stalled_driver_def)

lemma stalled_driver_state:
  "(let ta = dv_task_assigner (fst stalled_driver) in
     (tg_requested_worker_count ta, map region_keys (tg_task_queue ta),
      map (\<lambda>a. (ta_assignment a, ts_tasks (ta_set a))) (fst (assign_tasks EvenSpread ta)))) =
   (0, [[example_task 2 0 0, example_task 2 0 1, example_task 2 1 0]],
    [(Assign_Worker 1 1, [example_task 2 0 0]), (Assign_Worker 1 0, [example_task 2 0 1]), (Assign_Driver, [example_task 2 1 0])])"
  by code_simp

lemma stalled_assignment:
  "\<exists>a e. a \<in> set (fst (assign_tasks EvenSpread (dv_task_assigner (fst stalled_driver)))) \<and>
     ta_assignment a = Assign_Worker 1 1 \<and> e \<in> set (ts_entries (ta_set a)) \<and> te_key e = example_task 2 0 0"
proof -
  let ?as = "fst (assign_tasks EvenSpread (dv_task_assigner (fst stalled_driver)))"
  have "(Assign_Worker 1 1, [example_task 2 0 0]) \<in> set (map (\<lambda>a. (ta_assignment a, ts_tasks (ta_set a))) ?as)"
    using stalled_driver_state by (simp only: Let_def prod.inject) simp
  then obtain a where a: "a \<in> set ?as" "ta_assignment a = Assign_Worker 1 1" "ts_tasks (ta_set a) = [example_task 2 0 0]"
    by auto
  then have "example_task 2 0 0 \<in> te_key ` set (ts_entries (ta_set a))" unfolding ts_tasks_def by (metis list.set_intros(1) list.set_map)
  then obtain e where "e \<in> set (ts_entries (ta_set a))" "te_key e = example_task 2 0 0" by auto
  with a show ?thesis by blast
qed


text \<open>
  A request does not count the workers that are already being started: asked twice for the same
  queue, the assigner requests workers twice.
\<close>

lemma request_workers_repeats:
  "(let ta = enqueue_tasks \<lparr>tr_tasks = [(Placement_Worker, \<lparr>ts_entries = []\<rparr>)]\<rparr>
        (task_assigner_new \<lparr>ao_worker_task_slots = 2, ao_worker_max_count = 4\<rparr>)
    in map_option (\<lambda>(n, ta). (n, map_option fst (request_workers ta))) (request_workers ta)) = Some (1, Some 1)"
  by code_simp

end
