(* ===== verification/Join_Set.thy ===== *)
theory Join_Set
  imports Zelox_Prelude
begin

text \<open>
  \<open>JoinSet\<close> of \<open>zelox-physical-optimizer/src/join_reorder/join_set.rs\<close>: sets of relation
  indices as 64-bit words. \<open>rels\<close> is the set a word stands for; every operation of the source is
  related to the operation on sets, and the iterator to the ascending list of the elements. The
  in-place operators of the source are the functions they assign.
\<close>

section \<open>Operations\<close>

unbundle bit_operations_syntax

type_synonym join_set = u64

abbreviation (input) MAX_RELATIONS :: nat where
  "MAX_RELATIONS \<equiv> 64"

definition jset_new :: join_set where
  "jset_new = 0"

definition new_singleton :: "nat \<Rightarrow> join_set df_result" where
  "new_singleton r =
     (if r \<ge> MAX_RELATIONS then Inl (DF_Internal ''Relation index {} must be less than {}'')
      else Inr (push_bit r 1))"

definition is_superset :: "join_set \<Rightarrow> join_set \<Rightarrow> bool" where
  "is_superset s t = (s AND t = t)"

definition is_subset :: "join_set \<Rightarrow> join_set \<Rightarrow> bool" where
  "is_subset s t = (s AND t = s)"

definition is_disjoint :: "join_set \<Rightarrow> join_set \<Rightarrow> bool" where
  "is_disjoint s t = (s AND t = 0)"

definition jset_union :: "join_set \<Rightarrow> join_set \<Rightarrow> join_set" where
  "jset_union s t = s OR t"

definition jset_inter :: "join_set \<Rightarrow> join_set \<Rightarrow> join_set" where
  "jset_inter s t = s AND t"

definition jset_diff :: "join_set \<Rightarrow> join_set \<Rightarrow> join_set" where
  "jset_diff s t = s AND (NOT t)"

definition symmetric_difference :: "join_set \<Rightarrow> join_set \<Rightarrow> join_set" where
  "symmetric_difference s t = s XOR t"

text \<open>\<open>count_ones\<close> and \<open>trailing_zeros\<close> of \<open>u64\<close>.\<close>

definition count_ones :: "u64 \<Rightarrow> nat" where
  "count_ones w = length (filter (bit w) [0..<64])"

definition trailing_zeros :: "u64 \<Rightarrow> nat" where
  "trailing_zeros w = length (takeWhile (\<lambda>i. \<not> bit w i) [0..<64])"

definition cardinality :: "join_set \<Rightarrow> nat" where
  "cardinality s = count_ones s"

definition jset_is_empty :: "join_set \<Rightarrow> bool" where
  "jset_is_empty s = (s = 0)"

text \<open>\<open>JoinSetIter::next\<close>, and the elements it visits.\<close>

definition iter_next :: "u64 \<Rightarrow> (nat \<times> u64) option" where
  "iter_next bits = (if bits = 0 then None else Some (trailing_zeros bits, bits AND (bits - 1)))"

section \<open>The sets the words stand for\<close>

definition rels :: "join_set \<Rightarrow> nat set" where
  "rels s = {i. bit s i}"

lemma rels_iff [simp]: "i \<in> rels s \<longleftrightarrow> bit s i"
  by (simp add: rels_def)

lemma bit_u64_less: "bit (s :: u64) i \<Longrightarrow> i < 64"
  using bit_imp_le_length [of s i] by simp

lemma rels_bound: "rels s \<subseteq> {..<64}"
  by (auto dest: bit_u64_less)

lemma rels_less: "i \<in> rels s \<Longrightarrow> i < 64"
  using rels_bound by blast

lemma finite_rels [simp]: "finite (rels s)"
  using rels_bound finite_subset by blast

lemma rels_eq_iff: "rels s = rels t \<longleftrightarrow> s = t"
  by (auto simp: rels_def set_eq_iff intro: bit_eqI)

lemma rels_0 [simp]: "rels 0 = {}"
  by (auto simp: rels_def)

lemma rels_empty_iff [simp]: "rels s = {} \<longleftrightarrow> s = 0"
  using rels_eq_iff [of s 0] by simp

lemma rels_ops [simp]:
  "rels (s OR t) = rels s \<union> rels t" "rels (s AND t) = rels s \<inter> rels t"
  "rels (s XOR t) = (rels s - rels t) \<union> (rels t - rels s)" "rels (NOT s) = {..<64} - rels s"
  by (auto simp: bit_or_iff bit_and_iff bit_xor_iff bit_not_iff dest: bit_u64_less)

lemma bit_exp_u64 [simp]: "bit (2 ^ r :: u64) i \<longleftrightarrow> i = r \<and> r < 64"
  by (auto simp: bit_exp_iff possible_bit_word)

lemma rels_exp [simp]: "r < 64 \<Longrightarrow> rels (2 ^ r) = {r}"
  by auto

lemma new_singleton_rels: "r < 64 \<Longrightarrow> \<exists>s. new_singleton r = Inr s \<and> rels s = {r}"
  by (simp add: new_singleton_def del: rels_iff)

lemma is_subset_rels: "is_subset s t \<longleftrightarrow> rels s \<subseteq> rels t"
  unfolding is_subset_def rels_eq_iff [symmetric] rels_ops by blast

lemma is_superset_rels: "is_superset s t \<longleftrightarrow> rels t \<subseteq> rels s"
  unfolding is_superset_def rels_eq_iff [symmetric] rels_ops by blast

lemma is_disjoint_rels: "is_disjoint s t \<longleftrightarrow> rels s \<inter> rels t = {}"
  unfolding is_disjoint_def rels_empty_iff [symmetric] rels_ops by blast

lemma jset_rels [simp]:
  "rels jset_new = {}" "rels (jset_union s t) = rels s \<union> rels t" "rels (jset_inter s t) = rels s \<inter> rels t"
  "rels (jset_diff s t) = rels s - rels t" "rels (symmetric_difference s t) = (rels s - rels t) \<union> (rels t - rels s)"
  using rels_bound [of s]
  by (auto simp only: jset_new_def jset_union_def jset_inter_def jset_diff_def symmetric_difference_def rels_0 rels_ops)

lemma jset_is_empty_rels: "jset_is_empty s \<longleftrightarrow> rels s = {}"
  by (simp add: jset_is_empty_def)

lemma cardinality_rels: "cardinality s = card (rels s)"
proof -
  have "rels s = set (filter (bit s) [0..<64])" using rels_bound by auto
  then show ?thesis
    unfolding cardinality_def count_ones_def by (metis distinct_card distinct_filter distinct_upt)
qed

section \<open>The iterator\<close>

lemma trailing_zeros_Min: "w \<noteq> 0 \<Longrightarrow> trailing_zeros w = Min (rels w)"
proof -
  assume "w \<noteq> 0"
  then have ne: "rels w \<noteq> {}" by simp
  let ?m = "Min (rels w)"
  have m: "?m \<in> rels w" "?m < 64" using Min_in [OF finite_rels ne] rels_less by auto
  have before: "\<not> bit w i" if "i < ?m" for i
    using Min_le [OF finite_rels, of i w] that by (metis leD rels_iff)
  have "[0..<64] = [0..<?m] @ ?m # [Suc ?m..<64]"
    using m(2) upt_add_eq_append [of 0 ?m "64 - ?m"] upt_conv_Cons [of ?m 64] by simp
  moreover have "takeWhile (\<lambda>i. \<not> bit w i) ([0..<?m] @ ?m # [Suc ?m..<64]) = [0..<?m]"
    using before m(1) by (subst takeWhile_append2) auto
  ultimately show ?thesis unfolding trailing_zeros_def by simp
qed

text \<open>Subtracting one clears the lowest bit and sets those below it.\<close>

lemma clear_lowest:
  assumes "w \<noteq> 0"
  shows "rels (w AND (w - 1)) = rels w - {trailing_zeros w}"
proof -
  let ?k = "trailing_zeros w"
  have k: "?k = Min (rels w)" by (rule trailing_zeros_Min [OF assms])
  have mem: "?k \<in> rels w" "?k < 64" using Min_in [of "rels w"] assms k rels_less by auto
  have low: "\<not> bit w i" if "i < ?k" for i using Min_le [OF finite_rels, of i w] that k by (metis leD rels_iff)
  let ?u = "w AND NOT (2 ^ ?k)"
  have u: "bit ?u i \<longleftrightarrow> bit w i \<and> i \<noteq> ?k" for i
    using mem by (auto simp: bit_and_iff bit_not_iff dest: bit_u64_less)
  have "w = ?u OR 2 ^ ?k"
    using mem by (intro bit_eqI) (auto simp: bit_or_iff u)
  also have "\<dots> = ?u + 2 ^ ?k"
    by (rule disjunctive_add [symmetric]) (auto simp: u)
  finally have "w - 1 = ?u + (2 ^ ?k - 1)" by (simp add: algebra_simps)
  also have "2 ^ ?k - 1 = (mask ?k :: u64)" by (simp add: mask_eq_exp_minus_1)
  also have "?u + mask ?k = ?u OR mask ?k"
    by (rule disjunctive_add) (use low in \<open>auto simp: u bit_mask_iff\<close>)
  finally have "w - 1 = ?u OR mask ?k" .
  then have "bit (w - 1) i \<longleftrightarrow> bit w i \<and> i \<noteq> ?k \<or> bit (mask ?k :: u64) i" for i
    unfolding u [symmetric] by (metis bit_or_iff)
  then show ?thesis using low by (auto simp: bit_and_iff bit_mask_iff)
qed

lemma trailing_zeros_in: "w \<noteq> 0 \<Longrightarrow> trailing_zeros w \<in> rels w"
  unfolding trailing_zeros_Min by (rule Min_in) (simp_all del: rels_iff)

lemma iter_next_decreases:
  assumes "iter_next bits = Some (i, bits')"
  shows "cardinality bits' < cardinality bits"
proof -
  have nz: "bits \<noteq> 0" and b: "bits' = bits AND (bits - 1)"
    using assms by (auto simp: iter_next_def split: if_splits)
  have "card (rels bits - {trailing_zeros bits}) < card (rels bits)"
    by (rule card_Diff1_less [OF finite_rels trailing_zeros_in [OF nz]])
  then show ?thesis unfolding cardinality_rels b clear_lowest [OF nz] .
qed

function jset_iter :: "u64 \<Rightarrow> nat list" where
  "jset_iter bits = (case iter_next bits of None \<Rightarrow> [] | Some (i, bits') \<Rightarrow> i # jset_iter bits')"
  by auto

termination
  by (relation "measure cardinality") (auto dest: iter_next_decreases)

declare jset_iter.simps [simp del]

lemma jset_iter_spec: "sorted (jset_iter s) \<and> distinct (jset_iter s) \<and> set (jset_iter s) = rels s"
proof (induction s rule: jset_iter.induct)
  case (1 s)
  show ?case
  proof (cases "s = 0")
    case True
    then show ?thesis by (simp add: jset_iter.simps iter_next_def)
  next
    case False
    let ?s = "s AND (s - 1)" and ?k = "trailing_zeros s"
    have n: "iter_next s = Some (?k, ?s)" using False by (simp add: iter_next_def)
    have ih: "sorted (jset_iter ?s)" "distinct (jset_iter ?s)" "set (jset_iter ?s) = rels s - {?k}"
      using 1 [OF n] clear_lowest [OF False] by auto
    have k: "?k = Min (rels s)" "?k \<in> rels s" using trailing_zeros_Min [OF False] trailing_zeros_in [OF False] by auto
    have "?k \<le> i" if "i \<in> rels s" for i using Min_le [OF finite_rels that] k(1) by simp
    then show ?thesis using ih k(2) by (subst jset_iter.simps, subst (1 2) jset_iter.simps) (auto simp: n)
  qed
qed

lemma set_jset_iter [simp]: "set (jset_iter s) = rels s"
  using jset_iter_spec by blast

lemma distinct_jset_iter [simp]: "distinct (jset_iter s)"
  using jset_iter_spec by blast

lemma sorted_jset_iter [simp]: "sorted (jset_iter s)"
  using jset_iter_spec by blast

lemma jset_iter_sorted_list: "jset_iter s = sorted_list_of_set (rels s)"
  by (rule sorted_distinct_set_unique) simp_all

section \<open>Sets from lists\<close>

definition bits_of :: "nat list \<Rightarrow> join_set" where
  "bits_of rs = foldl (\<lambda>bits r. bits OR push_bit r 1) 0 rs"

definition from_iter :: "nat list \<Rightarrow> join_set df_result" where
  "from_iter rs =
     (if list_all (\<lambda>r. r < MAX_RELATIONS) rs then Inr (bits_of rs)
      else Inl (DF_Internal ''Relation index {} must be less than {}''))"

lemma rels_bits_of: "list_all (\<lambda>r. r < 64) rs \<Longrightarrow> rels (bits_of rs) = set rs"
proof -
  have "list_all (\<lambda>r. r < 64) rs \<Longrightarrow> rels (foldl (\<lambda>bits r. bits OR push_bit r 1) b rs) = rels b \<union> set rs" for b
    by (induction rs arbitrary: b) (simp_all del: rels_iff)
  then show "list_all (\<lambda>r. r < 64) rs \<Longrightarrow> ?thesis" by (simp add: bits_of_def del: rels_iff)
qed

lemma bits_of_iter: "bits_of (jset_iter s) = s"
  using rels_bits_of [of "jset_iter s"] rels_less by (simp add: rels_eq_iff list_all_iff)

lemma from_iter_total: "set rs \<subseteq> {..<64} \<Longrightarrow> from_iter rs = Inr (bits_of rs)"
  by (auto simp: from_iter_def list_all_iff)

declare rels_iff [simp del]

section \<open>The interface of finite sets\<close>

text \<open>
  What the query graph and the plan enumerator rely on: an implementation of sets of small numbers
  whose operations agree with those on sets, and an iterator in ascending order.
\<close>

locale small_sets =
  fixes elems :: "'s \<Rightarrow> nat set"
    and union inter diff :: "'s \<Rightarrow> 's \<Rightarrow> 's"
    and subset disjoint :: "'s \<Rightarrow> 's \<Rightarrow> bool"
    and size_of :: "'s \<Rightarrow> nat"
    and iter :: "'s \<Rightarrow> nat list"
  assumes elems_inj: "elems s = elems t \<Longrightarrow> s = t"
    and elems_finite: "finite (elems s)"
    and union_elems: "elems (union s t) = elems s \<union> elems t"
    and inter_elems: "elems (inter s t) = elems s \<inter> elems t"
    and diff_elems: "elems (diff s t) = elems s - elems t"
    and subset_elems: "subset s t = (elems s \<subseteq> elems t)"
    and disjoint_elems: "disjoint s t = (elems s \<inter> elems t = {})"
    and size_elems: "size_of s = card (elems s)"
    and iter_elems: "iter s = sorted_list_of_set (elems s)"
begin

lemma union_comm: "union s t = union t s"
  by (rule elems_inj) (auto simp: union_elems)

lemma union_assoc: "union (union s t) u = union s (union t u)"
  by (rule elems_inj) (auto simp: union_elems)

lemma union_diff: "subset t s \<Longrightarrow> union (diff s t) t = s"
  by (rule elems_inj) (auto simp: union_elems diff_elems subset_elems)

lemma union_absorb: "subset s t \<Longrightarrow> union s t = t"
  by (rule elems_inj) (auto simp: union_elems subset_elems)

lemma diff_disjoint: "disjoint (diff s t) t"
  by (auto simp: disjoint_elems diff_elems)

lemma size_union: "disjoint s t \<Longrightarrow> size_of (union s t) = size_of s + size_of t"
  by (simp add: size_elems union_elems disjoint_elems card_Un_disjoint elems_finite)

lemma size_diff: "subset t s \<Longrightarrow> size_of (diff s t) = size_of s - size_of t"
  by (simp add: size_elems diff_elems subset_elems card_Diff_subset elems_finite)

lemma subset_size: "subset s t \<Longrightarrow> size_of t \<le> size_of s \<Longrightarrow> s = t"
  by (rule elems_inj) (simp add: subset_elems size_elems card_subset_eq elems_finite card_seteq)

end

interpretation jset: small_sets rels jset_union jset_inter jset_diff is_subset is_disjoint cardinality jset_iter
  by unfold_locales
    (simp_all add: rels_eq_iff is_subset_rels is_disjoint_rels cardinality_rels jset_iter_sorted_list)

section \<open>Properties\<close>

text \<open>
  C28. Bit sets refine sets of relations. Every operation on join sets computes the operation on the
  sets of indices they stand for, the number of set bits is the number of relations, iterating
  visits each relation once in ascending order, and collecting the visited indices gives back the
  set; a set is made of any indices below 64 and refused otherwise.
\<close>

theorem join_set_refines:
  "rels jset_new = {} \<and>
   new_singleton r = (if r < 64 then Inr (bits_of [r]) else Inl (DF_Internal ''Relation index {} must be less than {}'')) \<and>
   rels (jset_union s t) = rels s \<union> rels t \<and> rels (jset_inter s t) = rels s \<inter> rels t \<and>
   rels (jset_diff s t) = rels s - rels t \<and>
   rels (symmetric_difference s t) = (rels s - rels t) \<union> (rels t - rels s) \<and>
   is_subset s t = (rels s \<subseteq> rels t) \<and> is_superset s t = (rels t \<subseteq> rels s) \<and>
   is_disjoint s t = (rels s \<inter> rels t = {}) \<and> jset_is_empty s = (rels s = {}) \<and>
   cardinality s = card (rels s) \<and> jset_iter s = sorted_list_of_set (rels s) \<and>
   from_iter (jset_iter s) = Inr s \<and>
   (case from_iter rs of Inr u \<Rightarrow> rels u = set rs | Inl _ \<Rightarrow> \<exists>r \<in> set rs. 64 \<le> r)"
proof -
  have it: "from_iter (jset_iter s) = Inr s"
    using from_iter_total [of "jset_iter s"] rels_bound by (simp add: bits_of_iter)
  have "new_singleton r = (if r < 64 then Inr (bits_of [r]) else Inl (DF_Internal ''Relation index {} must be less than {}''))"
    by (simp add: new_singleton_def bits_of_def)
  moreover have "case from_iter rs of Inr u \<Rightarrow> rels u = set rs | Inl _ \<Rightarrow> \<exists>r \<in> set rs. 64 \<le> r"
    using rels_bits_of [of rs] by (auto simp: from_iter_def list_all_iff not_less)
  ultimately show ?thesis
    by (simp add: it [unfolded jset_iter_sorted_list] is_subset_rels is_superset_rels is_disjoint_rels jset_is_empty_rels cardinality_rels
        jset_iter_sorted_list del: rels_empty_iff)
qed

end
