(* ===== verification/Query_Graph.thy ===== *)
theory Query_Graph
  imports Join_Set
begin

text \<open>
  The query graph of the join reordering (\<open>zelox-physical-optimizer/src/join_reorder/graph.rs\<close>):
  relations, join edges over two or more relations, and the trie that is searched for the
  neighbours of a set of relations and for the edges between two sets. Every non-empty proper
  subset of the relations of an edge is a path of the trie, at which the rest of the edge is kept.
  Execution plans, filter expressions and the other types of DataFusion are handles. A hash set is
  a list without duplicates; where the source collects one without sorting it, its order means
  nothing. The type parameter stands for \<open>f64\<close>.
\<close>

section \<open>Data\<close>

record stable_column =
  sc_relation_id :: nat
  sc_column_index :: nat
  sc_name :: string

datatype precision = Exact nat | Inexact nat | Absent

record 'f relation_node =
  rn_plan :: nat
  rn_relation_id :: nat
  rn_initial_cardinality :: 'f
  rn_base_cardinality :: 'f
  rn_distinct_counts :: "precision list"

record join_edge =
  je_join_set :: join_set
  je_filter :: nat
  je_join_type :: nat
  je_null_equality :: nat
  je_equi_pairs :: "(stable_column \<times> stable_column) list"

record neighbor_info =
  ni_neighbor :: join_set
  ni_edge_indices :: "nat list"

datatype query_edge = Query_Edge (qe_neighbors: "neighbor_info list") (qe_children: "(nat \<times> query_edge) list")

record 'f query_graph =
  qg_relations :: "'f relation_node list"
  qg_edges :: "join_edge list"
  qg_root_edge :: query_edge
  qg_neighbor_cache :: "join_set \<rightharpoonup> nat list"

definition query_graph_new :: "'f query_graph" where
  "query_graph_new = \<lparr>qg_relations = [], qg_edges = [], qg_root_edge = Query_Edge [] [], qg_neighbor_cache = Map.empty\<rparr>"

definition add_relation :: "'f relation_node \<Rightarrow> 'f query_graph \<Rightarrow> 'f query_graph" where
  "add_relation rel g = g\<lparr>qg_relations := qg_relations g @ [rel]\<rparr>"

definition relation_count :: "'f query_graph \<Rightarrow> nat" where
  "relation_count g = length (qg_relations g)"

definition get_relation :: "'f query_graph \<Rightarrow> nat \<Rightarrow> 'f relation_node option" where
  "get_relation g r = (if r < length (qg_relations g) then Some (qg_relations g ! r) else None)"

section \<open>Building the trie\<close>

text \<open>
  The recursion the source writes three times: \<open>indices\<close> holds the positions chosen so far, \<open>k\<close>
  more are to be chosen from \<open>start\<close> on, and \<open>f\<close> is run on every full choice.
\<close>

fun for_combinations :: "(nat list \<Rightarrow> 'a \<Rightarrow> 'a) \<Rightarrow> nat \<Rightarrow> nat list \<Rightarrow> nat \<Rightarrow> nat \<Rightarrow> 'a \<Rightarrow> 'a" where
  "for_combinations f n indices 0 start acc = f indices acc"
| "for_combinations f n indices (Suc k) start acc =
     foldl (\<lambda>acc i. for_combinations f n (indices @ [i]) k (i + 1) acc) acc [start..<n]"

fun add_neighbor :: "join_set \<Rightarrow> nat \<Rightarrow> neighbor_info list \<Rightarrow> neighbor_info list" where
  "add_neighbor nb idx [] = [\<lparr>ni_neighbor = nb, ni_edge_indices = [idx]\<rparr>]"
| "add_neighbor nb idx (n # ns) =
     (if ni_neighbor n = nb then n\<lparr>ni_edge_indices := ni_edge_indices n @ [idx]\<rparr> # ns
      else n # add_neighbor nb idx ns)"

fun trie_insert :: "nat list \<Rightarrow> join_set \<Rightarrow> nat \<Rightarrow> query_edge \<Rightarrow> query_edge" where
  "trie_insert [] nb idx (Query_Edge ns ch) = Query_Edge (add_neighbor nb idx ns) ch"
| "trie_insert (r # rs) nb idx (Query_Edge ns ch) =
     Query_Edge ns (im_insert r
       (trie_insert rs nb idx (case im_get ch r of Some c \<Rightarrow> c | None \<Rightarrow> Query_Edge [] [])) ch)"

definition create_trie_path_and_add_neighbor :: "nat list \<Rightarrow> join_set \<Rightarrow> nat \<Rightarrow> query_edge \<Rightarrow> query_edge" where
  "create_trie_path_and_add_neighbor chosen nb idx root = trie_insert (sort chosen) nb idx root"

text \<open>
  Collecting the remaining relations cannot fail: they come from iterating a set, so that they are
  below 64 (\<open>from_iter_total\<close>). Hence adding an edge returns no error.
\<close>

definition add_combination :: "nat list \<Rightarrow> nat \<Rightarrow> nat list \<Rightarrow> query_edge \<Rightarrow> query_edge" where
  "add_combination relations idx indices root =
     (let chosen = map ((!) relations) indices;
          remaining = map ((!) relations) (filter (\<lambda>i. i \<notin> set indices) [0..<length relations])
      in if remaining \<noteq> [] then create_trie_path_and_add_neighbor chosen (bits_of remaining) idx root else root)"

definition generate_subsets_and_update_trie :: "nat list \<Rightarrow> nat \<Rightarrow> nat \<Rightarrow> nat \<Rightarrow> query_edge \<Rightarrow> query_edge" where
  "generate_subsets_and_update_trie relations subset_size must_include idx root =
     (if subset_size = 1 then
        let remaining = filter (\<lambda>r. r \<noteq> relations ! must_include) relations
        in if remaining \<noteq> []
           then create_trie_path_and_add_neighbor [relations ! must_include] (bits_of remaining) idx root else root
      else for_combinations (add_combination relations idx) (length relations) [must_include] (subset_size - 1)
             (must_include + 1) root)"

definition update_trie_for_edge :: "join_edge \<Rightarrow> nat \<Rightarrow> query_edge \<Rightarrow> query_edge" where
  "update_trie_for_edge edge idx root =
     (let relations = jset_iter (je_join_set edge) in
      foldl (\<lambda>root i. foldl (\<lambda>root size. generate_subsets_and_update_trie relations size i idx root) root
               [1..<length relations + 1]) root [0..<length relations])"

definition add_edge :: "join_edge \<Rightarrow> 'f query_graph \<Rightarrow> 'f query_graph" where
  "add_edge edge g =
     g\<lparr>qg_edges := qg_edges g @ [edge], qg_neighbor_cache := Map.empty,
       qg_root_edge := update_trie_for_edge edge (length (qg_edges g)) (qg_root_edge g)\<rparr>"

section \<open>Searching the trie\<close>

fun trie_get :: "nat list \<Rightarrow> query_edge \<Rightarrow> query_edge option" where
  "trie_get [] node = Some node"
| "trie_get (r # rs) node = (case im_get (qe_children node) r of None \<Rightarrow> None | Some c \<Rightarrow> trie_get rs c)"

definition find_neighbors_in_trie :: "query_edge \<Rightarrow> nat list \<Rightarrow> nat list \<Rightarrow> nat list" where
  "find_neighbors_in_trie root chosen neighbors =
     (case trie_get (sort chosen) root of
        None \<Rightarrow> neighbors
      | Some node \<Rightarrow> foldl (\<lambda>acc ni. is_extend acc (jset_iter (ni_neighbor ni))) neighbors (qe_neighbors node))"

definition find_neighbors_for_subsets :: "query_edge \<Rightarrow> nat list \<Rightarrow> nat \<Rightarrow> nat list \<Rightarrow> nat list" where
  "find_neighbors_for_subsets root relations subset_size neighbors =
     (if subset_size = 1 then foldl (\<lambda>acc r. find_neighbors_in_trie root [r] acc) neighbors relations
      else for_combinations (\<lambda>indices. find_neighbors_in_trie root (map ((!) relations) indices))
             (length relations) [] subset_size 0 neighbors)"

definition search_neighbors :: "query_edge \<Rightarrow> join_set \<Rightarrow> nat list" where
  "search_neighbors root nodes =
     (let relations = jset_iter nodes in
      sort (foldl (\<lambda>acc size. find_neighbors_for_subsets root relations size acc) [] [1..<length relations + 1]))"

definition get_neighbors :: "join_set \<Rightarrow> 'f query_graph \<Rightarrow> nat list \<times> 'f query_graph" where
  "get_neighbors nodes g =
     (case qg_neighbor_cache g nodes of
        Some cached \<Rightarrow> (cached, g)
      | None \<Rightarrow>
          let result = search_neighbors (qg_root_edge g) nodes
          in (result, g\<lparr>qg_neighbor_cache := (qg_neighbor_cache g)(nodes \<mapsto> result)\<rparr>))"

definition find_connecting_edges_in_trie :: "query_edge \<Rightarrow> join_set \<Rightarrow> nat list \<Rightarrow> nat list \<Rightarrow> nat list" where
  "find_connecting_edges_in_trie root target chosen edge_indices =
     (case trie_get (sort chosen) root of
        None \<Rightarrow> edge_indices
      | Some node \<Rightarrow>
          foldl (\<lambda>acc ni. if \<not> is_disjoint (ni_neighbor ni) target then is_extend acc (ni_edge_indices ni) else acc)
            edge_indices (qe_neighbors node))"

definition find_connecting_edges_for_subsets :: "query_edge \<Rightarrow> nat list \<Rightarrow> nat \<Rightarrow> join_set \<Rightarrow> nat list \<Rightarrow> nat list" where
  "find_connecting_edges_for_subsets root relations subset_size target edge_indices =
     (if subset_size = 1 then foldl (\<lambda>acc r. find_connecting_edges_in_trie root target [r] acc) edge_indices relations
      else for_combinations (\<lambda>indices. find_connecting_edges_in_trie root target (map ((!) relations) indices))
             (length relations) [] subset_size 0 edge_indices)"

definition edge_connects :: "'f query_graph \<Rightarrow> join_set \<Rightarrow> join_set \<Rightarrow> nat \<Rightarrow> bool" where
  "edge_connects g left right idx =
     (if idx < length (qg_edges g) then
        let e = je_join_set (qg_edges g ! idx)
        in is_subset e (jset_union left right) \<and> \<not> is_disjoint e left \<and> \<not> is_disjoint e right
      else False)"

definition get_connecting_edge_indices :: "'f query_graph \<Rightarrow> join_set \<Rightarrow> join_set \<Rightarrow> nat list" where
  "get_connecting_edge_indices g left right =
     (if \<not> is_disjoint left right then []
      else
        let relations = jset_iter left;
            found = foldl (\<lambda>acc size. find_connecting_edges_for_subsets (qg_root_edge g) relations size right acc) []
                      [1..<length relations + 1]
        in filter (edge_connects g left right) found)"

section \<open>Combinations\<close>

text \<open>The choices \<open>for_combinations\<close> visits, in order: increasing lists of positions.\<close>

fun combos :: "nat \<Rightarrow> nat \<Rightarrow> nat \<Rightarrow> nat list list" where
  "combos n 0 start = [[]]"
| "combos n (Suc k) start = concat (map (\<lambda>i. map ((#) i) (combos n k (i + 1))) [start..<n])"

lemma for_combinations_foldl:
  "for_combinations f n indices k start acc = foldl (\<lambda>acc c. f (indices @ c) acc) acc (combos n k start)"
proof (induction k arbitrary: indices start acc)
  case (Suc k)
  have "foldl (\<lambda>acc c. f (indices @ c) acc) acc (combos n (Suc k) start) =
      foldl (\<lambda>acc i. foldl (\<lambda>acc c. f (indices @ c) acc) acc (map ((#) i) (combos n k (i + 1)))) acc [start..<n]"
    by (simp add: foldl_concat)
  also have "\<dots> = foldl (\<lambda>acc i. foldl (\<lambda>acc c. f ((indices @ [i]) @ c) acc) acc (combos n k (i + 1))) acc [start..<n]"
    by (simp add: foldl_map)
  finally show ?case using Suc by simp
qed simp

lemma set_combos:
  "set (combos n k start) = {c. sorted_wrt (<) c \<and> length c = k \<and> set c \<subseteq> {start..<n}}"
proof (induction k arbitrary: start)
  case (Suc k)
  have "c \<in> set (combos n (Suc k) start) \<longleftrightarrow>
      sorted_wrt (<) c \<and> length c = Suc k \<and> set c \<subseteq> {start..<n}" for c
  proof (cases c)
    case (Cons i c')
    have "c \<in> set (combos n (Suc k) start) \<longleftrightarrow> i \<in> {start..<n} \<and> c' \<in> set (combos n k (i + 1))"
      by (auto simp: Cons)
    also have "\<dots> \<longleftrightarrow> sorted_wrt (<) c \<and> length c = Suc k \<and> set c \<subseteq> {start..<n}"
      unfolding Suc Cons by auto (metis Suc_leI atLeastLessThan_iff le_less_trans less_imp_le_nat subset_iff)+
    finally show ?thesis .
  qed auto
  then show ?case by blast
qed auto

section \<open>What the trie holds\<close>

definition holds_neighbor :: "neighbor_info list \<Rightarrow> join_set \<Rightarrow> nat \<Rightarrow> bool" where
  "holds_neighbor ns nb idx \<longleftrightarrow> (\<exists>ni \<in> set ns. ni_neighbor ni = nb \<and> idx \<in> set (ni_edge_indices ni))"

definition trie_has :: "query_edge \<Rightarrow> nat list \<Rightarrow> join_set \<Rightarrow> nat \<Rightarrow> bool" where
  "trie_has root path nb idx \<longleftrightarrow> (\<exists>node. trie_get path root = Some node \<and> holds_neighbor (qe_neighbors node) nb idx)"

lemma holds_add_neighbor:
  "holds_neighbor (add_neighbor nb i ns) nb' idx \<longleftrightarrow> holds_neighbor ns nb' idx \<or> (nb' = nb \<and> idx = i)"
  by (induction ns) (auto simp: holds_neighbor_def)

lemma trie_has_simps:
  "trie_has (Query_Edge ns ch) [] nb idx \<longleftrightarrow> holds_neighbor ns nb idx"
  "trie_has (Query_Edge ns ch) (r # rs) nb idx \<longleftrightarrow> (\<exists>c. im_get ch r = Some c \<and> trie_has c rs nb idx)"
  by (auto simp: trie_has_def simp del: map_of_eq_Some_iff split: option.splits)

lemma trie_has_empty: "\<not> trie_has (Query_Edge [] []) path nb idx"
  by (cases path) (auto simp: trie_has_simps holds_neighbor_def)

lemma trie_has_insert:
  "trie_has (trie_insert p nb i root) path nb' idx \<longleftrightarrow>
     trie_has root path nb' idx \<or> (path = p \<and> nb' = nb \<and> idx = i)"
proof (induction p nb i root arbitrary: path rule: trie_insert.induct)
  case (1 nb i ns ch)
  then show ?case by (cases path) (auto simp: trie_has_simps holds_add_neighbor)
next
  case (2 r rs nb i ns ch)
  show ?case
  proof (cases path)
    case (Cons r' rs')
    show ?thesis
    proof (cases "r' = r")
      case True
      then show ?thesis using 2 by (cases "im_get ch r") (simp_all add: Cons trie_has_simps trie_has_empty)
    next
      case False
      then show ?thesis by (simp add: Cons trie_has_simps)
    qed
  qed (simp add: trie_has_simps)
qed

lemma trie_has_foldl:
  "trie_has (foldl (\<lambda>root x. if P x then trie_insert (p x) (q x) i root else root) root xs) path nb idx \<longleftrightarrow>
     trie_has root path nb idx \<or> (\<exists>x \<in> set xs. P x \<and> path = p x \<and> nb = q x \<and> idx = i)"
  by (induction xs arbitrary: root) (auto simp: trie_has_insert)

text \<open>All increasing choices of positions, and the subsets they stand for.\<close>

definition choices :: "nat \<Rightarrow> nat list list" where
  "choices n = concat (map (\<lambda>i. concat (map (\<lambda>size. map ((#) i) (combos n (size - 1) (i + 1))) [1..<n + 1])) [0..<n])"

lemma sorted_wrt_less_length: "sorted_wrt (<) c \<Longrightarrow> set c \<subseteq> {a..<n} \<Longrightarrow> length c \<le> n - a"
proof -
  assume c: "sorted_wrt (<) c" "set c \<subseteq> {a..<n}"
  then have "card (set c) \<le> card {a..<n}" by (intro card_mono) auto
  then show ?thesis using c(1) by (simp add: strict_sorted_iff distinct_card)
qed

lemma set_choices: "set (choices n) = {c. c \<noteq> [] \<and> sorted_wrt (<) c \<and> set c \<subseteq> {..<n}}"
proof -
  have "c \<in> set (choices n) \<longleftrightarrow> c \<noteq> [] \<and> sorted_wrt (<) c \<and> set c \<subseteq> {..<n}" for c
  proof (cases c)
    case (Cons i c')
    have "c \<in> set (choices n) \<longleftrightarrow> i < n \<and> (\<exists>size \<in> {1..<n + 1}. c' \<in> set (combos n (size - 1) (i + 1)))"
      by (auto simp: choices_def Cons image_iff simp del: upt_Suc)
    also have "\<dots> \<longleftrightarrow> i < n \<and> sorted_wrt (<) c' \<and> set c' \<subseteq> {i + 1..<n}"
      unfolding set_combos using sorted_wrt_less_length [of c' "i + 1" n]
      by (auto intro!: bexI [of _ "length c' + 1"])
    also have "\<dots> \<longleftrightarrow> c \<noteq> [] \<and> sorted_wrt (<) c \<and> set c \<subseteq> {..<n}"
      by (auto simp: Cons Suc_le_eq subset_iff)
    finally show ?thesis .
  qed (auto simp: choices_def)
  then show ?thesis by blast
qed

text \<open>The splits of an edge that the trie records: a path is a subset in ascending order.\<close>

definition edge_split :: "join_set \<Rightarrow> nat list \<Rightarrow> join_set \<Rightarrow> bool" where
  "edge_split s path nb \<longleftrightarrow>
     (\<exists>S. S \<noteq> {} \<and> S \<subset> rels s \<and> path = sorted_list_of_set S \<and> rels nb = rels s - S)"

lemma sorted_nths:
  assumes "sorted_wrt (<) c" "set c \<subseteq> {..<length xs}" "sorted xs" "distinct xs"
  shows "sorted (map ((!) xs) c)" "distinct (map ((!) xs) c)"
proof -
  have "sorted_wrt (<) xs" using assms(3,4) by (simp add: strict_sorted_iff)
  then have "xs ! x < xs ! y" if "x < y" "y \<in> set c" for x y
    using that assms(2) by (intro sorted_wrt_nth_less) auto
  then have "sorted_wrt (<) (map ((!) xs) c)"
    unfolding sorted_wrt_map by (intro sorted_wrt_mono_rel [OF _ assms(1)])
  then show "sorted (map ((!) xs) c)" "distinct (map ((!) xs) c)" by (auto simp: strict_sorted_iff)
qed

lemma choice_split:
  assumes rel: "sorted relations" "distinct relations" "set relations = rels s"
    and c: "c \<in> set (choices (length relations))"
  defines "rest \<equiv> map ((!) relations) (filter (\<lambda>i. i \<notin> set c) [0..<length relations])"
  shows "sort (map ((!) relations) c) = sorted_list_of_set (set (map ((!) relations) c))"
    "rels (bits_of rest) = rels s - set (map ((!) relations) c)"
proof -
  have c': "sorted_wrt (<) c" "set c \<subseteq> {..<length relations}" using c by (auto simp: set_choices)
  note sd = sorted_nths [OF c' rel(1,2)]
  show "sort (map ((!) relations) c) = sorted_list_of_set (set (map ((!) relations) c))"
    using sd by (intro sorted_distinct_set_unique) (auto simp: sorted_sort_id)
  have "set rest = rels s - set (map ((!) relations) c)"
  proof -
    have "rels s = (!) relations ` {..<length relations}" unfolding rel(3) [symmetric] set_conv_nth by auto
    moreover have "inj_on ((!) relations) {..<length relations}" using rel(2) by (auto simp: inj_on_def nth_eq_iff_index_eq)
    ultimately have "rels s - (!) relations ` set c = (!) relations ` ({..<length relations} - set c)"
      using c'(2) by (simp add: inj_on_image_set_diff)
    moreover have "set rest = (!) relations ` ({..<length relations} - set c)" by (auto simp: rest_def)
    ultimately show ?thesis by simp
  qed
  moreover have "list_all (\<lambda>r. r < 64) rest" using calculation rels_less by (auto simp: list_all_iff)
  ultimately show "rels (bits_of rest) = rels s - set (map ((!) relations) c)" using rels_bits_of by simp
qed

lemma choice_of_subset:
  assumes rel: "sorted relations" "distinct relations" and S: "S \<noteq> {}" "S \<subseteq> set relations"
  shows "\<exists>c \<in> set (choices (length relations)). set (map ((!) relations) c) = S"
proof
  let ?c = "filter (\<lambda>i. relations ! i \<in> S) [0..<length relations]"
  have "x \<in> (!) relations ` set ?c" if "x \<in> S" for x
  proof -
    from that S(2) obtain i where "i < length relations" "relations ! i = x" by (meson in_set_conv_nth subsetD)
    then show ?thesis using that by auto
  qed
  then show e: "set (map ((!) relations) ?c) = S" by auto
  have "sorted_wrt (<) ?c" by (intro sorted_wrt_filter) simp
  moreover have "?c \<noteq> []" using e S(1) by force
  ultimately show "?c \<in> set (choices (length relations))" by (auto simp: set_choices)
qed

lemma generate_subsets_foldl:
  assumes "distinct relations" "i < length relations" "1 \<le> k"
  shows "generate_subsets_and_update_trie relations k i idx root =
    foldl (\<lambda>root c. add_combination relations idx c root) root (map ((#) i) (combos (length relations) (k - 1) (i + 1)))"
proof (cases "k = 1")
  case True
  have "filter (\<lambda>r. r \<noteq> relations ! i) relations = map ((!) relations) (filter (\<lambda>j. j \<noteq> i) [0..<length relations])"
  proof -
    have "filter (\<lambda>r. r \<noteq> relations ! i) (map ((!) relations) [0..<length relations]) =
        map ((!) relations) (filter (\<lambda>j. relations ! j \<noteq> relations ! i) [0..<length relations])"
      by (simp add: filter_map comp_def)
    moreover have "filter (\<lambda>j. relations ! j \<noteq> relations ! i) [0..<length relations] = filter (\<lambda>j. j \<noteq> i) [0..<length relations]"
      using assms(1,2) by (intro filter_cong) (auto simp: nth_eq_iff_index_eq)
    ultimately show ?thesis by (simp add: map_nth)
  qed
  then show ?thesis using True by (simp add: generate_subsets_and_update_trie_def add_combination_def Let_def)
next
  case False
  then show ?thesis by (simp add: generate_subsets_and_update_trie_def for_combinations_foldl foldl_map)
qed

lemma update_trie_foldl:
  assumes "distinct (jset_iter (je_join_set e))"
  shows "update_trie_for_edge e idx root =
    foldl (\<lambda>root c. add_combination (jset_iter (je_join_set e)) idx c root) root (choices (length (jset_iter (je_join_set e))))"
proof -
  let ?rs = "jset_iter (je_join_set e)"
  let ?n = "length ?rs" and ?f = "\<lambda>root c. add_combination (jset_iter (je_join_set e)) idx c root"
  have "foldl (\<lambda>root k. generate_subsets_and_update_trie ?rs k i idx root) r [1..<?n + 1] =
      foldl ?f r (concat (map (\<lambda>k. map ((#) i) (combos ?n (k - 1) (i + 1))) [1..<?n + 1]))" if "i \<in> set [0..<?n]" for i r
    unfolding foldl_concat [symmetric]
    by (rule foldl_cong) (use that generate_subsets_foldl [OF assms] in \<open>auto simp del: upt_Suc\<close>)
  then have "update_trie_for_edge e idx root =
      foldl (\<lambda>root i. foldl ?f root (concat (map (\<lambda>k. map ((#) i) (combos ?n (k - 1) (i + 1))) [1..<?n + 1]))) root [0..<?n]"
    unfolding update_trie_for_edge_def Let_def by (intro foldl_cong) auto
  then show ?thesis unfolding choices_def foldl_concat .
qed

lemma trie_has_update:
  "trie_has (update_trie_for_edge e idx root) path nb i \<longleftrightarrow>
     trie_has root path nb i \<or> (i = idx \<and> edge_split (je_join_set e) path nb)"
proof -
  let ?s = "je_join_set e"
  let ?rs = "jset_iter ?s"
  let ?rest = "\<lambda>c. map ((!) ?rs) (filter (\<lambda>i. i \<notin> set c) [0..<length ?rs])"
  have add: "add_combination ?rs idx c root =
      (if ?rest c \<noteq> [] then trie_insert (sort (map ((!) ?rs) c)) (bits_of (?rest c)) idx root else root)" for c root
    by (simp add: add_combination_def create_trie_path_and_add_neighbor_def Let_def)
  have "(\<exists>c \<in> set (choices (length ?rs)). ?rest c \<noteq> [] \<and> path = sort (map ((!) ?rs) c) \<and> nb = bits_of (?rest c)) \<longleftrightarrow>
      edge_split ?s path nb" (is "?L \<longleftrightarrow> _")
  proof
    assume ?L
    then obtain c where c: "c \<in> set (choices (length ?rs))" "?rest c \<noteq> []" "path = sort (map ((!) ?rs) c)" "nb = bits_of (?rest c)"
      by blast
    note sp = choice_split [OF sorted_jset_iter distinct_jset_iter set_jset_iter c(1)]
    let ?S = "set (map ((!) ?rs) c)"
    have c': "c \<noteq> []" "set c \<subseteq> {..<length ?rs}" using c(1) by (auto simp: set_choices)
    have "?S \<subseteq> rels ?s" using c'(2) nth_mem [of _ ?rs] by auto
    moreover have "rels nb \<noteq> {}"
    proof -
      obtain j where j: "j < length ?rs" "j \<notin> set c" using c(2) by (auto simp: filter_empty_conv)
      have "x = j" if "x \<in> set c" "?rs ! x = ?rs ! j" for x
        using that j(1) c'(2) nth_eq_iff_index_eq [OF distinct_jset_iter] by (meson lessThan_iff subsetD)
      then have "?rs ! j \<notin> ?S" using j(2) by auto
      moreover have "?rs ! j \<in> rels ?s" using nth_mem [OF j(1)] by simp
      ultimately show ?thesis using sp(2) c(4) by blast
    qed
    ultimately have "?S \<noteq> {} \<and> ?S \<subset> rels ?s \<and> path = sorted_list_of_set ?S \<and> rels nb = rels ?s - ?S"
      using sp c'(1) c(3,4) by (auto simp del: rels_empty_iff)
    then show "edge_split ?s path nb" unfolding edge_split_def by blast
  next
    assume "edge_split ?s path nb"
    then obtain S where S: "S \<noteq> {}" "S \<subset> rels ?s" "path = sorted_list_of_set S" "rels nb = rels ?s - S"
      unfolding edge_split_def by blast
    have "S \<subseteq> set ?rs" using S(2) by auto
    from choice_of_subset [OF sorted_jset_iter distinct_jset_iter S(1) this]
    obtain c where c: "c \<in> set (choices (length ?rs))" "set (map ((!) ?rs) c) = S" by blast
    note sp = choice_split [OF sorted_jset_iter distinct_jset_iter set_jset_iter c(1)]
    have "nb = bits_of (?rest c)" using S(4) sp(2) c(2) by (simp add: rels_eq_iff [symmetric])
    moreover have "?rest c \<noteq> []"
    proof
      assume "?rest c = []"
      then have "rels nb = {}" using calculation by (simp add: bits_of_def)
      then show False using S by auto
    qed
    moreover have "path = sort (map ((!) ?rs) c)" using S(3) sp(1) c(2) by simp
    ultimately show ?L using c(1) by blast
  qed
  then show ?thesis unfolding update_trie_foldl [OF distinct_jset_iter] add trie_has_foldl by auto
qed

section \<open>The invariant of the graph\<close>

definition edges_listed :: "query_edge \<Rightarrow> bool" where
  "edges_listed root \<longleftrightarrow>
     (\<forall>path node ni. trie_get path root = Some node \<longrightarrow> ni \<in> set (qe_neighbors node) \<longrightarrow> ni_edge_indices ni \<noteq> [])"

lemma edges_listed_simps:
  "edges_listed (Query_Edge ns ch) \<longleftrightarrow>
     (\<forall>ni \<in> set ns. ni_edge_indices ni \<noteq> []) \<and> (\<forall>r c. im_get ch r = Some c \<longrightarrow> edges_listed c)"
  (is "?L \<longleftrightarrow> ?R")
proof
  assume l: ?L
  have "edges_listed c" if c: "im_get ch r = Some c" for r c
    unfolding edges_listed_def
  proof (intro allI impI)
    fix path node ni
    assume "trie_get path c = Some node" "ni \<in> set (qe_neighbors node)"
    moreover have "trie_get (r # path) (Query_Edge ns ch) = trie_get path c" using c by simp
    ultimately show "ni_edge_indices ni \<noteq> []" using l unfolding edges_listed_def by metis
  qed
  moreover have "ni_edge_indices ni \<noteq> []" if "ni \<in> set ns" for ni
    using l that trie_get.simps(1) [of "Query_Edge ns ch"] unfolding edges_listed_def by (metis query_edge.sel(1))
  ultimately show ?R by blast
next
  assume r: ?R
  show ?L unfolding edges_listed_def
  proof (intro allI impI)
    fix path node ni
    assume "trie_get path (Query_Edge ns ch) = Some node" "ni \<in> set (qe_neighbors node)"
    then show "ni_edge_indices ni \<noteq> []"
      using r by (cases path) (auto simp: edges_listed_def simp del: map_of_eq_Some_iff split: option.splits)
  qed
qed

lemma add_neighbor_listed:
  "\<forall>ni \<in> set ns. ni_edge_indices ni \<noteq> [] \<Longrightarrow> ni \<in> set (add_neighbor nb i ns) \<Longrightarrow> ni_edge_indices ni \<noteq> []"
  by (induction ns) (auto split: if_splits)

lemma trie_insert_listed: "edges_listed root \<Longrightarrow> edges_listed (trie_insert p nb i root)"
proof (induction p nb i root rule: trie_insert.induct)
  case (1 nb i ns ch)
  then show ?case using add_neighbor_listed [of ns] by (auto simp: edges_listed_simps simp del: map_of_eq_Some_iff)
next
  case (2 r rs nb i ns ch)
  have "edges_listed (case im_get ch r of Some c \<Rightarrow> c | None \<Rightarrow> Query_Edge [] [])"
    using 2(2) by (auto simp: edges_listed_simps simp del: map_of_eq_Some_iff split: option.splits)
  from 2(1) [OF this] 2(2) show ?case by (auto simp: edges_listed_simps simp del: map_of_eq_Some_iff)
qed

lemma update_trie_listed: "edges_listed root \<Longrightarrow> edges_listed (update_trie_for_edge e idx root)"
  unfolding update_trie_foldl [OF distinct_jset_iter]
  by (rule foldl_inv [of edges_listed])
    (auto simp: add_combination_def create_trie_path_and_add_neighbor_def Let_def trie_insert_listed)

definition graph_ok :: "'f query_graph \<Rightarrow> bool" where
  "graph_ok g \<longleftrightarrow> edges_listed (qg_root_edge g) \<and>
     (\<forall>path nb idx. trie_has (qg_root_edge g) path nb idx \<longleftrightarrow>
        idx < length (qg_edges g) \<and> edge_split (je_join_set (qg_edges g ! idx)) path nb) \<and>
     (\<forall>nodes xs. qg_neighbor_cache g nodes = Some xs \<longrightarrow> xs = search_neighbors (qg_root_edge g) nodes)"

inductive graph_step :: "'f query_graph \<Rightarrow> 'f query_graph \<Rightarrow> bool" where
  graph_relation: "graph_step g (add_relation rel g)"
| graph_edge: "graph_step g (add_edge e g)"
| graph_search: "get_neighbors nodes g = (xs, g') \<Longrightarrow> graph_step g g'"

lemma graph_ok_step: "graph_step g g' \<Longrightarrow> graph_ok g \<Longrightarrow> graph_ok g'"
proof (induction rule: graph_step.induct)
  case (graph_relation g rel)
  then show ?case by (simp add: graph_ok_def add_relation_def)
next
  case (graph_edge g e)
  then show ?case
    by (auto simp: graph_ok_def add_edge_def trie_has_update update_trie_listed nth_append less_Suc_eq)
next
  case (graph_search nodes g xs g')
  then show ?case by (auto simp: graph_ok_def get_neighbors_def Let_def split: option.splits if_splits)
qed

interpretation graphs: step_invariant graph_step graph_ok
  by unfold_locales (rule graph_ok_step)

lemma graph_ok_new: "graph_ok query_graph_new"
  by (simp add: graph_ok_def query_graph_new_def edges_listed_simps trie_has_empty)

section \<open>What the searches find\<close>

text \<open>Both searches visit every non-empty choice of positions.\<close>

definition searched :: "nat \<Rightarrow> nat list list" where
  "searched n = concat (map (\<lambda>k. combos n k 0) [1..<n + 1])"

lemma set_searched: "set (searched n) = set (choices n)"
proof -
  have "c \<in> set (searched n) \<longleftrightarrow> c \<in> set (choices n)" for c
  proof -
    have "c \<in> set (searched n) \<longleftrightarrow> (\<exists>k \<in> {1..<n + 1}. sorted_wrt (<) c \<and> length c = k \<and> set c \<subseteq> {0..<n})"
      by (auto simp: searched_def set_combos simp del: upt_Suc combos.simps)
    also have "\<dots> \<longleftrightarrow> c \<noteq> [] \<and> sorted_wrt (<) c \<and> set c \<subseteq> {..<n}"
      using sorted_wrt_less_length [of c 0 n] by (auto simp: atLeast0LessThan Suc_le_eq less_Suc_eq_le)
    finally show ?thesis by (simp add: set_choices)
  qed
  then show ?thesis by blast
qed

lemma search_all:
  "foldl (\<lambda>acc k. if k = 1 then foldl (\<lambda>acc r. F [r] acc) acc relations
      else for_combinations (\<lambda>indices. F (map ((!) relations) indices)) (length relations) [] k 0 acc)
     acc [1..<length relations + 1] =
   foldl (\<lambda>acc c. F (map ((!) relations) c) acc) acc (searched (length relations))"
proof -
  have "foldl (\<lambda>acc r. F [r] acc) acc relations =
      foldl (\<lambda>acc c. F (map ((!) relations) c) acc) acc (combos (length relations) 1 0)" for acc
  proof -
    have "combos (length relations) 1 0 = map (\<lambda>i. [i]) [0..<length relations]" by (simp add: concat_map_singleton comp_def)
    then have "foldl (\<lambda>acc c. F (map ((!) relations) c) acc) acc (combos (length relations) 1 0) =
        foldl (\<lambda>acc i. F [relations ! i] acc) acc [0..<length relations]" by (simp add: foldl_map)
    also have "\<dots> = foldl (\<lambda>acc r. F [r] acc) acc (map ((!) relations) [0..<length relations])" by (simp only: foldl_map)
    finally show ?thesis by (simp add: map_nth)
  qed
  then show ?thesis
    unfolding searched_def foldl_concat [symmetric] by (intro foldl_cong) (auto simp: for_combinations_foldl)
qed

lemma trie_get_has:
  assumes "edges_listed root" "trie_get path root = Some node"
  shows "(\<exists>ni \<in> set (qe_neighbors node). P (ni_neighbor ni)) \<longleftrightarrow> (\<exists>nb idx. trie_has root path nb idx \<and> P nb)"
proof -
  have "\<exists>i. i \<in> set (ni_edge_indices ni)" if "ni \<in> set (qe_neighbors node)" for ni
    using assms that unfolding edges_listed_def by (metis last_in_set)
  then show ?thesis using assms(2) by (auto simp: trie_has_def holds_neighbor_def) metis
qed

lemma trie_get_None_has: "trie_get path root = None \<Longrightarrow> \<not> trie_has root path nb idx"
  by (simp add: trie_has_def)

lemma set_foldl_extend:
  "set (foldl (\<lambda>acc ni. if P ni then is_extend acc (f ni) else acc) acc ns) = set acc \<union> (\<Union>ni \<in> {ni \<in> set ns. P ni}. set (f ni))"
  by (induction ns arbitrary: acc) auto

lemma set_find_neighbors:
  assumes "edges_listed root"
  shows "set (find_neighbors_in_trie root chosen acc) =
    set acc \<union> {r. \<exists>nb idx. trie_has root (sort chosen) nb idx \<and> r \<in> rels nb}"
proof (cases "trie_get (sort chosen) root")
  case None
  then show ?thesis by (simp add: find_neighbors_in_trie_def trie_get_None_has)
next
  case (Some node)
  have "set (find_neighbors_in_trie root chosen acc) = set acc \<union> {r. \<exists>ni \<in> set (qe_neighbors node). r \<in> rels (ni_neighbor ni)}"
    using set_foldl_extend [of "\<lambda>_. True" "\<lambda>ni. jset_iter (ni_neighbor ni)" acc "qe_neighbors node"]
    by (auto simp: find_neighbors_in_trie_def Some)
  moreover have "(\<exists>ni \<in> set (qe_neighbors node). r \<in> rels (ni_neighbor ni)) \<longleftrightarrow>
      (\<exists>nb idx. trie_has root (sort chosen) nb idx \<and> r \<in> rels nb)" for r
    by (rule trie_get_has [OF assms Some])
  ultimately show ?thesis by simp
qed

lemma set_find_edges:
  "set (find_connecting_edges_in_trie root target chosen acc) =
    set acc \<union> {idx. \<exists>nb. trie_has root (sort chosen) nb idx \<and> \<not> is_disjoint nb target}"
proof (cases "trie_get (sort chosen) root")
  case None
  then show ?thesis by (simp add: find_connecting_edges_in_trie_def trie_get_None_has)
next
  case (Some node)
  then show ?thesis
    by (auto simp: find_connecting_edges_in_trie_def set_foldl_extend trie_has_def holds_neighbor_def)
qed

lemma set_foldl_find:
  "(\<And>x acc. set (F x acc) = set acc \<union> A x) \<Longrightarrow> set (foldl (\<lambda>acc x. F x acc) acc xs) = set acc \<union> (\<Union>x \<in> set xs. A x)"
  by (induction xs arbitrary: acc) auto

text \<open>The paths visited for a set of nodes are its non-empty subsets.\<close>

lemma choices_paths:
  "(\<lambda>c. sort (map ((!) (jset_iter s)) c)) ` set (choices (length (jset_iter s))) =
     sorted_list_of_set ` {S. S \<noteq> {} \<and> S \<subseteq> rels s}" (is "?f ` ?C = _ ` ?S")
proof
  let ?rs = "jset_iter s"
  note sp = choice_split(1) [OF sorted_jset_iter distinct_jset_iter set_jset_iter]
  show "?f ` ?C \<subseteq> sorted_list_of_set ` ?S"
  proof
    fix path assume "path \<in> ?f ` ?C"
    then obtain c where c: "c \<in> ?C" "path = ?f c" by blast
    have "c \<noteq> []" "set c \<subseteq> {..<length ?rs}" using c(1) by (auto simp: set_choices)
    then have "set (map ((!) ?rs) c) \<in> ?S" using nth_mem [of _ ?rs] by auto
    then show "path \<in> sorted_list_of_set ` ?S" using sp [OF c(1)] c(2) by blast
  qed
  show "sorted_list_of_set ` ?S \<subseteq> ?f ` ?C"
  proof
    fix path assume "path \<in> sorted_list_of_set ` ?S"
    then obtain S where S: "S \<noteq> {}" "S \<subseteq> set ?rs" "path = sorted_list_of_set S" by auto
    from choice_of_subset [OF sorted_jset_iter distinct_jset_iter S(1,2)] obtain c where
      "c \<in> ?C" "set (map ((!) ?rs) c) = S" by blast
    then show "path \<in> ?f ` ?C" using sp S(3) by force
  qed
qed

lemma edge_split_inj:
  "finite S \<Longrightarrow> edge_split s (sorted_list_of_set S) nb \<longleftrightarrow> S \<noteq> {} \<and> S \<subset> rels s \<and> rels nb = rels s - S"
  unfolding edge_split_def
  by (metis finite_rels finite_subset psubset_imp_subset set_sorted_list_of_set)

text \<open>The reference: scan all edges.\<close>

definition neighbor_set :: "join_edge list \<Rightarrow> join_set \<Rightarrow> nat set" where
  "neighbor_set edges nodes =
     {r. \<exists>e \<in> set edges. r \<in> rels (je_join_set e) \<and> (\<exists>s \<in> rels nodes \<inter> rels (je_join_set e). s \<noteq> r)}"

lemma trie_has_ok:
  "graph_ok g \<Longrightarrow> finite S \<Longrightarrow> trie_has (qg_root_edge g) (sorted_list_of_set S) nb idx \<longleftrightarrow>
     idx < length (qg_edges g) \<and> S \<noteq> {} \<and> S \<subset> rels (je_join_set (qg_edges g ! idx)) \<and>
     rels nb = rels (je_join_set (qg_edges g ! idx)) - S"
  by (auto simp: graph_ok_def edge_split_inj)

lemma search_neighbors_spec:
  assumes "graph_ok g"
  shows "search_neighbors (qg_root_edge g) nodes = sorted_list_of_set (neighbor_set (qg_edges g) nodes)"
proof -
  let ?root = "qg_root_edge g" and ?rs = "jset_iter nodes"
  let ?found = "foldl (\<lambda>acc c. find_neighbors_in_trie ?root (map ((!) ?rs) c) acc) [] (searched (length ?rs))"
  have el: "edges_listed ?root" using assms by (simp add: graph_ok_def)
  have s: "search_neighbors ?root nodes = sort ?found"
    unfolding search_neighbors_def find_neighbors_for_subsets_def Let_def search_all ..
  have "distinct (find_neighbors_in_trie ?root chosen acc)" if "distinct acc" for chosen acc
    using that by (auto simp: find_neighbors_in_trie_def split: option.splits intro!: foldl_inv [of distinct])
  then have d: "distinct ?found" by (intro foldl_inv [of distinct]) auto
  have "set ?found = (\<Union>path \<in> (\<lambda>c. sort (map ((!) ?rs) c)) ` set (choices (length ?rs)).
      {r. \<exists>nb idx. trie_has ?root path nb idx \<and> r \<in> rels nb})"
    using set_foldl_find [where F = "\<lambda>c. find_neighbors_in_trie ?root (map ((!) ?rs) c)", OF set_find_neighbors [OF el]]
    by (simp add: set_searched)
  also have "\<dots> = (\<Union>S \<in> {S. S \<noteq> {} \<and> S \<subseteq> rels nodes}. {r. \<exists>nb idx. trie_has ?root (sorted_list_of_set S) nb idx \<and> r \<in> rels nb})"
    unfolding choices_paths by simp
  also have "\<dots> = neighbor_set (qg_edges g) nodes"
  proof (intro set_eqI iffI)
    fix r
    assume "r \<in> (\<Union>S \<in> {S. S \<noteq> {} \<and> S \<subseteq> rels nodes}. {r. \<exists>nb idx. trie_has ?root (sorted_list_of_set S) nb idx \<and> r \<in> rels nb})"
    then obtain S nb idx where S: "S \<noteq> {}" "S \<subseteq> rels nodes" "trie_has ?root (sorted_list_of_set S) nb idx" "r \<in> rels nb" by blast
    then have "finite S" using finite_rels finite_subset by blast
    with S trie_has_ok [OF assms] have idx: "idx < length (qg_edges g)" "S \<subset> rels (je_join_set (qg_edges g ! idx))"
      "r \<in> rels (je_join_set (qg_edges g ! idx)) - S" by auto
    obtain s where "s \<in> S" using S(1) by blast
    then have "s \<in> rels nodes \<inter> rels (je_join_set (qg_edges g ! idx))" "s \<noteq> r" using S(2) idx(2,3) by auto
    then show "r \<in> neighbor_set (qg_edges g) nodes"
      unfolding neighbor_set_def using idx(3)
      by (intro CollectI bexI [OF _ nth_mem [OF idx(1)]] conjI bexI [of _ s]) simp_all
  next
    fix r
    assume "r \<in> neighbor_set (qg_edges g) nodes"
    then obtain idx s where i: "idx < length (qg_edges g)" "r \<in> rels (je_join_set (qg_edges g ! idx))"
      "s \<in> rels nodes" "s \<in> rels (je_join_set (qg_edges g ! idx))" "s \<noteq> r"
      by (auto simp: neighbor_set_def in_set_conv_nth)
    let ?nb = "jset_diff (je_join_set (qg_edges g ! idx)) (2 ^ s)"
    have "s < 64" using i(3) rels_less by blast
    then have "rels ?nb = rels (je_join_set (qg_edges g ! idx)) - {s}" by simp
    then have "trie_has ?root (sorted_list_of_set {s}) ?nb idx \<and> r \<in> rels ?nb"
      using i by (subst trie_has_ok [OF assms]) auto
    then show "r \<in> (\<Union>S \<in> {S. S \<noteq> {} \<and> S \<subseteq> rels nodes}. {r. \<exists>nb idx. trie_has ?root (sorted_list_of_set S) nb idx \<and> r \<in> rels nb})"
      using i(3) by blast
  qed
  finally have f: "set ?found = neighbor_set (qg_edges g) nodes" .
  show ?thesis unfolding s f [symmetric]
    by (rule sorted_distinct_set_unique) (simp_all add: d)
qed

lemma connecting_edges_spec:
  assumes "graph_ok g"
  shows "set (get_connecting_edge_indices g left right) =
    (if is_disjoint left right then {idx. edge_connects g left right idx} else {})"
    and "distinct (get_connecting_edge_indices g left right)"
proof -
  let ?root = "qg_root_edge g" and ?rs = "jset_iter left"
  let ?found = "foldl (\<lambda>acc c. find_connecting_edges_in_trie ?root right (map ((!) ?rs) c) acc) [] (searched (length ?rs))"
  have found: "get_connecting_edge_indices g left right = (if is_disjoint left right then filter (edge_connects g left right) ?found else [])"
    unfolding get_connecting_edge_indices_def find_connecting_edges_for_subsets_def Let_def search_all by simp
  have "distinct (find_connecting_edges_in_trie ?root right chosen acc)" if "distinct acc" for chosen acc
    using that by (auto simp: find_connecting_edges_in_trie_def split: option.splits intro!: foldl_inv [of distinct])
  then have "distinct ?found" by (intro foldl_inv [of distinct]) auto
  then show "distinct (get_connecting_edge_indices g left right)" by (simp add: found)
  have "set ?found = (\<Union>path \<in> (\<lambda>c. sort (map ((!) ?rs) c)) ` set (choices (length ?rs)).
      {idx. \<exists>nb. trie_has ?root path nb idx \<and> \<not> is_disjoint nb right})"
    using set_foldl_find [where F = "\<lambda>c. find_connecting_edges_in_trie ?root right (map ((!) ?rs) c)", OF set_find_edges]
    by (simp add: set_searched)
  also have "\<dots> = (\<Union>S \<in> {S. S \<noteq> {} \<and> S \<subseteq> rels left}. {idx. \<exists>nb. trie_has ?root (sorted_list_of_set S) nb idx \<and> \<not> is_disjoint nb right})"
    unfolding choices_paths by simp
  finally have sf: "set ?found = (\<Union>S \<in> {S. S \<noteq> {} \<and> S \<subseteq> rels left}. {idx. \<exists>nb. trie_has ?root (sorted_list_of_set S) nb idx \<and> \<not> is_disjoint nb right})" .
  have "idx \<in> set ?found" if dj: "is_disjoint left right" and c: "edge_connects g left right idx" for idx
  proof -
    let ?e = "je_join_set (qg_edges g ! idx)"
    let ?S = "rels ?e \<inter> rels left" and ?nb = "jset_diff ?e left"
    have idx: "idx < length (qg_edges g)" and e: "?S \<noteq> {}" "rels ?e \<inter> rels right \<noteq> {}"
      using c by (auto simp: edge_connects_def is_disjoint_rels split: if_splits)
    have d: "rels left \<inter> rels right = {}" using dj by (simp add: is_disjoint_rels)
    have "?S \<subset> rels ?e" using e(2) d by blast
    moreover have "rels ?nb = rels ?e - ?S" by auto
    ultimately have "trie_has ?root (sorted_list_of_set ?S) ?nb idx"
      using idx e(1) by (subst trie_has_ok [OF assms]) auto
    moreover have "\<not> is_disjoint ?nb right" using e(2) d by (auto simp: is_disjoint_rels)
    ultimately show ?thesis unfolding sf using e(1) by (intro UN_I [of ?S] CollectI) auto
  qed
  then have "set (filter (edge_connects g left right) ?found) = {idx. edge_connects g left right idx}"
    if "is_disjoint left right" using that by (simp only: set_filter) blast
  then show "set (get_connecting_edge_indices g left right) = (if is_disjoint left right then {idx. edge_connects g left right idx} else {})"
    unfolding found by simp
qed

lemma edge_connects_rels:
  "edge_connects g left right idx \<longleftrightarrow> idx < length (qg_edges g) \<and>
     rels (je_join_set (qg_edges g ! idx)) \<subseteq> rels left \<union> rels right \<and>
     rels (je_join_set (qg_edges g ! idx)) \<inter> rels left \<noteq> {} \<and> rels (je_join_set (qg_edges g ! idx)) \<inter> rels right \<noteq> {}"
  by (simp add: edge_connects_def is_subset_rels is_disjoint_rels Let_def)

lemma get_neighbors_spec:
  assumes "graph_ok g"
  shows "fst (get_neighbors nodes g) = sorted_list_of_set (neighbor_set (qg_edges g) nodes)"
proof -
  have "fst (get_neighbors nodes g) = search_neighbors (qg_root_edge g) nodes"
    using assms by (auto simp: get_neighbors_def graph_ok_def Let_def split: option.splits)
  then show ?thesis using search_neighbors_spec [OF assms] by simp
qed

section \<open>Properties\<close>

text \<open>
  C29. The trie search equals a scan of the edges. In every graph built by adding relations and
  edges, with any searches in between, the cached search over all subsets of a set of relations
  returns, in ascending order, exactly the relations that share an edge with another relation of the set;
  and the search for connecting edges returns, each once, exactly the edges that lie within two
  disjoint sets and meet both of them.
\<close>

theorem trie_search_equals_scan:
  assumes "graph_step\<^sup>*\<^sup>* query_graph_new g"
  shows "fst (get_neighbors nodes g) =
      sorted_list_of_set {r. \<exists>e \<in> set (qg_edges g). r \<in> rels (je_join_set e) \<and> (\<exists>s \<in> rels nodes \<inter> rels (je_join_set e). s \<noteq> r)} \<and>
    distinct (get_connecting_edge_indices g left right) \<and>
    set (get_connecting_edge_indices g left right) =
      {idx. idx < length (qg_edges g) \<and> rels left \<inter> rels right = {} \<and>
        rels (je_join_set (qg_edges g ! idx)) \<subseteq> rels left \<union> rels right \<and>
        rels (je_join_set (qg_edges g ! idx)) \<inter> rels left \<noteq> {} \<and> rels (je_join_set (qg_edges g ! idx)) \<inter> rels right \<noteq> {}}"
proof -
  have ok: "graph_ok g" using graphs.run_inv [OF assms graph_ok_new] .
  show ?thesis
    using get_neighbors_spec [OF ok, of nodes] connecting_edges_spec [OF ok, of left right]
    unfolding neighbor_set_def edge_connects_rels is_disjoint_rels by simp
qed

definition example_edge :: "nat list \<Rightarrow> join_edge" where
  "example_edge rs = \<lparr>je_join_set = bits_of rs, je_filter = 0, je_join_type = 0, je_null_equality = 0, je_equi_pairs = []\<rparr>"

definition example_relation :: "nat \<Rightarrow> int \<Rightarrow> int relation_node" where
  "example_relation r c = \<lparr>rn_plan = 0, rn_relation_id = r, rn_initial_cardinality = c, rn_base_cardinality = c,
     rn_distinct_counts = []\<rparr>"

definition example_query :: "int query_graph" where
  "example_query = add_edge (example_edge [0, 1, 3]) (add_edge (example_edge [1, 2])
     (foldl (\<lambda>g r. add_relation (example_relation r (100 + int r)) g) query_graph_new [0..<4]))"

lemma foldl_add_relation_reach: "graph_step\<^sup>*\<^sup>* g (foldl (\<lambda>g r. add_relation (f r) g) g rs)"
  by (induction rs arbitrary: g) (auto intro: converse_rtranclp_into_rtranclp graph_relation)

lemma example_query_reach: "graph_step\<^sup>*\<^sup>* query_graph_new example_query"
  unfolding example_query_def
  by (rule rtranclp.rtrancl_into_rtrancl, rule rtranclp.rtrancl_into_rtrancl, rule foldl_add_relation_reach)
    (rule graph_edge)+

theorem trie_search_equals_scan_witness:
  "fst (get_neighbors (bits_of [1]) example_query) = [0, 2, 3] \<and>
   distinct (get_connecting_edge_indices example_query (bits_of [0, 1]) (bits_of [3]))"
proof -
  have "fst (get_neighbors (bits_of [1]) example_query) = [0, 2, 3]" by code_simp
  then show ?thesis using trie_search_equals_scan [OF example_query_reach, of "bits_of [1]" "bits_of [0, 1]" "bits_of [3]"] by simp
qed

end
