(* ===== verification/Column_Names.thy ===== *)
theory Column_Names
  imports Query_Graph
begin

text \<open>
  The textual names of columns in the query graph (\<open>StableColumn\<close> of
  \<open>zelox-physical-optimizer/src/join_reorder/graph.rs\<close>), with the standard library's decimal
  printing and parsing of \<open>usize\<close>: parsing takes an optional plus sign and at least one digit and
  fails on overflow.
\<close>

section \<open>Decimal numbers\<close>

function show_nat :: "nat \<Rightarrow> string" where
  "show_nat n = (if n < 10 then [char_of (48 + n)] else show_nat (n div 10) @ [char_of (48 + n mod 10)])"
  by auto

termination
  by (relation "measure id") auto

declare show_nat.simps [simp del]

definition digit_of :: "char \<Rightarrow> nat option" where
  "digit_of c = (let k = of_char c :: nat in if 48 \<le> k \<and> k < 58 then Some (k - 48) else None)"

text \<open>\<open>checked_mul(10)\<close> and \<open>checked_add\<close> of the parser: any prefix beyond the largest value fails.\<close>

fun parse_digits :: "nat \<Rightarrow> string \<Rightarrow> nat option" where
  "parse_digits acc [] = Some acc"
| "parse_digits acc (c # cs) =
     (case digit_of c of
        None \<Rightarrow> None
      | Some d \<Rightarrow> if acc * 10 + d \<le> usize_max then parse_digits (acc * 10 + d) cs else None)"

definition parse_usize :: "string \<Rightarrow> nat option" where
  "parse_usize s =
     (let ds = (case s of [] \<Rightarrow> [] | c # cs \<Rightarrow> if c = CHR ''+'' then cs else s)
      in if ds = [] then None else parse_digits 0 ds)"

section \<open>Names\<close>

definition format_stable_name :: "nat \<Rightarrow> nat \<Rightarrow> string" where
  "format_stable_name rel col = ''R'' @ show_nat rel @ ''.C'' @ show_nat col"

fun find_char :: "char \<Rightarrow> string \<Rightarrow> nat option" where
  "find_char c [] = None"
| "find_char c (x # xs) = (if x = c then Some 0 else map_option Suc (find_char c xs))"

definition starts_with :: "char \<Rightarrow> string \<Rightarrow> bool" where
  "starts_with c s = (case s of [] \<Rightarrow> False | x # _ \<Rightarrow> x = c)"

definition parse_stable_name :: "string \<Rightarrow> (nat \<times> nat) option" where
  "parse_stable_name name =
     (if \<not> starts_with (CHR ''R'') name then None
      else case find_char (CHR ''.'') name of
             None \<Rightarrow> None
           | Some dot \<Rightarrow>
               let rel_str = drop 1 (take dot name) in
               if \<not> starts_with (CHR ''C'') (drop (dot + 1) name) then None
               else let col_str = drop (dot + 2) name in
                    case parse_usize rel_str of
                      None \<Rightarrow> None
                    | Some rel \<Rightarrow> map_option (\<lambda>col. (rel, col)) (parse_usize col_str))"

section \<open>The round trip\<close>

lemma digit_of_char: "d < 10 \<Longrightarrow> digit_of (char_of (48 + d)) = Some d"
  by (simp add: digit_of_def)

lemma parse_digits_append:
  "parse_digits acc (xs @ ys) = (case parse_digits acc xs of None \<Rightarrow> None | Some a \<Rightarrow> parse_digits a ys)"
  by (induction acc xs rule: parse_digits.induct) (auto split: option.splits)

lemma parse_show_nat: "n \<le> usize_max \<Longrightarrow> parse_digits 0 (show_nat n) = Some n"
proof (induction n rule: show_nat.induct)
  case (1 n)
  show ?case
  proof (cases "n < 10")
    case True
    then show ?thesis using 1(2) by (subst show_nat.simps) (simp add: digit_of_char)
  next
    case False
    have "parse_digits 0 (show_nat (n div 10)) = Some (n div 10)" using 1 False by simp
    then show ?thesis using 1(2) False digit_of_char [of "n mod 10"]
      by (subst show_nat.simps) (simp add: parse_digits_append)
  qed
qed

lemma show_nat_digits: "c \<in> set (show_nat n) \<Longrightarrow> digit_of c \<noteq> None"
proof (induction n rule: show_nat.induct)
  case (1 n)
  then show ?case using digit_of_char [of n] digit_of_char [of "n mod 10"]
    by (subst (asm) (2) show_nat.simps) (auto split: if_splits)
qed

lemma show_nat_nonempty: "show_nat n \<noteq> []"
  by (subst show_nat.simps) simp

lemma not_digit: "digit_of (CHR ''.'') = None" "digit_of (CHR ''+'') = None"
  by code_simp+

lemma parse_usize_show: "n \<le> usize_max \<Longrightarrow> parse_usize (show_nat n) = Some n"
proof -
  assume n: "n \<le> usize_max"
  obtain c cs where s: "show_nat n = c # cs" using show_nat_nonempty by (cases "show_nat n") auto
  have "c \<noteq> CHR ''+''" using show_nat_digits [of c n] s not_digit(2) by auto
  then show ?thesis using parse_show_nat [OF n] by (simp add: parse_usize_def s)
qed

lemma find_char_append: "c \<notin> set xs \<Longrightarrow> find_char c (xs @ c # ys) = Some (length xs)"
  by (induction xs) auto

text \<open>
  C30. Column names can be read back. The name made of the indices of a relation and of a column,
  any two values of \<open>usize\<close>, is parsed to exactly these indices; so different columns have
  different names.
\<close>

theorem stable_name_roundtrip:
  assumes "rel \<le> usize_max" and "col \<le> usize_max"
  shows "parse_stable_name (format_stable_name rel col) = Some (rel, col)"
proof -
  let ?p = "''R'' @ show_nat rel"
  have "CHR ''.'' \<notin> set ?p" using show_nat_digits [of "CHR ''.''" rel] not_digit(1) by auto
  then have "find_char (CHR ''.'') (?p @ CHR ''.'' # ''C'' @ show_nat col) = Some (length ?p)" by (rule find_char_append)
  moreover have "format_stable_name rel col = ?p @ CHR ''.'' # ''C'' @ show_nat col" by (simp add: format_stable_name_def)
  ultimately show ?thesis using parse_usize_show [OF assms(1)] parse_usize_show [OF assms(2)]
    by (simp add: parse_stable_name_def starts_with_def)
qed

theorem stable_name_roundtrip_witness:
  "format_stable_name 3 27 = ''R3.C27'' \<and> parse_stable_name ''R3.C27'' = Some (3, 27)"
proof -
  have "format_stable_name 3 27 = ''R3.C27''" by code_simp
  moreover have "(3 :: nat) \<le> usize_max" "(27 :: nat) \<le> usize_max" by (simp_all add: usize_max_def)
  ultimately show ?thesis using stable_name_roundtrip [of 3 27] by simp
qed

end
