(* ===== verification/Cardinality_Estimator.thy ===== *)
theory Cardinality_Estimator
  imports Query_Graph Complex_Main
begin

text \<open>
  The cardinality estimator of the join reordering (\<open>cardinality_estimator.rs\<close>): columns that
  equi-joins make equal are collected in equivalence sets, each with an estimate of the number of
  distinct values, from which the selectivity of an edge follows. The operations of \<open>f64\<close> are the
  record \<open>floats\<close>; \<open>conditions\<close> counts the conjuncts of a filter expression, which is a type of
  DataFusion. Columns are compared without their names, as pairs of a relation and a column index.
\<close>

section \<open>Numbers\<close>

record 'f floats =
  f_lit :: "rat \<Rightarrow> 'f"
  f_inf :: 'f
  f_add :: "'f \<Rightarrow> 'f \<Rightarrow> 'f"
  f_mul :: "'f \<Rightarrow> 'f \<Rightarrow> 'f"
  f_div :: "'f \<Rightarrow> 'f \<Rightarrow> 'f"
  f_max :: "'f \<Rightarrow> 'f \<Rightarrow> 'f"
  f_min :: "'f \<Rightarrow> 'f \<Rightarrow> 'f"
  f_lt :: "'f \<Rightarrow> 'f \<Rightarrow> bool"
  f_le :: "'f \<Rightarrow> 'f \<Rightarrow> bool"
  f_eq :: "'f \<Rightarrow> 'f \<Rightarrow> bool"
  f_total_less :: "'f \<Rightarrow> 'f \<Rightarrow> bool"
  f_is_finite :: "'f \<Rightarrow> bool"

section \<open>Equivalence sets\<close>

type_synonym column_key = "nat \<times> nat"

definition column_key :: "stable_column \<Rightarrow> column_key" where
  "column_key c = (sc_relation_id c, sc_column_index c)"

record 'f equivalence_set =
  es_columns :: "column_key list"
  es_t_dom_count :: 'f

definition equivalence_set_new :: "'f floats \<Rightarrow> 'f equivalence_set" where
  "equivalence_set_new F = \<lparr>es_columns = [], es_t_dom_count = f_lit F 0\<rparr>"

definition add_column :: "column_key \<Rightarrow> 'f equivalence_set \<Rightarrow> 'f equivalence_set" where
  "add_column c s = s\<lparr>es_columns := is_insert c (es_columns s)\<rparr>"

record 'f cardinality_estimator =
  ce_graph :: "'f query_graph"
  ce_cardinality_cache :: "join_set \<rightharpoonup> 'f"
  ce_equivalence_sets :: "'f equivalence_set list"
  ce_column_to_equiv_set :: "column_key \<rightharpoonup> nat"
  ce_initial_distinct_counts :: "column_key \<rightharpoonup> 'f"

definition count_of :: "'f floats \<Rightarrow> precision \<Rightarrow> 'f option" where
  "count_of F p = (case p of Exact c \<Rightarrow> Some (f_lit F (of_nat c)) | Inexact c \<Rightarrow> Some (f_lit F (of_nat c)) | Absent \<Rightarrow> None)"

definition populate_initial_distinct_counts :: "'f floats \<Rightarrow> 'f query_graph \<Rightarrow> column_key \<rightharpoonup> 'f" where
  "populate_initial_distinct_counts F g =
     foldl (\<lambda>m rel. foldl (\<lambda>m (i, p). case count_of F p of None \<Rightarrow> m | Some c \<Rightarrow> m((rn_relation_id rel, i) \<mapsto> c))
              m (enumerate 0 (rn_distinct_counts rel)))
       Map.empty (qg_relations g)"

text \<open>The loop over the sets keeps the last index that matches.\<close>

definition last_containing :: "column_key \<Rightarrow> 'f equivalence_set list \<Rightarrow> nat option" where
  "last_containing c sets = foldl (\<lambda>acc (i, s). if c \<in> set (es_columns s) then Some i else acc) None (enumerate 0 sets)"

definition merge_columns_into_sets ::
  "'f floats \<Rightarrow> 'f equivalence_set list \<Rightarrow> column_key \<Rightarrow> column_key \<Rightarrow> 'f equivalence_set list" where
  "merge_columns_into_sets F sets col1 col2 =
     (case (last_containing col1 sets, last_containing col2 sets) of
        (Some i1, Some i2) \<Rightarrow>
          if i1 \<noteq> i2 then
            let smaller_idx = min i1 i2; larger_idx = max i1 i2;
                set_to_merge = sets ! larger_idx; sets = remove_at larger_idx sets
            in sets[smaller_idx := foldl (\<lambda>s c. add_column c s) (sets ! smaller_idx) (es_columns set_to_merge)]
          else sets
      | (Some i, None) \<Rightarrow> sets[i := add_column col2 (sets ! i)]
      | (None, Some i) \<Rightarrow> sets[i := add_column col1 (sets ! i)]
      | (None, None) \<Rightarrow> sets @ [add_column col2 (add_column col1 (equivalence_set_new F))])"

definition estimate_tdom_for_set :: "'f floats \<Rightarrow> 'f query_graph \<Rightarrow> (column_key \<rightharpoonup> 'f) \<Rightarrow> 'f equivalence_set \<Rightarrow> 'f equivalence_set" where
  "estimate_tdom_for_set F g counts s =
     (let (max_known_distinct, min_base_card, has_known_stats) =
        foldl (\<lambda>(mx, mn, known) c.
            let (mx, known) = (case counts c of Some d \<Rightarrow> (f_max F mx d, True) | None \<Rightarrow> (mx, known));
                mn = (case get_relation g (fst c) of Some rel \<Rightarrow> f_min F mn (rn_base_cardinality rel) | None \<Rightarrow> mn)
            in (mx, mn, known))
          (f_lit F 0, f_inf F, False) (es_columns s);
        tdom = (if has_known_stats then f_max F max_known_distinct (f_lit F 1)
                else if f_is_finite F min_base_card then f_max F min_base_card (f_lit F 1)
                else f_lit F 1);
        tdom = (if f_is_finite F min_base_card then f_max F (f_min F tdom min_base_card) (f_lit F 1) else tdom)
      in s\<lparr>es_t_dom_count := tdom\<rparr>)"

definition merge_all :: "'f floats \<Rightarrow> join_edge list \<Rightarrow> 'f equivalence_set list" where
  "merge_all F edges =
     foldl (\<lambda>sets e. foldl (\<lambda>sets (l, r). merge_columns_into_sets F sets (column_key l) (column_key r)) sets (je_equi_pairs e)) [] edges"

definition init_equivalence_sets ::
  "'f floats \<Rightarrow> 'f query_graph \<Rightarrow> (column_key \<rightharpoonup> 'f) \<Rightarrow> 'f equivalence_set list \<times> (column_key \<rightharpoonup> nat)" where
  "init_equivalence_sets F g counts =
     (let sets = map (estimate_tdom_for_set F g counts) (merge_all F (qg_edges g))
      in (sets, foldl (\<lambda>m (i, s). foldl (\<lambda>m c. m(c \<mapsto> i)) m (es_columns s)) Map.empty (enumerate 0 sets)))"

definition cardinality_estimator_new :: "'f floats \<Rightarrow> 'f query_graph \<Rightarrow> 'f cardinality_estimator" where
  "cardinality_estimator_new F g =
     (let counts = populate_initial_distinct_counts F g; (sets, lookup) = init_equivalence_sets F g counts
      in \<lparr>ce_graph = g, ce_cardinality_cache = Map.empty, ce_equivalence_sets = sets, ce_column_to_equiv_set = lookup,
          ce_initial_distinct_counts = counts\<rparr>)"

section \<open>Estimates\<close>

definition get_tdom_for_edge :: "'f floats \<Rightarrow> 'f cardinality_estimator \<Rightarrow> join_edge \<Rightarrow> 'f" where
  "get_tdom_for_edge F ce e =
     (if je_equi_pairs e = [] then f_lit F 1
      else
        let used = foldl (\<lambda>acc (l, r).
                let acc = (case ce_column_to_equiv_set ce (column_key l) of Some i \<Rightarrow> is_insert i acc | None \<Rightarrow> acc)
                in (case ce_column_to_equiv_set ce (column_key r) of Some i \<Rightarrow> is_insert i acc | None \<Rightarrow> acc))
              [] (je_equi_pairs e);
            min_base_card =
              f_max F (foldl (f_min F) (f_inf F)
                  (map (\<lambda>i. case get_relation (ce_graph ce) i of Some rel \<Rightarrow> rn_base_cardinality rel | None \<Rightarrow> f_lit F 1)
                    (jset_iter (je_join_set e)))) (f_lit F 1)
        in if used = [] then min_base_card
           else
             let tdom_product = foldl (\<lambda>acc i.
                   f_mul F acc (f_max F (if i < length (ce_equivalence_sets ce) then es_t_dom_count (ce_equivalence_sets ce ! i) else f_lit F 1) (f_lit F 1)))
                 (f_lit F 1) used
             in f_max F (f_min F tdom_product min_base_card) (f_lit F 1))"

definition get_edges_contained_in_set :: "'f cardinality_estimator \<Rightarrow> join_set \<Rightarrow> join_edge list" where
  "get_edges_contained_in_set ce s = filter (\<lambda>e. is_subset (je_join_set e) s) (qg_edges (ce_graph ce))"

definition estimate_multi_relation_cardinality :: "'f floats \<Rightarrow> 'f cardinality_estimator \<Rightarrow> join_set \<Rightarrow> 'f" where
  "estimate_multi_relation_cardinality F ce s =
     (let numerator = foldl (f_mul F) (f_lit F 1)
            (map (\<lambda>i. case get_relation (ce_graph ce) i of Some rel \<Rightarrow> rn_initial_cardinality rel | None \<Rightarrow> f_lit F 1) (jset_iter s));
          denominator = foldl (\<lambda>acc e. let tdom = get_tdom_for_edge F ce e in if f_lt F (f_lit F 1) tdom then f_mul F acc tdom else acc)
            (f_lit F 1) (get_edges_contained_in_set ce s)
      in f_div F numerator denominator)"

text \<open>The value \<open>estimate_cardinality\<close> computes when the set is not in the cache.\<close>

definition estimated_cardinality :: "'f floats \<Rightarrow> 'f cardinality_estimator \<Rightarrow> join_set \<Rightarrow> 'f df_result" where
  "estimated_cardinality F ce s =
     (if cardinality s = 1 then
        (case jset_iter s of
           [] \<Rightarrow> Inl (DF_Internal ''Single relation join_set should have one element'')
         | i # _ \<Rightarrow> Inr (case get_relation (ce_graph ce) i of Some rel \<Rightarrow> rn_initial_cardinality rel | None \<Rightarrow> f_lit F 1))
      else Inr (estimate_multi_relation_cardinality F ce s))"

definition cached_cardinality :: "'f floats \<Rightarrow> join_set \<Rightarrow> 'f cardinality_estimator \<Rightarrow> 'f df_result \<times> 'f cardinality_estimator" where
  "cached_cardinality F s ce =
     (case ce_cardinality_cache ce s of
        Some crd \<Rightarrow> (Inr crd, ce)
      | None \<Rightarrow>
          (case estimated_cardinality F ce s of
             Inl e \<Rightarrow> (Inl e, ce)
           | Inr crd \<Rightarrow> (Inr crd, ce\<lparr>ce_cardinality_cache := (ce_cardinality_cache ce)(s \<mapsto> crd)\<rparr>)))"

definition has_non_equi_filter :: "(nat \<Rightarrow> nat) \<Rightarrow> join_edge \<Rightarrow> bool" where
  "has_non_equi_filter conditions e = (conditions (je_filter e) > length (je_equi_pairs e))"

definition edge_selectivity :: "'f floats \<Rightarrow> (nat \<Rightarrow> nat) \<Rightarrow> 'f cardinality_estimator \<Rightarrow> join_edge \<Rightarrow> 'f \<Rightarrow> 'f" where
  "edge_selectivity F conditions ce e selectivity =
     (let selectivity =
        (if je_equi_pairs e \<noteq> [] then
           let tdom = get_tdom_for_edge F ce e in
           if f_lt F (f_lit F 1) tdom then f_mul F selectivity (f_div F (f_lit F 1) tdom)
           else f_mul F selectivity (f_lit F (1 / 10))
         else f_mul F selectivity (f_lit F 1))
      in if has_non_equi_filter conditions e \<and> je_equi_pairs e \<noteq> [] then f_mul F selectivity (f_lit F (4 / 5)) else selectivity)"

text \<open>\<open>estimate_join_cardinality\<close>; the indices are those of edges of the graph.\<close>

definition split_cardinality :: "'f floats \<Rightarrow> (nat \<Rightarrow> nat) \<Rightarrow> 'f cardinality_estimator \<Rightarrow> 'f \<Rightarrow> 'f \<Rightarrow> nat list \<Rightarrow> 'f" where
  "split_cardinality F conditions ce left_card right_card indices =
     f_mul F (f_mul F left_card right_card)
       (foldl (\<lambda>sel i. edge_selectivity F conditions ce (qg_edges (ce_graph ce) ! i) sel) (f_lit F 1) indices)"

end
