(* ===== verification/Column_Classes.thy ===== *)
theory Column_Classes
  imports Cardinality_Estimator
begin

text \<open>
  The equivalence sets of the cardinality estimator are the classes of the smallest equivalence that
  relates the two columns of every equi-join pair: merging the sets one pair at a time computes the
  symmetric and transitive closure of the pairs.
\<close>

section \<open>Closing a relation under one more pair\<close>

definition per :: "('a \<times> 'a) set \<Rightarrow> ('a \<times> 'a) set" where
  "per R = (R \<union> R\<inverse>)\<^sup>+"

lemma per_sym: "(x, y) \<in> per R \<Longrightarrow> (y, x) \<in> per R"
proof -
  have "sym (R \<union> R\<inverse>)" by (auto simp: sym_def)
  then show "(x, y) \<in> per R \<Longrightarrow> (y, x) \<in> per R" unfolding per_def by (metis sym_trancl symD)
qed

lemma per_trans: "(x, y) \<in> per R \<Longrightarrow> (y, z) \<in> per R \<Longrightarrow> (x, z) \<in> per R"
  by (auto simp: per_def)

lemma per_mono: "R \<subseteq> S \<Longrightarrow> per R \<subseteq> per S"
  unfolding per_def by (intro trancl_mono_subset) auto

definition class_of :: "('a \<times> 'a) set \<Rightarrow> 'a \<Rightarrow> 'a set" where
  "class_of R a = insert a {x. (x, a) \<in> per R}"

lemma class_step: "x \<in> class_of R a \<Longrightarrow> (x, y) \<in> per R \<Longrightarrow> y \<in> class_of R a"
  unfolding class_of_def using per_sym [of _ _ R] per_trans [of _ _ R] by blast

lemma per_insert:
  "(x, y) \<in> per (insert (a, b) R) \<longleftrightarrow> (x, y) \<in> per R \<or> {x, y} \<subseteq> class_of R a \<union> class_of R b"
proof
  let ?C = "class_of R a \<union> class_of R b"
  assume "(x, y) \<in> per (insert (a, b) R)"
  then have "(x, y) \<in> (insert (a, b) R \<union> (insert (a, b) R)\<inverse>)\<^sup>+" by (simp add: per_def)
  then show "(x, y) \<in> per R \<or> {x, y} \<subseteq> ?C"
  proof (induction rule: trancl_induct)
    case (base y)
    then show ?case by (auto simp: per_def class_of_def)
  next
    case (step y z)
    have yz: "(y, z) \<in> per R \<or> {y, z} \<subseteq> ?C" using step.hyps(2) by (auto simp: per_def class_of_def)
    from step.IH yz show ?case
    proof (elim disjE)
      assume "(x, y) \<in> per R" "{y, z} \<subseteq> ?C"
      then show ?thesis using class_step [OF _ per_sym, of y R _ x] by blast
    next
      assume "{x, y} \<subseteq> ?C" "(y, z) \<in> per R"
      then show ?thesis using class_step [of y R _ z] by blast
    qed (auto intro: per_trans)
  qed
next
  let ?S = "insert (a, b) R"
  assume "(x, y) \<in> per R \<or> {x, y} \<subseteq> class_of R a \<union> class_of R b"
  then show "(x, y) \<in> per ?S"
  proof
    assume "(x, y) \<in> per R"
    then show ?thesis using per_mono [of R ?S] by blast
  next
    assume xy: "{x, y} \<subseteq> class_of R a \<union> class_of R b"
    have ab: "(a, b) \<in> per ?S" "(b, a) \<in> per ?S" by (auto simp: per_def)
    have "(z, a) \<in> per ?S" if "z \<in> class_of R a \<union> class_of R b" for z
    proof -
      have m: "(z, c) \<in> per ?S" if "(z, c) \<in> per R" for c using that per_mono [of R ?S] by blast
      from that consider "z = a" | "z = b" | "(z, a) \<in> per R" | "(z, b) \<in> per R" by (auto simp: class_of_def)
      then show ?thesis by cases (use m per_trans [OF ab] per_trans [OF m ab(2)] ab(2) in blast)+
    qed
    then have "(x, a) \<in> per ?S" "(y, a) \<in> per ?S" using xy by auto
    then show ?thesis using per_trans [OF _ per_sym] by metis
  qed
qed

section \<open>Merging classes\<close>

abbreviation cols :: "'f equivalence_set \<Rightarrow> column_key set" where
  "cols s \<equiv> set (es_columns s)"

definition same_set :: "'f equivalence_set list \<Rightarrow> column_key \<Rightarrow> column_key \<Rightarrow> bool" where
  "same_set sets x y \<longleftrightarrow> (\<exists>s \<in> set sets. x \<in> cols s \<and> y \<in> cols s)"

definition separate :: "'f equivalence_set list \<Rightarrow> bool" where
  "separate sets \<longleftrightarrow> (\<forall>i < length sets. \<forall>j < length sets. i \<noteq> j \<longrightarrow> cols (sets ! i) \<inter> cols (sets ! j) = {})"

definition represents :: "'f equivalence_set list \<Rightarrow> (column_key \<times> column_key) set \<Rightarrow> bool" where
  "represents sets R \<longleftrightarrow> separate sets \<and> (\<forall>x y. same_set sets x y \<longleftrightarrow> (x, y) \<in> per R)"

lemma add_column_cols [simp]: "cols (add_column c s) = insert c (cols s)"
  by (simp add: add_column_def)

lemma add_columns_cols: "cols (foldl (\<lambda>s c. add_column c s) s cs) = cols s \<union> set cs"
  by (induction cs arbitrary: s) auto

lemma last_containing_append:
  "last_containing c (sets @ [s]) = (if c \<in> cols s then Some (length sets) else last_containing c sets)"
  by (simp add: last_containing_def enumerate_append_eq)

lemma last_containing_Nil: "last_containing c [] = None"
  by (simp add: last_containing_def)

lemma last_containing_Some: "last_containing c sets = Some i \<Longrightarrow> i < length sets \<and> c \<in> cols (sets ! i)"
  by (induction sets rule: rev_induct)
    (auto simp: last_containing_append last_containing_Nil nth_append split: if_splits)

lemma last_containing_None: "last_containing c sets = None \<Longrightarrow> s \<in> set sets \<Longrightarrow> c \<notin> cols s"
  by (induction sets rule: rev_induct) (auto simp: last_containing_append split: if_splits)

lemma same_set_nth: "same_set sets x y \<longleftrightarrow> (\<exists>i < length sets. x \<in> cols (sets ! i) \<and> y \<in> cols (sets ! i))"
  unfolding same_set_def by (metis in_set_conv_nth)

lemma class_of_found:
  assumes "represents sets R" "i < length sets" "a \<in> cols (sets ! i)"
  shows "class_of R a = cols (sets ! i)"
proof -
  have "(x, a) \<in> per R \<longleftrightarrow> x \<in> cols (sets ! i)" for x
  proof -
    have "(x, a) \<in> per R \<longleftrightarrow> (\<exists>k < length sets. x \<in> cols (sets ! k) \<and> a \<in> cols (sets ! k))"
      using assms(1) unfolding represents_def same_set_nth by metis
    moreover have "k = i" if "k < length sets" "a \<in> cols (sets ! k)" for k
      using assms that unfolding represents_def separate_def by (metis disjoint_iff)
    ultimately show ?thesis using assms(2,3) by metis
  qed
  then show ?thesis using assms(3) by (auto simp: class_of_def)
qed

lemma class_of_absent:
  assumes "represents sets R" "last_containing a sets = None"
  shows "class_of R a = {a}"
proof -
  have "(x, a) \<notin> per R" for x
    using assms(1) last_containing_None [OF assms(2)] unfolding represents_def same_set_def by metis
  then show ?thesis by (simp add: class_of_def)
qed

lemma represents_insert:
  assumes "represents sets R" "separate sets'"
    and "\<And>x y. same_set sets' x y \<longleftrightarrow> same_set sets x y \<or> {x, y} \<subseteq> class_of R a \<union> class_of R b"
  shows "represents sets' (insert (a, b) R)"
  using assms unfolding represents_def per_insert by metis

text \<open>Replacing a set by a larger one that meets no other set.\<close>

lemma separate_update:
  assumes "separate sets" "i < length sets" "cols s = cols (sets ! i) \<union> D" "\<And>j. j < length sets \<Longrightarrow> j \<noteq> i \<Longrightarrow> cols (sets ! j) \<inter> D = {}"
  shows "separate (sets[i := s])"
proof -
  have "cols (sets[i := s] ! j) \<inter> cols (sets[i := s] ! k) = {}" if jk: "j < length sets" "k < length sets" "j \<noteq> k" for j k
  proof -
    have d: "cols (sets ! j) \<inter> cols (sets ! k) = {}" using assms(1) jk by (simp add: separate_def)
    consider "j = i" | "k = i" | "j \<noteq> i" "k \<noteq> i" by blast
    then show ?thesis
    proof cases
      case 1
      then show ?thesis using jk d assms(2,3) assms(4) [of k] by auto
    next
      case 2
      then show ?thesis using jk d assms(2,3) assms(4) [of j] by auto
    qed (use d jk in simp)
  qed
  then show ?thesis by (simp add: separate_def)
qed

lemma same_set_update:
  assumes "i < length sets" "cols (sets ! i) \<subseteq> cols s"
  shows "same_set (sets[i := s]) x y \<longleftrightarrow> same_set sets x y \<or> {x, y} \<subseteq> cols s"
  unfolding same_set_nth using assms by (auto simp: nth_list_update)

lemma separateD: "separate sets \<Longrightarrow> i < length sets \<Longrightarrow> j < length sets \<Longrightarrow> i \<noteq> j \<Longrightarrow> cols (sets ! i) \<inter> cols (sets ! j) = {}"
  by (simp add: separate_def)

lemma remove_at_nth:
  assumes "i < length (remove_at k sets)"
  shows "remove_at k sets ! i = sets ! (if i < k then i else Suc i)" "(if i < k then i else Suc i) < length sets"
  using assms by (auto simp: remove_at_def nth_append min_def split: if_splits)

lemma separate_remove:
  assumes "separate sets"
  shows "separate (remove_at k sets)"
  unfolding separate_def
proof (intro allI impI)
  fix i j assume ij: "i < length (remove_at k sets)" "j < length (remove_at k sets)" "i \<noteq> j"
  then have "(if i < k then i else Suc i) \<noteq> (if j < k then j else Suc j)" by auto
  from separateD [OF assms remove_at_nth(2) [OF ij(1)] remove_at_nth(2) [OF ij(2)] this]
  show "cols (remove_at k sets ! i) \<inter> cols (remove_at k sets ! j) = {}"
    unfolding remove_at_nth(1) [OF ij(1)] remove_at_nth(1) [OF ij(2)] .
qed

lemma same_set_remove:
  "k < length sets \<Longrightarrow> same_set sets x y \<longleftrightarrow> same_set (remove_at k sets) x y \<or> {x, y} \<subseteq> cols (sets ! k)"
proof -
  assume "k < length sets"
  from set_remove_at [OF this] show ?thesis by (auto simp: same_set_def)
qed

lemma merge_represents:
  assumes rep: "represents sets R"
  shows "represents (merge_columns_into_sets F sets a b) (insert (a, b) R)"
proof -
  have sep: "separate sets" using rep by (simp add: represents_def)
  consider (both) i j where "last_containing a sets = Some i" "last_containing b sets = Some j"
    | (left) i where "last_containing a sets = Some i" "last_containing b sets = None"
    | (right) j where "last_containing a sets = None" "last_containing b sets = Some j"
    | (none) "last_containing a sets = None" "last_containing b sets = None"
    by (metis option.exhaust)
  then show ?thesis
  proof cases
    case left
    note i = last_containing_Some [OF left(1)] and no = last_containing_None [OF left(2)]
    have c: "class_of R a \<union> class_of R b = insert b (cols (sets ! i))"
      using class_of_found [OF rep, of i a] i class_of_absent [OF rep left(2)] by simp
    show ?thesis
      unfolding merge_columns_into_sets_def left option.case prod.case
    proof (rule represents_insert [OF rep])
      show "separate (sets[i := add_column b (sets ! i)])" using i no by (intro separate_update [OF sep, where D = "{b}"]) auto
    qed (use i same_set_update [of i sets "add_column b (sets ! i)"] c in auto)
  next
    case right
    note j = last_containing_Some [OF right(2)] and no = last_containing_None [OF right(1)]
    have c: "class_of R a \<union> class_of R b = insert a (cols (sets ! j))"
      using class_of_found [OF rep, of j b] j class_of_absent [OF rep right(1)] by simp
    show ?thesis
      unfolding merge_columns_into_sets_def right option.case prod.case
    proof (rule represents_insert [OF rep])
      show "separate (sets[j := add_column a (sets ! j)])" using j no by (intro separate_update [OF sep, where D = "{a}"]) auto
    qed (use j same_set_update [of j sets "add_column a (sets ! j)"] c in auto)
  next
    case none
    let ?s = "add_column b (add_column a (equivalence_set_new F))"
    have s: "cols ?s = {a, b}" by (auto simp: equivalence_set_new_def)
    have no: "cols t \<inter> {a, b} = {}" if "t \<in> set sets" for t
      using last_containing_None [OF none(1) that] last_containing_None [OF none(2) that] by simp
    show ?thesis
      unfolding merge_columns_into_sets_def none option.case prod.case
    proof (rule represents_insert [OF rep])
      show "separate (sets @ [?s])" using sep no unfolding separate_def
        by (auto simp: nth_append less_Suc_eq equivalence_set_new_def dest!: nth_mem)
    qed (use class_of_absent [OF rep] none s in \<open>auto simp: same_set_def\<close>)
  next
    case both
    note i = last_containing_Some [OF both(1)] and j = last_containing_Some [OF both(2)]
    have c: "class_of R a = cols (sets ! i)" "class_of R b = cols (sets ! j)" using class_of_found [OF rep, of i a] class_of_found [OF rep, of j b] i j by simp_all
    show ?thesis
    proof (cases "i = j")
      case True
      have "same_set sets x y" if "{x, y} \<subseteq> cols (sets ! i)" for x y using that i by (auto simp: same_set_nth)
      then show ?thesis
        unfolding merge_columns_into_sets_def both option.case prod.case using True c
        by (simp add: Let_def) (rule represents_insert [OF rep sep], auto)
    next
      case False
      let ?k = "max i j" and ?m = "min i j"
      let ?rest = "remove_at ?k sets"
      let ?s = "foldl (\<lambda>s c. add_column c s) (?rest ! ?m) (es_columns (sets ! ?k))"
      have k: "?k < length sets" "?m < ?k" using i j False by auto
      have m: "?m < length ?rest" "?rest ! ?m = sets ! ?m" using k by (auto simp: remove_at_def nth_append)
      have s: "cols ?s = cols (sets ! ?m) \<union> cols (sets ! ?k)" by (simp add: add_columns_cols m(2))
      have u: "class_of R a \<union> class_of R b = cols ?s" unfolding c s by (auto simp: max_def min_def)
      have "represents (?rest[?m := ?s]) (insert (a, b) R)"
      proof (rule represents_insert [OF rep])
        show "separate (?rest[?m := ?s])"
        proof (rule separate_update [OF separate_remove [OF sep] m(1)])
          show "cols ?s = cols (?rest ! ?m) \<union> cols (sets ! ?k)" using s m(2) by simp
          fix l assume l: "l < length ?rest" "l \<noteq> ?m"
          have "(if l < ?k then l else Suc l) \<noteq> ?k" by auto
          from separateD [OF sep remove_at_nth(2) [OF l(1)] k(1) this]
          show "cols (?rest ! l) \<inter> cols (sets ! ?k) = {}" unfolding remove_at_nth(1) [OF l(1)] .
        qed
        show "same_set (?rest[?m := ?s]) x y \<longleftrightarrow> same_set sets x y \<or> {x, y} \<subseteq> class_of R a \<union> class_of R b" for x y
          using same_set_remove [OF k(1), of x y] same_set_update [OF m(1), of ?s x y] u s m(2) by auto
      qed
      then show ?thesis unfolding merge_columns_into_sets_def both option.case prod.case using False by (simp add: Let_def)
    qed
  qed
qed

section \<open>The sets of a query graph\<close>

definition equi_keys :: "join_edge list \<Rightarrow> (column_key \<times> column_key) set" where
  "equi_keys edges = (\<Union>e \<in> set edges. (\<lambda>(l, r). (column_key l, column_key r)) ` set (je_equi_pairs e))"

lemma represents_Nil: "represents [] {}"
  by (simp add: represents_def separate_def same_set_def per_def)

lemma merge_pairs_represents:
  "represents sets R \<Longrightarrow>
   represents (foldl (\<lambda>sets (l, r). merge_columns_into_sets F sets (column_key l) (column_key r)) sets ps)
     (R \<union> (\<lambda>(l, r). (column_key l, column_key r)) ` set ps)"
proof (induction ps arbitrary: sets R)
  case (Cons p ps)
  obtain l r where p: "p = (l, r)" by (cases p)
  from Cons.IH [OF merge_represents [OF Cons.prems]] show ?case by (simp add: p)
qed simp

lemma merge_all_represents: "represents (merge_all F edges) (equi_keys edges)"
proof -
  have "represents (foldl (\<lambda>sets e. foldl (\<lambda>sets (l, r). merge_columns_into_sets F sets (column_key l) (column_key r)) sets (je_equi_pairs e))
           sets edges) (R \<union> equi_keys edges)" if "represents sets R" for sets R
    using that
  proof (induction edges arbitrary: sets R)
    case (Cons e es)
    from Cons.IH [OF merge_pairs_represents [OF Cons.prems]] show ?case by (simp add: equi_keys_def Un_assoc)
  qed (simp add: equi_keys_def)
  from this [OF represents_Nil] show ?thesis by (simp add: merge_all_def)
qed

lemma tdom_cols [simp]: "es_columns (estimate_tdom_for_set F g counts s) = es_columns s"
  by (simp add: estimate_tdom_for_set_def Let_def split: prod.splits)

text \<open>The lookup the constructor fills keeps the last set of a column, and the sets are disjoint.\<close>

lemma lookup_columns: "foldl (\<lambda>m c. m(c \<mapsto> i)) m cs x = (if x \<in> set cs then Some i else m x)"
  by (induction cs arbitrary: m) auto

lemma lookup_last:
  "foldl (\<lambda>m (i, s). foldl (\<lambda>m c. m(c \<mapsto> i)) m (es_columns s)) Map.empty (enumerate 0 sets) x = last_containing x sets"
proof (induction sets rule: rev_induct)
  case (snoc s sets)
  then show ?case
    unfolding last_containing_append enumerate_append_eq foldl_append enumerate_simps foldl_Cons foldl_Nil prod.case lookup_columns by simp
qed (simp add: last_containing_Nil)

lemma last_containing_separate:
  assumes "separate sets"
  shows "last_containing x sets = Some i \<longleftrightarrow> i < length sets \<and> x \<in> cols (sets ! i)"
proof (cases "last_containing x sets")
  case None
  then show ?thesis using last_containing_None [OF None nth_mem] by simp
next
  case (Some k)
  then show ?thesis using last_containing_Some [OF Some] separateD [OF assms, of k i] by auto
qed

lemma represents_cong: "map es_columns sets = map es_columns sets' \<Longrightarrow> represents sets R \<longleftrightarrow> represents sets' R"
proof -
  assume eq: "map es_columns sets = map es_columns sets'"
  then have len: "length sets = length sets'" by (metis length_map)
  have "es_columns (sets ! i) = es_columns (sets' ! i)" if "i < length sets" for i
    using eq that len by (metis nth_map)
  with len show ?thesis by (simp add: represents_def separate_def same_set_nth cong: conj_cong)
qed

lemma estimator_represents: "represents (ce_equivalence_sets (cardinality_estimator_new F g)) (equi_keys (qg_edges g))"
proof -
  have "map es_columns (map (estimate_tdom_for_set F g counts) sets) = map es_columns sets" for counts sets by simp
  from represents_cong [OF this] merge_all_represents show ?thesis
    by (simp add: cardinality_estimator_new_def init_equivalence_sets_def Let_def)
qed

lemma estimator_lookup:
  "ce_column_to_equiv_set (cardinality_estimator_new F g) x = last_containing x (ce_equivalence_sets (cardinality_estimator_new F g))"
  by (simp add: cardinality_estimator_new_def init_equivalence_sets_def Let_def lookup_last)

text \<open>C33. The equivalence sets that the cardinality estimator builds from the join conditions of a query
  graph are the classes of columns that the conditions force to be equal: two columns are mapped to the
  same set exactly when a chain of equi-join pairs, used in either direction, leads from one to the other,
  and the column lookup names exactly the one set that contains the column. Merging two sets whenever a
  pair bridges them, which removes one and shifts the positions after it, loses no column and never
  leaves one in two sets.\<close>

theorem equivalence_sets_are_classes:
  "((\<exists>i. ce_column_to_equiv_set (cardinality_estimator_new F g) x = Some i \<and>
         ce_column_to_equiv_set (cardinality_estimator_new F g) y = Some i)
      \<longleftrightarrow> (x, y) \<in> (equi_keys (qg_edges g) \<union> (equi_keys (qg_edges g))\<inverse>)\<^sup>+)
   \<and> (ce_column_to_equiv_set (cardinality_estimator_new F g) x = Some i
      \<longleftrightarrow> i < length (ce_equivalence_sets (cardinality_estimator_new F g)) \<and>
          x \<in> set (es_columns (ce_equivalence_sets (cardinality_estimator_new F g) ! i)))"
proof -
  let ?sets = "ce_equivalence_sets (cardinality_estimator_new F g)"
  have rep: "represents ?sets (equi_keys (qg_edges g))" by (rule estimator_represents)
  then have found: "last_containing z ?sets = Some k \<longleftrightarrow> k < length ?sets \<and> z \<in> cols (?sets ! k)" for z k
    by (intro last_containing_separate) (simp add: represents_def)
  have "(\<exists>i. last_containing x ?sets = Some i \<and> last_containing y ?sets = Some i) \<longleftrightarrow> same_set ?sets x y"
    unfolding found same_set_nth by metis
  moreover have "same_set ?sets x y \<longleftrightarrow> (x, y) \<in> per (equi_keys (qg_edges g))" using rep unfolding represents_def by metis
  ultimately show ?thesis unfolding estimator_lookup per_def [symmetric] using found by simp
qed

end
