(* ===== verification/Plan_Enumerator.thy ===== *)
theory Plan_Enumerator
  imports Cardinality_Estimator
begin

text \<open>
  The plan enumerator of the join reordering (\<open>enumerator.rs\<close>, \<open>dp_plan.rs\<close> and \<open>cost_model.rs\<close> of
  \<open>zelox-physical-optimizer/src/join_reorder\<close>): dynamic programming over the connected subgraphs of
  the query graph, and the greedy left-deep order it falls back to. The operations of \<open>f64\<close> and the
  two estimates of the cardinality estimator are the record \<open>estimator\<close>, so that what is proved
  holds whatever they compute; \<open>estimator_of\<close> gives it the estimates of the source. An operation returns \<open>Inr False\<close>
  when it gives up at the limit on the number of plans and \<open>Inl\<close> when it fails.
\<close>

section \<open>The estimates\<close>

record 'f estimator = "'f floats" +
  estimate_cardinality :: "join_set \<Rightarrow> 'f df_result"
  estimate_join_cardinality :: "'f \<Rightarrow> 'f \<Rightarrow> nat list \<Rightarrow> 'f"

text \<open>The estimates of \<open>Cardinality_Estimator\<close> for a graph, as \<open>PlanEnumerator::new\<close> sets them up.\<close>

definition estimator_of :: "'f floats \<Rightarrow> (nat \<Rightarrow> nat) \<Rightarrow> 'f query_graph \<Rightarrow> 'f estimator" where
  "estimator_of F conditions g =
     floats.extend F
       \<lparr>estimate_cardinality = estimated_cardinality F (cardinality_estimator_new F g),
        estimate_join_cardinality = split_cardinality F conditions (cardinality_estimator_new F g)\<rparr>"

section \<open>Plans and their cost\<close>

datatype plan_type = Plan_Leaf nat | Plan_Join join_set join_set "nat list"

record 'f dp_plan =
  dp_join_set :: join_set
  dp_cost :: 'f
  dp_cardinality :: 'f
  dp_plan_type :: plan_type

definition new_leaf :: "'f estimator \<Rightarrow> nat \<Rightarrow> 'f \<Rightarrow> 'f dp_plan df_result" where
  "new_leaf E r crd =
     (case new_singleton r of
        Inl e \<Rightarrow> Inl e
      | Inr s \<Rightarrow> Inr \<lparr>dp_join_set = s, dp_cost = f_lit E 0, dp_cardinality = crd, dp_plan_type = Plan_Leaf r\<rparr>)"

definition new_join :: "join_set \<Rightarrow> join_set \<Rightarrow> nat list \<Rightarrow> 'f \<Rightarrow> 'f \<Rightarrow> 'f dp_plan" where
  "new_join left right edge_indices cost crd =
     \<lparr>dp_join_set = jset_union left right, dp_cost = cost, dp_cardinality = crd,
      dp_plan_type = Plan_Join left right edge_indices\<rparr>"

definition compute_cost :: "'f estimator \<Rightarrow> 'f dp_plan \<Rightarrow> 'f dp_plan \<Rightarrow> 'f \<Rightarrow> 'f" where
  "compute_cost E left_plan right_plan crd = f_add E (f_add E (dp_cost left_plan) (dp_cost right_plan)) crd"

section \<open>Fact anchors\<close>

record 'f enumerator =
  en_query_graph :: "'f query_graph"
  en_dp_table :: "join_set \<rightharpoonup> 'f dp_plan"
  en_emit_count :: nat
  en_anchor_relations :: join_set
  en_enable_fact_anchor_heuristic :: bool

abbreviation (input) EMIT_THRESHOLD :: nat where
  "EMIT_THRESHOLD \<equiv> 10000"

abbreviation (input) RELATION_THRESHOLD :: nat where
  "RELATION_THRESHOLD \<equiv> 10"

abbreviation (input) FACT_ANCHOR_MIN_RELATIONS :: nat where
  "FACT_ANCHOR_MIN_RELATIONS \<equiv> 5"

text \<open>\<open>Iterator::max_by\<close>: the last of the greatest elements.\<close>

fun max_by :: "('a \<Rightarrow> 'a \<Rightarrow> bool) \<Rightarrow> 'a list \<Rightarrow> 'a option" where
  "max_by lt [] = None"
| "max_by lt (x # xs) = Some (foldl (\<lambda>best y. if lt y best then best else y) x xs)"

definition positive_base :: "'f estimator \<Rightarrow> 'f relation_node \<Rightarrow> 'f" where
  "positive_base E rel =
     (if f_is_finite E (rn_base_cardinality rel) \<and> f_lt E (f_lit E 0) (rn_base_cardinality rel)
      then rn_base_cardinality rel else f_lit E 0)"

text \<open>The loop over the relations: the bits and the total of the anchors, the total, their number.\<close>

definition count_anchor :: "'f estimator \<Rightarrow> 'f \<Rightarrow> u64 \<times> 'f \<times> 'f \<times> nat \<Rightarrow> 'f relation_node \<Rightarrow> u64 \<times> 'f \<times> 'f \<times> nat" where
  "count_anchor E threshold = (\<lambda>(bits, anchor_total, total, count) rel.
     let base = positive_base E rel; total = f_add E total base in
     if f_le E threshold base
     then (bits OR push_bit (rn_relation_id rel) 1, f_add E anchor_total base, total, count + 1)
     else (bits, anchor_total, total, count))"

definition derive_anchor_relations :: "'f estimator \<Rightarrow> 'f query_graph \<Rightarrow> join_set \<times> bool" where
  "derive_anchor_relations E g =
     (if relation_count g = 0 then (jset_new, False)
      else
        let max_base = foldl (f_max E) (f_lit E 0) (map (positive_base E) (qg_relations g)) in
        if f_le E max_base (f_lit E 0) then (jset_new, False)
        else
          let threshold = f_mul E max_base (f_lit E (1 / 4));
              (bits, anchor_total, total, count) =
                foldl (count_anchor E threshold) (0, f_lit E 0, f_lit E 0, 0) (qg_relations g);
              (bits, anchor_total, count) =
                (if bits = 0 then
                   (case max_by (\<lambda>x y. f_total_less E (rn_base_cardinality x) (rn_base_cardinality y)) (qg_relations g) of
                      None \<Rightarrow> (bits, anchor_total, count)
                    | Some rel \<Rightarrow> (bits OR push_bit (rn_relation_id rel) 1, f_max E (rn_base_cardinality rel) (f_lit E 0), 1))
                 else (bits, anchor_total, count));
              share = (if f_lt E (f_lit E 0) total then f_div E anchor_total total else f_lit E 0);
              enabled = (relation_count g \<ge> FACT_ANCHOR_MIN_RELATIONS \<and> count > 0 \<and>
                count \<le> max (relation_count g div 2) 1 \<and> f_le E (f_lit E (11 / 20)) share)
          in (bits, enabled))"

definition enumerator_new :: "'f estimator \<Rightarrow> 'f query_graph \<Rightarrow> 'f enumerator" where
  "enumerator_new E g =
     (let (anchors, enabled) = derive_anchor_relations E g in
      \<lparr>en_query_graph = g, en_dp_table = Map.empty, en_emit_count = 0, en_anchor_relations = anchors,
       en_enable_fact_anchor_heuristic = enabled\<rparr>)"

definition relation_has_distinct_stat :: "'f query_graph \<Rightarrow> nat \<Rightarrow> nat \<Rightarrow> bool" where
  "relation_has_distinct_stat g r col =
     (case get_relation g r of
        None \<Rightarrow> False
      | Some rel \<Rightarrow> col < length (rn_distinct_counts rel) \<and> rn_distinct_counts rel ! col \<noteq> Absent)"

definition edge_is_low_confidence :: "'f query_graph \<Rightarrow> nat \<Rightarrow> bool" where
  "edge_is_low_confidence g idx =
     (if idx < length (qg_edges g) then
        list_ex (\<lambda>(left, right).
            \<not> relation_has_distinct_stat g (sc_relation_id left) (sc_column_index left) \<and>
            \<not> relation_has_distinct_stat g (sc_relation_id right) (sc_column_index right))
          (je_equi_pairs (qg_edges g ! idx))
      else False)"

definition should_apply_fact_anchor_penalty :: "'f enumerator \<Rightarrow> join_set \<Rightarrow> nat list \<Rightarrow> bool" where
  "should_apply_fact_anchor_penalty en parent edge_indices =
     (en_enable_fact_anchor_heuristic en \<and> is_disjoint parent (en_anchor_relations en) \<and>
      list_ex (edge_is_low_confidence (en_query_graph en)) edge_indices)"

section \<open>Neighbours and their subsets\<close>

text \<open>\<open>unbounded_shl\<close> gives 0 for a shift by the width, and \<open>wrapping_sub\<close> then the largest value.\<close>

definition generate_all_nonempty_subsets :: "nat list \<Rightarrow> nat list list" where
  "generate_all_nonempty_subsets elems =
     (let n = length elems; last = (if n < 64 then 2 ^ n - 1 else usize_max) in
      map (\<lambda>mask. map ((!) elems) (filter (bit mask) [0..<n])) [1..<last + 1])"

definition neighbors :: "join_set \<Rightarrow> join_set \<Rightarrow> 'f enumerator \<Rightarrow> nat list \<times> 'f enumerator" where
  "neighbors nodes forbidden en =
     (let (all_neighbors, g) = get_neighbors nodes (en_query_graph en)
      in (filter (\<lambda>r. forbidden AND push_bit r 1 = 0) all_neighbors, en\<lparr>en_query_graph := g\<rparr>))"

definition relation_initial_cardinality :: "'f estimator \<Rightarrow> 'f query_graph \<Rightarrow> nat \<Rightarrow> 'f" where
  "relation_initial_cardinality E g r =
     (case List.find (\<lambda>rel. rn_relation_id rel = r) (qg_relations g) of
        Some rel \<Rightarrow> rn_initial_cardinality rel
      | None \<Rightarrow> f_inf E)"

definition heuristic_less :: "'f estimator \<Rightarrow> (nat \<Rightarrow> nat) \<Rightarrow> (nat \<Rightarrow> 'f) \<Rightarrow> nat \<Rightarrow> nat \<Rightarrow> bool" where
  "heuristic_less E edges crd l r =
     (edges r < edges l \<or>
      (edges l = edges r \<and>
        (f_total_less E (crd l) (crd r) \<or> (\<not> f_total_less E (crd r) (crd l) \<and> l < r))))"

fun insert_by :: "('a \<Rightarrow> 'a \<Rightarrow> bool) \<Rightarrow> 'a \<Rightarrow> 'a list \<Rightarrow> 'a list" where
  "insert_by lt x [] = [x]"
| "insert_by lt x (y # ys) = (if lt y x then y # insert_by lt x ys else x # y # ys)"

text \<open>
  The comparison ends with the relation ids, which differ, so that it is a total order and the
  unstable sort of the source has one result, which insertion sort computes.
\<close>

definition sort_neighbors_by_heuristic ::
  "'f estimator \<Rightarrow> 'f query_graph \<Rightarrow> join_set \<Rightarrow> nat list \<Rightarrow> nat list df_result" where
  "sort_neighbors_by_heuristic E g anchor_set nbs =
     (case collect_results new_singleton nbs of
        Inl e \<Rightarrow> Inl e
      | Inr _ \<Rightarrow>
          let edges = (\<lambda>r. length (get_connecting_edge_indices g anchor_set (bits_of [r])))
          in Inr (foldr (insert_by (heuristic_less E edges (relation_initial_cardinality E g))) nbs []))"

definition prune_neighbors :: "'f estimator \<Rightarrow> 'f query_graph \<Rightarrow> join_set \<Rightarrow> nat list \<Rightarrow> nat list df_result" where
  "prune_neighbors E g anchor_set nbs =
     (if relation_count g < RELATION_THRESHOLD then Inr nbs
      else
        case sort_neighbors_by_heuristic E g anchor_set nbs of
          Inl e \<Rightarrow> Inl e
        | Inr nbs \<Rightarrow> Inr (take (cardinality anchor_set) nbs))"

section \<open>Emitting plans\<close>

type_synonym 'f enum_step = "'f enumerator \<Rightarrow> bool df_result \<times> 'f enumerator"

text \<open>Sequencing: an error or giving up ends the enumeration.\<close>

definition and_step :: "'f enum_step \<Rightarrow> 'f enum_step \<Rightarrow> 'f enum_step" where
  "and_step f g en = (case f en of (Inr True, en') \<Rightarrow> g en' | r \<Rightarrow> r)"

fun all_steps :: "('a \<Rightarrow> 'f enum_step) \<Rightarrow> 'a list \<Rightarrow> 'f enum_step" where
  "all_steps f [] en = (Inr True, en)"
| "all_steps f (x # xs) en = and_step (f x) (all_steps f xs) en"

lemma and_step_cong [fundef_cong]:
  "en = en' \<Longrightarrow> f en' = f' en' \<Longrightarrow> (\<And>en1. f' en' = (Inr True, en1) \<Longrightarrow> g en1 = g' en1) \<Longrightarrow> and_step f g en = and_step f' g' en'"
  by (auto simp: and_step_def split: prod.splits sum.splits bool.splits)

lemma all_steps_cong [fundef_cong]:
  "xs = ys \<Longrightarrow> en = en' \<Longrightarrow> (\<And>x en. x \<in> set ys \<Longrightarrow> f x en = g x en) \<Longrightarrow> all_steps f xs en = all_steps g ys en'"
proof -
  assume "xs = ys" "en = en'" and fg: "\<And>x en. x \<in> set ys \<Longrightarrow> f x en = g x en"
  moreover have "all_steps f ys en = all_steps g ys en" for en
    using fg by (induction ys arbitrary: en) (auto intro!: and_step_cong)
  ultimately show ?thesis by simp
qed

definition join_cost :: "'f estimator \<Rightarrow> 'f enumerator \<Rightarrow> 'f dp_plan \<Rightarrow> 'f dp_plan \<Rightarrow> join_set \<Rightarrow> nat list \<Rightarrow> 'f \<Rightarrow> 'f" where
  "join_cost E en left_plan right_plan parent edge_indices crd =
     (let cost = compute_cost E left_plan right_plan crd in
      if should_apply_fact_anchor_penalty en parent edge_indices then f_add E cost (f_mul E crd (f_lit E 8)) else cost)"

definition emit_csg_cmp :: "'f estimator \<Rightarrow> join_set \<Rightarrow> join_set \<Rightarrow> nat list \<Rightarrow> 'f enumerator \<Rightarrow> 'f enumerator" where
  "emit_csg_cmp E left right edge_indices en =
     (case (en_dp_table en left, en_dp_table en right) of
        (Some left_plan, Some right_plan) \<Rightarrow>
          let parent = jset_union left right;
              crd = estimate_join_cardinality E (dp_cardinality left_plan) (dp_cardinality right_plan) edge_indices;
              cost = join_cost E en left_plan right_plan parent edge_indices crd;
              should_update = (case en_dp_table en parent of
                  Some existing \<Rightarrow> f_lt E cost (dp_cost existing)
                | None \<Rightarrow> True)
          in if should_update
             then en\<lparr>en_dp_table := (en_dp_table en)(parent \<mapsto> new_join left right edge_indices cost crd)\<rparr>
             else en
      | _ \<Rightarrow> en)"

definition try_emit_csg_cmp :: "'f estimator \<Rightarrow> join_set \<Rightarrow> join_set \<Rightarrow> nat list \<Rightarrow> 'f enum_step" where
  "try_emit_csg_cmp E left right edge_indices en =
     (let en = en\<lparr>en_emit_count := en_emit_count en + 1\<rparr> in
      if en_emit_count en \<ge> EMIT_THRESHOLD then (Inr False, en)
      else (Inr True, emit_csg_cmp E left right edge_indices en))"

section \<open>Enumerating the complements of a connected subgraph\<close>

definition cmp_subset :: "'f estimator \<Rightarrow> join_set \<Rightarrow> join_set \<Rightarrow> nat list \<Rightarrow> 'f enum_step" where
  "cmp_subset E left right chosen en =
     (case from_iter chosen of
        Inl e \<Rightarrow> (Inl e, en)
      | Inr s \<Rightarrow>
          let combined = jset_union right s in
          if cardinality combined > cardinality right \<and> en_dp_table en combined \<noteq> None then
            let edge_indices = get_connecting_edge_indices (en_query_graph en) left combined in
            if edge_indices \<noteq> [] then try_emit_csg_cmp E left combined edge_indices en else (Inr True, en)
          else (Inr True, en))"

text \<open>The recursion forbids the neighbours it has just extended the set with.\<close>

lemma neighbors_allowed:
  "neighbors nodes forbidden en = (nbs, en') \<Longrightarrow> r \<in> set nbs \<Longrightarrow> r < 64 \<Longrightarrow> r \<notin> rels forbidden"
  by (auto simp: neighbors_def is_disjoint_def [symmetric] is_disjoint_rels split: prod.splits)

lemma set_insert_by [simp]: "set (insert_by lt x xs) = insert x (set xs)"
  by (induction xs) auto

lemma sort_neighbors_set: "sort_neighbors_by_heuristic E g s nbs = Inr nbs' \<Longrightarrow> set nbs' = set nbs"
proof -
  have "set (foldr (insert_by lt) xs []) = set xs" for lt and xs :: "nat list" by (induction xs) auto
  then show "sort_neighbors_by_heuristic E g s nbs = Inr nbs' \<Longrightarrow> ?thesis"
    by (auto simp: sort_neighbors_by_heuristic_def Let_def split: sum.splits)
qed

lemma prune_neighbors_subset: "prune_neighbors E g s nbs = Inr nbs' \<Longrightarrow> set nbs' \<subseteq> set nbs"
  by (auto simp: prune_neighbors_def dest!: sort_neighbors_set in_set_takeD split: if_splits sum.splits)

lemma enumerate_decreases:
  assumes "neighbors nodes forbidden en = (nbs, en1)" "prune_neighbors E g s nbs = Inr nbs'" "from_iter nbs' = Inr nset"
    and "nbs' \<noteq> []"
  shows "64 - cardinality (jset_union forbidden nset) < 64 - cardinality forbidden"
proof -
  have b: "\<forall>r \<in> set nbs'. r < 64" and n: "nset = bits_of nbs'" using assms(3) by (auto simp: from_iter_def list_all_iff split: if_splits)
  then have rn: "rels nset = set nbs'" using rels_bits_of by (simp add: list_all_iff)
  obtain r where r: "r \<in> set nbs'" using assms(4) by (cases nbs') auto
  have "r \<notin> rels forbidden" using neighbors_allowed [OF assms(1)] prune_neighbors_subset [OF assms(2)] r b by blast
  then have "rels forbidden \<subset> rels (jset_union forbidden nset)" using r rn by auto
  then have "card (rels forbidden) < card (rels (jset_union forbidden nset))" by (intro psubset_card_mono) auto
  moreover have "card (rels (jset_union forbidden nset)) \<le> card {..<64 :: nat}" by (intro card_mono rels_bound) simp
  ultimately show ?thesis by (simp add: cardinality_rels)
qed

lemma subsets_Nil [simp]: "generate_all_nonempty_subsets [] = []"
  by (simp add: generate_all_nonempty_subsets_def)

function enumerate_cmp_rec :: "'f estimator \<Rightarrow> join_set \<Rightarrow> join_set \<Rightarrow> join_set \<Rightarrow> 'f enum_step" where
  "enumerate_cmp_rec E left right forbidden en =
     (let (nbs, en) = neighbors right forbidden en in
      if nbs = [] then (Inr True, en)
      else case prune_neighbors E (en_query_graph en) right nbs of
             Inl e \<Rightarrow> (Inl e, en)
           | Inr nbs \<Rightarrow>
               let subsets = generate_all_nonempty_subsets nbs in
               and_step (all_steps (cmp_subset E left right) subsets)
                 (\<lambda>en. case from_iter nbs of
                    Inl e \<Rightarrow> (Inl e, en)
                  | Inr nset \<Rightarrow>
                      all_steps (\<lambda>s. enumerate_cmp_rec E left s (jset_union forbidden nset))
                        (map (\<lambda>chosen. jset_union right (bits_of chosen)) subsets) en) en)"
  by pat_completeness auto

termination
proof (relation "measure (\<lambda>(E, left, right, forbidden, en). 64 - cardinality forbidden)", goal_cases)
  case (2 E left right forbidden en x nbs en1 nbs' subsets en2 nset s en3)
  then have "nbs' \<noteq> []" by auto
  with 2 show ?case using enumerate_decreases [of right forbidden en nbs en1 E _ right nbs' nset] by auto
qed simp

declare enumerate_cmp_rec.simps [simp del]

section \<open>Enumerating the connected subgraphs\<close>

text \<open>The loop of \<open>emit_csg\<close> over the neighbours, with the set \<open>enriched_forbidden\<close> it updates.\<close>

fun emit_neighbors :: "'f estimator \<Rightarrow> join_set \<Rightarrow> join_set \<Rightarrow> nat list \<Rightarrow> 'f enum_step" where
  "emit_neighbors E nodes enriched_forbidden [] en = (Inr True, en)"
| "emit_neighbors E nodes enriched_forbidden (nbr # nbrs) en =
     (case new_singleton nbr of
        Inl e \<Rightarrow> (Inl e, en)
      | Inr nbr_set \<Rightarrow>
          and_step
            (\<lambda>en. let edge_indices = get_connecting_edge_indices (en_query_graph en) nodes nbr_set in
                  if edge_indices \<noteq> [] then try_emit_csg_cmp E nodes nbr_set edge_indices en else (Inr True, en))
            (and_step (enumerate_cmp_rec E nodes nbr_set enriched_forbidden)
               (emit_neighbors E nodes (jset_diff enriched_forbidden nbr_set) nbrs)) en)"

definition emit_csg :: "'f estimator \<Rightarrow> join_set \<Rightarrow> 'f enum_step" where
  "emit_csg E nodes en =
     (if cardinality nodes = relation_count (en_query_graph en) then (Inr True, en)
      else
        let min_idx = (case jset_iter nodes of [] \<Rightarrow> 0 | r # rs \<Rightarrow> Min (set (r # rs))) in
        case from_iter [0..<min_idx] of
          Inl e \<Rightarrow> (Inl e, en)
        | Inr below \<Rightarrow>
            let forbidden = jset_union nodes below;
                (nbs, en) = neighbors nodes forbidden en
            in if nbs = [] then (Inr True, en)
               else case from_iter nbs of
                      Inl e \<Rightarrow> (Inl e, en)
                    | Inr nset \<Rightarrow> emit_neighbors E nodes (jset_union forbidden nset) (rev nbs) en)"

definition csg_subset :: "'f estimator \<Rightarrow> join_set \<Rightarrow> nat list \<Rightarrow> 'f enum_step" where
  "csg_subset E nodes chosen en =
     (case from_iter chosen of
        Inl e \<Rightarrow> (Inl e, en)
      | Inr s \<Rightarrow>
          let new_set = jset_union nodes s in
          if en_dp_table en new_set \<noteq> None \<and> cardinality new_set > cardinality nodes then emit_csg E new_set en
          else (Inr True, en))"

function enumerate_csg_rec :: "'f estimator \<Rightarrow> join_set \<Rightarrow> join_set \<Rightarrow> 'f enum_step" where
  "enumerate_csg_rec E nodes forbidden en =
     (let (nbs, en) = neighbors nodes forbidden en in
      if nbs = [] then (Inr True, en)
      else case prune_neighbors E (en_query_graph en) nodes nbs of
             Inl e \<Rightarrow> (Inl e, en)
           | Inr nbs \<Rightarrow>
               let subsets = generate_all_nonempty_subsets nbs in
               and_step (all_steps (csg_subset E nodes) subsets)
                 (\<lambda>en. case from_iter nbs of
                    Inl e \<Rightarrow> (Inl e, en)
                  | Inr nset \<Rightarrow>
                      all_steps (\<lambda>s. enumerate_csg_rec E s (jset_union forbidden nset))
                        (map (\<lambda>chosen. jset_union nodes (bits_of chosen)) subsets) en) en)"
  by pat_completeness auto

termination
proof (relation "measure (\<lambda>(E, nodes, forbidden, en). 64 - cardinality forbidden)", goal_cases)
  case (2 E nodes forbidden en x nbs en1 nbs' subsets en2 nset s en3)
  then have "nbs' \<noteq> []" by auto
  with 2 show ?case using enumerate_decreases [of nodes forbidden en nbs en1 E _ nodes nbs' nset] by auto
qed simp

declare enumerate_csg_rec.simps [simp del]

definition process_node_as_start :: "'f estimator \<Rightarrow> nat \<Rightarrow> 'f enum_step" where
  "process_node_as_start E idx en =
     (case new_singleton idx of
        Inl e \<Rightarrow> (Inl e, en)
      | Inr nodes \<Rightarrow>
          and_step (emit_csg E nodes)
            (\<lambda>en. case from_iter [0..<idx] of
               Inl e \<Rightarrow> (Inl e, en)
             | Inr below \<Rightarrow> enumerate_csg_rec E nodes (jset_union below nodes) en) en)"

definition join_reorder_by_dphyp :: "'f estimator \<Rightarrow> 'f enum_step" where
  "join_reorder_by_dphyp E en =
     all_steps (process_node_as_start E) (rev [0..<relation_count (en_query_graph en)]) en"

section \<open>Leaf plans\<close>

text \<open>\<open>init_leaf_plans\<close> replaces the plans of single relations, \<open>ensure_leaf_plans\<close> keeps those that exist.\<close>

definition leaf_plan :: "'f estimator \<Rightarrow> bool \<Rightarrow> 'f relation_node \<Rightarrow> 'f enum_step" where
  "leaf_plan E keep rel en =
     (case new_singleton (rn_relation_id rel) of
        Inl e \<Rightarrow> (Inl e, en)
      | Inr s \<Rightarrow>
          if keep \<and> en_dp_table en s \<noteq> None then (Inr True, en)
          else case estimate_cardinality E s of
                 Inl e \<Rightarrow> (Inl e, en)
               | Inr crd \<Rightarrow>
                   (case new_leaf E (rn_relation_id rel) crd of
                      Inl e \<Rightarrow> (Inl e, en)
                    | Inr plan \<Rightarrow> (Inr True, en\<lparr>en_dp_table := (en_dp_table en)(s \<mapsto> plan)\<rparr>)))"

definition init_leaf_plans :: "'f estimator \<Rightarrow> 'f enum_step" where
  "init_leaf_plans E en = all_steps (leaf_plan E False) (qg_relations (en_query_graph en)) en"

definition ensure_leaf_plans :: "'f estimator \<Rightarrow> 'f enum_step" where
  "ensure_leaf_plans E en = all_steps (leaf_plan E True) (qg_relations (en_query_graph en)) en"

text \<open>
  \<open>(1u64 << relation_count) - 1\<close>, with the shift taken modulo the width as an optimised build does:
  a graph of 64 relations, which \<open>JoinSet\<close> allows and the graph builder does not make, gets the empty set.
\<close>

definition create_all_relations_set :: "'f query_graph \<Rightarrow> join_set" where
  "create_all_relations_set g = push_bit (relation_count g mod 64) 1 - 1"

section \<open>The greedy order\<close>

fun fold_result :: "('a \<Rightarrow> 'b \<Rightarrow> 'e + 'b) \<Rightarrow> 'a list \<Rightarrow> 'b \<Rightarrow> 'e + 'b" where
  "fold_result f [] acc = Inr acc"
| "fold_result f (x # xs) acc = (case f x acc of Inl e \<Rightarrow> Inl e | Inr acc \<Rightarrow> fold_result f xs acc)"

text \<open>The best relation so far with its edges, the cardinality and the cost of joining it.\<close>

type_synonym 'f best = "nat option \<times> nat list \<times> 'f \<times> 'f"

definition improve :: "'f estimator \<Rightarrow> nat \<Rightarrow> nat list \<Rightarrow> 'f \<Rightarrow> 'f \<Rightarrow> 'f best \<Rightarrow> 'f best" where
  "improve E r edge_indices crd cost = (\<lambda>(best_rel, best_edges, best_crd, best_cost).
     if f_lt E crd best_crd \<or> (f_eq E crd best_crd \<and> f_lt E cost best_cost)
     then (Some r, edge_indices, crd, cost) else (best_rel, best_edges, best_crd, best_cost))"

definition next_leaf :: "'f enumerator \<Rightarrow> nat \<Rightarrow> (join_set \<times> 'f dp_plan) df_result" where
  "next_leaf en r =
     (case new_singleton r of
        Inl e \<Rightarrow> Inl e
      | Inr s \<Rightarrow>
          (case en_dp_table en s of
             None \<Rightarrow> Inl (DF_Internal ''Leaf plan for relation {} not found in DP table'')
           | Some plan \<Rightarrow> Inr (s, plan)))"

definition connected_extension ::
  "'f estimator \<Rightarrow> 'f enumerator \<Rightarrow> join_set \<Rightarrow> 'f dp_plan \<Rightarrow> nat \<Rightarrow> 'f best \<Rightarrow> 'f best df_result" where
  "connected_extension E en current_set current_plan r best =
     (case next_leaf en r of
        Inl e \<Rightarrow> Inl e
      | Inr (s, plan) \<Rightarrow>
          let edge_indices = get_connecting_edge_indices (en_query_graph en) current_set s in
          if edge_indices = [] then Inr best
          else
            let crd = estimate_join_cardinality E (dp_cardinality current_plan) (dp_cardinality plan) edge_indices
            in Inr (improve E r edge_indices crd (compute_cost E current_plan plan crd) best))"

definition cross_extension ::
  "'f estimator \<Rightarrow> 'f enumerator \<Rightarrow> 'f dp_plan \<Rightarrow> nat \<Rightarrow> 'f best \<Rightarrow> 'f best df_result" where
  "cross_extension E en current_plan r best =
     (case next_leaf en r of
        Inl e \<Rightarrow> Inl e
      | Inr (_, plan) \<Rightarrow>
          let crd = f_mul E (dp_cardinality current_plan) (dp_cardinality plan)
          in Inr (improve E r [] crd (f_add E (compute_cost E current_plan plan crd) (f_lit E 1000000)) best))"

definition select_next :: "'f estimator \<Rightarrow> 'f enumerator \<Rightarrow> join_set \<Rightarrow> 'f dp_plan \<Rightarrow> join_set \<Rightarrow> 'f best df_result" where
  "select_next E en current_set current_plan remaining =
     (case fold_result (connected_extension E en current_set current_plan) (jset_iter remaining) (None, [], f_inf E, f_inf E) of
        Inl e \<Rightarrow> Inl e
      | Inr best \<Rightarrow>
          if fst best = None then fold_result (cross_extension E en current_plan) (jset_iter remaining) best
          else Inr best)"

lemma fold_result_from:
  assumes "\<And>x acc acc'. x \<in> set xs \<Longrightarrow> f x acc = Inr acc' \<Longrightarrow> fst acc' = fst acc \<or> fst acc' = Some x"
    and "fold_result f xs acc = Inr acc'"
  shows "fst acc' = fst acc \<or> (\<exists>x \<in> set xs. fst acc' = Some x)"
  using assms
proof (induction xs arbitrary: acc)
  case (Cons x xs)
  from Cons.prems(2) obtain acc1 where 1: "f x acc = Inr acc1" "fold_result f xs acc1 = Inr acc'" by (auto split: sum.splits)
  from Cons.IH [OF _ 1(2)] Cons.prems(1) [of x acc acc1] Cons.prems(1) 1(1) show ?case by fastforce
qed simp

lemma improve_from:
  "fst (improve E r es crd cost best) =
     (if f_lt E crd (fst (snd (snd best))) \<or> f_eq E crd (fst (snd (snd best))) \<and> f_lt E cost (snd (snd (snd best)))
      then Some r else fst best)"
  by (simp add: improve_def split: prod.splits)

lemma select_next_from:
  assumes "select_next E en cs cp remaining = Inr (Some r, rest)"
  shows "r \<in> rels remaining"
proof -
  from assms obtain best where 1: "fold_result (connected_extension E en cs cp) (jset_iter remaining) (None, [], f_inf E, f_inf E) = Inr best"
    and 2: "if fst best = None then fold_result (cross_extension E en cp) (jset_iter remaining) best = Inr (Some r, rest) else best = (Some r, rest)"
    by (auto simp: select_next_def split: sum.splits if_splits)
  have "fst acc' = fst acc \<or> fst acc' = Some x" if "connected_extension E en cs cp x acc = Inr acc'" for x acc acc'
    using that by (auto simp: connected_extension_def Let_def improve_from split: sum.splits if_splits)
  from fold_result_from [OF this 1] have b: "fst best = None \<or> (\<exists>x \<in> rels remaining. fst best = Some x)" by auto
  have "fst acc' = fst acc \<or> fst acc' = Some x" if "cross_extension E en cp x acc = Inr acc'" for x acc acc'
    using that by (auto simp: cross_extension_def Let_def improve_from split: sum.splits)
  from fold_result_from [OF this, where xs = "jset_iter remaining" and acc = best and acc' = "(Some r, rest)"] 2 b show ?thesis by (auto split: if_splits)
qed

lemma diff_decreases: "r \<in> rels remaining \<Longrightarrow> new_singleton r = Inr s \<Longrightarrow> cardinality (jset_diff remaining s) < cardinality remaining"
  using rels_less [of r remaining] card_Diff1_less [of "rels remaining" r]
  by (auto simp: new_singleton_def cardinality_rels simp del: card_Diff_insert split: if_splits)

function greedy_loop ::
  "'f estimator \<Rightarrow> join_set \<Rightarrow> 'f dp_plan \<Rightarrow> join_set \<Rightarrow> 'f enumerator \<Rightarrow> 'f dp_plan df_result \<times> 'f enumerator" where
  "greedy_loop E current_set current_plan remaining en =
     (if remaining = 0 then (Inr current_plan, en)
      else case select_next E en current_set current_plan remaining of
             Inl e \<Rightarrow> (Inl e, en)
           | Inr (best_rel, best_edges, best_crd, best_cost) \<Rightarrow>
               (case best_rel of
                  None \<Rightarrow> (Inl (DF_Internal ''Failed to select next relation in greedy algorithm''), en)
                | Some r \<Rightarrow>
                    (case new_singleton r of
                       Inl e \<Rightarrow> (Inl e, en)
                     | Inr next_set \<Rightarrow>
                         let next_join_set = jset_union current_set next_set;
                             plan = new_join current_set next_set best_edges best_cost best_crd
                         in greedy_loop E next_join_set plan (jset_diff remaining next_set)
                              (en\<lparr>en_dp_table := (en_dp_table en)(next_join_set \<mapsto> plan)\<rparr>))))"
  by pat_completeness auto

termination
  by (relation "measure (\<lambda>(E, cs, cp, remaining, en). cardinality remaining)")
    (auto dest!: select_next_from intro: diff_decreases)

declare greedy_loop.simps [simp del]

definition solve_greedy :: "'f estimator \<Rightarrow> 'f enumerator \<Rightarrow> 'f dp_plan df_result \<times> 'f enumerator" where
  "solve_greedy E en =
     (if relation_count (en_query_graph en) = 0 then (Inl (DF_Internal ''Cannot solve empty query graph''), en)
      else case ensure_leaf_plans E en of
             (Inl e, en) \<Rightarrow> (Inl e, en)
           | (Inr _, en) \<Rightarrow>
               let all_relations_set = create_all_relations_set (en_query_graph en) in
               (case en_dp_table en all_relations_set of
                  Some plan \<Rightarrow> (Inr plan, en)
                | None \<Rightarrow>
                    if relation_count (en_query_graph en) = 1 then
                      (case new_singleton (rn_relation_id (hd (qg_relations (en_query_graph en)))) of
                         Inl e \<Rightarrow> (Inl e, en)
                       | Inr s \<Rightarrow>
                           (case en_dp_table en s of
                              None \<Rightarrow> (Inl (DF_Internal ''Single relation not found''), en)
                            | Some plan \<Rightarrow> (Inr plan, en)))
                    else
                      (case max_by (\<lambda>x y. f_total_less E (rn_initial_cardinality x) (rn_initial_cardinality y))
                              (qg_relations (en_query_graph en)) of
                         None \<Rightarrow> (Inl (DF_Internal ''Failed to determine greedy start relation''), en)
                       | Some start \<Rightarrow>
                           (case new_singleton (rn_relation_id start) of
                              Inl e \<Rightarrow> (Inl e, en)
                            | Inr current_set \<Rightarrow>
                                (case en_dp_table en current_set of
                                   None \<Rightarrow> (Inl (DF_Internal ''Start relation plan not found in DP table''), en)
                                 | Some current_plan \<Rightarrow>
                                     greedy_loop E current_set current_plan (jset_diff all_relations_set current_set) en)))))"

text \<open>The result of \<open>solve\<close> is \<open>None\<close> when the enumeration gave up without a plan for all relations.\<close>

definition solve :: "'f estimator \<Rightarrow> 'f enumerator \<Rightarrow> 'f dp_plan option df_result \<times> 'f enumerator" where
  "solve E en =
     (if relation_count (en_query_graph en) = 0 then (Inl (DF_Internal ''Cannot solve empty query graph''), en)
      else case init_leaf_plans E en of
             (Inl e, en) \<Rightarrow> (Inl e, en)
           | (Inr _, en) \<Rightarrow>
               (case join_reorder_by_dphyp E en of
                  (Inl e, en) \<Rightarrow> (Inl e, en)
                | (Inr completed, en) \<Rightarrow>
                    (case en_dp_table en (create_all_relations_set (en_query_graph en)) of
                       Some plan \<Rightarrow> (Inr (Some plan), en)
                     | None \<Rightarrow>
                         if \<not> completed then (Inr None, en)
                         else map_prod (map_sum id Some) id (solve_greedy E en))))"

end
