(* ===== verification/Enumeration_Order.thy ===== *)
theory Enumeration_Order
  imports Plan_Enumerator
begin

text \<open>
  The order in which the plan enumerator visits sets of relations, as pure lists: all the ways to
  grow a set by neighbours outside a forbidden set, the connected subgraphs and, for each of them,
  its complements. The visits of subsets before supersets and each set once are what the dynamic
  programming and its limit on the number of plans rest on.
\<close>

section \<open>Subsets of a list in the order of their masks\<close>

lemma nat_bits_le:
  assumes "\<And>i. bit (m :: nat) i \<Longrightarrow> bit n i"
  shows "m \<le> n"
proof -
  have "m = m AND n" using assms by (auto simp: bit_eq_iff bit_simps)
  also have "int (m AND n) \<le> int n" by (simp add: of_nat_and_eq AND_upper2)
  ultimately show ?thesis by simp
qed

abbreviation (input) pick :: "nat list \<Rightarrow> nat \<Rightarrow> nat list" where
  "pick elems msk \<equiv> map ((!) elems) (filter (bit msk) [0..<length elems])"

lemma subsets_masks:
  "length elems < 64 \<Longrightarrow> generate_all_nonempty_subsets elems = map (pick elems) [1..<2 ^ length elems]"
  by (simp add: generate_all_nonempty_subsets_def Let_def del: upt_Suc)

lemma pick_bits: "distinct elems \<Longrightarrow> i < length elems \<Longrightarrow> elems ! i \<in> set (pick elems msk) \<longleftrightarrow> bit msk i"
  by (auto simp: nth_eq_iff_index_eq)

lemma mask_bits: "(msk :: nat) < 2 ^ n \<Longrightarrow> bit msk i \<Longrightarrow> i < n"
  by (metis bit_take_bit_iff take_bit_nat_eq_self_iff)

lemma subsets_order:
  assumes "distinct elems" "length elems < 64"
  shows "sorted_wrt (\<lambda>c d. \<not> set d \<subseteq> set c) (generate_all_nonempty_subsets elems)"
proof -
  have "\<not> set (pick elems n) \<subseteq> set (pick elems m)" if "m < n" "n < 2 ^ length elems" for m n
  proof
    assume "set (pick elems n) \<subseteq> set (pick elems m)"
    then have "bit m i" if "bit n i" for i
      using that mask_bits [OF \<open>n < _\<close> that] pick_bits [OF assms(1), of i] by blast
    then show False using nat_bits_le [of n m] \<open>m < n\<close> by simp
  qed
  then show ?thesis
    by (auto simp: subsets_masks [OF assms(2)] sorted_wrt_map intro!: sorted_wrt_mono_rel [OF _ sorted_wrt_upt])
qed

lemma subsets_all:
  assumes "distinct elems" "length elems < 64"
  shows "set ` set (generate_all_nonempty_subsets elems) = {c. c \<subseteq> set elems \<and> c \<noteq> {}}"
proof (intro equalityI subsetI)
  fix c assume "c \<in> set ` set (generate_all_nonempty_subsets elems)"
  then obtain msk where m: "0 < msk" "msk < 2 ^ length elems" "c = set (pick elems msk)"
    by (auto simp: subsets_masks [OF assms(2)] Suc_le_eq)
  obtain i where "bit msk i" using m(1) bit_eq_iff [of msk 0] by auto
  then have "elems ! i \<in> c" using mask_bits [OF m(2)] pick_bits [OF assms(1)] m(3) by blast
  with m(3) show "c \<in> {c. c \<subseteq> set elems \<and> c \<noteq> {}}" by auto
next
  fix c assume c: "c \<in> {c. c \<subseteq> set elems \<and> c \<noteq> {}}"
  let ?bits = "map (\<lambda>x. x \<in> c) elems"
  define msk :: nat where "msk = horner_sum of_bool 2 ?bits"
  have b: "bit msk i \<longleftrightarrow> i < length elems \<and> elems ! i \<in> c" for i
    by (auto simp: msk_def bit_horner_sum_bit_iff)
  have l: "msk < 2 ^ length elems" unfolding msk_def using horner_sum_of_bool_2_less [of ?bits] by (simp add: zless_nat_eq_int_zless)
  have s: "set (pick elems msk) = c"
  proof (intro equalityI subsetI)
    fix x assume "x \<in> c"
    moreover from this have "x \<in> set elems" using c by blast
    then obtain i where "i < length elems" "elems ! i = x" unfolding in_set_conv_nth by blast
    ultimately show "x \<in> set (pick elems msk)" by (auto simp: b)
  qed (auto simp: b)
  then have "0 < msk" using c by (intro gr0I) auto
  with l s show "c \<in> set ` set (generate_all_nonempty_subsets elems)"
    unfolding subsets_masks [OF assms(2)] by (intro image_eqI [of _ _ "pick elems msk"]) auto
qed

section \<open>Growing a set by its neighbours\<close>

text \<open>
  The visits of \<open>enumerate_csg_rec\<close> and \<open>enumerate_cmp_rec\<close> below the relation limit: all extensions
  of a set by allowed neighbours, then the extensions of each of these sets.
\<close>

definition allowed :: "(join_set \<Rightarrow> nat set) \<Rightarrow> join_set \<Rightarrow> join_set \<Rightarrow> nat list" where
  "allowed N X F = filter (\<lambda>r. r \<notin> rels F) (sorted_list_of_set (N X \<inter> {..<64}))"

lemma allowed_props [simp]:
  "set (allowed N X F) = N X \<inter> {..<64} - rels F" "distinct (allowed N X F)" "sorted (allowed N X F)"
  by (auto simp: allowed_def sorted_wrt_filter)

lemma allowed_length: "rels F \<noteq> {} \<Longrightarrow> length (allowed N X F) < 64"
proof -
  assume "rels F \<noteq> {}"
  then obtain x where x: "x \<in> rels F" by blast
  have "length (allowed N X F) = card (N X \<inter> {..<64} - rels F)" using distinct_card [of "allowed N X F"] by simp
  also have "\<dots> < card {..<64 :: nat}" using x rels_less [OF x] by (intro psubset_card_mono) auto
  finally show ?thesis by simp
qed

lemma rels_allowed: "c \<in> set (generate_all_nonempty_subsets (allowed N X F)) \<Longrightarrow> rels F \<noteq> {} \<Longrightarrow>
    rels (bits_of c) = set c \<and> set c \<subseteq> set (allowed N X F) \<and> set c \<noteq> {}"
proof -
  assume c: "c \<in> set (generate_all_nonempty_subsets (allowed N X F))" and F: "rels F \<noteq> {}"
  have "set c \<in> {c. c \<subseteq> set (allowed N X F) \<and> c \<noteq> {}}"
    unfolding subsets_all [OF allowed_props(2) allowed_length [OF F], symmetric] using c by blast
  moreover from this have "rels (bits_of c) = set c" by (intro rels_bits_of) (auto simp: list_all_iff)
  ultimately show ?thesis by simp
qed

lemma rels_bits_allowed [simp]: "rels (bits_of (allowed N X F)) = N X \<inter> {..<64} - rels F"
  by (subst rels_bits_of) (auto simp: list_all_iff)

lemma grow_decreases: "allowed N X F \<noteq> [] \<Longrightarrow> 64 - cardinality (jset_union F (bits_of (allowed N X F))) < 64 - cardinality F"
proof -
  assume "allowed N X F \<noteq> []"
  then obtain r where "r \<in> set (allowed N X F)" by (cases "allowed N X F") auto
  then have "rels F \<subset> rels (jset_union F (bits_of (allowed N X F)))" by auto
  then have "card (rels F) < card (rels (jset_union F (bits_of (allowed N X F))))" by (intro psubset_card_mono) auto
  moreover have "card (rels (jset_union F (bits_of (allowed N X F)))) \<le> card {..<64 :: nat}"
    by (intro card_mono rels_bound) simp
  ultimately show ?thesis by (simp add: cardinality_rels)
qed

function grow :: "(join_set \<Rightarrow> nat set) \<Rightarrow> join_set \<Rightarrow> join_set \<Rightarrow> join_set list" where
  "grow N X F =
     (let nbs = allowed N X F; sets = map (\<lambda>c. jset_union X (bits_of c)) (generate_all_nonempty_subsets nbs)
      in if nbs = [] then [] else sets @ concat (map (\<lambda>S. grow N S (jset_union F (bits_of nbs))) sets))"
  by pat_completeness auto

termination
  by (relation "measure (\<lambda>(N, X, F). 64 - cardinality F)") (auto intro: grow_decreases)

declare grow.simps [simp del]

lemma grow_iff:
  "U \<in> set (grow N X F) \<longleftrightarrow>
     (\<exists>c \<in> set (generate_all_nonempty_subsets (allowed N X F)).
        U = jset_union X (bits_of c) \<or> U \<in> set (grow N (jset_union X (bits_of c)) (jset_union F (bits_of (allowed N X F)))))"
  by (subst grow.simps) (auto simp: Let_def)

abbreviation (input) grown :: "join_set \<Rightarrow> nat list \<Rightarrow> join_set" where
  "grown X c \<equiv> jset_union X (bits_of c)"

abbreviation (input) barred :: "(join_set \<Rightarrow> nat set) \<Rightarrow> join_set \<Rightarrow> join_set \<Rightarrow> join_set" where
  "barred N X F \<equiv> jset_union F (bits_of (allowed N X F))"

lemma rels_barred: "rels (barred N X F) = rels F \<union> (N X \<inter> {..<64})"
  by auto

lemma grown_props:
  assumes "c \<in> set (generate_all_nonempty_subsets (allowed N X F))" "X \<noteq> 0" "rels X \<subseteq> rels F"
  shows "rels (grown X c) = rels X \<union> set c" "set c \<subseteq> N X \<inter> {..<64} - rels F" "set c \<noteq> {}"
    and "grown X c \<noteq> 0" "rels (grown X c) \<subseteq> rels (barred N X F)" "allowed N X F \<noteq> []"
proof -
  have "rels F \<noteq> {}" using assms(2,3) rels_empty_iff [of X] by blast
  from rels_allowed [OF assms(1) this] show 1: "rels (grown X c) = rels X \<union> set c" "set c \<subseteq> N X \<inter> {..<64} - rels F" "set c \<noteq> {}"
    by simp_all
  show "grown X c \<noteq> 0" using 1(1,3) rels_0 by (metis Un_empty)
  show "rels (grown X c) \<subseteq> rels (barred N X F)" unfolding 1(1) rels_barred using 1(2) assms(3) by blast
  show "allowed N X F \<noteq> []" using assms(1) by auto
qed

lemma layer_sets:
  assumes "X \<union> c \<subset> U \<and> U \<inter> (F \<union> M) = X \<union> c" "c \<subseteq> M - F" "X \<subseteq> F"
  shows "X \<subset> U \<and> U \<inter> F = X" "U \<inter> (M - F) = c"
  using assms by (auto dest: equalityD1 equalityD2)

lemma layer_sets_single:
  assumes "c \<subseteq> M - F" "X \<subseteq> F"
  shows "c \<noteq> {} \<Longrightarrow> X \<subset> X \<union> c \<and> (X \<union> c) \<inter> F = X" "(X \<union> c) \<inter> (M - F) = c"
  using assms by auto

lemma grow_inner:
  assumes "U \<in> set (grow N X F)" "X \<noteq> 0" "rels X \<subseteq> rels F"
  shows "rels X \<subset> rels U \<and> rels U \<inter> rels F = rels X"
  using assms
proof (induction N X F rule: grow.induct)
  case (1 N X F)
  from iffD1 [OF grow_iff 1(2)] obtain c where c: "c \<in> set (generate_all_nonempty_subsets (allowed N X F))"
    and U: "U = grown X c \<or> U \<in> set (grow N (grown X c) (barred N X F))"
    by blast
  note g = grown_props [OF c 1(3,4)]
  from U show ?case
  proof
    assume "U = grown X c"
    then have "rels U = rels X \<union> set c" using g(1) by simp
    then show ?thesis using layer_sets_single(1) [OF g(2) 1(4) g(3)] by simp
  next
    assume U: "U \<in> set (grow N (grown X c) (barred N X F))"
    have "grown X c \<in> set (map (\<lambda>c. grown X c) (generate_all_nonempty_subsets (allowed N X F)))"
      unfolding set_map by (rule imageI [OF c])
    from 1(1) [OF refl refl g(6) this U g(4,5)] show ?thesis
      unfolding rels_barred g(1) using layer_sets(1) [OF _ g(2) 1(4)] by blast
  qed
qed

text \<open>The neighbours a set of the enumeration has been grown by first.\<close>

lemma grow_first:
  assumes "U = grown X c \<or> U \<in> set (grow N (grown X c) (barred N X F))"
    and "c \<in> set (generate_all_nonempty_subsets (allowed N X F))" "X \<noteq> 0" "rels X \<subseteq> rels F"
  shows "rels U \<inter> (N X \<inter> {..<64} - rels F) = set c"
proof -
  note g = grown_props [OF assms(2-4)]
  from assms(1) show ?thesis
  proof
    assume "U = grown X c"
    then have "rels U = rels X \<union> set c" using g(1) by simp
    then show ?thesis using layer_sets_single(2) [OF g(2) assms(4)] by simp
  next
    assume "U \<in> set (grow N (grown X c) (barred N X F))"
    from grow_inner [OF this g(4,5)] show ?thesis
      unfolding rels_barred g(1) using layer_sets(2) [OF _ g(2) assms(4)] by blast
  qed
qed

lemma sorted_wrt_concat:
  "(\<And>xs. xs \<in> set xss \<Longrightarrow> sorted_wrt P xs) \<Longrightarrow> sorted_wrt (\<lambda>xs ys. \<forall>x \<in> set xs. \<forall>y \<in> set ys. P x y) xss \<Longrightarrow>
     sorted_wrt P (concat xss)"
  by (induction xss) (auto simp: sorted_wrt_append)

abbreviation (input) not_later :: "join_set \<Rightarrow> join_set \<Rightarrow> bool" where
  "not_later A B \<equiv> \<not> rels B \<subseteq> rels A"

lemma not_later_distinct: "sorted_wrt not_later xs \<Longrightarrow> distinct xs"
  by (induction xs) auto

lemma grow_order:
  assumes "X \<noteq> 0" "rels X \<subseteq> rels F"
  shows "sorted_wrt not_later (grow N X F)"
  using assms
proof (induction N X F rule: grow.induct)
  case (1 N X F)
  let ?nbs = "allowed N X F" and ?G = "jset_union F (bits_of (allowed N X F))"
  let ?gen = "generate_all_nonempty_subsets ?nbs" and ?ext = "\<lambda>c. jset_union X (bits_of c)"
  have F: "rels F \<noteq> {}" using 1(2,3) rels_empty_iff [of X] by blast
  note g = grown_props [OF _ 1(2,3)]
  have gen: "sorted_wrt (\<lambda>c d. \<not> set d \<subseteq> set c) ?gen" using subsets_order [OF allowed_props(2) allowed_length [OF F]] .
  have a: "sorted_wrt not_later (map ?ext ?gen)"
    unfolding sorted_wrt_map
  proof (rule sorted_wrt_mono_rel [OF _ gen])
    fix c d assume "c \<in> set ?gen" "d \<in> set ?gen" "\<not> set d \<subseteq> set c"
    then show "not_later (?ext c) (?ext d)" unfolding g(1) [OF \<open>c \<in> _\<close>] g(1) [OF \<open>d \<in> _\<close>] using g(2) [of d] 1(3) by blast
  qed
  have b: "sorted_wrt not_later (concat (map (\<lambda>S. grow N S ?G) (map ?ext ?gen)))" if "?nbs \<noteq> []"
  proof (rule sorted_wrt_concat, goal_cases)
    case (1 xs)
    then obtain c where c: "c \<in> set ?gen" "xs = grow N (?ext c) ?G" by auto
    have "?ext c \<in> set (map ?ext ?gen)" using c(1) by simp
    from "1.IH" [OF refl refl that this g(4,5) [OF c(1)]] show ?case by (simp add: c(2))
  next
    case 2
    show ?case unfolding map_map sorted_wrt_map
    proof (rule sorted_wrt_mono_rel [OF _ gen], intro ballI)
      fix c d A B assume c: "c \<in> set ?gen" "d \<in> set ?gen" "\<not> set d \<subseteq> set c"
        and AB: "A \<in> set (((\<lambda>S. grow N S ?G) \<circ> ?ext) c)" "B \<in> set (((\<lambda>S. grow N S ?G) \<circ> ?ext) d)"
      from grow_first [of A X c N F] grow_first [of B X d N F] c AB 1(2,3)
      have "rels A \<inter> (N X \<inter> {..<64} - rels F) = set c" "rels B \<inter> (N X \<inter> {..<64} - rels F) = set d" by auto
      then show "not_later A B" using c(3) by blast
    qed
  qed
  have ab: "not_later A B" if "A \<in> set (map ?ext ?gen)" "B \<in> set (concat (map (\<lambda>S. grow N S ?G) (map ?ext ?gen)))" for A B
  proof -
    from that obtain c d where c: "c \<in> set ?gen" "A = ?ext c" and d: "d \<in> set ?gen" "B \<in> set (grow N (?ext d) ?G)" by auto
    have "rels (?ext d) \<subset> rels B" "rels B \<inter> rels ?G = rels (?ext d)" using grow_inner [OF d(2) g(4,5) [OF d(1)]] by simp_all
    then obtain x where "x \<in> rels B" "x \<notin> rels ?G" by blast
    then show ?thesis using g(5) [OF c(1)] c(2) by blast
  qed
  show ?case
  proof (cases "?nbs = []")
    case False
    then show ?thesis using a b [OF False] ab by (subst grow.simps) (auto simp: Let_def sorted_wrt_append)
  qed (subst grow.simps, simp)
qed

text \<open>A set that can be reached by adding neighbours is visited.\<close>

lemma grow_complete:
  assumes "X \<noteq> 0" "rels X \<subset> rels U" "rels U \<inter> rels F = rels X"
    and "\<And>Y. rels X \<subseteq> rels Y \<Longrightarrow> rels Y \<subset> rels U \<Longrightarrow> N Y \<inter> (rels U - rels Y) \<noteq> {}"
  shows "U \<in> set (grow N X F)"
  using assms
proof (induction N X F rule: grow.induct)
  case (1 N X F)
  let ?D = "rels U \<inter> (N X \<inter> {..<64} - rels F)"
  have XF: "rels X \<subseteq> rels F" using 1(4) by blast
  have F: "rels F \<noteq> {}" using 1(2) XF rels_empty_iff [of X] by blast
  obtain r where r: "r \<in> N X" "r \<in> rels U" "r \<notin> rels X" using 1(5) [OF subset_refl 1(3)] by blast
  have rD: "r \<in> ?D" using r 1(4) rels_less [OF r(2)] by blast
  then have "?D \<in> {c. c \<subseteq> set (allowed N X F) \<and> c \<noteq> {}}" by auto
  then obtain c where c: "c \<in> set (generate_all_nonempty_subsets (allowed N X F))" "set c = ?D"
    unfolding subsets_all [OF allowed_props(2) allowed_length [OF F], symmetric] by blast
  note g = grown_props [OF c(1) 1(2) XF]
  have sub: "rels (grown X c) \<subseteq> rels U" unfolding g(1) c(2) using 1(3) by blast
  show ?case
  proof (cases "grown X c = U")
    case True
    then show ?thesis using c(1) grow_iff by blast
  next
    case False
    then have "rels (grown X c) \<subset> rels U" using sub rels_eq_iff [of "grown X c" U] by blast
    moreover have "rels U \<inter> rels (barred N X F) = rels (grown X c)"
      unfolding g(1) c(2) rels_barred using 1(4) by blast
    moreover have "N Y \<inter> (rels U - rels Y) \<noteq> {}" if "rels (grown X c) \<subseteq> rels Y" "rels Y \<subset> rels U" for Y
      using 1(5) [of Y] that unfolding g(1) by blast
    moreover have "grown X c \<in> set (map (\<lambda>c. grown X c) (generate_all_nonempty_subsets (allowed N X F)))"
      unfolding set_map by (rule imageI [OF c(1)])
    ultimately have "U \<in> set (grow N (grown X c) (barred N X F))" using 1(1) [OF refl refl g(6) _ g(4)] by blast
    then show ?thesis using c(1) grow_iff by blast
  qed
qed

lemma grow_closed:
  assumes "U \<in> set (grow N X F)" "X \<noteq> 0" "rels X \<subseteq> rels F" "P (rels X)"
    and "\<And>Y c. P (rels Y) \<Longrightarrow> c \<subseteq> N Y \<Longrightarrow> P (rels Y \<union> c)"
  shows "P (rels U)"
  using assms
proof (induction N X F rule: grow.induct)
  case (1 N X F)
  from iffD1 [OF grow_iff 1(2)] obtain c where c: "c \<in> set (generate_all_nonempty_subsets (allowed N X F))"
    and U: "U = grown X c \<or> U \<in> set (grow N (grown X c) (barred N X F))"
    by blast
  note g = grown_props [OF c 1(3,4)]
  have P: "P (rels (grown X c))" unfolding g(1) using 1(6) [OF 1(5)] g(2) by blast
  have "grown X c \<in> set (map (\<lambda>c. grown X c) (generate_all_nonempty_subsets (allowed N X F)))"
    unfolding set_map by (rule imageI [OF c])
  from U 1(1) [OF refl refl g(6) this _ g(4,5) P 1(6)] P show ?case by blast
qed

section \<open>Complements and connected subgraphs\<close>

text \<open>The complements \<open>emit_csg\<close> visits for a set: each neighbour in turn, then the sets grown from it.\<close>

fun cmps_from :: "(join_set \<Rightarrow> nat set) \<Rightarrow> join_set \<Rightarrow> nat list \<Rightarrow> join_set list" where
  "cmps_from N F [] = []"
| "cmps_from N F (v # vs) = (bits_of [v] # grow N (bits_of [v]) F) @ cmps_from N (jset_diff F (bits_of [v])) vs"

definition below :: "join_set \<Rightarrow> join_set" where
  "below S = bits_of [0..<Min (rels S)]"

definition cmps :: "(join_set \<Rightarrow> nat set) \<Rightarrow> join_set \<Rightarrow> join_set list" where
  "cmps N S = (let F = jset_union S (below S); nbs = allowed N S F
               in cmps_from N (jset_union F (bits_of nbs)) (rev nbs))"

definition starting :: "(join_set \<Rightarrow> nat set) \<Rightarrow> nat \<Rightarrow> join_set list" where
  "starting N i = bits_of [i] # grow N (bits_of [i]) (jset_union (bits_of [0..<i]) (bits_of [i]))"

definition csgs :: "(join_set \<Rightarrow> nat set) \<Rightarrow> nat \<Rightarrow> join_set list" where
  "csgs N n = concat (map (starting N) (rev [0..<n]))"

lemma rels_single [simp]: "i < 64 \<Longrightarrow> rels (bits_of [i]) = {i}"
  by (subst rels_bits_of) auto

lemma rels_upt [simp]: "i \<le> 64 \<Longrightarrow> rels (bits_of [0..<i]) = {..<i}"
  by (subst rels_bits_of) (auto simp: list_all_iff)

lemma single_nonzero [simp]: "i < 64 \<Longrightarrow> bits_of [i] \<noteq> 0"
  by (metis rels_single insert_not_empty rels_0)

lemma Min_rels: "S \<noteq> 0 \<Longrightarrow> Min (rels S) \<in> rels S \<and> Min (rels S) < 64"
  using Min_in [of "rels S"] rels_less [of "Min (rels S)" S] by simp

lemma rels_below: "S \<noteq> 0 \<Longrightarrow> rels (below S) = {..<Min (rels S)}"
  unfolding below_def using Min_rels [of S] by (intro rels_upt) simp

text \<open>A set grown from the neighbour \<open>v\<close> has \<open>v\<close> but none of the neighbours after \<open>v\<close> in the list.\<close>

lemma cmps_from_inner:
  assumes "B \<in> set (cmps_from N F vs)" "distinct vs" "set vs \<subseteq> rels F"
  shows "rels B \<inter> rels F \<subseteq> set vs \<and> rels B \<inter> set vs \<noteq> {}"
  using assms
proof (induction vs arbitrary: F)
  case (Cons v vs)
  have v: "v < 64" using Cons.prems(3) rels_less by auto
  from Cons.prems(1) consider "B = bits_of [v]" | "B \<in> set (grow N (bits_of [v]) F)" | "B \<in> set (cmps_from N (jset_diff F (bits_of [v])) vs)"
    by auto
  then show ?case
  proof cases
    case 2
    have "rels (bits_of [v]) \<subseteq> rels F" using Cons.prems(3) v by simp
    from grow_inner [OF 2 single_nonzero [OF v] this] show ?thesis using v by auto
  next
    case 3
    have "rels B \<inter> rels (jset_diff F (bits_of [v])) \<subseteq> set vs \<and> rels B \<inter> set vs \<noteq> {}"
      using Cons.prems(2,3) v by (intro Cons.IH [OF 3]) auto
    then show ?thesis using v by auto
  qed (use v in auto)
qed simp

lemma cmps_from_distinct: "distinct vs \<Longrightarrow> set vs \<subseteq> rels F \<Longrightarrow> distinct (cmps_from N F vs)"
proof (induction vs arbitrary: F)
  case (Cons v vs)
  have v: "v < 64" using Cons.prems(2) rels_less by auto
  have sub: "rels (bits_of [v]) \<subseteq> rels F" using Cons.prems(2) v by simp
  have "sorted_wrt not_later (bits_of [v] # grow N (bits_of [v]) F)"
    using grow_order [OF single_nonzero [OF v] sub] grow_inner [OF _ single_nonzero [OF v] sub] by auto
  then have d: "distinct (bits_of [v] # grow N (bits_of [v]) F)" by (rule not_later_distinct)
  have "v \<in> rels B \<and> rels B \<inter> set vs = {}" if "B \<in> set (bits_of [v] # grow N (bits_of [v]) F)" for B
  proof -
    have "rels B \<inter> rels F = {v}" using that grow_inner [OF _ single_nonzero [OF v] sub, of B N] sub v by auto
    then show ?thesis using Cons.prems by auto
  qed
  moreover have v2: "set vs \<subseteq> rels (jset_diff F (bits_of [v]))" using Cons.prems v by auto
  moreover have "rels B \<inter> set vs \<noteq> {}" if "B \<in> set (cmps_from N (jset_diff F (bits_of [v])) vs)" for B
    using cmps_from_inner [OF that _ v2] Cons.prems(1) by simp
  ultimately have "set (bits_of [v] # grow N (bits_of [v]) F) \<inter> set (cmps_from N (jset_diff F (bits_of [v])) vs) = {}" by blast
  with d Cons.IH [OF _ v2] Cons.prems(1) show ?case unfolding cmps_from.simps distinct_append by simp
qed simp

lemma cmps_from_complete:
  assumes "distinct vs" "set vs \<subseteq> rels F" "rels B \<inter> rels F \<subseteq> set vs" "rels B \<inter> set vs \<noteq> {}"
    and "\<And>Y. rels Y \<noteq> {} \<Longrightarrow> rels Y \<subset> rels B \<Longrightarrow> N Y \<inter> (rels B - rels Y) \<noteq> {}"
  shows "B \<in> set (cmps_from N F vs)"
  using assms(1-4)
proof (induction vs arbitrary: F)
  case (Cons v vs)
  have v: "v < 64" using Cons.prems(2) rels_less by auto
  show ?case
  proof (cases "rels B \<inter> set vs = {}")
    case True
    then have b: "rels B \<inter> rels F = rels (bits_of [v])" using Cons.prems v by auto
    show ?thesis
    proof (cases "B = bits_of [v]")
      case False
      then have "rels (bits_of [v]) \<subset> rels B" using b rels_eq_iff [of B "bits_of [v]"] by blast
      moreover have "rels (bits_of [v]) \<noteq> {}" using v by simp
      then have "N Y \<inter> (rels B - rels Y) \<noteq> {}" if "rels (bits_of [v]) \<subseteq> rels Y" "rels Y \<subset> rels B" for Y
        using assms(5) [of Y] that by blast
      ultimately have "B \<in> set (grow N (bits_of [v]) F)" by (rule grow_complete [OF single_nonzero [OF v] _ b])
      then show ?thesis by simp
    qed simp
  next
    case False
    then have "B \<in> set (cmps_from N (jset_diff F (bits_of [v])) vs)" using Cons.prems v by (intro Cons.IH) auto
    then show ?thesis by simp
  qed
qed simp

lemma cmps_inner:
  assumes "S \<noteq> 0" "B \<in> set (cmps N S)"
  shows "rels S \<inter> rels B = {}" "Min (rels S) < Min (rels B)" "B \<noteq> 0"
proof -
  let ?F = "jset_union S (below S)"
  let ?nbs = "allowed N S ?F"
  have "B \<in> set (cmps_from N (jset_union ?F (bits_of ?nbs)) (rev ?nbs))" using assms(2) by (simp add: cmps_def Let_def)
  moreover have "set (rev ?nbs) \<subseteq> rels (jset_union ?F (bits_of ?nbs))" by auto
  ultimately have b: "rels B \<inter> rels (jset_union ?F (bits_of ?nbs)) \<subseteq> set ?nbs" "rels B \<inter> set ?nbs \<noteq> {}"
    using cmps_from_inner [of B N "jset_union ?F (bits_of ?nbs)" "rev ?nbs"] unfolding set_rev distinct_rev by (simp_all only: allowed_props(2) simp_thms)
  then have d: "rels B \<inter> rels ?F = {}" by auto
  then show "rels S \<inter> rels B = {}" by auto
  show "B \<noteq> 0" using b(2) rels_empty_iff by blast
  then have "Min (rels B) \<in> rels B" using Min_rels by simp
  then have "Min (rels B) \<notin> {..<Min (rels S)}" "Min (rels B) \<noteq> Min (rels S)"
    using d Min_rels [OF assms(1)] unfolding jset_rels rels_below [OF assms(1)] by auto
  then show "Min (rels S) < Min (rels B)" by simp
qed

lemma cmps_distinct: "S \<noteq> 0 \<Longrightarrow> distinct (cmps N S)"
  unfolding cmps_def Let_def by (intro cmps_from_distinct) auto

lemma cmps_complete:
  assumes "S \<noteq> 0" "rels S \<inter> rels B = {}" "Min (rels S) < Min (rels B)" "rels B \<inter> N S \<noteq> {}"
    and "\<And>Y. rels Y \<noteq> {} \<Longrightarrow> rels Y \<subset> rels B \<Longrightarrow> N Y \<inter> (rels B - rels Y) \<noteq> {}"
  shows "B \<in> set (cmps N S)"
proof -
  let ?F = "jset_union S (below S)"
  let ?nbs = "allowed N S ?F"
  have "rels B \<inter> {..<Min (rels S)} = {}" using assms(3) by (auto dest: Min_le [OF finite_rels])
  then have d: "rels B \<inter> rels ?F = {}" using assms(2) unfolding jset_rels rels_below [OF assms(1)] by blast
  have "rels B \<inter> set ?nbs \<noteq> {}" using assms(4) d rels_less unfolding allowed_props by blast
  then show ?thesis using d assms(5) unfolding cmps_def Let_def by (intro cmps_from_complete) auto
qed

lemma starting_inner:
  assumes "i < 64" "S \<in> set (starting N i)"
  shows "rels S \<inter> {..<i} = {}" "i \<in> rels S"
proof -
  let ?F = "jset_union (bits_of [0..<i]) (bits_of [i])"
  have F: "rels ?F = {..<i} \<union> {i}" "rels (bits_of [i]) = {i}" "rels (bits_of [i]) \<subseteq> rels ?F" using assms(1) by auto
  from assms(2) have "S = bits_of [i] \<or> S \<in> set (grow N (bits_of [i]) ?F)" unfolding starting_def by simp
  then have "rels S \<inter> ({..<i} \<union> {i}) = {i}"
  proof
    assume "S = bits_of [i]"
    then show ?thesis using F(2) by simp
  next
    assume "S \<in> set (grow N (bits_of [i]) ?F)"
    from grow_inner [OF this single_nonzero [OF assms(1)] F(3)] show ?thesis unfolding F(1,2) by simp
  qed
  then have eq: "x \<in> rels S \<and> x \<le> i \<longleftrightarrow> x = i" for x by (auto simp: set_eq_iff le_less)
  from eq [of i] show "i \<in> rels S" by simp
  show "rels S \<inter> {..<i} = {}" using eq by (metis disjoint_iff lessThan_iff less_irrefl less_imp_le)
qed

lemma starting_order:
  assumes "i < 64"
  shows "sorted_wrt not_later (starting N i)"
proof -
  let ?F = "jset_union (bits_of [0..<i]) (bits_of [i])"
  have F: "rels (bits_of [i]) \<subseteq> rels ?F" by simp
  have "not_later (bits_of [i]) B" if "B \<in> set (grow N (bits_of [i]) ?F)" for B
    using grow_inner [OF that single_nonzero [OF assms] F] by blast
  then show ?thesis using grow_order [OF single_nonzero [OF assms] F] by (simp add: starting_def)
qed

lemma csgs_inner:
  assumes "n \<le> 64" "S \<in> set (csgs N n)"
  shows "S \<noteq> 0"
proof -
  from assms(2) obtain i where i: "i < n" "S \<in> set (starting N i)" by (auto simp: csgs_def)
  then have "i < 64" using assms(1) by simp
  from starting_inner(2) [OF this i(2)] show ?thesis by auto
qed

lemma csgs_order:
  assumes "n \<le> 64"
  shows "sorted_wrt not_later (csgs N n)"
  unfolding csgs_def
proof (rule sorted_wrt_concat)
  fix xs assume "xs \<in> set (map (starting N) (rev [0..<n]))"
  then obtain i where "i < n" "xs = starting N i" by auto
  then show "sorted_wrt not_later xs" using starting_order [of i N] assms by simp
next
  have "not_later A B" if "i < j" "j < n" "A \<in> set (starting N j)" "B \<in> set (starting N i)" for i j A B
  proof -
    have "i < 64" "j < 64" using that assms by simp_all
    with starting_inner(1) [of j A N] starting_inner(2) [of i B N] that show ?thesis by blast
  qed
  then show "sorted_wrt (\<lambda>xs ys. \<forall>x \<in> set xs. \<forall>y \<in> set ys. not_later x y) (map (starting N) (rev [0..<n]))"
    unfolding sorted_wrt_map sorted_wrt_rev by (intro sorted_wrt_mono_rel [OF _ sorted_wrt_upt]) auto
qed

lemma starting_Min: "i < 64 \<Longrightarrow> S \<in> set (starting N i) \<Longrightarrow> Min (rels S) = i"
  using starting_inner [of i S N] by (intro Min_eqI) (auto simp: not_less [symmetric])

lemma csgs_Min_order:
  assumes "n \<le> 64"
  shows "sorted_wrt (\<lambda>A B. Min (rels B) \<le> Min (rels A)) (csgs N n)"
  unfolding csgs_def
proof (rule sorted_wrt_concat)
  fix xs assume "xs \<in> set (map (starting N) (rev [0..<n]))"
  then obtain i where "i < n" "xs = starting N i" by auto
  then have "\<forall>S \<in> set xs. Min (rels S) = i" using starting_Min [of i _ N] assms by auto
  then show "sorted_wrt (\<lambda>A B. Min (rels B) \<le> Min (rels A)) xs" by (induction xs) auto
next
  show "sorted_wrt (\<lambda>xs ys. \<forall>x \<in> set xs. \<forall>y \<in> set ys. Min (rels y) \<le> Min (rels x)) (map (starting N) (rev [0..<n]))"
    unfolding sorted_wrt_map sorted_wrt_rev
  proof (rule sorted_wrt_mono_rel [OF _ sorted_wrt_upt], intro ballI)
    fix i j A B assume "i \<in> set [0..<n]" "j \<in> set [0..<n]" "i < j" "A \<in> set (starting N j)" "B \<in> set (starting N i)"
    then show "Min (rels B) \<le> Min (rels A)" using starting_Min [of i B N] starting_Min [of j A N] assms by simp
  qed
qed

lemma csgs_complete:
  assumes "n \<le> 64" "S \<noteq> 0" "rels S \<subseteq> {..<n}"
    and "\<And>Y. rels Y \<noteq> {} \<Longrightarrow> rels Y \<subset> rels S \<Longrightarrow> N Y \<inter> (rels S - rels Y) \<noteq> {}"
  shows "S \<in> set (csgs N n)"
proof -
  let ?i = "Min (rels S)"
  have i: "?i \<in> rels S" "?i < 64" "?i < n" using Min_rels [OF assms(2)] assms(3) by auto
  have F: "rels S \<inter> rels (jset_union (bits_of [0..<?i]) (bits_of [?i])) = rels (bits_of [?i])"
    using i by (auto dest: Min_le [OF finite_rels])
  have "S \<in> set (bits_of [?i] # grow N (bits_of [?i]) (jset_union (bits_of [0..<?i]) (bits_of [?i])))"
  proof (cases "S = bits_of [?i]")
    case False
    then have "rels (bits_of [?i]) \<subset> rels S" using F rels_eq_iff [of S "bits_of [?i]"] by blast
    moreover have "rels (bits_of [?i]) \<noteq> {}" using i by simp
    then have "N Y \<inter> (rels S - rels Y) \<noteq> {}" if "rels (bits_of [?i]) \<subseteq> rels Y" "rels Y \<subset> rels S" for Y
      using assms(4) [of Y] that by blast
    ultimately have "S \<in> set (grow N (bits_of [?i]) (jset_union (bits_of [0..<?i]) (bits_of [?i])))"
      by (rule grow_complete [OF single_nonzero [OF i(2)] _ F])
    then show ?thesis by simp
  qed simp
  then show ?thesis using i(3) by (auto simp: csgs_def starting_def)
qed

end
