(* ===== verification/Enumerator_Refinement.thy ===== *)
theory Enumerator_Refinement
  imports Enumeration_Order
begin

text \<open>
  The recursive enumeration refines a walk over the lists of \<open>Enumeration_Order\<close>: for a graph below
  the relation limit, \<open>join_reorder_by_dphyp\<close> visits the connected subgraphs in the order of \<open>csgs\<close> and
  offers each of them with its complements in the order of \<open>cmps\<close>. The two differ in the neighbour cache
  of the query graph only. A pair is offered at most once, and fewer than ten relations have fewer
  pairs than the limit allows, so that such a graph is always enumerated to the end.
\<close>

section \<open>States up to the neighbour cache\<close>

definition uncached :: "'f query_graph \<Rightarrow> 'f query_graph" where
  "uncached g = g\<lparr>qg_neighbor_cache := Map.empty\<rparr>"

definition strip :: "'f enumerator \<Rightarrow> 'f enumerator" where
  "strip en = en\<lparr>en_query_graph := uncached (en_query_graph en)\<rparr>"

lemma uncached_sel [simp]:
  "qg_relations (uncached g) = qg_relations g" "qg_edges (uncached g) = qg_edges g" "qg_root_edge (uncached g) = qg_root_edge g"
  by (simp_all add: uncached_def)

lemma uncached_queries [simp]:
  "relation_count (uncached g) = relation_count g" "get_relation (uncached g) = get_relation g"
  "edge_connects (uncached g) = edge_connects g"
  by (simp_all add: fun_eq_iff relation_count_def get_relation_def edge_connects_def)

lemma uncached_connecting [simp]: "get_connecting_edge_indices (uncached g) = get_connecting_edge_indices g"
  by (intro ext) (simp add: get_connecting_edge_indices_def)

lemma uncached_confidence [simp]: "edge_is_low_confidence (uncached g) = edge_is_low_confidence g"
  by (intro ext) (simp add: edge_is_low_confidence_def relation_has_distinct_stat_def)

lemma strip_sel [simp]:
  "en_query_graph (strip en) = uncached (en_query_graph en)" "en_dp_table (strip en) = en_dp_table en"
  "en_emit_count (strip en) = en_emit_count en" "en_anchor_relations (strip en) = en_anchor_relations en"
  "en_enable_fact_anchor_heuristic (strip en) = en_enable_fact_anchor_heuristic en"
  by (simp_all add: strip_def)

text \<open>The states of an enumeration of the graph \<open>g\<close>.\<close>

definition of_graph :: "'f query_graph \<Rightarrow> 'f enumerator \<Rightarrow> bool" where
  "of_graph g en \<longleftrightarrow> graph_ok (en_query_graph en) \<and> uncached (en_query_graph en) = uncached g"

definition refines :: "'f query_graph \<Rightarrow> 'f enum_step \<Rightarrow> 'f enum_step \<Rightarrow> bool" where
  "refines g f f' \<longleftrightarrow> (\<forall>en. of_graph g en \<longrightarrow> of_graph g (snd (f en)) \<and> map_prod id strip (f en) = f' (strip en))"

lemma refinesI: "(\<And>en. of_graph g en \<Longrightarrow> of_graph g (snd (f en)) \<and> map_prod id strip (f en) = f' (strip en)) \<Longrightarrow> refines g f f'"
  by (simp add: refines_def)

lemma refines_skip: "refines g (\<lambda>en. (Inr True, en)) (\<lambda>en. (Inr True, en))"
  by (simp add: refines_def)

lemma refines_and_step: "refines g f f' \<Longrightarrow> refines g h h' \<Longrightarrow> refines g (and_step f h) (and_step f' h')"
proof (rule refinesI)
  fix en assume r: "refines g f f'" "refines g h h'" and en: "of_graph g en"
  obtain r1 en1 where f: "f en = (r1, en1)" by fastforce
  have 1: "of_graph g en1" "f' (strip en) = (r1, strip en1)" using r(1) en f by (auto simp: refines_def dest!: spec [of _ en])
  from r(2) 1(1) have "of_graph g (snd (h en1)) \<and> map_prod id strip (h en1) = h' (strip en1)" by (simp add: refines_def)
  then show "of_graph g (snd (and_step f h en)) \<and> map_prod id strip (and_step f h en) = and_step f' h' (strip en)"
    using 1 f by (cases "r1 = Inr True") (auto simp: and_step_def split: sum.splits bool.splits)
qed

lemma refines_all_steps: "(\<And>x. x \<in> set xs \<Longrightarrow> refines g (f x) (f' x)) \<Longrightarrow> refines g (all_steps f xs) (all_steps f' xs)"
proof (induction xs)
  case Nil
  then show ?case by (simp add: refines_def)
next
  case (Cons x xs)
  have "all_steps f (x # xs) = and_step (f x) (all_steps f xs)" "all_steps f' (x # xs) = and_step (f' x) (all_steps f' xs)"
    by (simp_all add: fun_eq_iff)
  then show ?case using refines_and_step [OF Cons.prems Cons.IH] Cons.prems by (simp add: list.set_intros)
qed

lemma and_step_assoc: "and_step (and_step f g) h = and_step f (and_step g h)"
  by (auto simp: fun_eq_iff and_step_def split: prod.splits sum.splits bool.splits)

lemma and_step_skip [simp]: "and_step (\<lambda>en. (Inr True, en)) f = f" "and_step f (\<lambda>en. (Inr True, en)) = f"
  by (auto simp: fun_eq_iff and_step_def split: prod.splits sum.splits bool.splits)

lemma all_steps_Nil: "all_steps f [] = (\<lambda>en. (Inr True, en))"
  and all_steps_Cons: "all_steps f (x # xs) = and_step (f x) (all_steps f xs)"
  by (simp_all add: fun_eq_iff)

lemma all_steps_append: "all_steps f (xs @ ys) = and_step (all_steps f xs) (all_steps f ys)"
  by (induction xs) (simp_all add: all_steps_Nil all_steps_Cons and_step_assoc)

lemma all_steps_concat: "all_steps f (concat xss) = all_steps (all_steps f) xss"
  by (induction xss) (simp_all add: all_steps_Nil all_steps_Cons all_steps_append)

lemma all_steps_map: "all_steps f (map h xs) = all_steps (\<lambda>x. f (h x)) xs"
  by (induction xs) (simp_all add: all_steps_Nil all_steps_Cons)

section \<open>The walk over the lists\<close>

abbreviation nbr :: "'f query_graph \<Rightarrow> join_set \<Rightarrow> nat set" where
  "nbr g \<equiv> neighbor_set (qg_edges g)"

definition pair_step :: "'f estimator \<Rightarrow> join_set \<Rightarrow> join_set \<Rightarrow> 'f enum_step" where
  "pair_step E left right en =
     (if cardinality right = 1 \<or> en_dp_table en right \<noteq> None then
        let edge_indices = get_connecting_edge_indices (en_query_graph en) left right in
        if edge_indices \<noteq> [] then try_emit_csg_cmp E left right edge_indices en else (Inr True, en)
      else (Inr True, en))"

definition csg_step :: "'f estimator \<Rightarrow> (join_set \<Rightarrow> nat set) \<Rightarrow> nat \<Rightarrow> join_set \<Rightarrow> 'f enum_step" where
  "csg_step E N n S en =
     (if (cardinality S = 1 \<or> en_dp_table en S \<noteq> None) \<and> cardinality S \<noteq> n
      then all_steps (pair_step E S) (cmps N S) en else (Inr True, en))"

lemma neighbor_less: "r \<in> neighbor_set edges X \<Longrightarrow> r < 64"
  using rels_less by (auto simp: neighbor_set_def)

lemma of_graph_queries:
  assumes "of_graph g en"
  shows "qg_edges (en_query_graph en) = qg_edges g" "relation_count (en_query_graph en) = relation_count g"
    and "get_connecting_edge_indices (en_query_graph en) = get_connecting_edge_indices g"
proof -
  have u: "uncached (en_query_graph en) = uncached g" using assms by (simp add: of_graph_def)
  show "qg_edges (en_query_graph en) = qg_edges g" "relation_count (en_query_graph en) = relation_count g"
    "get_connecting_edge_indices (en_query_graph en) = get_connecting_edge_indices g"
    using arg_cong [OF u, of qg_edges] arg_cong [OF u, of relation_count] arg_cong [OF u, of get_connecting_edge_indices] by simp_all
qed

lemma neighbors_refines:
  assumes "of_graph g en"
  shows "\<exists>en'. neighbors X F en = (allowed (nbr g) X F, en') \<and> of_graph g en' \<and> strip en' = strip en"
proof -
  obtain g' where g': "get_neighbors X (en_query_graph en) = (sorted_list_of_set (nbr g X), g')"
    using get_neighbors_spec [of "en_query_graph en" X] assms of_graph_queries(1) [OF assms]
    by (metis of_graph_def prod.collapse)
  have "graph_ok g'" using graph_ok_step [OF graph_search [OF g']] assms by (simp add: of_graph_def)
  moreover have u: "uncached g' = uncached (en_query_graph en)"
    using g' by (auto simp: get_neighbors_def uncached_def Let_def split: option.splits)
  moreover have n: "nbr g X \<inter> {..<64} = nbr g X" using neighbor_less by auto
  have "filter (\<lambda>r. F AND push_bit r 1 = 0) (sorted_list_of_set (nbr g X)) = allowed (nbr g) X F"
    unfolding allowed_def n
  proof (rule filter_cong [OF refl])
    fix r assume "r \<in> set (sorted_list_of_set (nbr g X))"
    then have "r < 64" using n by (metis IntE empty_iff empty_set lessThan_iff list.set(1) set_sorted_list_of_set sorted_list_of_set.fold_insort_key.infinite)
    then show "(F AND push_bit r 1 = 0) = (r \<notin> rels F)"
      using is_disjoint_rels [of F "push_bit r 1"] by (simp add: is_disjoint_def)
  qed
  ultimately show ?thesis using g' assms by (auto simp: neighbors_def of_graph_def strip_def)
qed

lemma of_graph_update [simp]:
  "of_graph g (en\<lparr>en_emit_count := k\<rparr>) \<longleftrightarrow> of_graph g en" "of_graph g (en\<lparr>en_dp_table := t\<rparr>) \<longleftrightarrow> of_graph g en"
  by (simp_all add: of_graph_def)

lemma emit_strip: "strip (emit_csg_cmp E l r es en) = emit_csg_cmp E l r es (strip en)"
  by (auto simp: emit_csg_cmp_def join_cost_def should_apply_fact_anchor_penalty_def Let_def strip_def split: option.splits)

lemma emit_of_graph: "of_graph g (emit_csg_cmp E l r es en) \<longleftrightarrow> of_graph g en"
  by (auto simp: emit_csg_cmp_def Let_def split: option.splits)

lemma strip_update: "strip (en\<lparr>en_emit_count := k\<rparr>) = (strip en)\<lparr>en_emit_count := k\<rparr>"
  by (simp add: strip_def)

lemma try_emit_refines: "refines g (try_emit_csg_cmp E l r es) (try_emit_csg_cmp E l r es)"
  by (rule refinesI) (simp add: try_emit_csg_cmp_def Let_def emit_strip emit_of_graph strip_update)

lemma pair_step_refines: "refines g (pair_step E l r) (pair_step E l r)"
  using try_emit_refines [of g E l r] by (simp add: refines_def pair_step_def Let_def)

section \<open>The enumeration refines the walk\<close>

lemma refines_cong:
  "refines g f f' \<Longrightarrow> (\<And>en. of_graph g en \<Longrightarrow> h en = f en) \<Longrightarrow> refines g h f'"
  by (simp add: refines_def)

lemma refines_after:
  assumes "\<And>en. of_graph g en \<Longrightarrow> \<exists>en'. h en = f en' \<and> of_graph g en' \<and> strip en' = strip en" "refines g f f'"
  shows "refines g h f'"
proof (rule refinesI)
  fix en assume "of_graph g en"
  from assms(1) [OF this] obtain en' where "h en = f en'" "of_graph g en'" "strip en' = strip en" by blast
  with assms(2) show "of_graph g (snd (h en)) \<and> map_prod id strip (h en) = f' (strip en)" by (metis refines_def)
qed

lemma grown_cardinality:
  assumes "c \<in> set (generate_all_nonempty_subsets (allowed N X F))" "X \<noteq> 0" "rels X \<subseteq> rels F"
  shows "cardinality X < cardinality (grown X c)" "cardinality (grown X c) \<noteq> 1" "from_iter c = Inr (bits_of c)"
proof -
  note g = grown_props [OF assms]
  obtain x where "x \<in> set c" using g(3) by (metis ex_in_conv)
  then have "rels X \<subset> rels (grown X c)" unfolding g(1) using g(2) assms(3) by auto
  then show 1: "cardinality X < cardinality (grown X c)" by (simp add: cardinality_rels psubset_card_mono)
  have "cardinality X \<noteq> 0" using assms(2) by (simp add: cardinality_rels)
  then show "cardinality (grown X c) \<noteq> 1" using 1 by simp
  show "from_iter c = Inr (bits_of c)" using g(2) by (intro from_iter_total) auto
qed

lemma prune_small: "relation_count g < 10 \<Longrightarrow> of_graph g en \<Longrightarrow> prune_neighbors E (en_query_graph en) X nbs = Inr nbs"
  by (simp add: prune_neighbors_def of_graph_queries)

lemma from_iter_allowed: "from_iter (allowed N X F) = Inr (bits_of (allowed N X F))"
  by (intro from_iter_total) auto

text \<open>The recursion of both enumerations, with the visit of a set as \<open>f\<close>.\<close>

lemma grow_refines:
  assumes n: "relation_count g < 10" and X: "X \<noteq> 0" "rels X \<subseteq> rels F"
    and rec: "\<And>X F en. rec X F en =
        (let (nbs, en) = neighbors X F en in
         if nbs = [] then (Inr True, en)
         else case prune_neighbors E (en_query_graph en) X nbs of
                Inl e \<Rightarrow> (Inl e, en)
              | Inr nbs \<Rightarrow>
                  let subsets = generate_all_nonempty_subsets nbs in
                  and_step (all_steps (visit X) subsets)
                    (\<lambda>en. case from_iter nbs of
                       Inl e \<Rightarrow> (Inl e, en)
                     | Inr nset \<Rightarrow>
                         all_steps (\<lambda>s. rec s (jset_union F nset)) (map (\<lambda>chosen. jset_union X (bits_of chosen)) subsets) en) en)"
    and visit: "\<And>X F c. c \<in> set (generate_all_nonempty_subsets (allowed (nbr g) X F)) \<Longrightarrow> X \<noteq> 0 \<Longrightarrow> rels X \<subseteq> rels F \<Longrightarrow>
        refines g (visit X c) (f (grown X c))"
  shows "refines g (rec X F) (all_steps f (grow (nbr g) X F))"
  using X
proof (induction "nbr g" X F rule: grow.induct)
  case (1 X F)
  let ?nbs = "allowed (nbr g) X F" and ?G = "barred (nbr g) X F"
  let ?gen = "generate_all_nonempty_subsets ?nbs"
  show ?case
  proof (cases "?nbs = []")
    case True
    have "refines g (rec X F) (\<lambda>en. (Inr True, en))"
    proof (rule refines_after [OF _ refines_skip])
      fix en assume "of_graph g en"
      from neighbors_refines [OF this, of X F] True
      show "\<exists>en'. rec X F en = (Inr True, en') \<and> of_graph g en' \<and> strip en' = strip en" by (auto simp: rec [of X F])
    qed
    then show ?thesis using True by (subst grow.simps) (simp add: all_steps_Nil)
  next
    case False
    let ?all = "and_step (all_steps (visit X) ?gen) (all_steps (\<lambda>s. rec s ?G) (map (grown X) ?gen))"
    have "refines g (rec X F) (and_step (all_steps (\<lambda>c. f (grown X c)) ?gen) (all_steps (\<lambda>s. all_steps f (grow (nbr g) s ?G)) (map (grown X) ?gen)))"
    proof (rule refines_after [of _ _ ?all])
      fix en assume "of_graph g en"
      from neighbors_refines [OF this, of X F] obtain en' where
        en': "neighbors X F en = (?nbs, en')" "of_graph g en'" "strip en' = strip en" by blast
      then show "\<exists>en'. rec X F en = ?all en' \<and> of_graph g en' \<and> strip en' = strip en"
        using False prune_small [OF n en'(2)] by (intro exI [of _ en']) (simp add: rec [of X F] from_iter_allowed Let_def)
    next
      show "refines g ?all (and_step (all_steps (\<lambda>c. f (grown X c)) ?gen) (all_steps (\<lambda>s. all_steps f (grow (nbr g) s ?G)) (map (grown X) ?gen)))"
      proof (intro refines_and_step refines_all_steps)
        fix c assume "c \<in> set ?gen"
        then show "refines g (visit X c) (f (grown X c))" using visit 1(2,3) by blast
      next
        fix s assume s: "s \<in> set (map (grown X) ?gen)"
        then obtain c where c: "c \<in> set ?gen" "s = grown X c" by auto
        show "refines g (rec s ?G) (all_steps f (grow (nbr g) s ?G))"
          using 1(1) [OF refl refl False s] grown_props(4,5) [OF c(1) 1(2,3)] unfolding c(2) by blast
      qed
    qed
    then show ?thesis using False
      by (subst grow.simps) (simp add: Let_def all_steps_append all_steps_concat all_steps_map)
  qed
qed

lemma cmp_rec_refines:
  assumes "relation_count g < 10" "X \<noteq> 0" "rels X \<subseteq> rels F"
  shows "refines g (enumerate_cmp_rec E l X F) (all_steps (pair_step E l) (grow (nbr g) X F))"
proof (rule grow_refines [OF assms, where visit = "cmp_subset E l" and E = E])
  fix X F c
  assume c: "c \<in> set (generate_all_nonempty_subsets (allowed (nbr g) X F))" "X \<noteq> 0" "rels X \<subseteq> rels F"
  have "cmp_subset E l X c = pair_step E l (grown X c)"
    using grown_cardinality [OF c] by (intro ext) (simp add: cmp_subset_def pair_step_def Let_def)
  then show "refines g (cmp_subset E l X c) (pair_step E l (grown X c))" using pair_step_refines by simp
qed (rule enumerate_cmp_rec.simps)

lemma new_singleton_bits: "v < 64 \<Longrightarrow> new_singleton v = Inr (bits_of [v])"
  using new_singleton_rels [of v] rels_single [of v] rels_eq_iff by fastforce

lemma single_cardinality [simp]: "v < 64 \<Longrightarrow> cardinality (bits_of [v]) = 1"
  by (simp add: cardinality_rels)

lemma emit_neighbors_refines:
  assumes n: "relation_count g < 10" and vs: "set vs \<subseteq> rels F" "distinct vs"
  shows "refines g (emit_neighbors E S F vs) (all_steps (pair_step E S) (cmps_from (nbr g) F vs))"
  using vs
proof (induction vs arbitrary: F)
  case Nil
  have "emit_neighbors E S F [] = (\<lambda>en. (Inr True, en))" by (simp add: fun_eq_iff)
  then show ?case using refines_skip by (simp add: all_steps_Nil)
next
  case (Cons v vs)
  have v: "v < 64" "v \<in> rels F" using Cons.prems(1) rels_less by auto
  let ?F = "jset_diff F (bits_of [v])"
  have "emit_neighbors E S F (v # vs) =
      and_step (pair_step E S (bits_of [v])) (and_step (enumerate_cmp_rec E S (bits_of [v]) F) (emit_neighbors E S ?F vs))"
    using v by (intro ext) (simp add: new_singleton_bits pair_step_def [abs_def] Let_def)
  moreover have "refines g (emit_neighbors E S ?F vs) (all_steps (pair_step E S) (cmps_from (nbr g) ?F vs))"
    using Cons.prems v by (intro Cons.IH) auto
  moreover have "refines g (enumerate_cmp_rec E S (bits_of [v]) F) (all_steps (pair_step E S) (grow (nbr g) (bits_of [v]) F))"
    using v by (intro cmp_rec_refines [OF n]) auto
  ultimately show ?case
    by (simp add: all_steps_Cons all_steps_append refines_and_step pair_step_refines)
qed

lemma min_idx_Min: "S \<noteq> 0 \<Longrightarrow> (case jset_iter S of [] \<Rightarrow> 0 | r # rs \<Rightarrow> Min (set (r # rs))) = Min (rels S)"
proof (cases "jset_iter S")
  case Nil
  then show "S \<noteq> 0 \<Longrightarrow> ?thesis" using set_jset_iter [of S] rels_empty_iff [of S] by (metis empty_set)
next
  case (Cons r rs)
  then show ?thesis using set_jset_iter [of S] by (simp only: list.case)
qed

lemma emit_csg_refines:
  assumes n: "relation_count g < 10" and S: "S \<noteq> 0"
  shows "refines g (emit_csg E S)
    (\<lambda>en. if cardinality S \<noteq> relation_count g then all_steps (pair_step E S) (cmps (nbr g) S) en else (Inr True, en))"
proof (cases "cardinality S = relation_count g")
  case True
  then have "emit_csg E S en = (Inr True, en)" if "of_graph g en" for en using that by (simp add: emit_csg_def of_graph_queries)
  then have "refines g (emit_csg E S) (\<lambda>en. (Inr True, en))" by (rule refines_cong [OF refines_skip])
  then show ?thesis using True by simp
next
  case False
  let ?F = "jset_union S (below S)"
  let ?nbs = "allowed (nbr g) S ?F"
  have m: "(case jset_iter S of [] \<Rightarrow> 0 | r # rs \<Rightarrow> Min (set (r # rs))) = Min (rels S)" by (rule min_idx_Min [OF S])
  have b: "from_iter [0..<Min (rels S)] = Inr (below S)" unfolding below_def using Min_rels [OF S] by (intro from_iter_total) auto
  have "refines g (emit_csg E S) (all_steps (pair_step E S) (cmps (nbr g) S))"
  proof (rule refines_after [of _ _ "emit_neighbors E S (jset_union ?F (bits_of ?nbs)) (rev ?nbs)"])
    fix en assume en: "of_graph g en"
    from neighbors_refines [OF this, of S ?F] obtain en' where
      en': "neighbors S ?F en = (?nbs, en')" "of_graph g en'" "strip en' = strip en" by blast
    have "emit_csg E S en = emit_neighbors E S (jset_union ?F (bits_of ?nbs)) (rev ?nbs) en'"
      using False unfolding emit_csg_def of_graph_queries [OF en] m b Let_def
      by (cases "?nbs = []") (simp_all add: en'(1) from_iter_allowed)
    with en' show "\<exists>en'. emit_csg E S en = emit_neighbors E S (jset_union ?F (bits_of ?nbs)) (rev ?nbs) en' \<and>
        of_graph g en' \<and> strip en' = strip en" by blast
  next
    show "refines g (emit_neighbors E S (jset_union ?F (bits_of ?nbs)) (rev ?nbs)) (all_steps (pair_step E S) (cmps (nbr g) S))"
      unfolding cmps_def Let_def by (rule emit_neighbors_refines [OF n]) auto
  qed
  then show ?thesis using False by simp
qed

lemma csg_step_refines:
  assumes n: "relation_count g < 10" and S: "S \<noteq> 0"
    and f: "\<And>en. f en = (if cardinality S = 1 \<or> en_dp_table en S \<noteq> None then emit_csg E S en else (Inr True, en))"
  shows "refines g f (csg_step E (nbr g) (relation_count g) S)"
  using emit_csg_refines [OF n S, of E] unfolding refines_def by (simp add: f csg_step_def)

lemma csg_rec_refines:
  assumes "relation_count g < 10" "X \<noteq> 0" "rels X \<subseteq> rels F"
  shows "refines g (enumerate_csg_rec E X F) (all_steps (csg_step E (nbr g) (relation_count g)) (grow (nbr g) X F))"
proof (rule grow_refines [OF assms, where visit = "csg_subset E" and E = E])
  fix X F c
  assume c: "c \<in> set (generate_all_nonempty_subsets (allowed (nbr g) X F))" "X \<noteq> 0" "rels X \<subseteq> rels F"
  show "refines g (csg_subset E X c) (csg_step E (nbr g) (relation_count g) (grown X c))"
    using grown_cardinality [OF c]
    by (intro csg_step_refines [OF assms(1) grown_props(4) [OF c]]) (simp add: csg_subset_def Let_def)
qed (rule enumerate_csg_rec.simps)

lemma dphyp_refines:
  assumes n: "relation_count g < 10"
  shows "refines g (join_reorder_by_dphyp E) (all_steps (csg_step E (nbr g) (relation_count g)) (csgs (nbr g) (relation_count g)))"
proof -
  have "refines g (process_node_as_start E i) (all_steps (csg_step E (nbr g) (relation_count g)) (starting (nbr g) i))"
    if "i < 64" for i
  proof -
    let ?F = "jset_union (bits_of [0..<i]) (bits_of [i])"
    have b: "from_iter [0..<i] = Inr (bits_of [0..<i])" using that by (intro from_iter_total) auto
    have "process_node_as_start E i = and_step (emit_csg E (bits_of [i])) (enumerate_csg_rec E (bits_of [i]) ?F)"
      using that by (intro ext) (simp add: process_node_as_start_def new_singleton_bits b)
    moreover have "refines g (emit_csg E (bits_of [i])) (csg_step E (nbr g) (relation_count g) (bits_of [i]))"
      using that by (intro csg_step_refines [OF n]) auto
    moreover have "refines g (enumerate_csg_rec E (bits_of [i]) ?F) (all_steps (csg_step E (nbr g) (relation_count g)) (grow (nbr g) (bits_of [i]) ?F))"
      using that by (intro csg_rec_refines [OF n]) auto
    ultimately show ?thesis by (simp add: starting_def all_steps_Cons refines_and_step)
  qed
  then have "refines g (all_steps (process_node_as_start E) (rev [0..<relation_count g]))
      (all_steps (\<lambda>i. all_steps (csg_step E (nbr g) (relation_count g)) (starting (nbr g) i)) (rev [0..<relation_count g]))"
    using n by (intro refines_all_steps) auto
  then show ?thesis
    unfolding csgs_def all_steps_concat all_steps_map
    by (rule refines_cong) (simp add: join_reorder_by_dphyp_def of_graph_queries)
qed

end
