(* ===== verification/Enumerator_Completes.thy ===== *)
theory Enumerator_Completes
  imports Enumerator_Refinement
begin

text \<open>
  The enumeration of a graph with fewer than ten relations never reaches the limit on the number of
  plans: no pair of sets is offered twice, and there are at most \<open>3 ^ 9 div 2\<close> pairs.
\<close>

section \<open>The sets of the walk\<close>

lemma starting_closed:
  assumes "S \<in> set (starting N i)" "i < 64" "P {i}" "\<And>Y c. P (rels Y) \<Longrightarrow> c \<subseteq> N Y \<Longrightarrow> P (rels Y \<union> c)"
  shows "P (rels S)"
proof -
  let ?F = "jset_union (bits_of [0..<i]) (bits_of [i])"
  have "rels (bits_of [i]) \<subseteq> rels ?F" "P (rels (bits_of [i]))" using assms(2,3) by auto
  from grow_closed [where P = P, OF _ single_nonzero [OF assms(2)] this, of S N] assms show ?thesis
    by (auto simp: starting_def)
qed

lemma csgs_closed:
  assumes "S \<in> set (csgs N n)" "n \<le> 64" "\<And>i. i < n \<Longrightarrow> P {i}" "\<And>Y c. P (rels Y) \<Longrightarrow> c \<subseteq> N Y \<Longrightarrow> P (rels Y \<union> c)"
  shows "P (rels S)"
proof -
  from assms(1) obtain i where i: "i < n" "S \<in> set (starting N i)" by (auto simp: csgs_def)
  then have "i < 64" using assms(2) by simp
  from starting_closed [where P = P, OF i(2) this assms(3) [OF i(1)] assms(4)] show ?thesis by blast
qed

lemma cmps_from_closed:
  assumes "B \<in> set (cmps_from N F vs)" "set vs \<subseteq> rels F" "distinct vs"
    and "\<And>v. v \<in> set vs \<Longrightarrow> P {v}" "\<And>Y c. P (rels Y) \<Longrightarrow> c \<subseteq> N Y \<Longrightarrow> P (rels Y \<union> c)"
  shows "P (rels B)"
  using assms(1-4)
proof (induction vs arbitrary: F)
  case (Cons v vs)
  have v: "v < 64" "rels (bits_of [v]) = {v}" "rels (bits_of [v]) \<subseteq> rels F" using Cons.prems(2) rels_less by auto
  from Cons.prems(1) consider "B = bits_of [v]" | "B \<in> set (grow N (bits_of [v]) F)" | "B \<in> set (cmps_from N (jset_diff F (bits_of [v])) vs)"
    by auto
  then show ?case
  proof cases
    case 2
    have "P (rels (bits_of [v]))" using v(2) Cons.prems(4) by simp
    from grow_closed [where P = P, OF 2 single_nonzero [OF v(1)] v(3) this assms(5)] show ?thesis by blast
  next
    case 3
    show ?thesis using Cons.prems(2-4) v by (intro Cons.IH [OF 3]) auto
  qed (use v Cons.prems(4) in auto)
qed simp

lemma cmps_closed:
  assumes "B \<in> set (cmps N S)" "\<And>v. v \<in> N S \<Longrightarrow> P {v}" "\<And>Y c. P (rels Y) \<Longrightarrow> c \<subseteq> N Y \<Longrightarrow> P (rels Y \<union> c)"
  shows "P (rels B)"
  using assms(1) unfolding cmps_def Let_def
  by (rule cmps_from_closed) (use assms(2,3) in auto)

section \<open>Counting pairs of disjoint sets\<close>

definition disjoint_pairs :: "nat set \<Rightarrow> (nat set \<times> nat set) set" where
  "disjoint_pairs U = {(A, B). A \<subseteq> U \<and> B \<subseteq> U \<and> A \<inter> B = {}}"

lemma disjoint_pairs_finite: "finite U \<Longrightarrow> finite (disjoint_pairs U)"
  by (rule finite_subset [of _ "Pow U \<times> Pow U"]) (auto simp: disjoint_pairs_def)

lemma card_disjoint_pairs: "finite U \<Longrightarrow> card (disjoint_pairs U) \<le> 3 ^ card U"
proof (induction U rule: finite_induct)
  case empty
  have "disjoint_pairs {} = {({}, {})}" by (auto simp: disjoint_pairs_def)
  then show ?case by simp
next
  case (insert x U)
  let ?D = "disjoint_pairs U"
  let ?l = "(\<lambda>(A, B). (insert x A, B)) ` ?D" and ?r = "(\<lambda>(A, B). (A, insert x B)) ` ?D"
  have "disjoint_pairs (insert x U) \<subseteq> ?D \<union> (?l \<union> ?r)"
  proof
    fix p assume "p \<in> disjoint_pairs (insert x U)"
    then obtain A B where p: "p = (A, B)" "A \<subseteq> insert x U" "B \<subseteq> insert x U" "A \<inter> B = {}" by (auto simp: disjoint_pairs_def)
    consider "x \<notin> A" "x \<notin> B" | "x \<in> A" "x \<notin> B" | "x \<in> B" "x \<notin> A" using p(4) by blast
    then show "p \<in> ?D \<union> (?l \<union> ?r)"
    proof cases
      case 1
      then show ?thesis using p by (auto simp: disjoint_pairs_def)
    next
      case 2
      then have "(A - {x}, B) \<in> ?D" "p = (insert x (A - {x}), B)" using p by (auto simp: disjoint_pairs_def)
      then have "p \<in> ?l" by (intro image_eqI [of _ _ "(A - {x}, B)"]) simp_all
      then show ?thesis by blast
    next
      case 3
      then have "(A, B - {x}) \<in> ?D" "p = (A, insert x (B - {x}))" using p by (auto simp: disjoint_pairs_def)
      then have "p \<in> ?r" by (intro image_eqI [of _ _ "(A, B - {x})"]) simp_all
      then show ?thesis by blast
    qed
  qed
  moreover have f: "finite ?D" using insert(1) by (rule disjoint_pairs_finite)
  ultimately have "card (disjoint_pairs (insert x U)) \<le> card (?D \<union> (?l \<union> ?r))" by (intro card_mono) auto
  also have "\<dots> \<le> card ?D + (card ?l + card ?r)" using card_Un_le [of ?l ?r] card_Un_le [of ?D "?l \<union> ?r"] by linarith
  also have "\<dots> \<le> 3 * card ?D" using card_image_le [OF f, of "\<lambda>(A, B). (insert x A, B)"] card_image_le [OF f, of "\<lambda>(A, B). (A, insert x B)"] by linarith
  finally show ?case using insert by simp
qed

text \<open>Of two disjoint sets one has the smaller minimum, so only half of the pairs are ordered.\<close>

lemma card_ordered_pairs:
  assumes P: "P \<subseteq> disjoint_pairs U" "\<And>A B. (A, B) \<in> P \<Longrightarrow> Min A < Min B" and U: "finite U"
  shows "2 * card P \<le> 3 ^ card U"
proof -
  have f: "finite P" using finite_subset [OF P(1) disjoint_pairs_finite [OF U]] .
  let ?Q = "prod.swap ` P"
  have "False" if "(A, B) \<in> P" "(B, A) \<in> P" for A B using P(2) [OF that(1)] P(2) [OF that(2)] by simp
  then have "P \<inter> ?Q = {}" by auto
  then have "card (P \<union> ?Q) = card P + card ?Q" using f by (intro card_Un_disjoint) auto
  moreover have "card ?Q = card P" by (rule card_image) (auto intro: inj_onI)
  moreover have "P \<union> ?Q \<subseteq> disjoint_pairs U" using P(1) by (auto simp: disjoint_pairs_def)
  then have "card (P \<union> ?Q) \<le> card (disjoint_pairs U)" by (intro card_mono disjoint_pairs_finite U)
  ultimately show ?thesis using card_disjoint_pairs [OF U] by linarith
qed

section \<open>The walk stays below the limit\<close>

lemma all_steps_budget:
  assumes "\<And>x en. x \<in> set xs \<Longrightarrow> en_emit_count en + k x < EMIT_THRESHOLD \<Longrightarrow>
      \<exists>en'. f x en = (Inr True, en') \<and> en_emit_count en' \<le> en_emit_count en + k x"
    and "en_emit_count en + sum_list (map k xs) < EMIT_THRESHOLD"
  shows "\<exists>en'. all_steps f xs en = (Inr True, en') \<and> en_emit_count en' \<le> en_emit_count en + sum_list (map k xs)"
  using assms
proof (induction xs arbitrary: en)
  case (Cons x xs)
  obtain en1 where 1: "f x en = (Inr True, en1)" "en_emit_count en1 \<le> en_emit_count en + k x"
    using Cons.prems(1) [of x en] Cons.prems(2) by auto
  then obtain en2 where "all_steps f xs en1 = (Inr True, en2)" "en_emit_count en2 \<le> en_emit_count en1 + sum_list (map k xs)"
    using Cons.IH [of en1] Cons.prems by auto
  with 1 show ?case by (simp add: and_step_def)
qed simp

lemma emit_count [simp]: "en_emit_count (emit_csg_cmp E l r es en) = en_emit_count en"
  by (auto simp: emit_csg_cmp_def Let_def split: option.splits)

lemma pair_step_budget:
  "en_emit_count en + 1 < EMIT_THRESHOLD \<Longrightarrow> \<exists>en'. pair_step E l r en = (Inr True, en') \<and> en_emit_count en' \<le> en_emit_count en + 1"
  by (auto simp: pair_step_def try_emit_csg_cmp_def Let_def)

lemma csg_step_budget:
  assumes "en_emit_count en + length (cmps N S) < EMIT_THRESHOLD"
  shows "\<exists>en'. csg_step E N n S en = (Inr True, en') \<and> en_emit_count en' \<le> en_emit_count en + length (cmps N S)"
proof -
  have "\<exists>en'. all_steps (pair_step E S) (cmps N S) en = (Inr True, en') \<and> en_emit_count en' \<le> en_emit_count en + sum_list (map (\<lambda>_. 1) (cmps N S))"
    using assms pair_step_budget by (intro all_steps_budget) (auto simp: sum_list_triv)
  then show ?thesis by (auto simp: csg_step_def sum_list_triv)
qed

text \<open>The pairs of the walk are ordered pairs of disjoint sets, and no pair comes twice.\<close>

definition walk_pairs :: "(join_set \<Rightarrow> nat set) \<Rightarrow> nat \<Rightarrow> (join_set \<times> join_set) list" where
  "walk_pairs N n = concat (map (\<lambda>S. map (Pair S) (cmps N S)) (csgs N n))"

lemma distinct_walk_pairs: "n \<le> 64 \<Longrightarrow> distinct (walk_pairs N n)"
proof -
  assume n: "n \<le> 64"
  have "distinct (concat (map (\<lambda>S. map (Pair S) (cmps N S)) Ss))" if "distinct Ss" "0 \<notin> set Ss" for Ss
    using that by (induction Ss) (auto simp: distinct_map inj_on_def cmps_distinct)
  moreover have "distinct (csgs N n)" using csgs_order [OF n] by (rule not_later_distinct)
  moreover have "0 \<notin> set (csgs N n)" using csgs_inner [OF n] by blast
  ultimately show ?thesis by (simp add: walk_pairs_def)
qed

lemma walk_pairs_bound:
  assumes n: "n \<le> 64" and N: "\<And>X. N X \<subseteq> {..<n}"
  shows "2 * length (walk_pairs N n) \<le> 3 ^ n"
proof -
  let ?P = "(\<lambda>(A, B). (rels A, rels B)) ` set (walk_pairs N n)"
  have "inj_on (\<lambda>(A, B). (rels A, rels B)) (set (walk_pairs N n))" by (rule inj_onI) (auto simp: rels_eq_iff)
  then have "card ?P = length (walk_pairs N n)" using distinct_card [OF distinct_walk_pairs [OF n, of N]] by (simp add: card_image)
  moreover have "2 * card ?P \<le> 3 ^ card {..<n}"
  proof (rule card_ordered_pairs)
    have inner: "rels A \<inter> rels B = {} \<and> rels A \<subseteq> {..<n} \<and> rels B \<subseteq> {..<n} \<and> Min (rels A) < Min (rels B)"
      if "(A, B) \<in> set (walk_pairs N n)" for A B
    proof -
      have A: "A \<in> set (csgs N n)" "B \<in> set (cmps N A)" using that by (auto simp: walk_pairs_def)
      have "rels A \<subseteq> {..<n}" by (rule csgs_closed [OF A(1) n]) (use N in auto)
      moreover have "rels B \<subseteq> {..<n}" by (rule cmps_closed [OF A(2)]) (use N in auto)
      ultimately show ?thesis using cmps_inner [OF csgs_inner [OF n A(1)] A(2)] by blast
    qed
    show "?P \<subseteq> disjoint_pairs {..<n}"
    proof clarify
      fix A B assume "(A, B) \<in> set (walk_pairs N n)"
      from inner [OF this] show "(rels A, rels B) \<in> disjoint_pairs {..<n}" by (simp add: disjoint_pairs_def)
    qed
    show "\<And>A B. (A, B) \<in> ?P \<Longrightarrow> Min A < Min B" using inner by auto
  qed simp
  ultimately show ?thesis by simp
qed

lemma length_walk_pairs: "length (walk_pairs N n) = sum_list (map (\<lambda>S. length (cmps N S)) (csgs N n))"
  by (simp add: walk_pairs_def length_concat comp_def)

text \<open>All edges are within the relations of the graph.\<close>

definition edges_within :: "'f query_graph \<Rightarrow> bool" where
  "edges_within g = list_all (\<lambda>e. rels (je_join_set e) \<subseteq> {..<relation_count g}) (qg_edges g)"

lemma neighbors_within: "edges_within g \<Longrightarrow> nbr g X \<subseteq> {..<relation_count g}"
  by (fastforce simp: edges_within_def neighbor_set_def list_all_iff)

lemma walk_completes:
  assumes n: "relation_count g < 10" and w: "edges_within g" and en: "en_emit_count en = 0"
  shows "\<exists>en'. all_steps (csg_step E (nbr g) (relation_count g)) (csgs (nbr g) (relation_count g)) en = (Inr True, en')"
proof -
  have "2 * length (walk_pairs (nbr g) (relation_count g)) \<le> 3 ^ relation_count g"
    using n neighbors_within [OF w] by (intro walk_pairs_bound) auto
  also have "\<dots> \<le> 3 ^ 9" using n by (intro power_increasing) auto
  finally have "en_emit_count en + sum_list (map (\<lambda>S. length (cmps (nbr g) S)) (csgs (nbr g) (relation_count g))) < EMIT_THRESHOLD"
    by (simp add: en length_walk_pairs)
  from all_steps_budget [where f = "csg_step E (nbr g) (relation_count g)", OF csg_step_budget this] show ?thesis by blast
qed

end
