(* ===== verification/Plan_Optimality.thy ===== *)
theory Plan_Optimality
  imports Enumerator_Completes
begin

text \<open>
  What the dynamic programming finds. A join tree is valid when every join of it has an edge within
  its two sides, so that it has no cross product. The walk of \<open>Enumerator_Refinement\<close> leaves in the table,
  for every set of relations that has a valid tree, a plan of a valid tree, and one that is no worse
  than any valid tree in an order the costs are monotone in.
\<close>

section \<open>Join trees\<close>

datatype join_tree = Rel nat | Join join_tree join_tree

primrec leaves :: "join_tree \<Rightarrow> nat list" where
  "leaves (Rel i) = [i]"
| "leaves (Join a b) = leaves a @ leaves b"

primrec tree_set :: "join_tree \<Rightarrow> join_set" where
  "tree_set (Rel i) = bits_of [i]"
| "tree_set (Join a b) = jset_union (tree_set a) (tree_set b)"

primrec valid_tree :: "'f query_graph \<Rightarrow> join_tree \<Rightarrow> bool" where
  "valid_tree g (Rel i) \<longleftrightarrow> i < relation_count g"
| "valid_tree g (Join a b) \<longleftrightarrow> valid_tree g a \<and> valid_tree g b \<and> get_connecting_edge_indices g (tree_set a) (tree_set b) \<noteq> []"

definition join_plan :: "'f estimator \<Rightarrow> 'f enumerator \<Rightarrow> join_set \<Rightarrow> join_set \<Rightarrow> 'f dp_plan \<Rightarrow> 'f dp_plan \<Rightarrow> 'f dp_plan" where
  "join_plan E en l r pl pr =
     (let es = get_connecting_edge_indices (en_query_graph en) l r;
          crd = estimate_join_cardinality E (dp_cardinality pl) (dp_cardinality pr) es
      in new_join l r es (join_cost E en pl pr (jset_union l r) es crd) crd)"

definition rel_plan :: "'f estimator \<Rightarrow> nat \<Rightarrow> 'f dp_plan" where
  "rel_plan E i =
     \<lparr>dp_join_set = bits_of [i], dp_cost = f_lit E 0,
      dp_cardinality = (case estimate_cardinality E (bits_of [i]) of Inr crd \<Rightarrow> crd | Inl e \<Rightarrow> f_inf E), dp_plan_type = Plan_Leaf i\<rparr>"

text \<open>The plan the cost model gives a tree.\<close>

primrec tree_plan :: "'f estimator \<Rightarrow> 'f enumerator \<Rightarrow> join_tree \<Rightarrow> 'f dp_plan" where
  "tree_plan E en (Rel i) = rel_plan E i"
| "tree_plan E en (Join a b) = join_plan E en (tree_set a) (tree_set b) (tree_plan E en a) (tree_plan E en b)"

text \<open>The tree a table describes.\<close>

function plan_tree :: "(join_set \<rightharpoonup> 'f dp_plan) \<Rightarrow> join_set \<Rightarrow> join_tree option" where
  "plan_tree tbl S =
     (case tbl S of
        None \<Rightarrow> None
      | Some p \<Rightarrow>
          (case dp_plan_type p of
             Plan_Leaf i \<Rightarrow> Some (Rel i)
           | Plan_Join l r es \<Rightarrow>
               if cardinality l < cardinality S \<and> cardinality r < cardinality S then
                 (case (plan_tree tbl l, plan_tree tbl r) of
                    (Some a, Some b) \<Rightarrow> Some (Join a b)
                  | _ \<Rightarrow> None)
               else None))"
  by pat_completeness auto

termination
  by (relation "measure (\<lambda>(tbl, S). cardinality S)") auto

declare plan_tree.simps [simp del]

lemma valid_tree_within:
  assumes "valid_tree g t" "relation_count g \<le> 64"
  shows "rels (tree_set t) \<subseteq> {..<relation_count g} \<and> tree_set t \<noteq> 0"
  using assms
proof (induction t)
  case (Rel i)
  then show ?case by simp
next
  case (Join a b)
  then show ?case by (metis Un_empty Un_least jset_rels(2) rels_empty_iff tree_set.simps(2) valid_tree.simps(2))
qed

text \<open>Two sets are linked when an edge lies within them and meets both.\<close>

definition linked :: "'f query_graph \<Rightarrow> nat set \<Rightarrow> nat set \<Rightarrow> bool" where
  "linked g A B \<longleftrightarrow> (\<exists>e \<in> set (qg_edges g). rels (je_join_set e) \<subseteq> A \<union> B \<and> rels (je_join_set e) \<inter> A \<noteq> {} \<and> rels (je_join_set e) \<inter> B \<noteq> {})"

lemma bex_nth: "(\<exists>x \<in> set xs. P x) \<longleftrightarrow> (\<exists>i < length xs. P (xs ! i))"
  by (metis in_set_conv_nth)

lemma connecting_linked:
  assumes "graph_ok g"
  shows "get_connecting_edge_indices g l r \<noteq> [] \<longleftrightarrow> rels l \<inter> rels r = {} \<and> linked g (rels l) (rels r)"
proof -
  have "get_connecting_edge_indices g l r \<noteq> [] \<longleftrightarrow> set (get_connecting_edge_indices g l r) \<noteq> {}" by simp
  also have "\<dots> \<longleftrightarrow> rels l \<inter> rels r = {} \<and> linked g (rels l) (rels r)"
    unfolding connecting_edges_spec(1) [OF assms] edge_connects_rels is_disjoint_rels linked_def bex_nth
    by (simp add: conj_ac)
  finally show ?thesis .
qed

lemma linked_sym: "linked g A B \<longleftrightarrow> linked g B A"
  unfolding linked_def by (auto simp: Un_commute)

lemma connecting_sym: "graph_ok g \<Longrightarrow> get_connecting_edge_indices g l r \<noteq> [] \<longleftrightarrow> get_connecting_edge_indices g r l \<noteq> []"
  by (simp add: connecting_linked linked_sym Int_commute)

lemma linked_mono: "linked g A B \<Longrightarrow> A \<subseteq> A' \<Longrightarrow> B \<subseteq> B' \<Longrightarrow> linked g A' B'"
  unfolding linked_def by blast

text \<open>No part of the relations of a valid tree is cut off from the rest.\<close>

lemma valid_tree_connected:
  assumes "graph_ok g" "relation_count g \<le> 64" "valid_tree g t" "Y \<noteq> {}" "Y \<subset> rels (tree_set t)"
  shows "linked g Y (rels (tree_set t) - Y)"
  using assms(3-)
proof (induction t arbitrary: Y)
  case (Rel i)
  then have "i < 64" using assms(2) by simp
  then show ?case using Rel by auto
next
  case (Join a b)
  let ?A = "rels (tree_set a)" and ?B = "rels (tree_set b)"
  have v: "valid_tree g a" "valid_tree g b" "?A \<inter> ?B = {}" "linked g ?A ?B"
    using Join.prems(1) by (auto simp: connecting_linked [OF assms(1)])
  have U: "rels (tree_set (Join a b)) = ?A \<union> ?B" by simp
  consider (a) "Y \<inter> ?A \<noteq> {}" "\<not> ?A \<subseteq> Y" | (b) "Y \<inter> ?B \<noteq> {}" "\<not> ?B \<subseteq> Y" | (A) "Y = ?A" | (B) "Y = ?B"
    using Join.prems(2,3) v(3) unfolding U by blast
  then show ?case
  proof cases
    case a
    then have "linked g (Y \<inter> ?A) (?A - Y \<inter> ?A)" using Join.IH(1) [OF v(1), of "Y \<inter> ?A"] by blast
    then show ?thesis unfolding U by (rule linked_mono) auto
  next
    case b
    then have "linked g (Y \<inter> ?B) (?B - Y \<inter> ?B)" using Join.IH(2) [OF v(2), of "Y \<inter> ?B"] by blast
    then show ?thesis unfolding U by (rule linked_mono) auto
  next
    case A
    have "?B = rels (tree_set (Join a b)) - Y" unfolding U A using v(3) by blast
    then show ?thesis using v(4) A by simp
  next
    case B
    have "?A = rels (tree_set (Join a b)) - Y" unfolding U B using v(3) by blast
    then show ?thesis using v(4) B linked_sym by metis
  qed
qed

lemma linked_neighbor: "linked g (rels X) B \<Longrightarrow> rels X \<inter> B = {} \<Longrightarrow> nbr g X \<inter> B \<noteq> {}"
proof -
  assume "linked g (rels X) B" and d: "rels X \<inter> B = {}"
  then obtain e a b where e: "e \<in> set (qg_edges g)" "a \<in> rels (je_join_set e)" "a \<in> rels X" "b \<in> rels (je_join_set e)" "b \<in> B"
    unfolding linked_def by blast
  then have "a \<noteq> b" using d by blast
  with e have "b \<in> nbr g X" unfolding neighbor_set_def by blast
  with e(5) show ?thesis by blast
qed

lemma valid_tree_grows:
  assumes "graph_ok g" "relation_count g \<le> 64" "valid_tree g t" "rels Y \<noteq> {}" "rels Y \<subset> rels (tree_set t)"
  shows "nbr g Y \<inter> (rels (tree_set t) - rels Y) \<noteq> {}"
  using valid_tree_connected [OF assms] by (intro linked_neighbor) auto

lemma valid_tree_csgs:
  assumes "graph_ok g" "relation_count g \<le> 64" "valid_tree g t"
  shows "tree_set t \<in> set (csgs (nbr g) (relation_count g))"
  using valid_tree_within [OF assms(3,2)] valid_tree_grows [OF assms] by (intro csgs_complete [OF assms(2)]) auto

lemma valid_tree_cmps:
  assumes "graph_ok g" "relation_count g \<le> 64" "valid_tree g (Join a b)" "Min (rels (tree_set a)) < Min (rels (tree_set b))"
  shows "tree_set b \<in> set (cmps (nbr g) (tree_set a))"
proof (rule cmps_complete)
  have v: "valid_tree g a" "valid_tree g b" "rels (tree_set a) \<inter> rels (tree_set b) = {}" "linked g (rels (tree_set a)) (rels (tree_set b))"
    using assms(3) by (auto simp: connecting_linked [OF assms(1)])
  show "tree_set a \<noteq> 0" using valid_tree_within [OF v(1) assms(2)] by blast
  show "rels (tree_set b) \<inter> nbr g (tree_set a) \<noteq> {}" using linked_neighbor [OF v(4,3)] by blast
  show "nbr g Y \<inter> (rels (tree_set b) - rels Y) \<noteq> {}" if "rels Y \<noteq> {}" "rels Y \<subset> rels (tree_set b)" for Y
    by (rule valid_tree_grows [OF assms(1,2) v(2) that])
qed (use assms(3,4) in \<open>auto simp: connecting_linked [OF assms(1)]\<close>)

section \<open>The table during the walk\<close>

definition split_pair :: "join_tree \<Rightarrow> join_tree \<Rightarrow> join_set \<times> join_set" where
  "split_pair a b = (if Min (rels (tree_set a)) < Min (rels (tree_set b)) then (tree_set a, tree_set b) else (tree_set b, tree_set a))"

text \<open>All ways to split a set into two valid trees are among the pairs \<open>P\<close>.\<close>

definition ready :: "'f query_graph \<Rightarrow> (join_set \<times> join_set) set \<Rightarrow> join_set \<Rightarrow> bool" where
  "ready g P U \<longleftrightarrow> (\<forall>a b. valid_tree g (Join a b) \<longrightarrow> tree_set (Join a b) = U \<longrightarrow> split_pair a b \<in> P)"

lemma ready_mono: "ready g P U \<Longrightarrow> P \<subseteq> Q \<Longrightarrow> ready g Q U"
  unfolding ready_def by blast

definition described ::
  "'f estimator \<Rightarrow> 'f enumerator \<Rightarrow> (join_set \<times> join_set) set \<Rightarrow> (join_set \<rightharpoonup> 'f dp_plan) \<Rightarrow> join_set \<Rightarrow> 'f dp_plan \<Rightarrow> bool" where
  "described E en P T U p \<longleftrightarrow>
     (\<exists>i < relation_count (en_query_graph en). U = bits_of [i] \<and> p = rel_plan E i) \<or>
     (\<exists>l r pl pr. T l = Some pl \<and> T r = Some pr \<and> U = jset_union l r \<and> p = join_plan E en l r pl pr \<and> l \<noteq> 0 \<and> r \<noteq> 0 \<and>
        get_connecting_edge_indices (en_query_graph en) l r \<noteq> [] \<and>
        ready (en_query_graph en) P l \<and> ready (en_query_graph en) P r)"

definition table_inv ::
  "'f estimator \<Rightarrow> 'f enumerator \<Rightarrow> ('f \<Rightarrow> 'f \<Rightarrow> bool) \<Rightarrow> (join_set \<times> join_set) set \<Rightarrow> (join_set \<rightharpoonup> 'f dp_plan) \<Rightarrow> bool" where
  "table_inv E en le P T \<longleftrightarrow>
     (\<forall>i < relation_count (en_query_graph en). T (bits_of [i]) = Some (rel_plan E i)) \<and>
     (\<forall>U p. T U = Some p \<longrightarrow> described E en P T U p) \<and>
     (\<forall>a b. valid_tree (en_query_graph en) (Join a b) \<longrightarrow> split_pair a b \<in> P \<longrightarrow>
        (\<exists>p. T (tree_set (Join a b)) = Some p \<and> le (dp_cost p) (dp_cost (tree_plan E en (Join a b)))))"

text \<open>The parts of the enumerator that stay the same during the walk.\<close>

definition setting :: "'f enumerator \<Rightarrow> 'f enumerator \<Rightarrow> bool" where
  "setting en0 en \<longleftrightarrow> en_query_graph en = en_query_graph en0 \<and> en_anchor_relations en = en_anchor_relations en0 \<and>
     en_enable_fact_anchor_heuristic en = en_enable_fact_anchor_heuristic en0"

definition updated :: "'f estimator \<Rightarrow> (join_set \<rightharpoonup> 'f dp_plan) \<Rightarrow> join_set \<Rightarrow> 'f dp_plan \<Rightarrow> join_set \<rightharpoonup> 'f dp_plan" where
  "updated E T U p =
     (if (case T U of Some existing \<Rightarrow> f_lt E (dp_cost p) (dp_cost existing) | None \<Rightarrow> True) then T(U \<mapsto> p) else T)"

lemma emit_table:
  assumes "setting en0 en" "en_dp_table en l = Some pl" "en_dp_table en r = Some pr"
  shows "en_dp_table (emit_csg_cmp E l r (get_connecting_edge_indices (en_query_graph en0) l r) en) =
    updated E (en_dp_table en) (jset_union l r) (join_plan E en0 l r pl pr)"
proof -
  have "join_cost E en = join_cost E en0"
    using assms(1) by (simp add: fun_eq_iff join_cost_def should_apply_fact_anchor_penalty_def setting_def)
  then show ?thesis
    using assms(2,3) by (cases "en_dp_table en (jset_union l r)") (simp_all add: emit_csg_cmp_def updated_def join_plan_def new_join_def Let_def)
qed

lemma emit_nothing: "en_dp_table en l = None \<or> en_dp_table en r = None \<Longrightarrow> emit_csg_cmp E l r es en = en"
  by (auto simp: emit_csg_cmp_def split: option.splits)

lemma emit_setting [simp]: "setting en0 (emit_csg_cmp E l r es en) \<longleftrightarrow> setting en0 en"
  by (auto simp: emit_csg_cmp_def setting_def Let_def split: option.splits)

lemma table_inv_skip:
  assumes "table_inv E en le P T" "\<And>a b. valid_tree (en_query_graph en) (Join a b) \<Longrightarrow> split_pair a b \<in> Q \<Longrightarrow> split_pair a b \<in> P" "P \<subseteq> Q"
  shows "table_inv E en le Q T"
proof -
  have "described E en Q T U p" if "described E en P T U p" for U p
    using that ready_mono [OF _ assms(3)] unfolding described_def by blast
  then show ?thesis using assms unfolding table_inv_def by blast
qed

text \<open>The pairs offered for a list of sets, and that every split of a visited set has been offered.\<close>

definition offered :: "'f query_graph \<Rightarrow> join_set list \<Rightarrow> (join_set \<times> join_set) set" where
  "offered g Ss = (SIGMA S : set Ss. set (cmps (nbr g) S))"

lemma valid_swap: "graph_ok g \<Longrightarrow> valid_tree g (Join a b) \<Longrightarrow> valid_tree g (Join b a)"
  using connecting_sym by auto

lemma split_pair_cases:
  assumes "graph_ok g" "relation_count g \<le> 64" "valid_tree g (Join a b)"
  obtains a' b' where "split_pair a b = (tree_set a', tree_set b')" "valid_tree g (Join a' b')" "tree_set (Join a' b') = tree_set (Join a b)"
    "Min (rels (tree_set a')) < Min (rels (tree_set b'))"
proof (cases "Min (rels (tree_set a)) < Min (rels (tree_set b))")
  case True
  then show ?thesis using that [of a b] assms(3) by (simp add: split_pair_def)
next
  case False
  have d: "rels (tree_set a) \<inter> rels (tree_set b) = {}" using assms(3) connecting_linked [OF assms(1)] by simp
  have "tree_set a \<noteq> 0" "tree_set b \<noteq> 0" using assms(3) valid_tree_within [OF _ assms(2)] by simp_all
  then have "Min (rels (tree_set b)) < Min (rels (tree_set a))" using Min_rels [of "tree_set a"] Min_rels [of "tree_set b"] d False
    by (metis disjoint_iff linorder_neqE_nat)
  then show ?thesis using that [of b a] valid_swap [OF assms(1,3)] False by (simp add: split_pair_def jset.union_comm)
qed

lemma split_offered:
  assumes g: "graph_ok g" "relation_count g \<le> 64" and v: "valid_tree g (Join a b)"
    and csgs: "csgs (nbr g) (relation_count g) = pre @ S # post"
    and U: "tree_set (Join a b) = S \<or> tree_set (Join a b) \<in> set (cmps (nbr g) S)"
  shows "split_pair a b \<in> offered g pre"
proof -
  obtain a' b' where s: "split_pair a b = (tree_set a', tree_set b')" and v': "valid_tree g (Join a' b')"
    and U': "tree_set (Join a' b') = tree_set (Join a b)" and m: "Min (rels (tree_set a')) < Min (rels (tree_set b'))"
    by (rule split_pair_cases [OF g v])
  let ?A = "tree_set a'"
  have va: "valid_tree g a'" "valid_tree g b'" and d: "rels ?A \<inter> rels (tree_set b') = {}"
    using v' connecting_linked [OF g(1)] by simp_all
  have ne: "?A \<noteq> 0" "tree_set b' \<noteq> 0" using va valid_tree_within [OF _ g(2)] by blast+
  have sub: "rels ?A \<subseteq> rels (tree_set (Join a b))" unfolding U' [symmetric] by simp
  have A: "?A \<in> set pre \<union> {S} \<union> set post" using valid_tree_csgs [OF g va(1)] csgs by auto
  have order: "sorted_wrt not_later (pre @ S # post)" "sorted_wrt (\<lambda>A B. Min (rels B) \<le> Min (rels A)) (pre @ S # post)"
    using csgs_order [OF g(2), of "nbr g"] csgs_Min_order [OF g(2), of "nbr g"] unfolding csgs .
  have S: "S \<noteq> 0" using csgs_inner [OF g(2), of S "nbr g"] csgs by simp
  from U have "?A \<noteq> S \<and> ?A \<notin> set post"
  proof
    assume U: "tree_set (Join a b) = S"
    have "rels S = rels ?A \<union> rels (tree_set b')" using U U' by (metis jset_rels(2) tree_set.simps(2))
    then have "Min (rels (tree_set b')) \<in> rels S - rels ?A" using Min_rels [OF ne(2)] d by auto
    then show ?thesis using order(1) sub U by (auto simp: sorted_wrt_append)
  next
    assume "tree_set (Join a b) \<in> set (cmps (nbr g) S)"
    then have "Min (rels S) < Min (rels (tree_set (Join a b)))" using cmps_inner(2) [OF S] by blast
    also have "\<dots> \<le> Min (rels ?A)" using ne(1) sub by (intro Min_antimono) auto
    finally show ?thesis using order(2) by (auto simp: sorted_wrt_append)
  qed
  with A have "?A \<in> set pre" by blast
  then show ?thesis using valid_tree_cmps [OF g v' m] unfolding s offered_def by blast
qed

definition fit :: "'f query_graph \<Rightarrow> bool" where
  "fit g \<longleftrightarrow> graph_ok g \<and> relation_count g \<le> 64"

lemma fitD: "fit g \<Longrightarrow> graph_ok g" "fit g \<Longrightarrow> relation_count g \<le> 64"
  by (simp_all add: fit_def)

text \<open>
  An order on costs in which the plan of a join is monotone in the plans of its sides, in either
  orientation of the join, and which agrees with the comparison the enumerator makes.
\<close>

locale plan_order =
  fixes E :: "'f estimator"
    and en0 :: "'f enumerator"
    and le :: "'f \<Rightarrow> 'f \<Rightarrow> bool"
  assumes refl: "le x x"
    and trans: "le x y \<Longrightarrow> le y z \<Longrightarrow> le x z"
    and less_le: "f_lt E x y \<Longrightarrow> le x y"
    and not_less_le: "\<not> f_lt E x y \<Longrightarrow> le y x"
    and join_mono: "fit (en_query_graph en0) \<Longrightarrow> valid_tree (en_query_graph en0) (Join a b) \<Longrightarrow> valid_tree (en_query_graph en0) a' \<Longrightarrow> valid_tree (en_query_graph en0) b' \<Longrightarrow>
      tree_set a' = tree_set a \<Longrightarrow> tree_set b' = tree_set b \<Longrightarrow>
      le (dp_cost (tree_plan E en0 a')) (dp_cost (tree_plan E en0 a)) \<Longrightarrow> le (dp_cost (tree_plan E en0 b')) (dp_cost (tree_plan E en0 b)) \<Longrightarrow>
      le (dp_cost (tree_plan E en0 (Join a' b'))) (dp_cost (tree_plan E en0 (Join a b))) \<and>
      le (dp_cost (tree_plan E en0 (Join a' b'))) (dp_cost (tree_plan E en0 (Join b a)))"
begin

lemma union_larger:
  assumes fit: "fit (en_query_graph en0)" and "l \<noteq> 0" "r \<noteq> 0" "get_connecting_edge_indices (en_query_graph en0) l r \<noteq> []"
  shows "rels l \<inter> rels r = {}" "cardinality l < cardinality (jset_union l r)" "cardinality r < cardinality (jset_union l r)"
proof -
  note graph = fitD(1) [OF fit]
  show d: "rels l \<inter> rels r = {}" using assms(4) connecting_linked [OF graph] by blast
  obtain x y where "x \<in> rels l" "y \<in> rels r" using assms(2,3) rels_empty_iff by (metis ex_in_conv)
  then have "rels l \<subset> rels (jset_union l r)" "rels r \<subset> rels (jset_union l r)" using d by auto
  then show "cardinality l < cardinality (jset_union l r)" "cardinality r < cardinality (jset_union l r)"
    unfolding cardinality_rels by (simp_all only: psubset_card_mono [OF finite_rels])
qed

lemma described_tree:
  assumes fit: "fit (en_query_graph en0)" and "table_inv E en0 le P T" "T U = Some p"
  shows "\<exists>t. plan_tree T U = Some t \<and> valid_tree (en_query_graph en0) t \<and> tree_set t = U \<and> tree_plan E en0 t = p"
  using assms(3)
proof (induction "cardinality U" arbitrary: U p rule: less_induct)
  case less
  have "described E en0 P T U p" using assms(2) less.prems by (simp add: table_inv_def)
  then show ?case unfolding described_def
  proof (elim disjE exE conjE)
    fix i assume "i < relation_count (en_query_graph en0)" "U = bits_of [i]" "p = rel_plan E i"
    then show ?thesis using less.prems by (intro exI [of _ "Rel i"]) (subst plan_tree.simps, simp add: rel_plan_def)
  next
    fix l r pl pr
    assume j: "T l = Some pl" "T r = Some pr" "U = jset_union l r" "p = join_plan E en0 l r pl pr"
      and ne: "l \<noteq> 0" "r \<noteq> 0" "get_connecting_edge_indices (en_query_graph en0) l r \<noteq> []"
    note c = union_larger(2,3) [OF fit ne]
    obtain a where a: "plan_tree T l = Some a" "valid_tree (en_query_graph en0) a" "tree_set a = l" "tree_plan E en0 a = pl"
      using less.hyps [of l pl] c(1) j by auto
    obtain b where b: "plan_tree T r = Some b" "valid_tree (en_query_graph en0) b" "tree_set b = r" "tree_plan E en0 b = pr"
      using less.hyps [of r pr] c(2) j by auto
    have "dp_plan_type p = Plan_Join l r (get_connecting_edge_indices (en_query_graph en0) l r)"
      by (simp add: j(4) join_plan_def new_join_def Let_def)
    then have "plan_tree T U = Some (Join a b)" using less.prems a(1) b(1) c j(3) by (subst plan_tree.simps) simp
    then show ?thesis using a b j ne(3) by (intro exI [of _ "Join a b"]) simp
  qed
qed

lemma ready_best:
  assumes "table_inv E en0 le P T" "valid_tree (en_query_graph en0) t" "ready (en_query_graph en0) P (tree_set t)"
  shows "\<exists>p. T (tree_set t) = Some p \<and> le (dp_cost p) (dp_cost (tree_plan E en0 t))"
proof (cases t)
  case (Rel i)
  then show ?thesis using assms refl by (simp add: table_inv_def)
next
  case (Join a b)
  then have "split_pair a b \<in> P" using assms(2,3) by (auto simp: ready_def)
  then show ?thesis using assms(1,2) Join by (simp add: table_inv_def)
qed

lemma join_ready:
  assumes fit: "fit (en_query_graph en0)" and inv: "table_inv E en0 le P T" and v: "valid_tree (en_query_graph en0) (Join a b)" "split_pair a b = (S, B)"
    and r: "ready (en_query_graph en0) P S" "ready (en_query_graph en0) P B"
    and T: "T S = Some pS" "T B = Some pB"
  shows "le (dp_cost (join_plan E en0 S B pS pB)) (dp_cost (tree_plan E en0 (Join a b)))"
proof -
  note graph = fitD(1) [OF fit]
  obtain a0 where a0: "valid_tree (en_query_graph en0) a0" "tree_set a0 = S" "tree_plan E en0 a0 = pS" using described_tree [OF fit inv T(1)] by blast
  obtain b0 where b0: "valid_tree (en_query_graph en0) b0" "tree_set b0 = B" "tree_plan E en0 b0 = pB" using described_tree [OF fit inv T(2)] by blast
  have j: "join_plan E en0 S B pS pB = tree_plan E en0 (Join a0 b0)" using a0 b0 by simp
  have vab: "valid_tree (en_query_graph en0) a" "valid_tree (en_query_graph en0) b" using v(1) by simp_all
  have vs: "valid_tree (en_query_graph en0) (Join b a)" using v(1) connecting_sym [OF graph] by simp
  consider "tree_set a = S" "tree_set b = B" | "tree_set b = S" "tree_set a = B" using v(2) by (auto simp: split_pair_def split: if_splits)
  then show ?thesis
  proof cases
    case 1
    have "le (dp_cost pS) (dp_cost (tree_plan E en0 a))" "le (dp_cost pB) (dp_cost (tree_plan E en0 b))"
      using ready_best [OF inv vab(1)] ready_best [OF inv vab(2)] r T 1 by auto
    then show ?thesis unfolding j using join_mono [OF fit v(1) a0(1) b0(1)] a0 b0 1 by simp
  next
    case 2
    have "le (dp_cost pS) (dp_cost (tree_plan E en0 b))" "le (dp_cost pB) (dp_cost (tree_plan E en0 a))"
      using ready_best [OF inv vab(1)] ready_best [OF inv vab(2)] r T 2 by auto
    then show ?thesis unfolding j using join_mono [OF fit vs a0(1) b0(1)] a0 b0 2 by simp
  qed
qed

lemma updated_le:
  "le (dp_cost p) c \<Longrightarrow> \<exists>q. updated E T U p U = Some q \<and> le (dp_cost q) c"
  "T V = Some q \<Longrightarrow> le (dp_cost q) c \<Longrightarrow> \<exists>q. updated E T U p V = Some q \<and> le (dp_cost q) c"
  unfolding updated_def using trans less_le not_less_le by (auto split: option.splits) blast+

lemma emit_inv:
  assumes fit: "fit (en_query_graph en0)" and inv: "table_inv E en0 le P T" and T: "T S = Some pS" "T B = Some pB" and SB: "(S, B) \<notin> P" "Min (rels S) < Min (rels B)"
    and r: "ready (en_query_graph en0) P S" "ready (en_query_graph en0) P B"
    and ne: "S \<noteq> 0" "B \<noteq> 0" "get_connecting_edge_indices (en_query_graph en0) S B \<noteq> []"
  shows "table_inv E en0 le (insert (S, B) P) (updated E T (jset_union S B) (join_plan E en0 S B pS pB))"
proof -
  note bounded = fitD(2) [OF fit]
  let ?g = "en_query_graph en0" and ?U = "jset_union S B" and ?P = "insert (S, B) P" and ?p = "join_plan E en0 S B pS pB"
  let ?T = "updated E T ?U ?p"
  note c = union_larger [OF fit ne]
  obtain a0 where a0: "valid_tree ?g a0" "tree_set a0 = S" using described_tree [OF fit inv T(1)] by blast
  obtain b0 where b0: "valid_tree ?g b0" "tree_set b0 = B" using described_tree [OF fit inv T(2)] by blast
  have notU: "\<not> ready ?g P ?U"
  proof
    assume "ready ?g P ?U"
    then have "split_pair a0 b0 \<in> P" using a0 b0 ne(3) by (auto simp: ready_def)
    then show False using SB a0 b0 by (simp add: split_pair_def)
  qed
  have other: "?T V = T V" if "V \<noteq> ?U" for V using that by (simp add: updated_def)
  have kept: "described E en0 ?P ?T V p" if "described E en0 P T V p" for V p
    using that notU other ready_mono [of ?g P _ ?P] unfolding described_def by (metis subset_insertI)
  have "described E en0 ?P ?T ?U ?p"
  proof -
    have "S \<noteq> ?U" "B \<noteq> ?U" using c(2,3) by (metis less_irrefl)+
    then have "?T S = Some pS" "?T B = Some pB" using T other [of S] other [of B] by simp_all
    then show ?thesis using ne r ready_mono [of ?g P _ ?P] unfolding described_def by (metis subset_insertI)
  qed
  then have "described E en0 ?P ?T V p" if "?T V = Some p" for V p
    using that kept [of V p] inv by (cases "T V = Some p") (auto simp: table_inv_def updated_def split: if_splits)
  moreover have "?T (bits_of [i]) = Some (rel_plan E i)" if "i < relation_count ?g" for i
  proof -
    have "cardinality ?U \<noteq> 1" using c(2) ne(1) by (auto simp: cardinality_rels)
    moreover have "cardinality (bits_of [i]) = 1" using that bounded by (intro single_cardinality) simp
    ultimately have "bits_of [i] \<noteq> ?U" by metis
    then show ?thesis using other inv that by (simp add: table_inv_def)
  qed
  moreover have "\<exists>p. ?T (tree_set (Join a b)) = Some p \<and> le (dp_cost p) (dp_cost (tree_plan E en0 (Join a b)))"
    if v: "valid_tree ?g (Join a b)" "split_pair a b \<in> ?P" for a b
  proof (cases "split_pair a b = (S, B)")
    case True
    have "tree_set (Join a b) = ?U" using True by (auto simp: split_pair_def jset.union_comm split: if_splits)
    then show ?thesis using updated_le(1) [OF join_ready [OF fit inv v(1) True r T]] by simp
  next
    case False
    then obtain q where "T (tree_set (Join a b)) = Some q" "le (dp_cost q) (dp_cost (tree_plan E en0 (Join a b)))"
      using inv v unfolding table_inv_def by blast
    then show ?thesis by (rule updated_le(2))
  qed
  ultimately show ?thesis by (simp add: table_inv_def)
qed

lemma unsplit_skip:
  assumes "table_inv E en0 le P T" "\<And>a b. valid_tree (en_query_graph en0) (Join a b) \<Longrightarrow> split_pair a b \<noteq> (S, B)"
  shows "table_inv E en0 le (insert (S, B) P) T"
  using assms(2) by (intro table_inv_skip [OF assms(1)]) auto

lemma split_present:
  assumes fit: "fit (en_query_graph en0)" and "table_inv E en0 le P T" "valid_tree (en_query_graph en0) (Join a b)" "split_pair a b = (S, B)"
    and "ready (en_query_graph en0) P S" "ready (en_query_graph en0) P B"
  shows "T S \<noteq> None" "T B \<noteq> None" "get_connecting_edge_indices (en_query_graph en0) S B \<noteq> []"
proof -
  note graph = fitD(1) [OF fit] and bounded = fitD(2) [OF fit]
  obtain a' b' where s: "split_pair a b = (tree_set a', tree_set b')" "valid_tree (en_query_graph en0) (Join a' b')"
    by (rule split_pair_cases [OF graph bounded assms(3)])
  then have "S = tree_set a'" "B = tree_set b'" using assms(4) by simp_all
  with s(2) show "T S \<noteq> None" "T B \<noteq> None" "get_connecting_edge_indices (en_query_graph en0) S B \<noteq> []"
    using ready_best [OF assms(2), of a'] ready_best [OF assms(2), of b'] assms(5,6) by auto
qed

lemma pair_step_inv:
  assumes fit: "fit (en_query_graph en0)" and inv: "table_inv E en0 le P (en_dp_table en)" and set: "setting en0 en" and step: "pair_step E S B en = (Inr True, en')"
    and SB: "(S, B) \<notin> P" "Min (rels S) < Min (rels B)" "S \<noteq> 0" "B \<noteq> 0"
    and r: "ready (en_query_graph en0) P S" "ready (en_query_graph en0) P B"
  shows "table_inv E en0 le (insert (S, B) P) (en_dp_table en') \<and> setting en0 en'"
proof -
  let ?es = "get_connecting_edge_indices (en_query_graph en0) S B"
  have g: "en_query_graph en = en_query_graph en0" using set by (simp add: setting_def)
  show ?thesis
  proof (cases "(cardinality B = 1 \<or> en_dp_table en B \<noteq> None) \<and> ?es \<noteq> []")
    case False
    then have "en' = en" using step by (auto simp: pair_step_def Let_def g split: if_splits)
    then show ?thesis using set unsplit_skip [OF inv] split_present [OF fit inv _ _ r] False by blast
  next
    case True
    let ?en = "en\<lparr>en_emit_count := en_emit_count en + 1\<rparr>"
    have en': "en' = emit_csg_cmp E S B ?es ?en"
      using step True by (auto simp: pair_step_def try_emit_csg_cmp_def Let_def g split: if_splits)
    have s: "setting en0 ?en" "en_dp_table ?en = en_dp_table en" using set by (simp_all add: setting_def)
    show ?thesis
    proof (cases "en_dp_table en S = None \<or> en_dp_table en B = None")
      case True
      then have "en_dp_table en' = en_dp_table en" "setting en0 en'" unfolding en' using s by (simp_all add: emit_nothing)
      then show ?thesis using unsplit_skip [OF inv] split_present(1,2) [OF fit inv _ _ r] True by metis
    next
      case no: False
      then obtain pS pB where p: "en_dp_table en S = Some pS" "en_dp_table en B = Some pB" by auto
      then have "en_dp_table en' = updated E (en_dp_table en) (jset_union S B) (join_plan E en0 S B pS pB)" "setting en0 en'"
        unfolding en' using emit_table [OF s(1), of S pS B pB E] s by simp_all
      then show ?thesis using emit_inv [OF fit inv p SB(1,2) r SB(3,4)] True by simp
    qed
  qed
qed

lemma all_pairs_inv:
  assumes fit: "fit (en_query_graph en0)" and "table_inv E en0 le P (en_dp_table en)" "setting en0 en" "all_steps (pair_step E S) Bs en = (Inr True, en')"
    and "distinct Bs" "S \<noteq> 0" "ready (en_query_graph en0) P S"
    and "\<And>B. B \<in> set Bs \<Longrightarrow> (S, B) \<notin> P \<and> Min (rels S) < Min (rels B) \<and> B \<noteq> 0 \<and> ready (en_query_graph en0) P B"
  shows "table_inv E en0 le (P \<union> {S} \<times> set Bs) (en_dp_table en') \<and> setting en0 en'"
  using assms(2-)
proof (induction Bs arbitrary: P en)
  case (Cons B Bs)
  obtain en1 where 1: "pair_step E S B en = (Inr True, en1)" "all_steps (pair_step E S) Bs en1 = (Inr True, en')"
    using Cons.prems(3) by (auto simp: and_step_def split: prod.splits sum.splits bool.splits)
  have B: "(S, B) \<notin> P \<and> Min (rels S) < Min (rels B) \<and> B \<noteq> 0 \<and> ready (en_query_graph en0) P B"
    by (rule Cons.prems(7) [OF list.set_intros(1)])
  have s: "table_inv E en0 le (insert (S, B) P) (en_dp_table en1)" "setting en0 en1"
    using pair_step_inv [OF fit Cons.prems(1,2) 1(1)] B Cons.prems(5,6) by auto
  have "table_inv E en0 le (insert (S, B) P \<union> {S} \<times> set Bs) (en_dp_table en') \<and> setting en0 en'"
  proof (rule Cons.IH [OF s 1(2)])
    show "ready (en_query_graph en0) (insert (S, B) P) S" using Cons.prems(6) by (rule ready_mono) blast
    fix B' assume "B' \<in> set Bs"
    then show "(S, B') \<notin> insert (S, B) P \<and> Min (rels S) < Min (rels B') \<and> B' \<noteq> 0 \<and> ready (en_query_graph en0) (insert (S, B) P) B'"
      using Cons.prems(4) Cons.prems(7) [OF list.set_intros(2)] ready_mono [of _ P B' "insert (S, B) P"] by fastforce
  qed (use Cons.prems in auto)
  moreover have "insert (S, B) P \<union> {S} \<times> set Bs = P \<union> {S} \<times> set (B # Bs)" by auto
  ultimately show ?case by simp
qed simp

abbreviation (input) visited :: "join_set list" where
  "visited \<equiv> csgs (nbr (en_query_graph en0)) (relation_count (en_query_graph en0))"

lemma csg_step_inv:
  assumes fit: "fit (en_query_graph en0)" and csgs: "visited = pre @ S # post"
    and inv: "table_inv E en0 le (offered (en_query_graph en0) pre) (en_dp_table en)" and set: "setting en0 en"
    and step: "csg_step E (nbr (en_query_graph en0)) (relation_count (en_query_graph en0)) S en = (Inr True, en')"
  shows "table_inv E en0 le (offered (en_query_graph en0) (pre @ [S])) (en_dp_table en') \<and> setting en0 en'"
proof -
  note graph = fitD(1) [OF fit] and bounded = fitD(2) [OF fit]
  let ?g = "en_query_graph en0" and ?cmps = "cmps (nbr (en_query_graph en0)) S"
  let ?P = "offered ?g pre"
  have S: "S \<noteq> 0" using csgs_inner [OF bounded, of S "nbr ?g"] csgs by simp
  have new: "S \<notin> set pre" using not_later_distinct [OF csgs_order [OF bounded, of "nbr ?g"]] csgs by simp
  have r: "ready ?g ?P S" "\<And>B. B \<in> set ?cmps \<Longrightarrow> ready ?g ?P B"
    unfolding ready_def using split_offered [OF graph bounded _ csgs] by blast+
  have P: "offered ?g (pre @ [S]) = ?P \<union> {S} \<times> set ?cmps" by (auto simp: offered_def)
  show ?thesis
  proof (cases "(cardinality S = 1 \<or> en_dp_table en S \<noteq> None) \<and> cardinality S \<noteq> relation_count ?g")
    case True
    then have "all_steps (pair_step E S) ?cmps en = (Inr True, en')" using step by (simp add: csg_step_def)
    from all_pairs_inv [OF fit inv set this cmps_distinct [OF S] S r(1)] show ?thesis
      unfolding P using r(2) cmps_inner(2,3) [OF S, of _ "nbr ?g"] new by (auto simp: offered_def)
  next
    case False
    have en: "en' = en" using step False by (auto simp: csg_step_def split: if_splits)
    have keep: "split_pair a b \<in> ?P" if v: "valid_tree ?g (Join a b)" "split_pair a b \<in> offered ?g (pre @ [S])" for a b
    proof (rule ccontr)
      assume "split_pair a b \<notin> ?P"
      then obtain B where B: "split_pair a b = (S, B)" "B \<in> set ?cmps" using v(2) unfolding P by auto
      have "en_dp_table en S \<noteq> None" by (rule split_present(1) [OF fit inv v(1) B(1) r(1) r(2) [OF B(2)]])
      with False have c: "cardinality S = relation_count ?g" by blast
      obtain a' b' where ab: "S = tree_set a'" "B = tree_set b'" "valid_tree ?g (Join a' b')"
        using split_pair_cases [OF graph bounded v(1)] B(1) by (metis prod.inject)
      have "rels S \<subseteq> {..<relation_count ?g}" "rels B \<subseteq> {..<relation_count ?g}" "B \<noteq> 0"
        using ab valid_tree_within [OF _ bounded, of a'] valid_tree_within [OF _ bounded, of b'] by simp_all
      moreover have "rels S = {..<relation_count ?g}" using calculation(1) c by (intro card_subset_eq) (auto simp: cardinality_rels)
      moreover have "rels S \<inter> rels B = {}" using cmps_inner(1) [OF S B(2)] .
      ultimately show False using rels_empty_iff [of B] by blast
    qed
    have "table_inv E en0 le (offered ?g (pre @ [S])) (en_dp_table en)" by (rule table_inv_skip [OF inv keep]) (auto simp: P)
    then show ?thesis using set en by simp
  qed
qed

lemma walk_inv:
  assumes fit: "fit (en_query_graph en0)" and "visited = pre @ Ss" "table_inv E en0 le (offered (en_query_graph en0) pre) (en_dp_table en)" "setting en0 en"
    and "all_steps (csg_step E (nbr (en_query_graph en0)) (relation_count (en_query_graph en0))) Ss en = (Inr True, en')"
  shows "table_inv E en0 le (offered (en_query_graph en0) visited) (en_dp_table en') \<and> setting en0 en'"
  using assms(2-)
proof (induction Ss arbitrary: pre en)
  case (Cons S Ss)
  obtain en1 where 1: "csg_step E (nbr (en_query_graph en0)) (relation_count (en_query_graph en0)) S en = (Inr True, en1)"
    "all_steps (csg_step E (nbr (en_query_graph en0)) (relation_count (en_query_graph en0))) Ss en1 = (Inr True, en')"
    using Cons.prems(4) by (auto simp: and_step_def split: prod.splits sum.splits bool.splits)
  have "visited = (pre @ [S]) @ Ss" using Cons.prems(1) by simp
  then show ?case using Cons.IH [OF _ _ _ 1(2)] csg_step_inv [OF fit Cons.prems(1-3) 1(1)] by blast
qed simp

lemma walk_best:
  assumes fit: "fit (en_query_graph en0)" and T: "\<And>U p. en_dp_table en U = Some p \<longleftrightarrow> (\<exists>i < relation_count (en_query_graph en0). U = bits_of [i] \<and> p = rel_plan E i)"
    and set: "setting en0 en"
    and walk: "all_steps (csg_step E (nbr (en_query_graph en0)) (relation_count (en_query_graph en0))) visited en = (Inr True, en')"
  shows "\<And>U p. en_dp_table en' U = Some p \<Longrightarrow>
      \<exists>t. plan_tree (en_dp_table en') U = Some t \<and> valid_tree (en_query_graph en0) t \<and> tree_set t = U \<and> tree_plan E en0 t = p"
    and "\<And>t. valid_tree (en_query_graph en0) t \<Longrightarrow>
      \<exists>p. en_dp_table en' (tree_set t) = Some p \<and> le (dp_cost p) (dp_cost (tree_plan E en0 t))"
proof -
  note graph = fitD(1) [OF fit] and bounded = fitD(2) [OF fit]
  let ?g = "en_query_graph en0"
  have "table_inv E en0 le {} (en_dp_table en)" unfolding table_inv_def described_def using T by blast
  then have "table_inv E en0 le (offered ?g []) (en_dp_table en)" by (simp add: offered_def)
  from walk_inv [OF fit _ this set walk] have inv: "table_inv E en0 le (offered ?g visited) (en_dp_table en')" by simp
  show "\<exists>t. plan_tree (en_dp_table en') U = Some t \<and> valid_tree ?g t \<and> tree_set t = U \<and> tree_plan E en0 t = p"
    if "en_dp_table en' U = Some p" for U p by (rule described_tree [OF fit inv that])
  show "\<exists>p. en_dp_table en' (tree_set t) = Some p \<and> le (dp_cost p) (dp_cost (tree_plan E en0 t))" if v: "valid_tree ?g t" for t
  proof (rule ready_best [OF inv v])
    obtain pre post where p: "visited = pre @ tree_set t # post" using valid_tree_csgs [OF graph bounded v] by (auto simp: in_set_conv_decomp)
    have "ready ?g (offered ?g pre) (tree_set t)" unfolding ready_def using split_offered [OF graph bounded _ p] by blast
    then show "ready ?g (offered ?g visited) (tree_set t)" by (rule ready_mono) (auto simp: offered_def p)
  qed
qed

end

end
