(* ===== verification/Plan_Solve.thy ===== *)
theory Plan_Solve
  imports Plan_Optimality
begin

text \<open>
  The results of the plan enumerator as a whole. Below ten relations the dynamic programming never
  gives up and finds a plan without cross products whenever there is one, whatever numbers it
  computes with; in exact arithmetic the plan it finds has the least cost of all such plans.
\<close>

section \<open>From the start to the walk\<close>

text \<open>The graphs the builder makes: relation ids are positions and edges join known relations.\<close>

definition shaped :: "'f query_graph \<Rightarrow> bool" where
  "shaped g \<longleftrightarrow> map rn_relation_id (qg_relations g) = [0..<relation_count g] \<and> edges_within g"

definition estimable :: "'f estimator \<Rightarrow> nat \<Rightarrow> bool" where
  "estimable E n = list_all (\<lambda>i. \<not> isl (estimate_cardinality E (bits_of [i]))) [0..<n]"

definition leaf_table :: "'f estimator \<Rightarrow> nat list \<Rightarrow> (join_set \<rightharpoonup> 'f dp_plan) \<Rightarrow> join_set \<rightharpoonup> 'f dp_plan" where
  "leaf_table E ids T = foldl (\<lambda>T i. T(bits_of [i] \<mapsto> rel_plan E i)) T ids"

lemma single_inj: "i < 64 \<Longrightarrow> j < 64 \<Longrightarrow> bits_of [i] = bits_of [j] \<longleftrightarrow> i = j"
  using rels_single [of i] rels_single [of j] by (metis singleton_inject)

lemma leaf_table_Some:
  "n \<le> 64 \<Longrightarrow> leaf_table E [0..<n] Map.empty U = Some p \<longleftrightarrow> (\<exists>i < n. U = bits_of [i] \<and> p = rel_plan E i)"
proof (induction n)
  case (Suc n)
  have step: "leaf_table E [0..<Suc n] Map.empty U = (if U = bits_of [n] then Some (rel_plan E n) else leaf_table E [0..<n] Map.empty U)"
    by (simp add: leaf_table_def)
  show ?case
  proof (cases "U = bits_of [n]")
    case True
    have "(\<exists>i < Suc n. bits_of [n] = bits_of [i] \<and> p = rel_plan E i) \<longleftrightarrow> p = rel_plan E n"
      using Suc.prems single_inj [of n] by (metis Suc_le_lessD lessI less_Suc_eq less_trans)
    then show ?thesis unfolding step using True by auto
  next
    case False
    then show ?thesis unfolding step using Suc by (simp add: less_Suc_eq) blast
  qed
qed (simp add: leaf_table_def)

lemma leaf_step:
  assumes "rn_relation_id rel < 64" "\<not> isl (estimate_cardinality E (bits_of [rn_relation_id rel]))"
  shows "leaf_plan E False rel en =
    (Inr True, en\<lparr>en_dp_table := (en_dp_table en)(bits_of [rn_relation_id rel] \<mapsto> rel_plan E (rn_relation_id rel))\<rparr>)"
  using assms by (auto simp: leaf_plan_def new_singleton_bits new_leaf_def rel_plan_def split: sum.splits)

lemma leaf_steps:
  assumes "list_all (\<lambda>rel. rn_relation_id rel < 64 \<and> \<not> isl (estimate_cardinality E (bits_of [rn_relation_id rel]))) rs"
  shows "all_steps (leaf_plan E False) rs en = (Inr True, en\<lparr>en_dp_table := leaf_table E (map rn_relation_id rs) (en_dp_table en)\<rparr>)"
  using assms by (induction rs arbitrary: en) (simp_all add: leaf_step and_step_def leaf_table_def)

lemma init_leaf_plans_result:
  assumes "shaped (en_query_graph en)" "relation_count (en_query_graph en) \<le> 64" "estimable E (relation_count (en_query_graph en))"
  shows "init_leaf_plans E en =
    (Inr True, en\<lparr>en_dp_table := leaf_table E [0..<relation_count (en_query_graph en)] (en_dp_table en)\<rparr>)"
proof -
  let ?g = "en_query_graph en"
  have m: "map rn_relation_id (qg_relations ?g) = [0..<relation_count ?g]" using assms(1) by (simp add: shaped_def)
  have "list_all (\<lambda>i. i < 64 \<and> \<not> isl (estimate_cardinality E (bits_of [i]))) (map rn_relation_id (qg_relations ?g))"
    unfolding m using assms(2,3) by (auto simp: estimable_def list_all_iff)
  then have "list_all (\<lambda>rel. rn_relation_id rel < 64 \<and> \<not> isl (estimate_cardinality E (bits_of [rn_relation_id rel]))) (qg_relations ?g)"
    unfolding list.pred_map comp_def .
  from leaf_steps [OF this, of en] show ?thesis unfolding init_leaf_plans_def m .
qed

lemma all_relations_rels: "relation_count g < 64 \<Longrightarrow> rels (create_all_relations_set g) = {..<relation_count g}"
proof -
  assume n: "relation_count g < 64"
  then have "create_all_relations_set g = mask (relation_count g)"
    by (simp add: create_all_relations_set_def mask_eq_exp_minus_1 push_bit_eq_mult)
  then show ?thesis using n by (auto simp: rels_def bit_mask_iff)
qed

lemma of_graph_shaped:
  assumes "of_graph g en" "shaped g"
  shows "shaped (en_query_graph en)"
proof -
  have "uncached (en_query_graph en) = uncached g" using assms(1) by (simp add: of_graph_def)
  then have "qg_relations (en_query_graph en) = qg_relations g" using arg_cong [of _ _ qg_relations] by (metis uncached_sel(1))
  then show ?thesis using assms of_graph_queries(1,2) [OF assms(1)] by (simp add: shaped_def edges_within_def)
qed

text \<open>The walk \<open>solve\<close> makes, from the table of the leaves.\<close>

lemma solve_walk:
  assumes g: "graph_ok g" "shaped g" "0 < relation_count g" "relation_count g < 10" "estimable E (relation_count g)"
    and en: "of_graph g en" "en_dp_table en = Map.empty" "en_emit_count en = 0"
    and walk: "all_steps (csg_step E (nbr g) (relation_count g)) (csgs (nbr g) (relation_count g))
      (strip en\<lparr>en_dp_table := leaf_table E [0..<relation_count g] Map.empty\<rparr>) = (Inr True, en1)"
    and p: "en_dp_table en1 (create_all_relations_set g) = Some p"
  shows "\<exists>en2. solve E en = (Inr (Some p), en2) \<and> en_dp_table en2 = en_dp_table en1"
proof -
  let ?en = "en\<lparr>en_dp_table := leaf_table E [0..<relation_count g] Map.empty\<rparr>"
  note q = of_graph_queries(2) [OF en(1)]
  have init: "init_leaf_plans E en = (Inr True, ?en)"
    using init_leaf_plans_result [OF of_graph_shaped [OF en(1) g(2)], of E] g q en(2) by simp
  have og: "of_graph g ?en" using en(1) by simp
  have st: "strip ?en = strip en\<lparr>en_dp_table := leaf_table E [0..<relation_count g] Map.empty\<rparr>" by (simp add: strip_def)
  obtain r en2 where j: "join_reorder_by_dphyp E ?en = (r, en2)" by fastforce
  have "of_graph g en2 \<and> (r, strip en2) = (Inr True, en1)"
    using dphyp_refines [OF g(4), of E] og walk j st unfolding refines_def by (metis id_apply map_prod_simp snd_conv)
  then have r: "r = Inr True" "strip en2 = en1" "of_graph g en2" by auto
  have t: "en_dp_table en2 = en_dp_table en1" using r(2) by auto
  have "create_all_relations_set (en_query_graph en2) = create_all_relations_set g"
    using of_graph_queries(2) [OF r(3)] by (simp add: create_all_relations_set_def)
  then have "solve E en = (Inr (Some p), en2)" using init j r p t g(3) q by (simp add: solve_def)
  then show ?thesis using t by blast
qed

lemma graph_ok_uncached: "graph_ok g \<Longrightarrow> graph_ok (uncached g)"
  by (simp add: graph_ok_def uncached_def)

lemma valid_tree_uncached [simp]: "valid_tree (uncached g) t \<longleftrightarrow> valid_tree g t"
  by (induction t) simp_all

lemma tree_plan_strip [simp]: "tree_plan E (strip en) t = tree_plan E en t"
  by (induction t) (simp_all add: join_plan_def join_cost_def should_apply_fact_anchor_penalty_def)

lemma enumerator_new_sel [simp]:
  "en_query_graph (enumerator_new E g) = g" "en_dp_table (enumerator_new E g) = Map.empty" "en_emit_count (enumerator_new E g) = 0"
  by (simp_all add: enumerator_new_def split: prod.splits)

lemma valid_tree_leaves:
  assumes "graph_ok g" "relation_count g \<le> 64" "valid_tree g t"
  shows "set (leaves t) = rels (tree_set t) \<and> distinct (leaves t)"
  using assms(3)
proof (induction t)
  case (Rel i)
  then show ?case using assms(2) by simp
next
  case (Join a b)
  then show ?case using connecting_linked [OF assms(1), of "tree_set a" "tree_set b"] by simp
qed

text \<open>A tree of all relations without cross products.\<close>

definition full_tree :: "'f query_graph \<Rightarrow> join_tree \<Rightarrow> bool" where
  "full_tree g t \<longleftrightarrow> valid_tree g t \<and> set (leaves t) = {..<relation_count g}"

lemma solve_best:
  assumes order: "plan_order E (strip (enumerator_new E g)) le"
    and g: "graph_ok g" "shaped g" "relation_count g < 10" "estimable E (relation_count g)" and t: "full_tree g t"
  shows "\<exists>p en t'. solve E (enumerator_new E g) = (Inr (Some p), en) \<and>
    plan_tree (en_dp_table en) (create_all_relations_set g) = Some t' \<and> full_tree g t' \<and> distinct (leaves t') \<and>
    tree_plan E (enumerator_new E g) t' = p \<and> le (dp_cost p) (dp_cost (tree_plan E (enumerator_new E g) t))"
proof -
  let ?n = "relation_count g" and ?en = "enumerator_new E g"
  let ?start = "strip ?en\<lparr>en_dp_table := leaf_table E [0..<?n] Map.empty\<rparr>"
  have n: "?n \<le> 64" "?n < 64" using g(3) by simp_all
  have v: "valid_tree g t" "set (leaves t) = {..<?n}" using t by (simp_all add: full_tree_def)
  have all: "create_all_relations_set g = tree_set t"
    using valid_tree_leaves [OF g(1) n(1) v(1)] all_relations_rels [OF n(2)] v(2) rels_eq_iff by metis
  have "leaves t \<noteq> []" by (induction t) simp_all
  then have pos: "0 < ?n" using v(2) by (metis empty_set gr0I lessThan_0 set_empty)
  have en: "of_graph g ?en" "en_dp_table ?en = Map.empty" "en_emit_count ?en = 0"
    using g(1) by (simp_all add: of_graph_def)
  obtain en1 where walk: "all_steps (csg_step E (nbr g) ?n) (csgs (nbr g) ?n) ?start = (Inr True, en1)"
    using walk_completes [OF g(3), of ?start E] g(2) en(3) by (auto simp: shaped_def)
  have fit: "fit (en_query_graph (strip ?en))" using graph_ok_uncached [OF g(1)] n(1) by (simp add: fit_def)
  have start: "en_dp_table ?start U = Some p \<longleftrightarrow> (\<exists>i < relation_count (en_query_graph (strip ?en)). U = bits_of [i] \<and> p = rel_plan E i)" for U p
    using leaf_table_Some [OF n(1), of E U p] by simp
  have set: "setting (strip ?en) ?start" by (simp add: setting_def)
  have walk': "all_steps (csg_step E (nbr (en_query_graph (strip ?en))) (relation_count (en_query_graph (strip ?en))))
      (csgs (nbr (en_query_graph (strip ?en))) (relation_count (en_query_graph (strip ?en)))) ?start = (Inr True, en1)"
    using walk by simp
  note best = plan_order.walk_best [OF order fit start set walk']
  obtain p where p: "en_dp_table en1 (tree_set t) = Some p" "le (dp_cost p) (dp_cost (tree_plan E ?en t))"
    using best(2) [of t] v(1) by auto
  obtain t' where t': "plan_tree (en_dp_table en1) (tree_set t) = Some t'" "valid_tree g t'" "tree_set t' = tree_set t" "tree_plan E ?en t' = p"
    using best(1) [OF p(1)] by auto
  have "full_tree g t'" "distinct (leaves t')"
    using t' v(2) valid_tree_leaves [OF g(1) n(1) v(1)] valid_tree_leaves [OF g(1) n(1) t'(2)] by (simp_all add: full_tree_def)
  moreover obtain en2 where "solve E ?en = (Inr (Some p), en2)" "en_dp_table en2 = en_dp_table en1"
    using solve_walk [OF g(1,2) pos g(3,4) en(1-3) walk] p(1) all by auto
  ultimately show ?thesis using t' p(2) all by (intro exI [of _ p] exI [of _ en2] exI [of _ t']) simp
qed

section \<open>Any arithmetic\<close>

text \<open>With the order in which everything is related, the walk still finds a plan for every valid tree.\<close>

interpretation any_order: plan_order E en "\<lambda>_ _. True" for E :: "'f estimator" and en :: "'f enumerator"
  by unfold_locales simp_all


end
