(* ===== verification/Exact_Costs.thy ===== *)
theory Exact_Costs
  imports Plan_Solve
begin

text \<open>
  The plan enumerator in exact arithmetic: rational numbers with one infinity that absorbs. Here the
  estimates of the source give every valid tree of a set of relations the same cardinality, the
  product of the relations' cardinalities and of the selectivities of the edges within the set, so
  that the cost of a join is monotone in the costs of its sides and the plan found is the best one.
\<close>

section \<open>Rational numbers with an infinity\<close>

datatype xrat = Fin rat | Inf

instantiation xrat :: linorder
begin

definition less_eq_xrat :: "xrat \<Rightarrow> xrat \<Rightarrow> bool" where
  "x \<le> y = (case (x, y) of (Fin a, Fin b) \<Rightarrow> a \<le> b | (Inf, Fin b) \<Rightarrow> False | (_, Inf) \<Rightarrow> True)"

definition less_xrat :: "xrat \<Rightarrow> xrat \<Rightarrow> bool" where
  "x < y = (case (x, y) of (Fin a, Fin b) \<Rightarrow> a < b | (Fin a, Inf) \<Rightarrow> True | (Inf, _) \<Rightarrow> False)"

instance
  by standard (auto simp: less_eq_xrat_def less_xrat_def split: xrat.splits)

end

instantiation xrat :: "{ordered_ab_semigroup_add, comm_monoid_mult}"
begin

definition plus_xrat :: "xrat \<Rightarrow> xrat \<Rightarrow> xrat" where
  "x + y = (case (x, y) of (Fin a, Fin b) \<Rightarrow> Fin (a + b) | _ \<Rightarrow> Inf)"

definition times_xrat :: "xrat \<Rightarrow> xrat \<Rightarrow> xrat" where
  "x * y = (case (x, y) of (Fin a, Fin b) \<Rightarrow> Fin (a * b) | _ \<Rightarrow> Inf)"

definition one_xrat :: xrat where
  "1 = Fin 1"

instance
  by standard (auto simp: plus_xrat_def times_xrat_def one_xrat_def less_eq_xrat_def split: xrat.splits)

end

definition xdiv :: "xrat \<Rightarrow> xrat \<Rightarrow> xrat" where
  "xdiv x y = (case (x, y) of (Fin a, Fin b) \<Rightarrow> if b = 0 then Inf else Fin (a / b) | (Fin a, Inf) \<Rightarrow> Fin 0 | (Inf, _) \<Rightarrow> Inf)"

definition exact_floats :: "xrat floats" where
  "exact_floats =
     \<lparr>f_lit = Fin, f_inf = Inf, f_add = (+), f_mul = (*), f_div = xdiv, f_max = max, f_min = min,
      f_lt = (<), f_le = (\<le>), f_eq = (=), f_total_less = (<), f_is_finite = (\<lambda>x. x \<noteq> Inf)\<rparr>"

lemma exact_floats_sel [simp]:
  "f_lit exact_floats = Fin" "f_inf exact_floats = Inf" "f_add exact_floats = (+)" "f_mul exact_floats = (*)" "f_div exact_floats = xdiv"
  "f_max exact_floats = max" "f_min exact_floats = min" "f_lt exact_floats = (<)"
  by (simp_all add: exact_floats_def)

definition exact_estimator :: "(nat \<Rightarrow> nat) \<Rightarrow> xrat query_graph \<Rightarrow> xrat estimator" where
  "exact_estimator conditions g = estimator_of exact_floats conditions g"

lemma estimator_of_sel [simp]:
  "estimate_cardinality (estimator_of F c g) = estimated_cardinality F (cardinality_estimator_new F g)"
  "estimate_join_cardinality (estimator_of F c g) = split_cardinality F c (cardinality_estimator_new F g)"
  "f_lit (estimator_of F c g) = f_lit F" "f_add (estimator_of F c g) = f_add F" "f_mul (estimator_of F c g) = f_mul F" "f_lt (estimator_of F c g) = f_lt F"
  by (simp_all add: estimator_of_def floats.extend_def)

lemma ce_graph_new [simp]: "ce_graph (cardinality_estimator_new F g) = g"
  by (simp add: cardinality_estimator_new_def Let_def split: prod.splits)

lemma iter_single [simp]: "i < 64 \<Longrightarrow> jset_iter (bits_of [i]) = [i]"
  by (simp add: jset_iter_sorted_list)

lemma estimable_source: "n \<le> 64 \<Longrightarrow> estimable (estimator_of F c g) n"
  by (auto simp: estimable_def list_all_iff estimated_cardinality_def)

section \<open>One cardinality for each set of relations\<close>

definition selectivity_of :: "(nat \<Rightarrow> nat) \<Rightarrow> xrat query_graph \<Rightarrow> nat \<Rightarrow> xrat" where
  "selectivity_of c g idx = edge_selectivity exact_floats c (cardinality_estimator_new exact_floats g) (qg_edges g ! idx) 1"

lemma edge_selectivity_factor:
  "edge_selectivity exact_floats c ce e s = s * edge_selectivity exact_floats c ce e 1"
  by (simp add: edge_selectivity_def Let_def mult.assoc one_xrat_def [symmetric])

lemma selectivities_prod:
  "foldl (\<lambda>sel i. edge_selectivity exact_floats c (cardinality_estimator_new exact_floats g) (qg_edges g ! i) sel) s es =
     s * prod_list (map (selectivity_of c g) es)"
proof (induction es arbitrary: s)
  case (Cons e es)
  then show ?case
    using edge_selectivity_factor [of c "cardinality_estimator_new exact_floats g" "qg_edges g ! e" s]
    by (simp add: selectivity_of_def mult.assoc)
qed simp

lemma split_exact:
  "distinct es \<Longrightarrow> split_cardinality exact_floats c (cardinality_estimator_new exact_floats g) x y es = x * y * prod (selectivity_of c g) (set es)"
  by (simp add: split_cardinality_def selectivities_prod prod.distinct_set_conv_list one_xrat_def [symmetric])

definition initial_of :: "xrat query_graph \<Rightarrow> nat \<Rightarrow> xrat" where
  "initial_of g i = (case get_relation g i of Some rel \<Rightarrow> rn_initial_cardinality rel | None \<Rightarrow> Fin 1)"

definition edges_in :: "'f query_graph \<Rightarrow> nat set \<Rightarrow> nat set" where
  "edges_in g U = {idx. idx < length (qg_edges g) \<and> rels (je_join_set (qg_edges g ! idx)) \<subseteq> U \<and> 2 \<le> card (rels (je_join_set (qg_edges g ! idx)))}"

definition set_cardinality :: "(nat \<Rightarrow> nat) \<Rightarrow> xrat query_graph \<Rightarrow> nat set \<Rightarrow> xrat" where
  "set_cardinality c g U = prod (initial_of g) U * prod (selectivity_of c g) (edges_in g U)"

lemma finite_edges_in [simp]: "finite (edges_in g U)"
  by (simp add: edges_in_def)

lemma two_elements: "finite S \<Longrightarrow> x \<in> S \<Longrightarrow> y \<in> S \<Longrightarrow> x \<noteq> y \<Longrightarrow> 2 \<le> card S"
  by (metis card_2_iff card_mono empty_subsetI insert_subset)

lemma within_cases:
  assumes "finite e" "A \<inter> B = {}"
  shows "e \<subseteq> A \<union> B \<and> 2 \<le> card e \<longleftrightarrow> e \<subseteq> A \<and> 2 \<le> card e \<or> e \<subseteq> B \<and> 2 \<le> card e \<or> e \<subseteq> A \<union> B \<and> e \<inter> A \<noteq> {} \<and> e \<inter> B \<noteq> {}"
proof -
  have "2 \<le> card e" if m: "e \<inter> A \<noteq> {}" "e \<inter> B \<noteq> {}"
  proof -
    obtain x y where "x \<in> e" "x \<in> A" "y \<in> e" "y \<in> B" using m by blast
    then show ?thesis using two_elements [OF assms(1), of x y] assms(2) by blast
  qed
  then show ?thesis by blast
qed

lemma edges_in_join:
  assumes "graph_ok (uncached g)" "rels l \<inter> rels r = {}"
  shows "edges_in g (rels l \<union> rels r) = edges_in g (rels l) \<union> edges_in g (rels r) \<union> set (get_connecting_edge_indices g l r)"
    and "edges_in g (rels l) \<inter> edges_in g (rels r) = {}"
    and "(edges_in g (rels l) \<union> edges_in g (rels r)) \<inter> set (get_connecting_edge_indices g l r) = {}"
proof -
  let ?e = "\<lambda>idx. rels (je_join_set (qg_edges g ! idx))"
  have conn: "idx \<in> set (get_connecting_edge_indices g l r) \<longleftrightarrow>
      idx < length (qg_edges g) \<and> ?e idx \<subseteq> rels l \<union> rels r \<and> ?e idx \<inter> rels l \<noteq> {} \<and> ?e idx \<inter> rels r \<noteq> {}" for idx
    using assms(2) connecting_edges_spec(1) [OF assms(1), of l r] by (simp add: is_disjoint_rels edge_connects_rels)
  have cases: "?e idx \<subseteq> rels l \<union> rels r \<and> 2 \<le> card (?e idx) \<longleftrightarrow>
      ?e idx \<subseteq> rels l \<and> 2 \<le> card (?e idx) \<or> ?e idx \<subseteq> rels r \<and> 2 \<le> card (?e idx) \<or>
      ?e idx \<subseteq> rels l \<union> rels r \<and> ?e idx \<inter> rels l \<noteq> {} \<and> ?e idx \<inter> rels r \<noteq> {}" for idx
    by (rule within_cases [OF finite_rels assms(2)])
  show "edges_in g (rels l \<union> rels r) = edges_in g (rels l) \<union> edges_in g (rels r) \<union> set (get_connecting_edge_indices g l r)"
  proof (rule set_eqI)
    fix idx
    show "idx \<in> edges_in g (rels l \<union> rels r) \<longleftrightarrow> idx \<in> edges_in g (rels l) \<union> edges_in g (rels r) \<union> set (get_connecting_edge_indices g l r)"
      unfolding Un_iff conn edges_in_def mem_Collect_eq cases by argo
  qed
  have sub: "?e idx = {}" if "?e idx \<subseteq> rels l" "?e idx \<subseteq> rels r" for idx
    using Int_greatest [OF that] assms(2) by simp
  have "\<not> 2 \<le> card (?e idx)" if "?e idx \<subseteq> rels l" "?e idx \<subseteq> rels r" for idx using sub [OF that] by simp
  then show "edges_in g (rels l) \<inter> edges_in g (rels r) = {}" unfolding edges_in_def by auto
  have "?e idx \<inter> rels r = {}" if "?e idx \<subseteq> rels l" for idx using Int_mono [OF that subset_refl, of "rels r"] assms(2) by simp
  moreover have "?e idx \<inter> rels l = {}" if "?e idx \<subseteq> rels r" for idx
    using Int_mono [OF that subset_refl, of "rels l"] assms(2) by (simp add: Int_commute)
  ultimately show "(edges_in g (rels l) \<union> edges_in g (rels r)) \<inter> set (get_connecting_edge_indices g l r) = {}"
    unfolding disjoint_iff [of "_ \<union> _"] Un_iff conn edges_in_def mem_Collect_eq by metis
qed

lemma set_cardinality_join:
  assumes "graph_ok (uncached g)" "rels l \<inter> rels r = {}"
  shows "set_cardinality c g (rels l) * set_cardinality c g (rels r) * prod (selectivity_of c g) (set (get_connecting_edge_indices g l r)) =
    set_cardinality c g (rels l \<union> rels r)"
proof -
  note e = edges_in_join [OF assms]
  have "prod (selectivity_of c g) (edges_in g (rels l \<union> rels r)) =
      prod (selectivity_of c g) (edges_in g (rels l)) * prod (selectivity_of c g) (edges_in g (rels r)) *
      prod (selectivity_of c g) (set (get_connecting_edge_indices g l r))"
    unfolding e(1) using e(2,3) by (simp add: prod.union_disjoint)
  moreover have "prod (initial_of g) (rels l \<union> rels r) = prod (initial_of g) (rels l) * prod (initial_of g) (rels r)"
    using assms(2) by (intro prod.union_disjoint) simp_all
  ultimately show ?thesis by (simp add: set_cardinality_def ac_simps)
qed

lemma tree_cardinality:
  assumes "graph_ok (uncached g)" "relation_count g \<le> 64" "valid_tree g t" "en_query_graph en = g \<or> en_query_graph en = uncached g"
  shows "dp_cardinality (tree_plan (exact_estimator c g) en t) = set_cardinality c g (rels (tree_set t))"
  using assms(3)
proof (induction t)
  case (Rel i)
  then have i: "i < 64" "i < relation_count g" using assms(2) by simp_all
  have "\<not> 2 \<le> card (rels s)" if "rels s \<subseteq> {i}" for s using card_mono [OF _ that] by simp
  then have "edges_in g {i} = {}" by (auto simp: edges_in_def)
  then show ?case using i
    by (simp add: rel_plan_def exact_estimator_def estimated_cardinality_def set_cardinality_def initial_of_def split: option.splits)
next
  case (Join a b)
  let ?es = "get_connecting_edge_indices g (tree_set a) (tree_set b)"
  have v: "valid_tree g a" "valid_tree g b" "rels (tree_set a) \<inter> rels (tree_set b) = {}"
    using Join.prems connecting_linked [OF assms(1), of "tree_set a" "tree_set b"] by simp_all
  have "dp_cardinality (tree_plan (exact_estimator c g) en (Join a b)) =
      set_cardinality c g (rels (tree_set a)) * set_cardinality c g (rels (tree_set b)) * prod (selectivity_of c g) (set ?es)"
    using Join.IH v(1,2) assms(4) split_exact [of ?es] connecting_edges_spec(2) [OF assms(1), of "tree_set a" "tree_set b"]
    by (auto simp: join_plan_def new_join_def Let_def exact_estimator_def)
  then show ?case using set_cardinality_join [OF assms(1) v(3)] by simp
qed

text \<open>The cost of a join from the costs of its sides.\<close>

definition penalty :: "xrat enumerator \<Rightarrow> join_set \<Rightarrow> nat list \<Rightarrow> xrat \<Rightarrow> xrat \<Rightarrow> xrat" where
  "penalty en parent es crd cost = (if should_apply_fact_anchor_penalty en parent es then cost + crd * Fin 8 else cost)"

lemma join_cost_exact:
  "join_cost (exact_estimator c g) en pl pr parent es crd = penalty en parent es crd (dp_cost pl + dp_cost pr + crd)"
  by (simp add: join_cost_def compute_cost_def penalty_def exact_estimator_def Let_def)

lemma penalty_mono: "x \<le> y \<Longrightarrow> penalty en parent es crd x \<le> penalty en parent es crd y"
  by (simp add: penalty_def add_right_mono)

lemma penalty_set: "set es = set es' \<Longrightarrow> penalty en parent es = penalty en parent es'"
  by (simp add: fun_eq_iff penalty_def should_apply_fact_anchor_penalty_def list_ex_iff)

lemma connecting_swap: "graph_ok (uncached g) \<Longrightarrow> set (get_connecting_edge_indices g l r) = set (get_connecting_edge_indices g r l)"
  using connecting_edges_spec(1) [of "uncached g" l r] connecting_edges_spec(1) [of "uncached g" r l]
  by (auto simp: edge_connects_rels is_disjoint_rels Un_commute Int_commute split: if_splits)

lemma tree_cost_exact:
  assumes "graph_ok (uncached g)" "relation_count g \<le> 64" "valid_tree g (Join a b)" "en_query_graph en = uncached g"
  shows "dp_cost (tree_plan (exact_estimator c g) en (Join a b)) =
    penalty en (tree_set (Join a b)) (get_connecting_edge_indices g (tree_set a) (tree_set b))
      (set_cardinality c g (rels (tree_set (Join a b))))
      (dp_cost (tree_plan (exact_estimator c g) en a) + dp_cost (tree_plan (exact_estimator c g) en b) +
       set_cardinality c g (rels (tree_set (Join a b))))"
proof -
  have "dp_cardinality (tree_plan (exact_estimator c g) en (Join a b)) = set_cardinality c g (rels (tree_set (Join a b)))"
    using assms by (intro tree_cardinality) simp_all
  then show ?thesis by (simp add: join_plan_def new_join_def Let_def join_cost_exact assms(4))
qed

interpretation exact: plan_order "exact_estimator c g" "strip (enumerator_new (exact_estimator c g) g)" "(\<le>)" for c :: "nat \<Rightarrow> nat" and g
proof (unfold_locales, goal_cases)
  case (5 a b a' b')
  let ?en = "strip (enumerator_new (exact_estimator c g) g)"
  have g: "graph_ok (uncached g)" "relation_count g \<le> 64" "en_query_graph ?en = uncached g"
    using 5(1) by (simp_all add: fit_def)
  have v: "valid_tree g (Join a b)" "valid_tree g (Join b a)" "valid_tree g (Join a' b')"
    using 5 valid_swap [OF g(1), of a b] by simp_all
  note cost = tree_cost_exact [OF g(1,2) _ g(3), of _ _ c]
  show ?case
    unfolding cost [OF v(1)] cost [OF v(2)] cost [OF v(3)] using 5(5-8)
    by (auto simp: jset.union_comm [of "tree_set b" "tree_set a"] add.commute [of "dp_cost (tree_plan _ _ b)"]
        penalty_set [OF connecting_swap [OF g(1), of "tree_set b" "tree_set a"]] intro!: penalty_mono add_mono)
qed (auto simp: exact_estimator_def)

section \<open>Properties\<close>

text \<open>
  C2. Dynamic programming is optimal in exact arithmetic. Take any graph of fewer than ten relations built by adding relations,
  numbered by position, and edges between them, and the estimates and costs of the source, penalties of the
  fact anchor heuristic included, computed in exact arithmetic. If some join tree of all relations
  has an edge for every join, then \<open>solve\<close> returns the plan of such a tree, which the
  plan table describes, and no such tree, of whatever shape, has a smaller cost.
\<close>

theorem dphyp_optimal:
  assumes "graph_step\<^sup>*\<^sup>* query_graph_new g" "shaped g" "relation_count g < RELATION_THRESHOLD" "full_tree g t0"
  shows "\<exists>p en t'. solve (exact_estimator conditions g) (enumerator_new (exact_estimator conditions g) g) = (Inr (Some p), en) \<and>
    plan_tree (en_dp_table en) (create_all_relations_set g) = Some t' \<and> full_tree g t' \<and>
    tree_plan (exact_estimator conditions g) (enumerator_new (exact_estimator conditions g) g) t' = p \<and>
    (\<forall>t. full_tree g t \<longrightarrow>
      dp_cost p \<le> dp_cost (tree_plan (exact_estimator conditions g) (enumerator_new (exact_estimator conditions g) g) t))"
proof -
  let ?E = "exact_estimator conditions g"
  have "estimable ?E (relation_count g)" using assms(3) by (simp add: exact_estimator_def estimable_source)
  note best = solve_best [OF exact.plan_order_axioms graphs.run_inv [OF assms(1) graph_ok_new] assms(2,3) this]
  from best [OF assms(4)] obtain p en t' where r: "solve ?E (enumerator_new ?E g) = (Inr (Some p), en)"
    "plan_tree (en_dp_table en) (create_all_relations_set g) = Some t'" "full_tree g t'" "tree_plan ?E (enumerator_new ?E g) t' = p"
    by blast
  have "dp_cost p \<le> dp_cost (tree_plan ?E (enumerator_new ?E g) t)" if "full_tree g t" for t
    using best [OF that] r(1) by auto
  with r show ?thesis by (intro exI [of _ p] exI [of _ en] exI [of _ t']) simp
qed

text \<open>A star of four relations, one of its edges with a filter only.\<close>

definition star_column :: "nat \<Rightarrow> nat \<Rightarrow> stable_column" where
  "star_column r i = \<lparr>sc_relation_id = r, sc_column_index = i, sc_name = []\<rparr>"

definition star_edge :: "nat \<Rightarrow> (stable_column \<times> stable_column) list \<Rightarrow> join_edge" where
  "star_edge r pairs = \<lparr>je_join_set = bits_of [0, r], je_filter = r, je_join_type = 0, je_null_equality = 0, je_equi_pairs = pairs\<rparr>"

definition star_relation :: "nat \<Rightarrow> rat \<Rightarrow> xrat relation_node" where
  "star_relation r q = \<lparr>rn_plan = r, rn_relation_id = r, rn_initial_cardinality = Fin q, rn_base_cardinality = Fin q,
     rn_distinct_counts = [Exact 10, Absent]\<rparr>"

definition star_query :: "xrat query_graph" where
  "star_query = foldl (\<lambda>g e. add_edge e g)
     (foldl (\<lambda>g r. add_relation (star_relation r (if r = 0 then 1000 else of_nat (10 * r))) g) query_graph_new [0..<4])
     [star_edge 1 [(star_column 0 0, star_column 1 0)], star_edge 2 [(star_column 0 1, star_column 2 0)], star_edge 3 []]"

lemma foldl_add_edge_reach: "graph_step\<^sup>*\<^sup>* g (foldl (\<lambda>g e. add_edge e g) g es)"
  by (induction es arbitrary: g) (auto intro: converse_rtranclp_into_rtranclp graph_edge)

lemma star_query_reach: "graph_step\<^sup>*\<^sup>* query_graph_new star_query"
  unfolding star_query_def by (rule rtranclp_trans [OF foldl_add_relation_reach foldl_add_edge_reach])

lemma star_edges: "qg_edges star_query = [star_edge 1 [(star_column 0 0, star_column 1 0)], star_edge 2 [(star_column 0 1, star_column 2 0)], star_edge 3 []]"
  by (simp add: star_query_def add_edge_def add_relation_def query_graph_new_def numeral_eq_Suc)

lemma star_relations: "qg_relations star_query = map (\<lambda>r. star_relation r (if r = 0 then 1000 else of_nat (10 * r))) [0..<4]"
  by (simp add: star_query_def add_edge_def add_relation_def query_graph_new_def numeral_eq_Suc)

lemma star_query_shape: "shaped star_query" "relation_count star_query = 4"
proof -
  show "relation_count star_query = 4" by (simp add: relation_count_def star_relations)
  have "rels (je_join_set (star_edge r pairs)) = {0, r}" if "r < 64" for r pairs
    using that by (simp add: star_edge_def rels_bits_of)
  then show "shaped star_query"
    by (simp add: shaped_def edges_within_def relation_count_def star_relations star_edges star_relation_def comp_def)
qed

lemma star_query_tree: "full_tree star_query (Join (Join (Join (Rel 0) (Rel 1)) (Rel 2)) (Rel 3))"
proof -
  have "get_connecting_edge_indices star_query (bits_of [0]) (bits_of [1]) = [0]"
    "get_connecting_edge_indices star_query (jset_union (bits_of [0]) (bits_of [1])) (bits_of [2]) = [1]"
    "get_connecting_edge_indices star_query (jset_union (jset_union (bits_of [0]) (bits_of [1])) (bits_of [2])) (bits_of [3]) = [2]"
    by code_simp+
  then show ?thesis by (auto simp: full_tree_def star_query_shape(2))
qed

theorem dphyp_optimal_witness:
  "\<exists>p en t'. solve (exact_estimator id star_query) (enumerator_new (exact_estimator id star_query) star_query) = (Inr (Some p), en) \<and>
    plan_tree (en_dp_table en) (create_all_relations_set star_query) = Some t' \<and> full_tree star_query t' \<and>
    dp_cost p \<le> dp_cost (tree_plan (exact_estimator id star_query) (enumerator_new (exact_estimator id star_query) star_query)
      (Join (Join (Join (Rel 0) (Rel 1)) (Rel 2)) (Rel 3)))"
  using dphyp_optimal [OF star_query_reach star_query_shape(1) _ star_query_tree, of id] star_query_tree star_query_shape(2) by auto


end
