(* ===== verification/Plan_Coverage.thy ===== *)
theory Plan_Coverage
  imports Exact_Costs
begin

text \<open>
  The order of the joins as a whole (\<open>try_optimize_region\<close> of \<open>join_reorder/mod.rs\<close>): dynamic
  programming, and the greedy order when it gives up. For graphs of any size and any arithmetic, every plan
  joins every relation exactly once and lists with each join the edges between its two sides.
\<close>

section \<open>Choosing between the two enumerations\<close>

definition best_plan :: "'f estimator \<Rightarrow> 'f query_graph \<Rightarrow> 'f dp_plan df_result \<times> 'f enumerator" where
  "best_plan E g =
     (case solve E (enumerator_new E g) of
        (Inl e, en) \<Rightarrow> (Inl e, en)
      | (Inr (Some plan), en) \<Rightarrow> (Inr plan, en)
      | (Inr None, en) \<Rightarrow> solve_greedy E en)"

section \<open>Well-formed plan tables\<close>

definition plan_ok :: "'f query_graph \<Rightarrow> (join_set \<rightharpoonup> 'f dp_plan) \<Rightarrow> join_set \<Rightarrow> 'f dp_plan \<Rightarrow> bool" where
  "plan_ok g T U p \<longleftrightarrow> dp_join_set p = U \<and>
     (case dp_plan_type p of
        Plan_Leaf i \<Rightarrow> i < relation_count g \<and> U = bits_of [i]
      | Plan_Join l r es \<Rightarrow> U = jset_union l r \<and> l \<noteq> 0 \<and> r \<noteq> 0 \<and> rels l \<inter> rels r = {} \<and>
          T l \<noteq> None \<and> T r \<noteq> None \<and> (es = get_connecting_edge_indices g l r \<or> es = []))"

definition table_ok :: "'f query_graph \<Rightarrow> 'f enumerator \<Rightarrow> bool" where
  "table_ok g en \<longleftrightarrow> of_graph g en \<and> (\<forall>U p. en_dp_table en U = Some p \<longrightarrow> plan_ok g (en_dp_table en) U p) \<and>
     (\<forall>i < relation_count g. en_dp_table en (bits_of [i]) \<noteq> None)"

lemma plan_ok_mono: "plan_ok g T U p \<Longrightarrow> (\<And>V. T V \<noteq> None \<Longrightarrow> T' V \<noteq> None) \<Longrightarrow> plan_ok g T' U p"
  by (auto simp: plan_ok_def split: plan_type.splits)

lemma table_ok_insert:
  assumes "table_ok g en" "plan_ok g (en_dp_table en) U p"
  shows "table_ok g (en\<lparr>en_dp_table := (en_dp_table en)(U \<mapsto> p)\<rparr>)"
proof -
  have "plan_ok g ((en_dp_table en)(U \<mapsto> p)) V q" if "plan_ok g (en_dp_table en) V q" for V q
    using that by (rule plan_ok_mono) simp
  then show ?thesis using assms by (auto simp: table_ok_def)
qed

lemma table_ok_count [simp]: "table_ok g (en\<lparr>en_emit_count := k\<rparr>) \<longleftrightarrow> table_ok g en"
  by (simp add: table_ok_def)

text \<open>Steps that keep the table well-formed and do not fail.\<close>

definition keeps_table :: "'f query_graph \<Rightarrow> 'f enum_step \<Rightarrow> bool" where
  "keeps_table g f \<longleftrightarrow> (\<forall>en. table_ok g en \<longrightarrow> table_ok g (snd (f en)) \<and> \<not> isl (fst (f en)))"

lemma keeps_skip: "keeps_table g (\<lambda>en. (Inr b, en))"
  by (simp add: keeps_table_def)

lemma keeps_and_step: "keeps_table g f \<Longrightarrow> keeps_table g h \<Longrightarrow> keeps_table g (and_step f h)"
  by (fastforce simp: keeps_table_def and_step_def split: prod.splits sum.splits bool.splits)

lemma keeps_all_steps: "(\<And>x. x \<in> set xs \<Longrightarrow> keeps_table g (f x)) \<Longrightarrow> keeps_table g (all_steps f xs)"
  by (induction xs) (simp_all add: all_steps_Nil all_steps_Cons keeps_skip keeps_and_step)

lemma keeps_emit:
  assumes "l \<noteq> 0" "r \<noteq> 0" "rels l \<inter> rels r = {}"
  shows "keeps_table g (\<lambda>en. try_emit_csg_cmp E l r (get_connecting_edge_indices g l r) en)"
proof -
  have "table_ok g (emit_csg_cmp E l r (get_connecting_edge_indices g l r) en)" if "table_ok g en" for en
  proof -
    have "plan_ok g (en_dp_table en) (jset_union l r) (new_join l r (get_connecting_edge_indices g l r) cost crd)"
      if "en_dp_table en l \<noteq> None" "en_dp_table en r \<noteq> None" for cost crd
      using that assms by (simp add: plan_ok_def new_join_def)
    then show ?thesis using that table_ok_insert [OF that] by (auto simp: emit_csg_cmp_def Let_def split: option.splits)
  qed
  then show ?thesis by (simp add: keeps_table_def try_emit_csg_cmp_def Let_def)
qed

lemma keeps_if: "(\<And>en. P en \<Longrightarrow> table_ok g en \<Longrightarrow> f en = h en) \<Longrightarrow> keeps_table g h \<Longrightarrow> keeps_table g (\<lambda>en. if P en then f en else (Inr True, en))"
  by (simp add: keeps_table_def)

lemma table_ok_graph: "table_ok g en \<Longrightarrow> of_graph g en"
  by (simp add: table_ok_def)

lemma keeps_neighbors:
  assumes "\<And>en. table_ok g en \<Longrightarrow> \<exists>en'. h en = f en' \<and> of_graph g en' \<and> en_dp_table en' = en_dp_table en" "keeps_table g f"
  shows "keeps_table g h"
  using assms unfolding keeps_table_def table_ok_def by metis

section \<open>The enumeration keeps_table the table well-formed\<close>

lemma subsets_sub: "c \<in> set (generate_all_nonempty_subsets elems) \<Longrightarrow> set c \<subseteq> set elems"
  by (auto simp: generate_all_nonempty_subsets_def Let_def)

lemma of_graph_relations: "of_graph g en \<Longrightarrow> qg_relations (en_query_graph en) = qg_relations g"
  unfolding of_graph_def by (metis uncached_sel(1))

lemma prune_of_graph: "of_graph g en \<Longrightarrow> prune_neighbors E (en_query_graph en) X nbs = prune_neighbors E g X nbs"
proof -
  assume g: "of_graph g en"
  have i: "relation_initial_cardinality E (en_query_graph en) = relation_initial_cardinality E g"
    by (intro ext) (simp add: relation_initial_cardinality_def of_graph_relations [OF g])
  show ?thesis unfolding prune_neighbors_def sort_neighbors_by_heuristic_def of_graph_queries [OF g] i ..
qed

lemma prune_total:
  assumes "set nbs \<subseteq> {..<64}"
  shows "\<exists>nbs'. prune_neighbors E g X nbs = Inr nbs' \<and> set nbs' \<subseteq> set nbs"
proof -
  have "new_singleton r = Inr (bits_of [r])" if "r \<in> set nbs" for r using that assms new_singleton_bits by blast
  then have "\<exists>ys. collect_results new_singleton nbs = Inr ys" using assms
    by (induction nbs) auto
  then have "\<exists>nbs'. prune_neighbors E g X nbs = Inr nbs'"
    by (auto simp: prune_neighbors_def sort_neighbors_by_heuristic_def Let_def)
  then show ?thesis using prune_neighbors_subset by blast
qed

text \<open>The recursion of both enumerations.\<close>

lemma rec_keeps:
  assumes rec: "\<And>X F en. rec X F en =
        (let (nbs, en) = neighbors X F en in
         if nbs = [] then (Inr True, en)
         else case prune_neighbors E (en_query_graph en) X nbs of
                Inl e \<Rightarrow> (Inl e, en)
              | Inr nbs \<Rightarrow>
                  let subsets = generate_all_nonempty_subsets nbs in
                  and_step (all_steps (visit X) subsets)
                    (\<lambda>en. case from_iter nbs of
                       Inl e \<Rightarrow> (Inl e, en)
                     | Inr nset \<Rightarrow>
                         all_steps (\<lambda>s. rec s (jset_union F nset)) (map (\<lambda>chosen. jset_union X (bits_of chosen)) subsets) en) en)"
    and visit: "\<And>X F c. Q X F \<Longrightarrow> set c \<subseteq> {..<64} - rels F \<Longrightarrow> keeps_table g (visit X c)"
    and grows: "\<And>X F c n. Q X F \<Longrightarrow> set c \<subseteq> {..<64} - rels F \<Longrightarrow> set c \<subseteq> rels n \<Longrightarrow> Q (grown X c) (jset_union F n)"
    and "Q X F"
  shows "keeps_table g (rec X F)"
  using assms(4)
proof (induction "64 - cardinality F" arbitrary: X F rule: less_induct)
  case less
  let ?nbs = "allowed (nbr g) X F"
  obtain nbs where nbs: "prune_neighbors E g X ?nbs = Inr nbs" "set nbs \<subseteq> set ?nbs" using prune_total [of ?nbs E g X] by auto
  let ?gen = "generate_all_nonempty_subsets nbs" and ?G = "jset_union F (bits_of nbs)"
  have c: "set c \<subseteq> {..<64} - rels F" "set c \<subseteq> rels (bits_of nbs)" if "c \<in> set ?gen" for c
    using subsets_sub [OF that] nbs(2) rels_bits_of [of nbs] by (auto simp: list_all_iff subset_iff)
  have iter: "from_iter nbs = Inr (bits_of nbs)" using nbs(2) by (intro from_iter_total) auto
  show ?case
  proof (cases "?nbs = []")
    case True
    show ?thesis
    proof (rule keeps_neighbors [OF _ keeps_skip [of _ True]])
      fix en assume "table_ok g en"
      from neighbors_refines [OF table_ok_graph [OF this], of X F] True
      show "\<exists>en'. rec X F en = (Inr True, en') \<and> of_graph g en' \<and> en_dp_table en' = en_dp_table en"
        by (auto simp: rec [of X F]) (metis strip_sel(2))
    qed
  next
    case False
    let ?all = "and_step (all_steps (visit X) ?gen) (all_steps (\<lambda>s. rec s ?G) (map (grown X) ?gen))"
    show ?thesis
    proof (rule keeps_neighbors [of _ _ ?all])
      fix en assume "table_ok g en"
      from neighbors_refines [OF table_ok_graph [OF this], of X F] obtain en' where
        en': "neighbors X F en = (?nbs, en')" "of_graph g en'" "strip en' = strip en" by blast
      then have "rec X F en = ?all en'" using False nbs(1) iter prune_of_graph [OF en'(2)] by (simp add: rec [of X F] Let_def)
      moreover have "en_dp_table en' = en_dp_table en" using en'(3) by (metis strip_sel(2))
      ultimately show "\<exists>en'. rec X F en = ?all en' \<and> of_graph g en' \<and> en_dp_table en' = en_dp_table en" using en'(2) by blast
    next
      show "keeps_table g ?all"
      proof (intro keeps_and_step keeps_all_steps)
        fix c assume "c \<in> set ?gen"
        then show "keeps_table g (visit X c)" using visit [OF less.prems] c(1) by blast
      next
        fix s assume "s \<in> set (map (grown X) ?gen)"
        then obtain d where d: "d \<in> set ?gen" "s = grown X d" by auto
        then have "nbs \<noteq> []" by auto
        with nbs(2) obtain r where r: "r \<in> rels (bits_of nbs)" "r \<notin> rels F"
          using rels_bits_of [of nbs] by (cases nbs) (auto simp: list_all_iff subset_iff)
        then have "rels F \<subset> rels ?G" by auto
        then have "card (rels F) < card (rels ?G)" by (intro psubset_card_mono) auto
        moreover have "card (rels ?G) \<le> card {..<64 :: nat}" by (intro card_mono rels_bound) simp
        ultimately have "64 - cardinality ?G < 64 - cardinality F" by (simp add: cardinality_rels)
        then show "keeps_table g (rec s ?G)" using less.hyps grows [OF less.prems c [OF d(1)]] d(2) by blast
      qed
    qed
  qed
qed

lemma grown_facts:
  assumes "X \<noteq> 0" "rels X \<subseteq> rels F" "set c \<subseteq> {..<64} - rels F"
  shows "from_iter c = Inr (bits_of c)" "rels (grown X c) = rels X \<union> set c" "grown X c \<noteq> 0"
proof -
  show "from_iter c = Inr (bits_of c)" using assms(3) by (intro from_iter_total) auto
  show r: "rels (grown X c) = rels X \<union> set c" using assms(3) rels_bits_of [of c] by (auto simp: list_all_iff subset_iff)
  have "rels X \<noteq> {}" using assms(1) by simp
  then show "grown X c \<noteq> 0" using r by (metis Un_empty rels_0)
qed

lemma cmp_rec_keeps:
  assumes "l \<noteq> 0" "X \<noteq> 0" "rels X \<subseteq> rels F" "rels l \<subseteq> rels F" "rels l \<inter> rels X = {}"
  shows "keeps_table g (enumerate_cmp_rec E l X F)"
proof (rule rec_keeps [where visit = "cmp_subset E l" and E = E
      and Q = "\<lambda>X F. X \<noteq> 0 \<and> rels X \<subseteq> rels F \<and> rels l \<subseteq> rels F \<and> rels l \<inter> rels X = {}"])
  fix X F c assume q: "X \<noteq> 0 \<and> rels X \<subseteq> rels F \<and> rels l \<subseteq> rels F \<and> rels l \<inter> rels X = {}" and c: "set c \<subseteq> {..<64} - rels F"
  note f = grown_facts [OF _ _ c, of X]
  have "rels l \<inter> rels (grown X c) = {}" using f(2) q c by (auto simp: subset_iff)
  then have k: "keeps_table g (try_emit_csg_cmp E l (grown X c) (get_connecting_edge_indices g l (grown X c)))"
    using keeps_emit [OF assms(1) f(3), of g E] q by simp
  show "keeps_table g (cmp_subset E l X c)"
    unfolding keeps_table_def
  proof (intro allI impI)
    fix en assume t: "table_ok g en"
    then show "table_ok g (snd (cmp_subset E l X c en)) \<and> \<not> isl (fst (cmp_subset E l X c en))"
      using k of_graph_queries(3) [OF table_ok_graph [OF t]] f(1) q
      by (auto simp: cmp_subset_def Let_def keeps_table_def)
  qed
next
  fix X F c n assume q: "X \<noteq> 0 \<and> rels X \<subseteq> rels F \<and> rels l \<subseteq> rels F \<and> rels l \<inter> rels X = {}"
    and c: "set c \<subseteq> {..<64} - rels F" "set c \<subseteq> rels n"
  note f = grown_facts [OF _ _ c(1), of X]
  show "grown X c \<noteq> 0 \<and> rels (grown X c) \<subseteq> rels (jset_union F n) \<and> rels l \<subseteq> rels (jset_union F n) \<and> rels l \<inter> rels (grown X c) = {}"
    using f(2,3) q c by (auto simp: subset_iff)
qed (rule enumerate_cmp_rec.simps, use assms in blast)

lemma emit_neighbors_keeps:
  assumes "S \<noteq> 0" "rels S \<subseteq> rels F" "set vs \<subseteq> rels F - rels S" "distinct vs"
  shows "keeps_table g (emit_neighbors E S F vs)"
  using assms
proof (induction vs arbitrary: F)
  case Nil
  have "emit_neighbors E S F [] = (\<lambda>en. (Inr True, en))" by (simp add: fun_eq_iff)
  then show ?case using keeps_skip by metis
next
  case (Cons v vs)
  have v: "v < 64" "v \<in> rels F" "v \<notin> rels S" using Cons.prems(3) rels_less by auto
  let ?F = "jset_diff F (bits_of [v])"
  let ?emit = "\<lambda>en. let es = get_connecting_edge_indices (en_query_graph en) S (bits_of [v]) in
      if es \<noteq> [] then try_emit_csg_cmp E S (bits_of [v]) es en else (Inr True, en)"
  have e: "emit_neighbors E S F (v # vs) =
      and_step ?emit (and_step (enumerate_cmp_rec E S (bits_of [v]) F) (emit_neighbors E S ?F vs))"
    using v by (intro ext) (simp add: new_singleton_bits)
  have "keeps_table g (try_emit_csg_cmp E S (bits_of [v]) (get_connecting_edge_indices g S (bits_of [v])))"
    using keeps_emit [OF Cons.prems(1) single_nonzero [OF v(1)], of g E] v by simp
  then have "keeps_table g ?emit" unfolding keeps_table_def by (auto simp: Let_def of_graph_queries(3) [OF table_ok_graph])
  moreover have "keeps_table g (enumerate_cmp_rec E S (bits_of [v]) F)" using v Cons.prems by (intro cmp_rec_keeps) auto
  moreover have "keeps_table g (emit_neighbors E S ?F vs)" using v Cons.prems by (intro Cons.IH) auto
  ultimately show ?case unfolding e by (intro keeps_and_step)
qed

lemma emit_csg_keeps:
  assumes S: "S \<noteq> 0"
  shows "keeps_table g (emit_csg E S)"
proof -
  let ?F = "jset_union S (below S)"
  let ?nbs = "allowed (nbr g) S ?F"
  have m: "(case jset_iter S of [] \<Rightarrow> 0 | r # rs \<Rightarrow> Min (set (r # rs))) = Min (rels S)" by (rule min_idx_Min [OF S])
  have b: "from_iter [0..<Min (rels S)] = Inr (below S)" unfolding below_def using Min_rels [OF S] by (intro from_iter_total) auto
  have k: "keeps_table g (emit_neighbors E S (jset_union ?F (bits_of ?nbs)) (rev ?nbs))" using S by (intro emit_neighbors_keeps) auto
  show ?thesis
  proof (cases "cardinality S = relation_count g")
    case True
    then show ?thesis by (simp add: keeps_table_def emit_csg_def of_graph_queries(2) [OF table_ok_graph])
  next
    case False
    show ?thesis
    proof (rule keeps_neighbors [OF _ k])
      fix en assume t: "table_ok g en"
      note en = table_ok_graph [OF t]
      from neighbors_refines [OF en, of S ?F] obtain en' where
        en': "neighbors S ?F en = (?nbs, en')" "of_graph g en'" "strip en' = strip en" by blast
      have "emit_csg E S en = emit_neighbors E S (jset_union ?F (bits_of ?nbs)) (rev ?nbs) en'"
        using False unfolding emit_csg_def of_graph_queries [OF en] m b Let_def
        by (cases "?nbs = []") (simp_all add: en'(1) from_iter_allowed)
      moreover have "en_dp_table en' = en_dp_table en" using en'(3) by (metis strip_sel(2))
      ultimately show "\<exists>en'. emit_csg E S en = emit_neighbors E S (jset_union ?F (bits_of ?nbs)) (rev ?nbs) en' \<and>
          of_graph g en' \<and> en_dp_table en' = en_dp_table en" using en'(2) by blast
    qed
  qed
qed

lemma csg_rec_keeps:
  assumes "X \<noteq> 0" "rels X \<subseteq> rels F"
  shows "keeps_table g (enumerate_csg_rec E X F)"
proof (rule rec_keeps [where visit = "csg_subset E" and E = E and Q = "\<lambda>X F. X \<noteq> 0 \<and> rels X \<subseteq> rels F"])
  fix X F c assume q: "X \<noteq> 0 \<and> rels X \<subseteq> rels F" and c: "set c \<subseteq> {..<64} - rels F"
  note f = grown_facts [OF _ _ c, of X]
  show "keeps_table g (csg_subset E X c)" using emit_csg_keeps [OF f(3), of g E] f(1) q by (simp add: keeps_table_def csg_subset_def Let_def)
next
  fix X F c n assume q: "X \<noteq> 0 \<and> rels X \<subseteq> rels F" and c: "set c \<subseteq> {..<64} - rels F" "set c \<subseteq> rels n"
  note f = grown_facts [OF _ _ c(1), of X]
  show "grown X c \<noteq> 0 \<and> rels (grown X c) \<subseteq> rels (jset_union F n)" using f(2,3) q c by (auto simp: subset_iff)
qed (rule enumerate_csg_rec.simps, use assms in blast)

lemma dphyp_keeps:
  assumes "relation_count g \<le> 64"
  shows "keeps_table g (join_reorder_by_dphyp E)"
proof -
  have "keeps_table g (process_node_as_start E i)" if "i < 64" for i
  proof -
    let ?F = "jset_union (bits_of [0..<i]) (bits_of [i])"
    have b: "from_iter [0..<i] = Inr (bits_of [0..<i])" using that by (intro from_iter_total) auto
    have "process_node_as_start E i = and_step (emit_csg E (bits_of [i])) (enumerate_csg_rec E (bits_of [i]) ?F)"
      using that by (intro ext) (simp add: process_node_as_start_def new_singleton_bits b)
    moreover have "keeps_table g (emit_csg E (bits_of [i]))" "keeps_table g (enumerate_csg_rec E (bits_of [i]) ?F)"
      using that by (intro emit_csg_keeps csg_rec_keeps; simp)+
    ultimately show ?thesis by (simp add: keeps_and_step)
  qed
  then have "keeps_table g (all_steps (process_node_as_start E) (rev [0..<relation_count g]))" using assms by (intro keeps_all_steps) auto
  then show ?thesis unfolding keeps_table_def by (simp add: join_reorder_by_dphyp_def of_graph_queries(2) [OF table_ok_graph])
qed

section \<open>The greedy order\<close>

lemma fold_result_keeps:
  assumes "\<And>x acc. x \<in> set xs \<Longrightarrow> P acc \<Longrightarrow> \<exists>acc'. f x acc = Inr acc' \<and> P acc'" "P acc"
  shows "\<exists>acc'. fold_result f xs acc = Inr acc' \<and> P acc'"
  using assms
proof (induction xs arbitrary: acc)
  case (Cons x xs)
  from Cons.prems(1) [of x acc] Cons.prems(2) obtain acc1 where "f x acc = Inr acc1" "P acc1" by auto
  then show ?case using Cons.IH [of acc1] Cons.prems(1) by auto
qed simp

text \<open>A choice of the greedy order: a remaining relation with its edges, or none.\<close>

definition choice_ok :: "'f query_graph \<Rightarrow> join_set \<Rightarrow> join_set \<Rightarrow> 'f best \<Rightarrow> bool" where
  "choice_ok g current remaining = (\<lambda>(r, es, crd, cost).
     case r of None \<Rightarrow> True | Some r \<Rightarrow> r \<in> rels remaining \<and> (es = get_connecting_edge_indices g current (bits_of [r]) \<or> es = []))"

lemma improve_ok:
  "choice_ok g current remaining best \<Longrightarrow> r \<in> rels remaining \<Longrightarrow> es = get_connecting_edge_indices g current (bits_of [r]) \<or> es = [] \<Longrightarrow>
     choice_ok g current remaining (improve E r es crd cost best)"
  by (auto simp: improve_def choice_ok_def split: prod.splits)

lemma next_leaf_total:
  assumes "table_ok g en" "r < relation_count g" "r < 64"
  shows "\<exists>p. next_leaf en r = Inr (bits_of [r], p)"
  using assms by (auto simp: next_leaf_def new_singleton_bits table_ok_def)

lemma select_next_total:
  assumes t: "table_ok g en" and rem: "rels remaining \<subseteq> {..<relation_count g}"
  shows "\<exists>best. select_next E en current plan remaining = Inr best \<and> choice_ok g current remaining best"
proof -
  let ?P = "choice_ok g current remaining" and ?start = "(None, [], f_inf E, f_inf E)"
  have leaf: "\<exists>p. next_leaf en r = Inr (bits_of [r], p)" if "r \<in> rels remaining" for r
    using next_leaf_total [OF t] rem that rels_less by blast
  have e: "get_connecting_edge_indices (en_query_graph en) = get_connecting_edge_indices g"
    using of_graph_queries(3) [OF table_ok_graph [OF t]] .
  have conn: "\<exists>best'. connected_extension E en current plan r best = Inr best' \<and> ?P best'" if "r \<in> rels remaining" "?P best" for r best
    using leaf [OF that(1)] that improve_ok [OF that(2,1)] by (auto simp: connected_extension_def Let_def e simp del: split_paired_Ex)
  have cross: "\<exists>best'. cross_extension E en plan r best = Inr best' \<and> ?P best'" if "r \<in> rels remaining" "?P best" for r best
    using leaf [OF that(1)] that improve_ok [OF that(2,1)] by (auto simp: cross_extension_def Let_def simp del: split_paired_Ex)
  have start: "?P ?start" by (simp add: choice_ok_def)
  obtain best where b: "fold_result (connected_extension E en current plan) (jset_iter remaining) ?start = Inr best" "?P best"
    using fold_result_keeps [where P = ?P, OF _ start] conn by (metis set_jset_iter)
  obtain best' where b': "fold_result (cross_extension E en plan) (jset_iter remaining) best = Inr best'" "?P best'"
    using fold_result_keeps [where P = ?P, OF _ b(2)] cross by (metis set_jset_iter)
  show ?thesis using b b' by (simp add: select_next_def del: split_paired_Ex)
qed

abbreviation (input) selection_error :: df_error where
  "selection_error \<equiv> DF_Internal ''Failed to select next relation in greedy algorithm''"

lemma greedy_loop_result:
  assumes "table_ok g en" "en_dp_table en current = Some plan" "current \<noteq> 0" "rels current \<inter> rels remaining = {}"
    "rels remaining \<subseteq> {..<relation_count g}" "greedy_loop E current plan remaining en = (r, en')"
  shows "table_ok g en' \<and> (case r of Inl e \<Rightarrow> e = selection_error | Inr p \<Rightarrow> en_dp_table en' (jset_union current remaining) = Some p)"
  using assms
proof (induction E current plan remaining en rule: greedy_loop.induct)
  case (1 E current plan remaining en)
  show ?case
  proof (cases "remaining = 0")
    case True
    then show ?thesis using 1 by (subst (asm) greedy_loop.simps) (auto simp: jset_union_def)
  next
    case False
    obtain best_rel es crd cost where sel: "select_next E en current plan remaining = Inr (best_rel, es, crd, cost)"
      and ok: "choice_ok g current remaining (best_rel, es, crd, cost)"
      using select_next_total [OF 1(2,6), of E current plan] by (metis prod_cases4)
    show ?thesis
    proof (cases best_rel)
      case None
      then show ?thesis using 1(2,7) False sel by (subst (asm) greedy_loop.simps) auto
    next
      case (Some i)
      have i: "i \<in> rels remaining" "es = get_connecting_edge_indices g current (bits_of [i]) \<or> es = []"
        using ok Some by (auto simp: choice_ok_def)
      have i64: "i < 64" "new_singleton i = Inr (bits_of [i])" "i < relation_count g"
        using rels_less [OF i(1)] new_singleton_bits i(1) 1(6) by auto
      let ?U = "jset_union current (bits_of [i])" and ?plan = "new_join current (bits_of [i]) es cost crd"
      let ?en = "en\<lparr>en_dp_table := (en_dp_table en)(?U \<mapsto> ?plan)\<rparr>" and ?rem = "jset_diff remaining (bits_of [i])"
      have loop: "greedy_loop E ?U ?plan ?rem ?en = (r, en')"
        using 1(7) False sel Some i64(2) by (subst (asm) greedy_loop.simps) (simp add: Let_def)
      have "plan_ok g (en_dp_table en) ?U ?plan"
        using 1(2-5) i i64 by (auto simp: plan_ok_def new_join_def table_ok_def)
      then have "table_ok g ?en" by (rule table_ok_insert [OF 1(2)])
      moreover have "?U \<noteq> 0" using 1(4) rels_empty_iff by (metis Un_empty jset_rels(2))
      moreover have "rels ?U \<inter> rels ?rem = {}" "rels ?rem \<subseteq> {..<relation_count g}" using 1(5,6) i64 by auto
      ultimately have "table_ok g en' \<and> (case r of Inl e \<Rightarrow> e = selection_error | Inr p \<Rightarrow> en_dp_table en' (jset_union ?U ?rem) = Some p)"
        using 1(1) [OF False sel refl refl refl Some i64(2) refl refl] loop by simp
      moreover have "rels (jset_union ?U ?rem) = rels (jset_union current remaining)" using i(1) i64(1) by auto
      then have "jset_union ?U ?rem = jset_union current remaining" by (simp only: rels_eq_iff)
      ultimately show ?thesis by (auto split: sum.splits)
    qed
  qed
qed

lemma max_by_in: "xs \<noteq> [] \<Longrightarrow> \<exists>x \<in> set xs. max_by lt xs = Some x"
proof (cases xs)
  case (Cons x xs')
  have "foldl (\<lambda>best y. if lt y best then best else y) b ys \<in> insert b (set ys)" for b ys
    by (induction ys arbitrary: b) (auto split: if_splits)
  from this [of x xs'] Cons show ?thesis by (simp del: split_paired_Ex)
qed simp

lemma relation_ids: "shaped g \<Longrightarrow> rel \<in> set (qg_relations g) \<Longrightarrow> rn_relation_id rel < relation_count g"
proof -
  assume "shaped g" "rel \<in> set (qg_relations g)"
  then have "rn_relation_id rel \<in> set [0..<relation_count g]" unfolding shaped_def by (metis image_eqI set_map)
  then show ?thesis by simp
qed

lemma ensure_leaf_plans_present:
  assumes "table_ok g en" "shaped g" "relation_count g \<le> 64"
  shows "ensure_leaf_plans E en = (Inr True, en)"
proof -
  have "all_steps (leaf_plan E True) rs en = (Inr True, en)" if "set rs \<subseteq> set (qg_relations g)" for rs
    using that
  proof (induction rs)
    case (Cons rel rs)
    then have "rn_relation_id rel < relation_count g" using relation_ids [OF assms(2)] by simp
    then have "leaf_plan E True rel en = (Inr True, en)"
      using assms(1,3) by (auto simp: leaf_plan_def new_singleton_bits table_ok_def)
    then show ?case using Cons by (simp add: and_step_def)
  qed simp
  then show ?thesis by (simp add: ensure_leaf_plans_def of_graph_relations [OF table_ok_graph [OF assms(1)]])
qed

lemma solve_greedy_result:
  assumes t: "table_ok g en" and g: "shaped g" "0 < relation_count g" "relation_count g < 64" and r: "solve_greedy E en = (r, en')"
  shows "table_ok g en' \<and> (case r of Inl e \<Rightarrow> e = selection_error | Inr p \<Rightarrow> en_dp_table en' (create_all_relations_set g) = Some p)"
proof -
  let ?all = "create_all_relations_set g"
  note q = of_graph_queries(2) [OF table_ok_graph [OF t]] and rels = of_graph_relations [OF table_ok_graph [OF t]]
  have all: "rels ?all = {..<relation_count g}" "create_all_relations_set (en_query_graph en) = ?all"
    using all_relations_rels [OF g(3)] q by (simp_all add: create_all_relations_set_def)
  have e: "ensure_leaf_plans E en = (Inr True, en)" using ensure_leaf_plans_present [OF t g(1)] g(3) by simp
  show ?thesis
  proof (cases "en_dp_table en ?all")
    case (Some p)
    then show ?thesis using r t e g(2) all(2) q by (auto simp: solve_greedy_def)
  next
    case None
    have "relation_count g \<noteq> 1"
    proof
      assume n: "relation_count g = 1"
      then have "rels ?all = rels (bits_of [0])" using all(1) by auto
      then have "?all = bits_of [0]" by (simp only: rels_eq_iff)
      then show False using None t n by (auto simp: table_ok_def)
    qed
    moreover have "qg_relations g \<noteq> []" using g(2) by (auto simp: relation_count_def)
    then obtain start where start: "start \<in> set (qg_relations g)"
      "max_by (\<lambda>x y. f_total_less E (rn_initial_cardinality x) (rn_initial_cardinality y)) (qg_relations g) = Some start"
      using max_by_in by blast
    moreover define i where "i = rn_relation_id start"
    have i: "i < relation_count g" "i < 64" "new_singleton i = Inr (bits_of [i])"
      using relation_ids [OF g(1) start(1)] g(3) new_singleton_bits by (auto simp: i_def)
    moreover obtain p where p: "en_dp_table en (bits_of [i]) = Some p" using t i(1) by (auto simp: table_ok_def)
    ultimately have loop: "greedy_loop E (bits_of [i]) p (jset_diff ?all (bits_of [i])) en = (r, en')"
      using r e g(2) all(2) q None rels by (simp add: solve_greedy_def Let_def i_def)
    have "rels (jset_union (bits_of [i]) (jset_diff ?all (bits_of [i]))) = rels ?all" using all(1) i by auto
    then have u: "jset_union (bits_of [i]) (jset_diff ?all (bits_of [i])) = ?all" by (simp only: rels_eq_iff)
    have "rels (bits_of [i]) \<inter> rels (jset_diff ?all (bits_of [i])) = {}" "rels (jset_diff ?all (bits_of [i])) \<subseteq> {..<relation_count g}"
      using all(1) by auto
    from greedy_loop_result [OF t p single_nonzero [OF i(2)] this loop] show ?thesis unfolding u .
  qed
qed

lemma init_table_ok:
  assumes "graph_ok g" "shaped g" "relation_count g < 64" "estimable E (relation_count g)"
  shows "\<exists>en. init_leaf_plans E (enumerator_new E g) = (Inr True, en) \<and> table_ok g en"
proof -
  let ?en = "enumerator_new E g\<lparr>en_dp_table := leaf_table E [0..<relation_count g] Map.empty\<rparr>"
  have l: "en_dp_table ?en U = Some p \<longleftrightarrow> (\<exists>i < relation_count g. U = bits_of [i] \<and> p = rel_plan E i)" for U p
    using leaf_table_Some [of "relation_count g" E U p] assms(3) by simp
  have "init_leaf_plans E (enumerator_new E g) = (Inr True, ?en)"
    using init_leaf_plans_result [of "enumerator_new E g" E] assms(2-4) by simp
  moreover have "of_graph g ?en" using assms(1) by (simp add: of_graph_def)
  moreover have "plan_ok g T U (rel_plan E i)" if "U = bits_of [i]" "i < relation_count g" for T U i
    using that by (simp add: plan_ok_def rel_plan_def)
  ultimately show ?thesis using l by (intro exI [of _ ?en]) (fastforce simp: table_ok_def simp del: enumerator.simps)
qed

section \<open>Properties\<close>

lemma table_tree:
  assumes t: "table_ok g en" and n: "relation_count g \<le> 64" and U: "en_dp_table en U = Some p"
  shows "\<exists>t. plan_tree (en_dp_table en) U = Some t \<and> distinct (leaves t) \<and> set (leaves t) = rels U"
  using U
proof (induction "cardinality U" arbitrary: U p rule: less_induct)
  case less
  have ok: "plan_ok g (en_dp_table en) U p" using t less.prems by (simp add: table_ok_def)
  show ?case
  proof (cases "dp_plan_type p")
    case (Plan_Leaf i)
    then have "i < 64" "U = bits_of [i]" using ok n by (auto simp: plan_ok_def)
    then show ?thesis using less.prems Plan_Leaf by (subst plan_tree.simps) simp
  next
    case (Plan_Join l r es)
    then have j: "U = jset_union l r" "l \<noteq> 0" "r \<noteq> 0" "rels l \<inter> rels r = {}" "en_dp_table en l \<noteq> None" "en_dp_table en r \<noteq> None"
      using ok by (auto simp: plan_ok_def)
    obtain x y where "x \<in> rels l" "y \<in> rels r" using j(2,3) rels_empty_iff by (metis ex_in_conv)
    then have "rels l \<subset> rels U" "rels r \<subset> rels U" using j(1,4) by auto
    then have c: "cardinality l < cardinality U" "cardinality r < cardinality U"
      unfolding cardinality_rels by (simp_all only: psubset_card_mono [OF finite_rels])
    obtain a where a: "plan_tree (en_dp_table en) l = Some a" "distinct (leaves a)" "set (leaves a) = rels l" using less.hyps [OF c(1)] j(5) by blast
    obtain b where b: "plan_tree (en_dp_table en) r = Some b" "distinct (leaves b)" "set (leaves b) = rels r" using less.hyps [OF c(2)] j(6) by blast
    have "plan_tree (en_dp_table en) U = Some (Join a b)" using less.prems Plan_Join a(1) b(1) c by (subst plan_tree.simps) simp
    then show ?thesis using a b j(1,4) by simp
  qed
qed

lemma best_plan_result:
  assumes g: "graph_ok g" "shaped g" "0 < relation_count g" "relation_count g < 64" "estimable E (relation_count g)"
    and r: "best_plan E g = (r, en)"
  shows "table_ok g en \<and> (case r of Inl e \<Rightarrow> e = selection_error | Inr p \<Rightarrow> en_dp_table en (create_all_relations_set g) = Some p)"
proof -
  obtain en1 where 1: "init_leaf_plans E (enumerator_new E g) = (Inr True, en1)" "table_ok g en1"
    using init_table_ok [OF g(1,2,4,5)] by blast
  obtain c en2 where 2: "join_reorder_by_dphyp E en1 = (Inr c, en2)" "table_ok g en2"
    using dphyp_keeps [of g E] g(4) 1(2) unfolding keeps_table_def
    by (metis isl_def less_imp_le old.sum.exhaust prod.collapse)
  have all: "create_all_relations_set (en_query_graph en2) = create_all_relations_set g"
    using of_graph_queries(2) [OF table_ok_graph [OF 2(2)]] by (simp add: create_all_relations_set_def)
  note solve = solve_def [of E "enumerator_new E g"]
  show ?thesis
  proof (cases "en_dp_table en2 (create_all_relations_set g)")
    case (Some p)
    then have "best_plan E g = (Inr p, en2)" using 1 2 g(3) all by (simp add: best_plan_def solve)
    then show ?thesis using r Some 2(2) by simp
  next
    case None
    then have "best_plan E g = solve_greedy E en2"
      using 1 2 g(3) all by (cases "solve_greedy E en2"; cases "fst (solve_greedy E en2)"; cases c) (auto simp: best_plan_def solve)
    then show ?thesis using r solve_greedy_result [OF 2(2) g(2-4)] by metis
  qed
qed

text \<open>
  C32. The join order covers every relation. Take any graph of fewer than 64 relations built by adding relations, numbered by
  position, and edges between them, and any arithmetic and estimates. Choosing the join order always comes to an
  end, and it fails in one way only: when the greedy order finds no relation whose join has an
  estimate below infinity. Otherwise the plan returned is the one the plan table has for all
  relations, the table describes a join tree in which every relation occurs exactly once, and every join of the table
  lists either exactly the edges between its two disjoint sides or, as a cross join, none.
\<close>

theorem join_order_covers:
  assumes "graph_step\<^sup>*\<^sup>* query_graph_new g" "shaped g" "0 < relation_count g" "relation_count g < MAX_RELATIONS"
    and "estimable E (relation_count g)" "best_plan E g = (r, en)"
  shows "(case r of
      Inl e \<Rightarrow> e = DF_Internal ''Failed to select next relation in greedy algorithm''
    | Inr p \<Rightarrow> en_dp_table en (create_all_relations_set g) = Some p \<and>
        (\<exists>t. plan_tree (en_dp_table en) (create_all_relations_set g) = Some t \<and>
          distinct (leaves t) \<and> set (leaves t) = {..<relation_count g})) \<and>
    (\<forall>U q left right edges. en_dp_table en U = Some q \<longrightarrow> dp_plan_type q = Plan_Join left right edges \<longrightarrow>
      rels left \<inter> rels right = {} \<and> U = jset_union left right \<and> (edges = get_connecting_edge_indices g left right \<or> edges = []))"
proof -
  have n: "relation_count g < 64" using assms(4) by simp
  have res: "table_ok g en" "case r of Inl e \<Rightarrow> e = selection_error | Inr p \<Rightarrow> en_dp_table en (create_all_relations_set g) = Some p"
    using best_plan_result [OF graphs.run_inv [OF assms(1) graph_ok_new] assms(2,3) n assms(5,6)] by auto
  have "\<exists>t. plan_tree (en_dp_table en) (create_all_relations_set g) = Some t \<and> distinct (leaves t) \<and> set (leaves t) = {..<relation_count g}"
    if "en_dp_table en (create_all_relations_set g) = Some p" for p
    using table_tree [OF res(1) _ that] all_relations_rels [OF n] n by simp
  moreover have "plan_ok g (en_dp_table en) U q" if "en_dp_table en U = Some q" for U q using res(1) that by (simp add: table_ok_def)
  then have "rels left \<inter> rels right = {} \<and> U = jset_union left right \<and> (edges = get_connecting_edge_indices g left right \<or> edges = [])"
    if "en_dp_table en U = Some q" "dp_plan_type q = Plan_Join left right edges" for U q left right edges
    using that by (fastforce simp: plan_ok_def)
  ultimately show ?thesis using res(2) by (auto split: sum.splits)
qed

text \<open>Without edges every join is a cross join, and the order comes from the greedy enumeration.\<close>

definition unconnected :: "xrat query_graph" where
  "unconnected = foldl (\<lambda>g r. add_relation (star_relation r (of_nat (Suc r))) g) query_graph_new [0..<2]"

lemma unconnected_shape: "shaped unconnected" "relation_count unconnected = 2"
proof -
  have r: "qg_relations unconnected = map (\<lambda>r. star_relation r (of_nat (Suc r))) [0..<2]" "qg_edges unconnected = []"
    by (simp_all add: unconnected_def add_relation_def query_graph_new_def numeral_eq_Suc)
  then show "relation_count unconnected = 2" "shaped unconnected"
    by (simp_all add: relation_count_def shaped_def edges_within_def star_relation_def comp_def)
qed

theorem join_order_covers_witness:
  "\<exists>p en. best_plan (exact_estimator id unconnected) unconnected = (Inr p, en) \<and>
    (\<exists>t. plan_tree (en_dp_table en) (create_all_relations_set unconnected) = Some t \<and> distinct (leaves t) \<and> set (leaves t) = {..<2})"
proof -
  have "\<not> isl (fst (best_plan (exact_estimator id unconnected) unconnected))" by code_simp
  then obtain p en where b: "best_plan (exact_estimator id unconnected) unconnected = (Inr p, en)"
    by (metis isl_def old.sum.exhaust prod.collapse)
  have "estimable (exact_estimator id unconnected) (relation_count unconnected)"
    by (simp add: exact_estimator_def estimable_source unconnected_shape(2))
  moreover have "graph_step\<^sup>*\<^sup>* query_graph_new unconnected" unfolding unconnected_def by (rule foldl_add_relation_reach)
  ultimately show ?thesis
    using join_order_covers [OF _ unconnected_shape(1) _ _ _ b] b unconnected_shape(2) by auto
qed

end
