(* ===== verification/Epoch_Coordinator.thy ===== *)
theory Epoch_Coordinator
  imports Ids
begin

text \<open>
  The coordinator of checkpoint epochs, \<open>zelox-common-datafusion/src/streaming/coordinator.rs\<close>. A
  \<open>BTreeMap\<close> of contributions is a map, the epochs in flight are an association list, the sets of task
  ids are duplicate-free lists. The epoch clock is a 64-bit word and wraps, as the release build has
  no overflow checks.

  The coordinator is compared with its history: the list of what was triggered, acknowledged, aborted
  and recovered determines which epochs are in flight and what each has collected.
\<close>

section \<open>State\<close>

record epoch_ack =
  ea_offsets :: "string \<rightharpoonup> int"
  ea_state_ptrs :: "string \<rightharpoonup> string"

record global_checkpoint =
  gc_epoch :: u64
  gc_offsets :: "string \<rightharpoonup> int"
  gc_state_ptrs :: "string \<rightharpoonup> string"

record epoch_state =
  ep_acked :: "u64 list"
  ep_merged :: epoch_ack

record epoch_coordinator =
  ec_expected :: "u64 list"
  ec_in_flight :: "(u64, epoch_state) index_map"
  ec_last_triggered :: "u64 option"
  ec_last_committed :: "u64 option"
  ec_max_in_flight :: nat

definition epoch_ack_default :: epoch_ack where
  "epoch_ack_default = \<lparr>ea_offsets = Map.empty, ea_state_ptrs = Map.empty\<rparr>"

text \<open>The two calls of \<open>extend\<close>: later entries win.\<close>

definition ack_extend :: "epoch_ack \<Rightarrow> epoch_ack \<Rightarrow> epoch_ack" where
  "ack_extend merged a =
     \<lparr>ea_offsets = ea_offsets merged ++ ea_offsets a, ea_state_ptrs = ea_state_ptrs merged ++ ea_state_ptrs a\<rparr>"

section \<open>Operations\<close>

definition epoch_coordinator_new :: "u64 list \<Rightarrow> nat \<Rightarrow> epoch_coordinator df_result" where
  "epoch_coordinator_new expected_tasks max_in_flight =
     (let expected = is_extend [] expected_tasks in
      if expected = [] then Inl (DF_Plan ''EpochCoordinator requires at least one expected task'')
      else if max_in_flight = 0 then Inl (DF_Plan ''EpochCoordinator requires max_in_flight >= 1'')
      else Inr \<lparr>ec_expected = expected, ec_in_flight = [], ec_last_triggered = None, ec_last_committed = None,
                ec_max_in_flight = max_in_flight\<rparr>)"

definition trigger :: "epoch_coordinator \<Rightarrow> u64 df_result \<times> epoch_coordinator" where
  "trigger c =
     (if ec_max_in_flight c \<le> length (ec_in_flight c)
      then (Inl (DF_Plan ''EpochCoordinator: {} epochs already in flight (max {})''), c)
      else
        let epoch = (case (ec_last_triggered c, ec_last_committed c) of
              (Some t, _) \<Rightarrow> t + 1
            | (None, Some l) \<Rightarrow> l + 1
            | (None, None) \<Rightarrow> 0)
        in (Inr epoch,
            c\<lparr>ec_last_triggered := Some epoch,
              ec_in_flight := im_insert epoch \<lparr>ep_acked = [], ep_merged = epoch_ack_default\<rparr> (ec_in_flight c)\<rparr>))"

definition ack ::
  "u64 \<Rightarrow> u64 \<Rightarrow> epoch_ack \<Rightarrow> epoch_coordinator \<Rightarrow> global_checkpoint option df_result \<times> epoch_coordinator" where
  "ack epoch task a c =
     (if task \<notin> set (ec_expected c) then (Inl (DF_Plan ''EpochCoordinator: ack from unknown task {task}''), c)
      else if (case ec_last_committed c of None \<Rightarrow> False | Some l \<Rightarrow> epoch \<le> l) then (Inr None, c)
      else case im_get (ec_in_flight c) epoch of
             None \<Rightarrow> (Inr None, c)
           | Some state \<Rightarrow>
               let state = (if task \<in> set (ep_acked state) then state
                     else \<lparr>ep_acked = is_insert task (ep_acked state), ep_merged = ack_extend (ep_merged state) a\<rparr>);
                   c = c\<lparr>ec_in_flight := im_insert epoch state (ec_in_flight c)\<rparr>
               in if length (ep_acked state) < length (ec_expected c) then (Inr None, c)
                  else
                    let merged = (case im_get (ec_in_flight c) epoch of Some s \<Rightarrow> ep_merged s | None \<Rightarrow> epoch_ack_default);
                        left = filter (\<lambda>(e, _). epoch < e) (AList.delete epoch (ec_in_flight c))
                    in (Inr (Some \<lparr>gc_epoch = epoch, gc_offsets = ea_offsets merged, gc_state_ptrs = ea_state_ptrs merged\<rparr>),
                        c\<lparr>ec_in_flight := left, ec_last_committed := Some epoch\<rparr>))"

definition abort :: "u64 \<Rightarrow> epoch_coordinator \<Rightarrow> epoch_coordinator" where
  "abort epoch c = c\<lparr>ec_in_flight := AList.delete epoch (ec_in_flight c)\<rparr>"

definition recover :: "u64 \<Rightarrow> epoch_coordinator \<Rightarrow> epoch_coordinator" where
  "recover l c = c\<lparr>ec_last_committed := Some l, ec_last_triggered := Some l, ec_in_flight := []\<rparr>"

definition in_flight_count :: "epoch_coordinator \<Rightarrow> nat" where
  "in_flight_count c = length (ec_in_flight c)"

section \<open>Histories\<close>

datatype coordinator_event =
    Triggered u64
  | Acked u64 u64 epoch_ack "global_checkpoint option"
  | Refused
  | Aborted u64
  | Recovered u64

text \<open>
  A run from \<open>c0\<close> with the history of its calls. The clock is not triggered at the largest epoch, where
  it would wrap.
\<close>

inductive coordinator_run :: "epoch_coordinator \<Rightarrow> coordinator_event list \<Rightarrow> epoch_coordinator \<Rightarrow> bool" for c0 where
  run_start: "coordinator_run c0 [] c0"
| run_trigger: "coordinator_run c0 h c \<Longrightarrow> ec_last_triggered c \<noteq> Some (- 1) \<Longrightarrow> trigger c = (Inr e, c') \<Longrightarrow>
    coordinator_run c0 (h @ [Triggered e]) c'"
| run_refused: "coordinator_run c0 h c \<Longrightarrow> trigger c = (Inl err, c') \<or> ack e t a c = (Inl err, c') \<Longrightarrow>
    coordinator_run c0 (h @ [Refused]) c'"
| run_ack: "coordinator_run c0 h c \<Longrightarrow> ack e t a c = (Inr r, c') \<Longrightarrow> coordinator_run c0 (h @ [Acked e t a r]) c'"
| run_abort: "coordinator_run c0 h c \<Longrightarrow> coordinator_run c0 (h @ [Aborted e]) (abort e c)"
| run_recover: "coordinator_run c0 h c \<Longrightarrow> coordinator_run c0 (h @ [Recovered l]) (recover l c)"

text \<open>The first acknowledgement of each task for an epoch, in the order they came.\<close>

definition add_ack :: "u64 \<Rightarrow> (u64 \<times> epoch_ack) list \<Rightarrow> coordinator_event \<Rightarrow> (u64 \<times> epoch_ack) list" where
  "add_ack e acks ev =
     (case ev of Acked e' t a _ \<Rightarrow> if e' = e \<and> t \<notin> fst ` set acks then acks @ [(t, a)] else acks | _ \<Rightarrow> acks)"

definition first_acks :: "u64 \<Rightarrow> coordinator_event list \<Rightarrow> (u64 \<times> epoch_ack) list" where
  "first_acks e h = foldl (add_ack e) [] h"

text \<open>Events that end an epoch in flight, or start it anew.\<close>

definition closes :: "u64 \<Rightarrow> coordinator_event \<Rightarrow> bool" where
  "closes e ev =
     (case ev of
        Triggered e' \<Rightarrow> e' = e
      | Acked e' _ _ r \<Rightarrow> r \<noteq> None \<and> e \<le> e'
      | Refused \<Rightarrow> False
      | Aborted e' \<Rightarrow> e' = e
      | Recovered _ \<Rightarrow> True)"

text \<open>The part of a history after the last trigger of an epoch that is still in flight.\<close>

definition pending :: "u64 \<Rightarrow> coordinator_event list \<Rightarrow> coordinator_event list \<Rightarrow> bool" where
  "pending e h since \<longleftrightarrow> (\<exists>before. h = before @ Triggered e # since) \<and> list_all (\<lambda>ev. \<not> closes e ev) since"

definition merge_acks :: "(u64 \<times> epoch_ack) list \<Rightarrow> epoch_ack" where
  "merge_acks acks = foldl ack_extend epoch_ack_default (map snd acks)"

lemma pending_snoc:
  "pending e (h @ [ev]) since \<longleftrightarrow>
     ev = Triggered e \<and> since = [] \<or> (\<exists>since'. since = since' @ [ev] \<and> pending e h since' \<and> \<not> closes e ev)"
  by (cases since rule: rev_cases) (auto simp: pending_def)

lemma pending_Nil [simp]: "\<not> pending e [] since"
  by (simp add: pending_def)

lemma first_acks_snoc [simp]: "first_acks e (h @ [ev]) = add_ack e (first_acks e h) ev"
  by (simp add: first_acks_def)

lemma first_acks_Nil [simp]: "first_acks e [] = []"
  by (simp add: first_acks_def)

lemma merge_acks_simps [simp]:
  "merge_acks [] = epoch_ack_default" "merge_acks (acks @ [(t, a)]) = ack_extend (merge_acks acks) a"
  by (simp_all add: merge_acks_def)

lemma distinct_first_acks [simp]: "distinct (map fst (first_acks e h))"
  by (induction h rule: rev_induct) (auto simp: add_ack_def split: coordinator_event.splits)

section \<open>The coordinator follows its history\<close>

definition collected :: "u64 \<Rightarrow> coordinator_event list \<Rightarrow> epoch_state" where
  "collected e since = \<lparr>ep_acked = map fst (first_acks e since), ep_merged = merge_acks (first_acks e since)\<rparr>"

definition acked_state :: "u64 \<Rightarrow> epoch_ack \<Rightarrow> epoch_state \<Rightarrow> epoch_state" where
  "acked_state t a s = (if t \<in> set (ep_acked s) then s
     else \<lparr>ep_acked = is_insert t (ep_acked s), ep_merged = ack_extend (ep_merged s) a\<rparr>)"

definition follows :: "coordinator_event list \<Rightarrow> epoch_coordinator \<Rightarrow> bool" where
  "follows h c \<longleftrightarrow>
     (\<forall>e s. im_get (ec_in_flight c) e = Some s \<longleftrightarrow> (\<exists>since. pending e h since \<and> s = collected e since))"

definition clock_ok :: "epoch_coordinator \<Rightarrow> bool" where
  "clock_ok c \<longleftrightarrow>
     (\<forall>e. im_get (ec_in_flight c) e \<noteq> None \<longrightarrow>
        (\<forall>l. ec_last_committed c = Some l \<longrightarrow> l < e) \<and> (\<exists>t. ec_last_triggered c = Some t \<and> e \<le> t)) \<and>
     (\<forall>l. ec_last_committed c = Some l \<longrightarrow> (\<exists>t. ec_last_triggered c = Some t \<and> l \<le> t))"

definition incomplete :: "epoch_coordinator \<Rightarrow> bool" where
  "incomplete c \<longleftrightarrow>
     (\<forall>e s. im_get (ec_in_flight c) e = Some s \<longrightarrow>
        set (ep_acked s) \<subseteq> set (ec_expected c) \<and> length (ep_acked s) < length (ec_expected c) \<and> distinct (ep_acked s))"

definition bounded :: "u64 list \<Rightarrow> nat \<Rightarrow> epoch_coordinator \<Rightarrow> bool" where
  "bounded tasks m c \<longleftrightarrow> ec_expected c = is_extend [] tasks \<and> tasks \<noteq> [] \<and> ec_max_in_flight c = m \<and>
     length (ec_in_flight c) \<le> m \<and> distinct (im_keys (ec_in_flight c))"

lemma is_extend_empty [simp]: "is_extend [] xs = [] \<longleftrightarrow> xs = []"
  by (metis is_extend_simps(1) set_empty2 set_is_extend sup_bot.left_neutral)

lemmas coordinator_defs = follows_def clock_ok_def incomplete_def bounded_def

lemma pending_unique: "pending e h x \<Longrightarrow> pending e h y \<Longrightarrow> x = y"
proof (induction h arbitrary: x y rule: rev_induct)
  case (snoc ev h)
  then show ?case by (auto simp: pending_snoc closes_def)
qed simp

lemma pending_open: "\<not> closes e ev \<Longrightarrow> pending e (h @ [ev]) since \<longleftrightarrow> (\<exists>since'. since = since' @ [ev] \<and> pending e h since')"
  by (auto simp: pending_snoc closes_def)

lemma pending_closed: "closes e ev \<Longrightarrow> pending e (h @ [ev]) since \<longleftrightarrow> ev = Triggered e \<and> since = []"
  by (auto simp: pending_snoc)

text \<open>An event keeps what the epoch has collected unless it is an acknowledgement of that epoch.\<close>

lemma collected_other:
  "(\<And>t a r. ev \<noteq> Acked e t a r) \<Longrightarrow> collected e (since @ [ev]) = collected e since"
  by (simp add: collected_def add_ack_def split: coordinator_event.splits)

lemma collected_Nil: "collected e [] = \<lparr>ep_acked = [], ep_merged = epoch_ack_default\<rparr>"
  by (simp add: collected_def)

lemma collected_ack:
  "collected e (since @ [Acked e t a r]) = acked_state t a (collected e since)"
  by (simp add: collected_def acked_state_def add_ack_def is_insert_def)

lemma follows_step:
  assumes "follows h c"
    and "\<And>e. closes e ev \<Longrightarrow> im_get (ec_in_flight c') e = (if ev = Triggered e then Some (collected e []) else None)"
    and "\<And>e. \<not> closes e ev \<Longrightarrow> (\<And>t a r. ev \<noteq> Acked e t a r) \<Longrightarrow> im_get (ec_in_flight c') e = im_get (ec_in_flight c) e"
    and "\<And>e t a r. \<not> closes e ev \<Longrightarrow> ev = Acked e t a r \<Longrightarrow>
      im_get (ec_in_flight c') e = map_option (acked_state t a) (im_get (ec_in_flight c) e)"
  shows "follows (h @ [ev]) c'"
  unfolding follows_def
proof (intro allI)
  fix e s
  have old: "im_get (ec_in_flight c) e = Some s \<longleftrightarrow> (\<exists>since. pending e h since \<and> s = collected e since)" for s
    using assms(1) by (simp add: follows_def)
  show "im_get (ec_in_flight c') e = Some s \<longleftrightarrow> (\<exists>since. pending e (h @ [ev]) since \<and> s = collected e since)"
  proof (cases "closes e ev")
    case True
    then show ?thesis using assms(2) [of e] by (auto simp: pending_closed)
  next
    case False
    show ?thesis
    proof (cases "\<exists>t a r. ev = Acked e t a r")
      case True
      then obtain t a r where ev: "ev = Acked e t a r" by blast
      have "(\<exists>since. pending e (h @ [ev]) since \<and> s = collected e since) \<longleftrightarrow>
        (\<exists>since. pending e h since \<and> s = collected e (since @ [ev]))" using False by (auto simp: pending_open)
      also have "\<dots> \<longleftrightarrow> im_get (ec_in_flight c') e = Some s"
        unfolding assms(4) [OF False ev] using old unfolding ev collected_ack by auto
      finally show ?thesis by simp
    next
      case other: False
      then have "im_get (ec_in_flight c') e = im_get (ec_in_flight c) e" using assms(3) [OF False] by metis
      with other False old collected_other [of ev e] show ?thesis by (auto simp: pending_open)
    qed
  qed
qed

definition coordinator_inv :: "u64 list \<Rightarrow> nat \<Rightarrow> coordinator_event list \<Rightarrow> epoch_coordinator \<Rightarrow> bool" where
  "coordinator_inv tasks m h c \<longleftrightarrow> follows h c \<and> clock_ok c \<and> incomplete c \<and> bounded tasks m c"

lemma coordinator_new_inv: "epoch_coordinator_new tasks m = Inr c \<Longrightarrow> coordinator_inv tasks m [] c"
  by (auto simp: epoch_coordinator_new_def coordinator_inv_def coordinator_defs Let_def split: if_splits)

section \<open>Every call keeps the invariant\<close>

lemma im_get_filter: "im_get (filter (\<lambda>(k, _). P k) m) k = (if P k then im_get m k else None)"
  by (induction m) auto

lemma length_im_insert_le: "length (im_insert k v m) \<le> Suc (length m)"
  by (induction m) auto

lemma length_im_insert_present: "im_get m k \<noteq> None \<Longrightarrow> length (im_insert k v m) = length m"
  by (induction m) auto

lemma distinct_im_filter: "distinct (im_keys m) \<Longrightarrow> distinct (im_keys (filter P m))"
  by (induction m) auto

lemma clock_committed: "clock_ok c \<Longrightarrow> ec_last_committed c = Some l \<Longrightarrow> \<exists>t. ec_last_triggered c = Some t \<and> l \<le> t"
  by (simp add: clock_ok_def)

lemma clock_in_flight: "clock_ok c \<Longrightarrow> im_get (ec_in_flight c) e \<noteq> None \<Longrightarrow> \<exists>t. ec_last_triggered c = Some t \<and> e \<le> t"
  by (simp add: clock_ok_def)

lemma trigger_inv:
  assumes inv: "coordinator_inv tasks m h c" and tr: "trigger c = (Inr e, c')" and max: "ec_last_triggered c \<noteq> Some (- 1)"
  shows "coordinator_inv tasks m (h @ [Triggered e]) c'"
proof -
  have c': "c' = c\<lparr>ec_last_triggered := Some e, ec_in_flight := im_insert e (collected e []) (ec_in_flight c)\<rparr>"
    and room: "length (ec_in_flight c) < m"
    using tr inv by (auto simp: trigger_def coordinator_inv_def bounded_def collected_Nil Let_def split: if_splits)
  have ok: "clock_ok c" using inv by (simp add: coordinator_inv_def)
  have later: "t < e" if "ec_last_triggered c = Some t" for t
    using tr that max word_less_succ [of t] by (auto simp: trigger_def Let_def split: if_splits)
  have "follows (h @ [Triggered e]) c'"
    using inv unfolding coordinator_inv_def by (elim conjE) (erule follows_step, auto simp: closes_def c')
  moreover have "l < e" if "ec_last_committed c = Some l" for l
    using clock_committed [OF ok that] later by (auto dest: le_less_trans)
  moreover have "e' \<le> e" if "im_get (ec_in_flight c) e' \<noteq> None" for e'
    using clock_in_flight [OF ok that] later by (auto dest: le_less_trans)
  ultimately have "follows (h @ [Triggered e]) c'" "clock_ok c'"
    using ok by (simp_all add: clock_ok_def c') (auto simp: less_imp_le)
  moreover have "incomplete c" "ec_expected c \<noteq> []" using inv by (simp_all add: coordinator_inv_def bounded_def)
  then have "incomplete c'" by (auto simp: c' incomplete_def collected_Nil)
  moreover have "bounded tasks m c" using inv by (simp add: coordinator_inv_def)
  moreover from this have "bounded tasks m c'"
    using room length_im_insert_le [of e "collected e []" "ec_in_flight c"] by (simp add: c' bounded_def distinct_update)
  ultimately show ?thesis by (simp add: coordinator_inv_def)
qed

definition checkpoint_of :: "u64 \<Rightarrow> epoch_ack \<Rightarrow> global_checkpoint" where
  "checkpoint_of e merged = \<lparr>gc_epoch = e, gc_offsets = ea_offsets merged, gc_state_ptrs = ea_state_ptrs merged\<rparr>"

lemma ack_absent:
  "t \<in> set (ec_expected c) \<Longrightarrow> im_get (ec_in_flight c) e = None \<Longrightarrow> ack e t a c = (Inr None, c)"
  by (simp add: ack_def split: option.splits)

lemma ack_present:
  assumes "clock_ok c" "t \<in> set (ec_expected c)" "im_get (ec_in_flight c) e = Some s"
  shows "ack e t a c =
    (let s' = acked_state t a s; m = im_insert e s' (ec_in_flight c) in
     if length (ep_acked s') < length (ec_expected c) then (Inr None, c\<lparr>ec_in_flight := m\<rparr>)
     else (Inr (Some (checkpoint_of e (ep_merged s'))),
           c\<lparr>ec_in_flight := filter (\<lambda>(k, _). e < k) (AList.delete e m), ec_last_committed := Some e\<rparr>))"
proof -
  have "\<not> (case ec_last_committed c of None \<Rightarrow> False | Some l \<Rightarrow> e \<le> l)"
    using assms(1,3) by (auto simp: clock_ok_def not_le split: option.splits)
  then show ?thesis using assms(2,3) by (simp add: ack_def acked_state_def checkpoint_of_def Let_def)
qed

lemma ack_inv:
  assumes inv: "coordinator_inv tasks m h c" and run: "ack e t a c = (Inr r, c')"
  shows "coordinator_inv tasks m (h @ [Acked e t a r]) c'"
proof -
  have t: "t \<in> set (ec_expected c)" using run by (auto simp: ack_def split: if_splits)
  have ok: "follows h c" "clock_ok c" "incomplete c" "bounded tasks m c" using inv by (auto simp: coordinator_inv_def)
  show ?thesis
  proof (cases "im_get (ec_in_flight c) e")
    case None
    then have r: "r = None" "c' = c" using run ack_absent [OF t None] by auto
    have "follows (h @ [Acked e t a r]) c" by (rule follows_step [OF ok(1)]) (auto simp: closes_def r None)
    with ok r show ?thesis by (simp add: coordinator_inv_def)
  next
    case (Some s)
    let ?s = "acked_state t a s"
    have sub: "set (ep_acked ?s) = insert t (set (ep_acked s))" "distinct (ep_acked ?s)"
      using ok(3) Some by (auto simp: incomplete_def acked_state_def)
    have ex: "distinct (ec_expected c)" using ok(4) by (simp add: bounded_def)
    have le: "set (ep_acked ?s) \<subseteq> set (ec_expected c)" using ok(3) Some t sub by (auto simp: incomplete_def)
    show ?thesis
    proof (cases "length (ep_acked ?s) < length (ec_expected c)")
      case True
      then have r: "r = None" "c' = c\<lparr>ec_in_flight := im_insert e ?s (ec_in_flight c)\<rparr>"
        using run ack_present [OF ok(2) t Some] by (auto simp: Let_def)
      have "incomplete c'" using True le ok(3) sub(2) by (auto simp: incomplete_def r)
      moreover have "follows (h @ [Acked e t a r]) c'" by (rule follows_step [OF ok(1)]) (auto simp: closes_def r Some)
      moreover have "clock_ok c'" using ok(2) Some by (auto simp: clock_ok_def r)
      moreover have "bounded tasks m c'"
        using ok(4) Some length_im_insert_present [of "ec_in_flight c" e] by (auto simp: bounded_def r distinct_update)
      ultimately show ?thesis by (simp add: coordinator_inv_def)
    next
      case False
      let ?m = "filter (\<lambda>(k, _). e < k) (AList.delete e (im_insert e ?s (ec_in_flight c)))"
      from False have r: "r = Some (checkpoint_of e (ep_merged ?s))" "c' = c\<lparr>ec_in_flight := ?m, ec_last_committed := Some e\<rparr>"
        using run ack_present [OF ok(2) t Some] by (auto simp: Let_def)
      have get: "im_get ?m k = (if e < k then im_get (ec_in_flight c) k else None)" for k
        by (simp add: im_get_filter delete_conv')
      have "follows (h @ [Acked e t a r]) c'" by (rule follows_step [OF ok(1)]) (auto simp: closes_def r get not_le)
      moreover have "clock_ok c'" using ok(2) Some by (auto simp: clock_ok_def r get)
      moreover have "incomplete c'" using ok(3) by (auto simp: incomplete_def r get split: if_splits)
      moreover have "length ?m \<le> length (ec_in_flight c)"
        using length_im_insert_present [of "ec_in_flight c" e ?s] Some
          order_trans [OF length_filter_le length_delete_le [of e "im_insert e ?s (ec_in_flight c)"]] by simp
      then have "bounded tasks m c'"
        using ok(4) by (auto simp: bounded_def r intro!: distinct_im_filter distinct_delete distinct_update)
      ultimately show ?thesis by (simp add: coordinator_inv_def)
    qed
  qed
qed

lemma abort_inv: "coordinator_inv tasks m h c \<Longrightarrow> coordinator_inv tasks m (h @ [Aborted e]) (abort e c)"
proof -
  assume inv: "coordinator_inv tasks m h c"
  then have ok: "follows h c" "clock_ok c" "incomplete c" "bounded tasks m c" by (auto simp: coordinator_inv_def)
  have get: "im_get (AList.delete e (ec_in_flight c)) k = (if k = e then None else im_get (ec_in_flight c) k)" for k
    by (simp add: delete_conv')
  have "follows (h @ [Aborted e]) (abort e c)" by (rule follows_step [OF ok(1)]) (auto simp: closes_def abort_def get)
  moreover have "clock_ok (abort e c)" "incomplete (abort e c)"
    using ok(2,3) by (auto simp: clock_ok_def incomplete_def abort_def get split: if_splits)
  moreover have "bounded tasks m (abort e c)"
    using ok(4) length_delete_le [of e "ec_in_flight c"] by (auto simp: bounded_def abort_def distinct_delete)
  ultimately show ?thesis by (simp add: coordinator_inv_def)
qed

lemma recover_inv: "coordinator_inv tasks m h c \<Longrightarrow> coordinator_inv tasks m (h @ [Recovered l]) (recover l c)"
proof -
  assume inv: "coordinator_inv tasks m h c"
  then have "follows (h @ [Recovered l]) (recover l c)"
    unfolding coordinator_inv_def by (elim conjE) (erule follows_step, auto simp: closes_def recover_def)
  with inv show ?thesis by (auto simp: coordinator_inv_def clock_ok_def incomplete_def bounded_def recover_def)
qed

lemma refused_inv:
  assumes inv: "coordinator_inv tasks m h c" and "trigger c = (Inl err, c') \<or> ack e t a c = (Inl err, c')"
  shows "coordinator_inv tasks m (h @ [Refused]) c'"
proof -
  have c: "c' = c"
    using assms(2) by (auto simp: trigger_def ack_def Let_def split: if_splits option.splits)
  have "follows (h @ [Refused]) c"
    using inv unfolding coordinator_inv_def by (elim conjE) (erule follows_step, auto simp: closes_def)
  with inv c show ?thesis by (simp add: coordinator_inv_def)
qed

lemma coordinator_run_inv:
  assumes "coordinator_run c0 h c" "epoch_coordinator_new tasks m = Inr c0"
  shows "coordinator_inv tasks m h c"
  using assms
  by (induction rule: coordinator_run.induct)
    (auto intro: coordinator_new_inv trigger_inv ack_inv abort_inv recover_inv refused_inv)

section \<open>Commits\<close>

lemma all_collected:
  assumes "distinct xs" "distinct ys" "set xs \<subseteq> set ys"
  shows "\<not> length xs < length ys \<longleftrightarrow> set xs = set ys"
  using assms card_seteq [of "set ys" "set xs"] by (auto simp: distinct_card [symmetric])

text \<open>C34. A checkpoint is committed exactly when it is a complete snapshot. After any history of triggers,
  acknowledgements, aborts and recoveries, an acknowledgement of epoch \<open>e\<close> by an expected task returns
  the global checkpoint \<open>gc\<close> exactly when \<open>e\<close> was triggered and since then neither aborted, committed,
  overtaken by the commit of a later epoch nor dropped by a recovery, every expected task has
  acknowledged it since, and \<open>gc\<close> consists of the offsets and state pointers of the first acknowledgement
  of each task, merged in the order they came.\<close>

theorem epoch_commit_exact:
  assumes "epoch_coordinator_new tasks m = Inr c0" "coordinator_run c0 h c" "t \<in> set tasks"
  shows "(\<exists>c'. ack e t a c = (Inr (Some gc), c')) \<longleftrightarrow>
    (\<exists>before since. h = before @ Triggered e # since \<and> list_all (\<lambda>ev. \<not> closes e ev) since \<and>
      (let acks = first_acks e (since @ [Acked e t a None])
       in set (map fst acks) = set tasks \<and> gc = checkpoint_of e (merge_acks acks)))"
proof -
  have inv: "follows h c" "clock_ok c" "incomplete c" "bounded tasks m c"
    using coordinator_run_inv [OF assms(2,1)] by (auto simp: coordinator_inv_def)
  have t: "t \<in> set (ec_expected c)" and ex: "set (ec_expected c) = set tasks" "distinct (ec_expected c)"
    using inv(4) assms(3) by (auto simp: bounded_def)
  let ?acks = "\<lambda>since. first_acks e (since @ [Acked e t a None])"
  have rhs: "(\<exists>before since. h = before @ Triggered e # since \<and> list_all (\<lambda>ev. \<not> closes e ev) since \<and> P since) \<longleftrightarrow>
    (\<exists>since. pending e h since \<and> P since)" for P by (auto simp: pending_def)
  show ?thesis unfolding rhs Let_def
  proof (cases "im_get (ec_in_flight c) e")
    case None
    then have "\<not> pending e h since" for since using inv(1) unfolding follows_def by (metis option.distinct(1))
    with ack_absent [OF t None, of a] show "(\<exists>c'. ack e t a c = (Inr (Some gc), c')) \<longleftrightarrow>
      (\<exists>since. pending e h since \<and> set (map fst (?acks since)) = set tasks \<and> gc = checkpoint_of e (merge_acks (?acks since)))" by simp
  next
    case (Some s)
    then obtain since where since: "pending e h since" "s = collected e since" using inv(1) by (auto simp: follows_def)
    let ?s = "acked_state t a s"
    have s': "?s = collected e (since @ [Acked e t a None])" by (simp add: since(2) collected_ack)
    have "distinct (ep_acked ?s)" "set (ep_acked ?s) \<subseteq> set tasks"
      using inv(3) Some t ex(1) by (auto simp: incomplete_def acked_state_def)
    then have full: "\<not> length (ep_acked ?s) < length (ec_expected c) \<longleftrightarrow> set (ep_acked ?s) = set tasks"
      using all_collected [OF _ ex(2)] ex(1) by simp
    have "(\<exists>c'. ack e t a c = (Inr (Some gc), c')) \<longleftrightarrow> set (ep_acked ?s) = set tasks \<and> gc = checkpoint_of e (ep_merged ?s)"
      unfolding ack_present [OF inv(2) t Some] full [symmetric] by (auto simp: Let_def)
    also have "\<dots> \<longleftrightarrow> set (map fst (?acks since)) = set tasks \<and> gc = checkpoint_of e (merge_acks (?acks since))"
      unfolding s' collected_def epoch_state.simps ..
    also have "\<dots> \<longleftrightarrow> (\<exists>since. pending e h since \<and> set (map fst (?acks since)) = set tasks \<and> gc = checkpoint_of e (merge_acks (?acks since)))"
      using since(1) pending_unique [OF since(1)] by metis
    finally show "(\<exists>c'. ack e t a c = (Inr (Some gc), c')) \<longleftrightarrow>
      (\<exists>since. pending e h since \<and> set (map fst (?acks since)) = set tasks \<and> gc = checkpoint_of e (merge_acks (?acks since)))" .
  qed
qed

section \<open>Order of the epochs\<close>

text \<open>The epochs triggered and committed since the last recovery.\<close>

definition triggers :: "coordinator_event list \<Rightarrow> u64 list" where
  "triggers h = foldl (\<lambda>es ev. case ev of Triggered e \<Rightarrow> es @ [e] | Recovered _ \<Rightarrow> [] | _ \<Rightarrow> es) [] h"

definition commits :: "coordinator_event list \<Rightarrow> u64 list" where
  "commits h = foldl (\<lambda>es ev. case ev of Acked e _ _ (Some _) \<Rightarrow> es @ [e] | Recovered _ \<Rightarrow> [] | _ \<Rightarrow> es) [] h"

lemma triggers_snoc: "triggers (h @ [ev]) = (case ev of Triggered e \<Rightarrow> triggers h @ [e] | Recovered _ \<Rightarrow> [] | _ \<Rightarrow> triggers h)"
  by (simp add: triggers_def split: coordinator_event.split)

lemma commits_snoc:
  "commits (h @ [ev]) = (case ev of Acked e _ _ (Some _) \<Rightarrow> commits h @ [e] | Recovered _ \<Rightarrow> [] | _ \<Rightarrow> commits h)"
  by (simp add: commits_def split: coordinator_event.split option.split)

lemmas history_snoc = triggers_snoc commits_snoc

definition order_inv :: "coordinator_event list \<Rightarrow> epoch_coordinator \<Rightarrow> bool" where
  "order_inv h c \<longleftrightarrow>
     sorted_wrt (<) (triggers h) \<and> sorted_wrt (<) (commits h) \<and> set (commits h) \<subseteq> set (triggers h) \<and>
     (\<forall>e \<in> set (triggers h). \<exists>t. ec_last_triggered c = Some t \<and> e \<le> t) \<and>
     (\<forall>e \<in> set (commits h). \<exists>l. ec_last_committed c = Some l \<and> e \<le> l) \<and>
     (\<forall>e. im_get (ec_in_flight c) e \<noteq> None \<longrightarrow> e \<in> set (triggers h))"

lemma trigger_order:
  assumes "order_inv h c" "trigger c = (Inr e, c')" "ec_last_triggered c \<noteq> Some (- 1)"
  shows "order_inv (h @ [Triggered e]) c'"
proof -
  have c': "ec_last_triggered c' = Some e" "ec_last_committed c' = ec_last_committed c"
    "im_get (ec_in_flight c') k \<noteq> None \<longleftrightarrow> k = e \<or> im_get (ec_in_flight c) k \<noteq> None" for k
    using assms(2) by (auto simp: trigger_def Let_def split: if_splits)
  have later: "t < e" if "ec_last_triggered c = Some t" for t
    using assms(2,3) that word_less_succ [of t] by (auto simp: trigger_def Let_def split: if_splits)
  have before: "x < e" if "x \<in> set (triggers h)" for x
    using assms(1) that later unfolding order_inv_def by (metis le_less_trans)
  then show ?thesis using assms(1) unfolding order_inv_def c' history_snoc
    by (auto simp: sorted_wrt_append less_imp_le)
qed

lemma ack_order:
  assumes order: "order_inv h c" and ok: "clock_ok c" and run: "ack e t a c = (Inr r, c')"
  shows "order_inv (h @ [Acked e t a r]) c'"
proof -
  have t: "t \<in> set (ec_expected c)" using run by (auto simp: ack_def split: if_splits)
  show ?thesis
  proof (cases "im_get (ec_in_flight c) e")
    case None
    then show ?thesis using run order ack_absent [OF t None, of a] by (simp add: order_inv_def history_snoc)
  next
    case (Some s)
    have "x < e" if "x \<in> set (commits h)" for x
      using order ok Some that unfolding order_inv_def clock_ok_def by (metis le_less_trans option.distinct(1))
    moreover have "e \<in> set (triggers h)" using order Some by (simp add: order_inv_def)
    ultimately show ?thesis using run order Some unfolding ack_present [OF ok t Some] Let_def
      by (auto simp: order_inv_def history_snoc sorted_wrt_append less_imp_le im_get_filter delete_conv' split: if_splits)
  qed
qed

lemma coordinator_run_order:
  assumes "coordinator_run c0 h c" "epoch_coordinator_new tasks m = Inr c0"
  shows "order_inv h c"
  using assms
proof (induction rule: coordinator_run.induct)
  case run_start
  then show ?case by (auto simp: epoch_coordinator_new_def order_inv_def triggers_def commits_def Let_def split: if_splits)
next
  case (run_refused h c err c' e t a)
  have "c' = c" using run_refused.hyps(2) by (auto simp: trigger_def ack_def Let_def split: if_splits option.splits)
  with run_refused show ?case by (simp add: order_inv_def history_snoc)
next
  case (run_ack h c e t a r c')
  from coordinator_run_inv [OF run_ack.hyps(1) run_ack.prems] have "clock_ok c" by (simp add: coordinator_inv_def)
  with run_ack show ?case by (auto intro: ack_order)
next
  case run_trigger
  then show ?case by (auto intro: trigger_order)
qed (auto simp: order_inv_def history_snoc abort_def recover_def delete_conv')

text \<open>C35. Epochs are committed at most once and in order. After any history, the epochs triggered and the
  epochs committed since the last recovery are strictly increasing, only triggered epochs are committed,
  and at most the configured number of epochs is in flight, each after the last committed one.\<close>

theorem epochs_committed_in_order:
  assumes "epoch_coordinator_new tasks m = Inr c0" "coordinator_run c0 h c"
  shows "sorted_wrt (<) (triggers h) \<and> sorted_wrt (<) (commits h) \<and> set (commits h) \<subseteq> set (triggers h) \<and>
    in_flight_count c \<le> m \<and> list_all (\<lambda>e. list_all (\<lambda>l. l < e) (commits h)) (im_keys (ec_in_flight c))"
proof -
  note inv = coordinator_run_inv [OF assms(2,1)] and order = coordinator_run_order [OF assms(2,1)]
  have "l < e" if "e \<in> set (im_keys (ec_in_flight c))" "l \<in> set (commits h)" for e l
  proof -
    have "im_get (ec_in_flight c) e \<noteq> None" using that(1) by (simp add: map_of_eq_None_iff)
    with inv order that(2) show ?thesis
      unfolding coordinator_inv_def clock_ok_def order_inv_def by (metis le_less_trans)
  qed
  with inv order show ?thesis
    by (simp add: coordinator_inv_def bounded_def order_inv_def in_flight_count_def list_all_iff)
qed

section \<open>Two tasks\<close>

text \<open>
  Epochs 0 and 1 are triggered, task 1 acknowledges epoch 0 and, twice, epoch 1; the acknowledgement of
  epoch 1 by task 2 commits it and drops epoch 0.
\<close>

definition offset_ack :: "string \<Rightarrow> int \<Rightarrow> epoch_ack" where
  "offset_ack tp off = \<lparr>ea_offsets = [tp \<mapsto> off], ea_state_ptrs = Map.empty\<rparr>"

definition two_tasks :: epoch_coordinator where
  "two_tasks = \<lparr>ec_expected = [1, 2], ec_in_flight = [], ec_last_triggered = None, ec_last_committed = None, ec_max_in_flight = 4\<rparr>"

definition two_epochs :: epoch_coordinator where
  "two_epochs = snd (trigger (snd (trigger two_tasks)))"

definition one_missing :: epoch_coordinator where
  "one_missing = snd (ack 1 1 (offset_ack ''t:0'' 999) (snd (ack 1 1 (offset_ack ''t:0'' 200) (snd (ack 0 1 (offset_ack ''t:0'' 100) two_epochs)))))"

definition one_missing_history :: "coordinator_event list" where
  "one_missing_history = [Triggered 0, Triggered 1, Acked 0 1 (offset_ack ''t:0'' 100) None,
     Acked 1 1 (offset_ack ''t:0'' 200) None, Acked 1 1 (offset_ack ''t:0'' 999) None]"

lemma two_tasks_new: "epoch_coordinator_new [1, 2] 4 = Inr two_tasks"
  by (simp add: epoch_coordinator_new_def two_tasks_def is_insert_def)

lemma one_missing_run: "coordinator_run two_tasks one_missing_history one_missing"
proof -
  have "coordinator_run two_tasks ([] @ [Triggered 0]) (snd (trigger two_tasks))"
    by (rule run_trigger [OF run_start]) (simp_all add: two_tasks_def trigger_def Let_def)
  then have "coordinator_run two_tasks (([] @ [Triggered 0]) @ [Triggered 1]) two_epochs"
    by (rule run_trigger) (simp_all add: two_tasks_def two_epochs_def trigger_def Let_def)
  then have "coordinator_run two_tasks ((([] @ [Triggered 0]) @ [Triggered 1]) @ [Acked 0 1 (offset_ack ''t:0'' 100) None])
      (snd (ack 0 1 (offset_ack ''t:0'' 100) two_epochs))"
    by (rule run_ack) (simp add: two_tasks_def two_epochs_def trigger_def ack_def is_insert_def Let_def)
  then have "coordinator_run two_tasks (((([] @ [Triggered 0]) @ [Triggered 1]) @ [Acked 0 1 (offset_ack ''t:0'' 100) None]) @ [Acked 1 1 (offset_ack ''t:0'' 200) None])
      (snd (ack 1 1 (offset_ack ''t:0'' 200) (snd (ack 0 1 (offset_ack ''t:0'' 100) two_epochs))))"
    by (rule run_ack) (simp add: two_tasks_def two_epochs_def trigger_def ack_def is_insert_def Let_def)
  then have "coordinator_run two_tasks ((((([] @ [Triggered 0]) @ [Triggered 1]) @ [Acked 0 1 (offset_ack ''t:0'' 100) None]) @ [Acked 1 1 (offset_ack ''t:0'' 200) None]) @ [Acked 1 1 (offset_ack ''t:0'' 999) None]) one_missing"
    unfolding one_missing_def by (rule run_ack) (simp add: two_tasks_def two_epochs_def trigger_def ack_def is_insert_def Let_def)
  then show ?thesis by (simp add: one_missing_history_def)
qed

theorem epoch_commit_exact_witness:
  "\<exists>gc c'. ack 1 2 (offset_ack ''t:1'' 300) one_missing = (Inr (Some gc), c') \<and>
     gc_epoch gc = 1 \<and> gc_offsets gc ''t:0'' = Some 200 \<and> gc_offsets gc ''t:1'' = Some 300"
proof -
  let ?since = "[Acked 0 1 (offset_ack ''t:0'' 100) None, Acked 1 1 (offset_ack ''t:0'' 200) None, Acked 1 1 (offset_ack ''t:0'' 999) None]"
  let ?acks = "first_acks 1 (?since @ [Acked 1 2 (offset_ack ''t:1'' 300) None])"
  let ?gc = "checkpoint_of 1 (merge_acks ?acks)"
  have acks: "?acks = [(1, offset_ack ''t:0'' 200), (2, offset_ack ''t:1'' 300)]"
    by (simp add: first_acks_def add_ack_def)
  have t: "2 \<in> set [1, 2 :: u64]" by simp
  have "\<exists>c'. ack 1 2 (offset_ack ''t:1'' 300) one_missing = (Inr (Some ?gc), c')"
    unfolding epoch_commit_exact [OF two_tasks_new one_missing_run t] Let_def
    by (rule exI [of _ "[Triggered 0]"], rule exI [of _ ?since]) (use acks in \<open>simp add: one_missing_history_def closes_def\<close>)
  moreover have "gc_epoch ?gc = 1 \<and> gc_offsets ?gc ''t:0'' = Some 200 \<and> gc_offsets ?gc ''t:1'' = Some 300"
    unfolding acks by (simp add: checkpoint_of_def merge_acks_def ack_extend_def offset_ack_def epoch_ack_default_def)
  ultimately show ?thesis by blast
qed

lemma one_missing_commits: "\<exists>gc c'. ack 1 2 (offset_ack ''t:1'' 300) one_missing = (Inr (Some gc), c')"
  by (simp add: one_missing_def two_epochs_def two_tasks_def trigger_def ack_def is_insert_def Let_def)

theorem epochs_committed_in_order_witness:
  "\<exists>h c. coordinator_run two_tasks h c \<and> triggers h = [0, 1] \<and> commits h = [1] \<and>
     sorted_wrt (<) (triggers h) \<and> set (commits h) \<subseteq> set (triggers h) \<and> in_flight_count c \<le> 4"
proof -
  obtain gc c where "ack 1 2 (offset_ack ''t:1'' 300) one_missing = (Inr (Some gc), c)" using one_missing_commits by blast
  from run_ack [OF one_missing_run this]
  have run: "coordinator_run two_tasks (one_missing_history @ [Acked 1 2 (offset_ack ''t:1'' 300) (Some gc)]) c" .
  from epochs_committed_in_order [OF two_tasks_new run] run show ?thesis
    by (intro exI [of _ "one_missing_history @ [Acked 1 2 (offset_ack ''t:1'' 300) (Some gc)]"] exI [of _ c])
      (simp add: one_missing_history_def triggers_def commits_def)
qed

end
