(* ===== verification/Flow_Marker.thy ===== *)
theory Flow_Marker
  imports Zelox_Prelude
begin

text \<open>
  The markers of a streaming data flow, \<open>zelox-common-datafusion/src/streaming/event/marker.rs\<close>.
  The message types are those of \<open>streaming/marker.proto\<close>. The generated protobuf codec and the
  timestamps of the date library are parameters: encoding a message to bytes and back, and splitting
  a timestamp into seconds and nanoseconds and putting it together again. An event of a data flow
  (\<open>streaming/event/mod.rs\<close>) is a marker or a batch of rows with one retraction flag per row.
\<close>

type_synonym marker_bytes = "8 word list"

datatype 't flow_marker =
    LatencyTracker (lt_source: string) (lt_id: u64) (lt_timestamp: 't)
  | Watermark (wm_source: string) (wm_timestamp: 't)
  | Checkpoint (cp_id: u64)
  | EndOfData
  | Idle (idle_source: string)

text \<open>The generated message: a message without a kind is one the decoder of the bytes accepts.\<close>

datatype marker_kind =
    Kind_LatencyTracker string u64 int "32 word"
  | Kind_Watermark string int "32 word"
  | Kind_Checkpoint u64
  | Kind_EndOfData
  | Kind_Idle string

record marker_message =
  mm_kind :: "marker_kind option"

record 't marker_codec =
  encode_to_vec :: "marker_message \<Rightarrow> marker_bytes"
  decode_message :: "marker_bytes \<Rightarrow> string + marker_message"
  ts_secs :: "'t \<Rightarrow> int"
  ts_nanos :: "'t \<Rightarrow> 32 word"
  from_timestamp :: "int \<Rightarrow> 32 word \<Rightarrow> 't option"

definition marker_encode :: "'t marker_codec \<Rightarrow> 't flow_marker \<Rightarrow> marker_bytes df_result" where
  "marker_encode M m =
     (let kind = (case m of
          LatencyTracker source i t \<Rightarrow> Kind_LatencyTracker source i (ts_secs M t) (ts_nanos M t)
        | Watermark source t \<Rightarrow> Kind_Watermark source (ts_secs M t) (ts_nanos M t)
        | Checkpoint i \<Rightarrow> Kind_Checkpoint i
        | EndOfData \<Rightarrow> Kind_EndOfData
        | Idle source \<Rightarrow> Kind_Idle source)
      in Inr (encode_to_vec M \<lparr>mm_kind = Some kind\<rparr>))"

definition marker_decode :: "'t marker_codec \<Rightarrow> marker_bytes \<Rightarrow> 't flow_marker df_result" where
  "marker_decode M bs =
     (case decode_message M bs of
        Inl e \<Rightarrow> Inl (DF_Plan ''failed to decode marker: {e}'')
      | Inr message \<Rightarrow>
          (case mm_kind message of
             Some (Kind_LatencyTracker source i secs nanos) \<Rightarrow>
               (case from_timestamp M secs nanos of
                  None \<Rightarrow> Inl (DF_Plan ''invalid latency tracker timestamp'')
                | Some t \<Rightarrow> Inr (LatencyTracker source i t))
           | Some (Kind_Watermark source secs nanos) \<Rightarrow>
               (case from_timestamp M secs nanos of
                  None \<Rightarrow> Inl (DF_Plan ''invalid watermark timestamp'')
                | Some t \<Rightarrow> Inr (Watermark source t))
           | Some (Kind_Checkpoint i) \<Rightarrow> Inr (Checkpoint i)
           | Some Kind_EndOfData \<Rightarrow> Inr EndOfData
           | Some (Kind_Idle source) \<Rightarrow> Inr (Idle source)
           | None \<Rightarrow> Inl (DF_Plan ''missing marker kind'')))"

text \<open>What the code relies on of the generated codec and of the date library.\<close>

definition marker_codec_ok :: "'t marker_codec \<Rightarrow> bool" where
  "marker_codec_ok M \<longleftrightarrow>
     (\<forall>message. decode_message M (encode_to_vec M message) = Inr message) \<and>
     (\<forall>t. from_timestamp M (ts_secs M t) (ts_nanos M t) = Some t)"

lemma marker_decode_encode:
  "marker_codec_ok M \<Longrightarrow> marker_encode M m = Inr bs \<Longrightarrow> marker_decode M bs = Inr m"
  by (cases m) (auto simp: marker_encode_def marker_decode_def marker_codec_ok_def)

datatype ('t, 'r) flow_event =
    Data_Event (de_batch: "'r list") (de_retracted: "bool list")
  | Marker_Event "'t flow_marker"

definition append_only_data :: "'r list \<Rightarrow> ('t, 'r) flow_event" where
  "append_only_data batch = Data_Event batch (replicate (length batch) False)"

text \<open>The flags belong to the rows: the array has the length of the batch.\<close>

definition event_ok :: "('t, 'r) flow_event \<Rightarrow> bool" where
  "event_ok ev = (case ev of Data_Event batch retracted \<Rightarrow> length retracted = length batch | Marker_Event _ \<Rightarrow> True)"

lemma append_only_data_ok [simp]: "event_ok (append_only_data batch)"
  by (simp add: append_only_data_def event_ok_def)

end
