(* ===== verification/Barrier_Align.thy ===== *)
theory Barrier_Align
  imports Flow_Marker
begin

text \<open>
  Barrier alignment of \<open>zelox-physical-plan/src/streaming/barrier_align.rs\<close>: the merge of several
  streams of flow events into one, in which a checkpoint barrier of an input blocks that input until
  every other input that has not ended has reached a barrier.

  A record batch is its marker column, if it has one, and its other columns. The forwarding channels
  deliver the items of the input streams in order; which of the inputs that may be polled is ready
  first is not determined, so a run may take any of them.
\<close>

section \<open>Batches\<close>

record 'd flow_batch =
  rb_markers :: "marker_bytes option list option"
  rb_columns :: 'd

datatype batch_kind = Kind_Data | Kind_Barrier u64 | Kind_Marker | Kind_End

fun first_valid :: "'a option list \<Rightarrow> 'a option" where
  "first_valid [] = None"
| "first_valid (None # xs) = first_valid xs"
| "first_valid (Some x # xs) = Some x"

definition classify :: "(marker_bytes \<Rightarrow> 't flow_marker df_result) \<Rightarrow> 'd flow_batch \<Rightarrow> batch_kind df_result" where
  "classify dec batch =
     (case rb_markers batch of
        None \<Rightarrow> Inr Kind_Data
      | Some column \<Rightarrow>
          (case first_valid column of
             None \<Rightarrow> Inr Kind_Data
           | Some value \<Rightarrow>
               (case dec value of
                  Inl e \<Rightarrow> Inl e
                | Inr marker \<Rightarrow>
                    Inr (case marker of
                      Checkpoint i \<Rightarrow> Kind_Barrier i
                    | EndOfData \<Rightarrow> Kind_End
                    | _ \<Rightarrow> Kind_Marker))))"

type_synonym 'd item = "df_error + 'd flow_batch"

section \<open>The alignment loop\<close>

record 'd align_state =
  al_reached :: "u64 option list"
  al_ended :: "bool list"
  al_checkpoint_batch :: "'d flow_batch option list"
  al_end_batch :: "'d flow_batch option"

definition align_init :: "nat \<Rightarrow> 'd align_state" where
  "align_init n = \<lparr>al_reached = replicate n None, al_ended = replicate n False,
     al_checkpoint_batch = replicate n None, al_end_batch = None\<rparr>"

definition active_inputs :: "'d align_state \<Rightarrow> nat list" where
  "active_inputs st = filter (\<lambda>i. \<not> al_ended st ! i) [0..<length (al_ended st)]"

definition pollable :: "'d align_state \<Rightarrow> nat list" where
  "pollable st = filter (\<lambda>i. \<not> al_ended st ! i \<and> al_reached st ! i = None) [0..<length (al_ended st)]"

definition clear_all :: "nat list \<Rightarrow> 'a option list \<Rightarrow> 'a option list" where
  "clear_all is xs = foldl (\<lambda>xs i. xs[i := None]) xs is"

text \<open>The head of the loop: seal an epoch, return, or poll the inputs that are neither blocked nor ended.\<close>

datatype 'd turn =
    Seal "'d flow_batch option" "'d align_state"
  | Return "'d flow_batch option"
  | Poll "nat list"

definition align_turn :: "'d align_state \<Rightarrow> 'd turn" where
  "align_turn st =
     (let active = active_inputs st in
      if active \<noteq> [] \<and> list_all (\<lambda>i. al_reached st ! i \<noteq> None) active then
        Seal (al_checkpoint_batch st ! hd active)
          (st\<lparr>al_reached := clear_all active (al_reached st),
              al_checkpoint_batch := clear_all active (al_checkpoint_batch st)\<rparr>)
      else if active = [] then Return (al_end_batch st)
      else Poll (pollable st))"

text \<open>Handling what an input delivered; \<open>None\<close> is its closed channel. The loop ends without a state.\<close>

definition align_receive ::
  "(marker_bytes \<Rightarrow> 't flow_marker df_result) \<Rightarrow> nat \<Rightarrow> 'd item option \<Rightarrow> 'd align_state \<Rightarrow> 'd item list \<times> 'd align_state option" where
  "align_receive dec i item st =
     (case item of
        None \<Rightarrow> ([], Some (st\<lparr>al_ended := (al_ended st)[i := True]\<rparr>))
      | Some (Inl e) \<Rightarrow> ([Inl e], None)
      | Some (Inr batch) \<Rightarrow>
          (case classify dec batch of
             Inl e \<Rightarrow> ([Inl e], None)
           | Inr Kind_Data \<Rightarrow> ([Inr batch], Some st)
           | Inr (Kind_Barrier e) \<Rightarrow>
               ([], Some (st\<lparr>al_reached := (al_reached st)[i := Some e],
                             al_checkpoint_batch := (al_checkpoint_batch st)[i := Some batch]\<rparr>))
           | Inr Kind_Marker \<Rightarrow> (if i = 0 then [Inr batch] else [], Some st)
           | Inr Kind_End \<Rightarrow>
               ([], Some (st\<lparr>al_ended := (al_ended st)[i := True],
                             al_end_batch := (case al_end_batch st of None \<Rightarrow> Some batch | Some b \<Rightarrow> Some b)\<rparr>))))"

section \<open>Runs\<close>

text \<open>What one turn of the loop yields, with the input it came from.\<close>

datatype 'd action =
    Sealed "'d item list"
  | Received nat "'d item list"
  | Returned "'d item list"

definition yield_batch :: "'d flow_batch option \<Rightarrow> 'd item list" where
  "yield_batch b = (case b of None \<Rightarrow> [] | Some b \<Rightarrow> [Inr b])"

definition next_item :: "'a list \<Rightarrow> 'a option" where
  "next_item xs = (case xs of [] \<Rightarrow> None | x # _ \<Rightarrow> Some x)"

text \<open>
  A run on the input streams, with what it did, what is left of the inputs, and the state, which is
  gone once the loop has returned.
\<close>

inductive align_run ::
  "(marker_bytes \<Rightarrow> 't flow_marker df_result) \<Rightarrow> 'd item list list \<Rightarrow> 'd action list \<Rightarrow> 'd item list list \<Rightarrow> 'd align_state option \<Rightarrow> bool"
  for dec inputs where
  align_start: "align_run dec inputs [] inputs (Some (align_init (length inputs)))"
| align_seal: "align_run dec inputs log rest (Some st) \<Longrightarrow> align_turn st = Seal b st' \<Longrightarrow>
    align_run dec inputs (log @ [Sealed (yield_batch b)]) rest (Some st')"
| align_return: "align_run dec inputs log rest (Some st) \<Longrightarrow> align_turn st = Return b \<Longrightarrow>
    align_run dec inputs (log @ [Returned (yield_batch b)]) rest None"
| align_poll: "align_run dec inputs log rest (Some st) \<Longrightarrow> align_turn st = Poll is \<Longrightarrow> i \<in> set is \<Longrightarrow>
    align_receive dec i (next_item (rest ! i)) st = (ys, s) \<Longrightarrow>
    align_run dec inputs (log @ [Received i ys]) (rest[i := tl (rest ! i)]) s"

section \<open>What alignment means\<close>

text \<open>
  Seen from one input, a run is a sequence of items it passed on and of barriers the merge sealed. The
  same can be read off the input stream: its items, with a barrier where it has one.
\<close>

datatype 'd mark = Item "'d item" | Barrier

definition seen_from :: "nat \<Rightarrow> 'd action list \<Rightarrow> 'd mark list" where
  "seen_from i log = concat (map (\<lambda>a. case a of
       Sealed _ \<Rightarrow> [Barrier]
     | Received k ys \<Rightarrow> if k = i then map Item ys else []
     | Returned _ \<Rightarrow> []) log)"

definition mark_of :: "(marker_bytes \<Rightarrow> 't flow_marker df_result) \<Rightarrow> nat \<Rightarrow> 'd item \<Rightarrow> 'd mark list" where
  "mark_of dec i x =
     (case x of
        Inl _ \<Rightarrow> []
      | Inr b \<Rightarrow>
          (case classify dec b of
             Inr Kind_Data \<Rightarrow> [Item x]
           | Inr (Kind_Barrier _) \<Rightarrow> [Barrier]
           | Inr Kind_Marker \<Rightarrow> if i = 0 then [Item x] else []
           | _ \<Rightarrow> []))"

definition marks :: "(marker_bytes \<Rightarrow> 't flow_marker df_result) \<Rightarrow> nat \<Rightarrow> 'd item list \<Rightarrow> 'd mark list" where
  "marks dec i xs = concat (map (mark_of dec i) xs)"

definition epoch_of :: "(marker_bytes \<Rightarrow> 't flow_marker df_result) \<Rightarrow> 'd item \<Rightarrow> u64 list" where
  "epoch_of dec x = (case x of Inl _ \<Rightarrow> [] | Inr b \<Rightarrow> (case classify dec b of Inr (Kind_Barrier e) \<Rightarrow> [e] | _ \<Rightarrow> []))"

definition epochs :: "(marker_bytes \<Rightarrow> 't flow_marker df_result) \<Rightarrow> 'd item list \<Rightarrow> u64 list" where
  "epochs dec xs = concat (map (epoch_of dec) xs)"

definition sealed_items :: "'d action list \<Rightarrow> 'd item list" where
  "sealed_items log = concat (map (\<lambda>a. case a of Sealed ys \<Rightarrow> ys | _ \<Rightarrow> []) log)"

definition is_end :: "(marker_bytes \<Rightarrow> 't flow_marker df_result) \<Rightarrow> 'd item \<Rightarrow> bool" where
  "is_end dec x = (case x of Inl _ \<Rightarrow> False | Inr b \<Rightarrow> classify dec b = Inr Kind_End)"

definition until_end :: "(marker_bytes \<Rightarrow> 't flow_marker df_result) \<Rightarrow> 'd item list \<Rightarrow> 'd item list" where
  "until_end dec = takeWhile (\<lambda>x. \<not> is_end dec x)"

definition readable :: "(marker_bytes \<Rightarrow> 't flow_marker df_result) \<Rightarrow> 'd item \<Rightarrow> bool" where
  "readable dec x = (case x of Inl _ \<Rightarrow> False | Inr b \<Rightarrow> \<not> isl (classify dec b))"

section \<open>Invariant of a run\<close>

text \<open>What one input has delivered so far, and what the merge has made of it.\<close>

definition seals :: "'d action list \<Rightarrow> nat" where
  "seals log = length (filter (\<lambda>a. case a of Sealed _ \<Rightarrow> True | _ \<Rightarrow> False) log)"

definition input_inv ::
  "(marker_bytes \<Rightarrow> 't flow_marker df_result) \<Rightarrow> 'd action list \<Rightarrow> 'd align_state \<Rightarrow> nat \<Rightarrow> 'd item list \<Rightarrow> 'd item list \<Rightarrow> bool" where
  "input_inv dec log st i xs rest =
     (if al_ended st ! i then
        al_reached st ! i = None \<and> (\<exists>k. seen_from i log = marks dec i (until_end dec xs) @ replicate k Barrier)
      else
        \<exists>pre. xs = pre @ rest \<and> (\<forall>x \<in> set pre. \<not> is_end dec x) \<and>
          (case al_reached st ! i of
             None \<Rightarrow> seen_from i log = marks dec i pre \<and> length (epochs dec pre) = seals log
           | Some e \<Rightarrow>
               seen_from i log @ [Barrier] = marks dec i pre \<and> length (epochs dec pre) = Suc (seals log) \<and>
               (\<exists>b. al_checkpoint_batch st ! i = Some b \<and> epochs dec [Inr b] = [last (epochs dec pre)])))"

definition align_inv ::
  "(marker_bytes \<Rightarrow> 't flow_marker df_result) \<Rightarrow> 'd item list list \<Rightarrow> 'd action list \<Rightarrow> 'd item list list \<Rightarrow> 'd align_state \<Rightarrow> bool" where
  "align_inv dec inputs log rest st \<longleftrightarrow>
     length rest = length inputs \<and> length (al_ended st) = length inputs \<and> length (al_reached st) = length inputs \<and>
     length (al_checkpoint_batch st) = length inputs \<and>
     (\<forall>i < length inputs. set (rest ! i) \<subseteq> set (inputs ! i) \<and> input_inv dec log st i (inputs ! i) (rest ! i))"

lemma marks_append [simp]: "marks dec i (xs @ ys) = marks dec i xs @ marks dec i ys"
  by (simp add: marks_def)

lemma marks_single [simp]: "marks dec i [x] = mark_of dec i x" "marks dec i [] = []"
  by (simp_all add: marks_def)

lemma epochs_append [simp]: "epochs dec (xs @ ys) = epochs dec xs @ epochs dec ys"
  by (simp add: epochs_def)

lemma epochs_single [simp]: "epochs dec [x] = epoch_of dec x" "epochs dec [] = []"
  by (simp_all add: epochs_def)

lemma seen_from_append [simp]: "seen_from i (log @ log') = seen_from i log @ seen_from i log'"
  by (simp add: seen_from_def)

lemma seen_from_single [simp]:
  "seen_from i [Sealed ys] = [Barrier]" "seen_from i [Received k ys] = (if k = i then map Item ys else [])"
  "seen_from i [Returned ys] = []" "seen_from i [] = []"
  by (simp_all add: seen_from_def)

lemma seals_snoc [simp]:
  "seals (log @ [Sealed ys]) = Suc (seals log)" "seals (log @ [Received k ys]) = seals log"
  "seals (log @ [Returned ys]) = seals log" "seals [] = 0"
  by (simp_all add: seals_def)

lemma until_end_pre:
  "\<forall>x \<in> set pre. \<not> is_end dec x \<Longrightarrow> until_end dec (pre @ xs) = pre @ until_end dec xs"
  by (simp add: until_end_def)

lemma until_end_simps [simp]:
  "until_end dec [] = []" "until_end dec (x # xs) = (if is_end dec x then [] else x # until_end dec xs)"
  by (simp_all add: until_end_def)

lemma length_clear_all [simp]: "length (clear_all is xs) = length xs"
  by (induction "is" arbitrary: xs) (auto simp: clear_all_def)

lemma clear_all_nth: "i < length xs \<Longrightarrow> clear_all is xs ! i = (if i \<in> set is then None else xs ! i)"
proof (induction "is" arbitrary: xs)
  case (Cons k ks)
  have "clear_all (k # ks) xs = clear_all ks (xs[k := None])" by (simp add: clear_all_def)
  with Cons show ?case by (auto simp: nth_list_update)
qed (simp add: clear_all_def)

lemma active_iff: "i \<in> set (active_inputs st) \<longleftrightarrow> i < length (al_ended st) \<and> \<not> al_ended st ! i"
  by (auto simp: active_inputs_def)

lemma pollable_iff: "i \<in> set (pollable st) \<longleftrightarrow> i < length (al_ended st) \<and> \<not> al_ended st ! i \<and> al_reached st ! i = None"
  by (auto simp: pollable_def)

lemma align_turn_cases:
  obtains (seal) "align_turn st = Seal (al_checkpoint_batch st ! hd (active_inputs st))
      (st\<lparr>al_reached := clear_all (active_inputs st) (al_reached st),
          al_checkpoint_batch := clear_all (active_inputs st) (al_checkpoint_batch st)\<rparr>)"
      "active_inputs st \<noteq> []" "\<And>i. i \<in> set (active_inputs st) \<Longrightarrow> al_reached st ! i \<noteq> None"
  | (return) "align_turn st = Return (al_end_batch st)" "active_inputs st = []"
  | (poll) "align_turn st = Poll (pollable st)" "pollable st \<noteq> []"
proof (cases "active_inputs st \<noteq> [] \<and> list_all (\<lambda>i. al_reached st ! i \<noteq> None) (active_inputs st)")
  case True
  then show ?thesis using seal by (auto simp: align_turn_def list_all_iff Let_def)
next
  case False
  show ?thesis
  proof (cases "active_inputs st = []")
    case True
    then show ?thesis using return by (simp add: align_turn_def Let_def)
  next
    case active: False
    with False obtain i where "i \<in> set (active_inputs st)" "al_reached st ! i = None" by (auto simp: list_all_iff)
    then have "i \<in> set (pollable st)" by (simp add: active_iff pollable_iff)
    then have "pollable st \<noteq> []" by auto
    then show ?thesis using poll active False unfolding align_turn_def Let_def by presburger
  qed
qed

lemma align_turn_Seal:
  assumes "align_turn st = Seal b st'"
  shows "b = al_checkpoint_batch st ! hd (active_inputs st)"
    "st' = st\<lparr>al_reached := clear_all (active_inputs st) (al_reached st),
      al_checkpoint_batch := clear_all (active_inputs st) (al_checkpoint_batch st)\<rparr>"
    "active_inputs st \<noteq> []" "i \<in> set (active_inputs st) \<Longrightarrow> al_reached st ! i \<noteq> None"
  using assms unfolding align_turn_def Let_def by (simp_all add: list_all_iff split: if_splits)

lemma align_inv_input: "align_inv dec inputs log rest st \<Longrightarrow> i < length inputs \<Longrightarrow> input_inv dec log st i (inputs ! i) (rest ! i)"
  by (simp add: align_inv_def)

lemma align_init_inv: "align_inv dec inputs [] inputs (align_init (length inputs))"
  by (simp add: align_inv_def input_inv_def align_init_def)

lemma seal_inv:
  assumes inv: "align_inv dec inputs log rest st" and turn: "align_turn st = Seal b st'"
  shows "align_inv dec inputs (log @ [Sealed ys]) rest st'"
proof -
  note seal = align_turn_Seal [OF turn] and st' = align_turn_Seal(2) [OF turn]
  show ?thesis
    unfolding align_inv_def
  proof (intro conjI allI impI)
    fix i assume i: "i < length inputs"
    with inv show "set (rest ! i) \<subseteq> set (inputs ! i)" by (simp add: align_inv_def)
    have len: "i < length (al_reached st)" "i < length (al_ended st)" using inv i by (auto simp: align_inv_def)
    have old: "input_inv dec log st i (inputs ! i) (rest ! i)" using inv i by (simp add: align_inv_def)
    show "input_inv dec (log @ [Sealed ys]) st' i (inputs ! i) (rest ! i)"
    proof (cases "al_ended st ! i")
      case True
      then have "i \<notin> set (active_inputs st)" by (simp add: active_iff)
      with True old len show ?thesis
        by (auto simp: input_inv_def st' clear_all_nth replicate_append_same [symmetric] intro: exI [of _ "Suc _"])
    next
      case False
      then have act: "i \<in> set (active_inputs st)" using len by (simp add: active_iff)
      then obtain e where "al_reached st ! i = Some e" using seal(4) by blast
      with False act old len show ?thesis by (auto simp: input_inv_def st' clear_all_nth)
    qed
  qed (use inv st' in \<open>simp_all add: align_inv_def\<close>)
qed

text \<open>The first item of a stream that may be polled, or its end.\<close>

lemma receive_other:
  assumes "k \<noteq> i" "align_receive dec k item st = (ys, Some st')"
  shows "al_ended st' ! i = al_ended st ! i" "al_reached st' ! i = al_reached st ! i"
    "al_checkpoint_batch st' ! i = al_checkpoint_batch st ! i"
  using assms by (auto simp: align_receive_def split: option.splits sum.splits batch_kind.splits if_splits)

lemma receive_lengths:
  assumes "align_receive dec k item st = (ys, Some st')"
  shows "length (al_ended st') = length (al_ended st)" "length (al_reached st') = length (al_reached st)"
    "length (al_checkpoint_batch st') = length (al_checkpoint_batch st)"
  using assms by (auto simp: align_receive_def split: option.splits sum.splits batch_kind.splits if_splits)

lemma receive_own:
  assumes old: "input_inv dec log st i xs rest" and i: "i < length (al_ended st)" "i < length (al_reached st)" "i < length (al_checkpoint_batch st)"
    and unblocked: "\<not> al_ended st ! i" "al_reached st ! i = None"
    and run: "align_receive dec i (next_item rest) st = (ys, Some st')"
  shows "input_inv dec (log @ [Received i ys]) st' i xs (tl rest)"
proof -
  obtain pre where pre: "xs = pre @ rest" "\<forall>x \<in> set pre. \<not> is_end dec x" "seen_from i log = marks dec i pre"
      "length (epochs dec pre) = seals log"
    using old unblocked by (auto simp: input_inv_def)
  show ?thesis
  proof (cases rest)
    case Nil
    with run pre unblocked i show ?thesis
      by (auto simp: next_item_def align_receive_def input_inv_def until_end_pre [of pre dec "[]", simplified] intro: exI [of _ 0])
  next
    case (Cons x more)
    then obtain b kind where b: "x = Inr b" "classify dec b = Inr kind"
      using run by (auto simp: next_item_def align_receive_def split: sum.splits)
    show ?thesis
    proof (cases kind)
      case Kind_Data
      with run b Cons have r: "ys = [Inr b]" "st' = st" by (auto simp: next_item_def align_receive_def)
      show ?thesis unfolding input_inv_def r using unblocked b Kind_Data pre Cons
        by (auto simp: mark_of_def epoch_of_def is_end_def intro!: exI [of _ "pre @ [x]"])
    next
      case Kind_Marker
      with run b Cons have r: "ys = (if i = 0 then [Inr b] else [])" "st' = st" by (auto simp: next_item_def align_receive_def)
      show ?thesis unfolding input_inv_def r using unblocked b Kind_Marker pre Cons
        by (auto simp: mark_of_def epoch_of_def is_end_def intro!: exI [of _ "pre @ [x]"])
    next
      case (Kind_Barrier e)
      with run b Cons have r: "ys = []" "st' = st\<lparr>al_reached := (al_reached st)[i := Some e], al_checkpoint_batch := (al_checkpoint_batch st)[i := Some b]\<rparr>"
        by (auto simp: next_item_def align_receive_def)
      show ?thesis unfolding input_inv_def r using unblocked b Kind_Barrier pre Cons i
        by (auto simp: mark_of_def epoch_of_def is_end_def intro!: exI [of _ "pre @ [x]"])
    next
      case Kind_End
      with run b Cons have r: "ys = []" "al_ended st' = (al_ended st)[i := True]" "al_reached st' = al_reached st"
        by (auto simp: next_item_def align_receive_def)
      have "until_end dec xs = pre" using pre b Kind_End Cons by (simp add: until_end_pre is_end_def)
      then show ?thesis unfolding input_inv_def r using unblocked pre(3) i by (auto intro: exI [of _ 0])
    qed
  qed
qed

lemma receive_inv:
  assumes inv: "align_inv dec inputs log rest st" and k: "k \<in> set (pollable st)"
    and run: "align_receive dec k (next_item (rest ! k)) st = (ys, Some st')"
  shows "align_inv dec inputs (log @ [Received k ys]) (rest[k := tl (rest ! k)]) st'"
  unfolding align_inv_def
proof (intro conjI allI impI)
  fix i assume i: "i < length inputs"
  have left: "rest[k := tl (rest ! k)] ! i = (if k = i then tl (rest ! i) else rest ! i)"
    using inv i by (simp add: align_inv_def nth_list_update)
  have sub: "set (rest ! i) \<subseteq> set (inputs ! i)" using inv i by (simp add: align_inv_def)
  have "set (tl (rest ! i)) \<subseteq> set (rest ! i)" by (cases "rest ! i") auto
  then show "set (rest[k := tl (rest ! k)] ! i) \<subseteq> set (inputs ! i)"
    using sub order_trans [OF _ sub] by (simp add: left)
  have old: "input_inv dec log st i (inputs ! i) (rest ! i)" using inv i by (simp add: align_inv_def)
  show "input_inv dec (log @ [Received k ys]) st' i (inputs ! i) (rest[k := tl (rest ! k)] ! i)"
  proof (cases "k = i")
    case True
    with receive_own [OF old] inv k run i show ?thesis unfolding left by (auto simp: align_inv_def pollable_iff)
  next
    case False
    from old False receive_other [OF False run] show ?thesis
      unfolding left by (cases "al_ended st ! i"; cases "al_reached st ! i") (simp_all add: input_inv_def)
  qed
qed (use inv receive_lengths [OF run] in \<open>simp_all add: align_inv_def\<close>)

text \<open>The barriers that were sealed, and the end marker that is kept.\<close>

definition seals_inv :: "(marker_bytes \<Rightarrow> 't flow_marker df_result) \<Rightarrow> 'd item list list \<Rightarrow> 'd action list \<Rightarrow> bool" where
  "seals_inv dec inputs log \<longleftrightarrow> length (epochs dec (sealed_items log)) = seals log \<and>
     (\<forall>k < seals log. \<exists>i < length inputs. k < length (epochs dec (until_end dec (inputs ! i))) \<and>
        epochs dec (sealed_items log) ! k = epochs dec (until_end dec (inputs ! i)) ! k)"

definition end_inv :: "(marker_bytes \<Rightarrow> 't flow_marker df_result) \<Rightarrow> 'd item list list \<Rightarrow> 'd align_state \<Rightarrow> bool" where
  "end_inv dec inputs st =
     (case al_end_batch st of
        None \<Rightarrow> \<forall>i < length inputs. al_ended st ! i \<longrightarrow> (\<forall>x \<in> set (inputs ! i). \<not> is_end dec x)
      | Some b \<Rightarrow> is_end dec (Inr b) \<and> (\<exists>i < length inputs. Inr b \<in> set (inputs ! i)))"

lemma sealed_items_snoc [simp]:
  "sealed_items (log @ [Sealed ys]) = sealed_items log @ ys" "sealed_items (log @ [Received k zs]) = sealed_items log"
  "sealed_items (log @ [Returned zs]) = sealed_items log" "sealed_items [] = []"
  by (simp_all add: sealed_items_def)

lemma seal_seals_inv:
  assumes inv: "align_inv dec inputs log rest st" and old: "seals_inv dec inputs log" and turn: "align_turn st = Seal b st'"
  shows "seals_inv dec inputs (log @ [Sealed (yield_batch b)])"
proof -
  note seal = align_turn_Seal [OF turn]
  let ?i = "hd (active_inputs st)"
  have act: "?i \<in> set (active_inputs st)" using seal(3) by simp
  then have i: "?i < length inputs" "\<not> al_ended st ! ?i" using inv by (auto simp: active_iff align_inv_def)
  with seal(4) [OF act] align_inv_input [OF inv i(1)] obtain pre batch where pre: "inputs ! ?i = pre @ rest ! ?i" "\<forall>x \<in> set pre. \<not> is_end dec x"
      "length (epochs dec pre) = Suc (seals log)" "al_checkpoint_batch st ! ?i = Some batch" "epochs dec [Inr batch] = [last (epochs dec pre)]"
    by (auto simp: input_inv_def)
  have "epochs dec (yield_batch b) = [last (epochs dec pre)]" using seal(1) pre(4,5) by (simp add: yield_batch_def)
  moreover have "last (epochs dec pre) = epochs dec pre ! seals log" using pre(3) by (metis diff_Suc_1 last_conv_nth list.size(3) nat.distinct(1))
  moreover have "epochs dec (until_end dec (inputs ! ?i)) = epochs dec pre @ epochs dec (until_end dec (rest ! ?i))"
    unfolding pre(1) until_end_pre [OF pre(2)] by simp
  ultimately show ?thesis
    using old i(1) pre(3) unfolding seals_inv_def
    by (auto simp: nth_append less_Suc_eq intro!: exI [of _ ?i])
qed

lemma receive_end_inv:
  assumes inv: "align_inv dec inputs log rest st" and old: "end_inv dec inputs st" and k: "k \<in> set (pollable st)"
    and run: "align_receive dec k (next_item (rest ! k)) st = (ys, Some st')"
  shows "end_inv dec inputs st'"
proof -
  have kn: "k < length inputs" "\<not> al_ended st ! k" "al_reached st ! k = None" using k inv by (auto simp: pollable_iff align_inv_def)
  then obtain pre where pre: "inputs ! k = pre @ rest ! k" "\<forall>x \<in> set pre. \<not> is_end dec x"
    using align_inv_input [OF inv kn(1)] by (auto simp: input_inv_def)
  show ?thesis
  proof (cases "rest ! k")
    case Nil
    with run have st': "st' = st\<lparr>al_ended := (al_ended st)[k := True]\<rparr>" by (simp add: next_item_def align_receive_def)
    show ?thesis using old pre Nil kn(1) inv
      by (auto simp: end_inv_def st' nth_list_update align_inv_def split: option.splits if_splits)
  next
    case (Cons x more)
    then have x: "x \<in> set (inputs ! k)" using pre by simp
    obtain b kind where b: "x = Inr b" "classify dec b = Inr kind"
      using run Cons by (auto simp: next_item_def align_receive_def split: sum.splits)
    have "kind = Kind_End \<and> al_end_batch st' = (case al_end_batch st of None \<Rightarrow> Some b | Some b \<Rightarrow> Some b) \<or>
        al_end_batch st' = al_end_batch st \<and> al_ended st' = al_ended st"
      using run b Cons by (cases kind) (auto simp: next_item_def align_receive_def)
    with old x b kn(1) show ?thesis by (auto simp: end_inv_def is_end_def split: option.splits)
  qed
qed

section \<open>Every turn makes progress\<close>

definition work_at :: "'d item list list \<Rightarrow> 'd align_state \<Rightarrow> nat \<Rightarrow> nat" where
  "work_at rest st i =
     2 * length (rest ! i) + (if al_ended st ! i then 0 else 1) + (if al_reached st ! i = None then 0 else 1)"

definition work :: "'d item list list \<Rightarrow> 'd align_state \<Rightarrow> nat" where
  "work rest st = (\<Sum>i < length rest. work_at rest st i)"

lemma work_decreases:
  assumes "length rest' = length rest" "k < length rest" "work_at rest' st' k < work_at rest st k"
    and "\<And>i. i < length rest \<Longrightarrow> work_at rest' st' i \<le> work_at rest st i"
  shows "work rest' st' < work rest st"
  unfolding work_def assms(1) using assms(2-4) by (intro sum_strict_mono_ex1) auto

lemma seal_work:
  assumes inv: "align_inv dec inputs log rest st" and turn: "align_turn st = Seal b st'"
  shows "work rest st' < work rest st"
proof (rule work_decreases [where k = "hd (active_inputs st)"])
  note seal = align_turn_Seal [OF turn]
  let ?i = "hd (active_inputs st)"
  have act: "?i \<in> set (active_inputs st)" using seal(3) by simp
  then show i: "?i < length rest" using inv by (auto simp: active_iff align_inv_def)
  then show "work_at rest st' ?i < work_at rest st ?i"
    using seal(4) [OF act] act inv by (auto simp: work_at_def seal(2) clear_all_nth align_inv_def)
  show "work_at rest st' i \<le> work_at rest st i" if "i < length rest" for i
    using that inv by (auto simp: work_at_def seal(2) clear_all_nth align_inv_def)
qed simp

lemma receive_work:
  assumes inv: "align_inv dec inputs log rest st" and k: "k \<in> set (pollable st)"
    and run: "align_receive dec k (next_item (rest ! k)) st = (ys, Some st')"
  shows "work (rest[k := tl (rest ! k)]) st' < work rest st"
proof (rule work_decreases [where k = k])
  have kn: "k < length rest" "k < length (al_ended st)" "k < length (al_reached st)" "\<not> al_ended st ! k" "al_reached st ! k = None"
    using k inv by (auto simp: pollable_iff align_inv_def)
  then show "k < length rest" by simp
  show less: "work_at (rest[k := tl (rest ! k)]) st' k < work_at rest st k"
  proof (cases "rest ! k")
    case Nil
    with run kn show ?thesis by (auto simp: next_item_def align_receive_def work_at_def)
  next
    case (Cons x more)
    have "al_ended st' = al_ended st \<or> al_reached st' = al_reached st"
      using run by (auto simp: align_receive_def split: option.splits sum.splits batch_kind.splits)
    then show ?thesis using Cons kn by (auto simp: work_at_def)
  qed
  show "work_at (rest[k := tl (rest ! k)]) st' i \<le> work_at rest st i" if "i < length rest" for i
    using less receive_other [OF _ run, of i] by (cases "k = i") (auto simp: work_at_def)
qed simp

lemma work_init: "work inputs (align_init (length inputs)) = 2 * length (concat inputs) + length inputs"
proof -
  have "work inputs (align_init (length inputs)) = (\<Sum>i < length inputs. 2 * length (inputs ! i) + 1)"
    unfolding work_def by (rule sum.cong) (auto simp: work_at_def align_init_def)
  also have "\<dots> = 2 * (\<Sum>i < length inputs. length (inputs ! i)) + length inputs"
    by (simp add: sum_Suc sum_distrib_left)
  also have "(\<Sum>i < length inputs. length (inputs ! i)) = length (concat inputs)"
    by (simp add: length_concat sum_list_sum_nth atLeast0LessThan)
  finally show ?thesis .
qed

lemma receive_readable:
  assumes "\<forall>x \<in> set xs. readable dec x"
  obtains ys st' where "align_receive dec k (next_item xs) st = (ys, Some st')"
proof (cases xs)
  case Nil
  then show ?thesis using that by (simp add: next_item_def align_receive_def)
next
  case (Cons x more)
  then obtain b kind where "x = Inr b" "classify dec b = Inr kind"
    using assms by (auto simp: readable_def isl_def split: sum.splits) (metis sum.exhaust)
  with Cons that show ?thesis by (cases kind) (auto simp: next_item_def align_receive_def)
qed

section \<open>Alignment\<close>

text \<open>What a run that has returned has done with its inputs.\<close>

definition aligned :: "(marker_bytes \<Rightarrow> 't flow_marker df_result) \<Rightarrow> 'd item list list \<Rightarrow> 'd action list \<Rightarrow> bool" where
  "aligned dec inputs log \<longleftrightarrow>
     (\<forall>i < length inputs. \<exists>k. seen_from i log = marks dec i (until_end dec (inputs ! i)) @ replicate k Barrier) \<and>
     length (epochs dec (sealed_items log)) = seals log \<and>
     (\<forall>k < seals log. \<exists>i < length inputs. k < length (epochs dec (until_end dec (inputs ! i))) \<and>
        epochs dec (sealed_items log) ! k = epochs dec (until_end dec (inputs ! i)) ! k) \<and>
     (\<exists>ys. last log = Returned ys \<and>
        (if \<exists>xs \<in> set inputs. \<exists>x \<in> set xs. is_end dec x
         then \<exists>b. ys = [Inr b] \<and> is_end dec (Inr b) \<and> (\<exists>xs \<in> set inputs. Inr b \<in> set xs) else ys = []))"

lemma returned_aligned:
  assumes inv: "align_inv dec inputs log rest st" "seals_inv dec inputs log" "end_inv dec inputs st"
    and turn: "align_turn st = Return b"
  shows "aligned dec inputs (log @ [Returned (yield_batch b)])"
proof -
  have b: "b = al_end_batch st" and none: "active_inputs st = []"
    using turn unfolding align_turn_def Let_def by (auto split: if_splits)
  have ended: "al_ended st ! i" if "i < length inputs" for i
    using none that inv(1) active_iff [of i st] by (auto simp: align_inv_def)
  have "\<exists>k. seen_from i log = marks dec i (until_end dec (inputs ! i)) @ replicate k Barrier" if "i < length inputs" for i
    using align_inv_input [OF inv(1) that] ended [OF that] by (simp add: input_inv_def)
  moreover have "if \<exists>xs \<in> set inputs. \<exists>x \<in> set xs. is_end dec x
      then \<exists>c. yield_batch b = [Inr c] \<and> is_end dec (Inr c) \<and> (\<exists>xs \<in> set inputs. Inr c \<in> set xs) else yield_batch b = []"
  proof (cases b)
    case None
    then have "\<not> is_end dec x" if "i < length inputs" "x \<in> set (inputs ! i)" for i x
      using inv(3) ended that b by (auto simp: end_inv_def)
    then have "\<not> (\<exists>xs \<in> set inputs. \<exists>x \<in> set xs. is_end dec x)" by (metis in_set_conv_nth)
    with None show ?thesis by (simp add: yield_batch_def)
  next
    case (Some c)
    then have "al_end_batch st = Some c" using b by simp
    with inv(3) obtain i where "i < length inputs" "Inr c \<in> set (inputs ! i)" "is_end dec (Inr c)" by (auto simp: end_inv_def)
    then show ?thesis using Some nth_mem [of i inputs] by (auto simp: yield_batch_def)
  qed
  ultimately show ?thesis using inv(2) by (simp add: aligned_def seals_inv_def)
qed

lemma align_run_inv:
  assumes "align_run dec inputs log rest s" and ok: "\<forall>xs \<in> set inputs. \<forall>x \<in> set xs. readable dec x"
  shows "case s of
      Some st \<Rightarrow> align_inv dec inputs log rest st \<and> seals_inv dec inputs log \<and> end_inv dec inputs st \<and>
        length log + work rest st \<le> 2 * length (concat inputs) + length inputs
    | None \<Rightarrow> aligned dec inputs log \<and> length log \<le> 2 * length (concat inputs) + length inputs + 1"
  using assms(1)
proof (induction rule: align_run.induct)
  case align_start
  then show ?case
    by (simp add: align_init_inv seals_inv_def end_inv_def work_init) (simp add: align_init_def)
next
  case (align_seal log rest st b st')
  then have inv: "align_inv dec inputs log rest st" "seals_inv dec inputs log" "end_inv dec inputs st"
      "length log + work rest st \<le> 2 * length (concat inputs) + length inputs" by simp_all
  have "end_inv dec inputs st'" using inv(3) by (simp add: end_inv_def align_turn_Seal(2) [OF align_seal.hyps(2)] split: option.splits)
  with inv seal_inv [OF inv(1) align_seal.hyps(2)] seal_seals_inv [OF inv(1,2) align_seal.hyps(2)]
    seal_work [OF inv(1) align_seal.hyps(2)] show ?case by simp
next
  case (align_return log rest st b)
  then show ?case using returned_aligned [of dec inputs log rest st b] by simp
next
  case (align_poll log rest st "is" i ys s)
  then have inv: "align_inv dec inputs log rest st" "seals_inv dec inputs log" "end_inv dec inputs st"
      "length log + work rest st \<le> 2 * length (concat inputs) + length inputs" by simp_all
  have i: "i \<in> set (pollable st)" using align_poll.hyps(2,3) unfolding align_turn_def Let_def by (auto split: if_splits)
  then have "i < length inputs" using inv(1) by (simp add: pollable_iff align_inv_def)
  then have "set (rest ! i) \<subseteq> set (inputs ! i)" "inputs ! i \<in> set inputs" using inv(1) by (simp_all add: align_inv_def)
  then have "\<forall>x \<in> set (rest ! i). readable dec x" using ok by blast
  then obtain st' where run: "align_receive dec i (next_item (rest ! i)) st = (ys, Some st')" "s = Some st'"
    using receive_readable [of "rest ! i" dec i st] align_poll.hyps(4) by (metis prod.inject)
  have "seals_inv dec inputs (log @ [Received i ys])" using inv(2) by (simp add: seals_inv_def)
  with inv receive_inv [OF inv(1) i run(1)] receive_end_inv [OF inv(1,3) i run(1)] receive_work [OF inv(1) i run(1)] run(2)
  show ?case by simp
qed

text \<open>C36. Barrier alignment cuts the streams consistently. On streams without errors, in whatever order the
  inputs become ready, the merge never gets stuck and returns after at most twice the number of items
  plus the number of inputs plus one turns. When it has returned, its output, seen from any input, is
  that input up to its end-of-data marker, item by item in order (latency markers and watermarks from
  input 0 only), with the barriers in the same places: what the input has before its \<open>k\<close>-th barrier
  is before the \<open>k\<close>-th sealed barrier and what it has after is after. Each sealed barrier is one
  checkpoint marker, with the epoch some input has at that position, and one end-of-data marker of the inputs is
  forwarded at the end if there is one.\<close>

theorem barrier_alignment:
  assumes "align_run dec inputs log rest s" and "\<forall>xs \<in> set inputs. \<forall>x \<in> set xs. readable dec x"
  shows "length log \<le> 2 * length (concat inputs) + length inputs + 1 \<and>
    (case s of
       Some st \<Rightarrow> \<exists>a rest' s'. align_run dec inputs (log @ [a]) rest' s'
     | None \<Rightarrow> aligned dec inputs log)"
proof (cases s)
  case None
  with align_run_inv [OF assms] show ?thesis by simp
next
  case (Some st)
  with align_run_inv [OF assms] have "length log + work rest st \<le> 2 * length (concat inputs) + length inputs" by simp
  moreover have "\<exists>a rest' s'. align_run dec inputs (log @ [a]) rest' s'"
  proof (cases st rule: align_turn_cases)
    case seal
    from align_run.align_seal [OF assms(1) [unfolded Some] seal(1)] show ?thesis by blast
  next
    case return
    from align_run.align_return [OF assms(1) [unfolded Some] return(1)] show ?thesis by blast
  next
    case poll
    obtain ys s' where "align_receive dec (hd (pollable st)) (next_item (rest ! hd (pollable st))) st = (ys, s')" by fastforce
    from align_run.align_poll [OF assms(1) [unfolded Some] poll(1) _ this] poll(2) show ?thesis by fastforce
  qed
  ultimately show ?thesis using Some by simp
qed

section \<open>Two streams\<close>

text \<open>A run that always takes the first input that may be polled, with a bound on the number of turns.\<close>

fun align_drive ::
  "(marker_bytes \<Rightarrow> 't flow_marker df_result) \<Rightarrow> nat \<Rightarrow> 'd action list \<Rightarrow> 'd item list list \<Rightarrow> 'd align_state option \<Rightarrow>
   'd action list \<times> 'd item list list \<times> 'd align_state option" where
  "align_drive dec (Suc n) log rest (Some st) =
     (case align_turn st of
        Seal b st' \<Rightarrow> align_drive dec n (log @ [Sealed (yield_batch b)]) rest (Some st')
      | Return b \<Rightarrow> (log @ [Returned (yield_batch b)], rest, None)
      | Poll is \<Rightarrow>
          let i = hd is; (ys, s) = align_receive dec i (next_item (rest ! i)) st
          in align_drive dec n (log @ [Received i ys]) (rest[i := tl (rest ! i)]) s)"
| "align_drive dec _ log rest s = (log, rest, s)"

lemma align_drive_run:
  "align_run dec inputs log rest s \<Longrightarrow> align_drive dec n log rest s = (log', rest', s') \<Longrightarrow> align_run dec inputs log' rest' s'"
proof (induction dec n log rest s rule: align_drive.induct)
  case (1 dec n log rest st)
  show ?case
  proof (cases st rule: align_turn_cases)
    case seal
    then show ?thesis using 1 align_run.align_seal [OF 1(3) seal(1)] by simp
  next
    case return
    then show ?thesis using 1 align_run.align_return [OF 1(3) return(1)] by simp
  next
    case poll
    let ?i = "hd (pollable st)"
    obtain ys s where r: "align_receive dec ?i (next_item (rest ! ?i)) st = (ys, s)" by fastforce
    show ?thesis using 1(2) [OF poll(1) refl r [symmetric]] 1(4) align_run.align_poll [OF 1(3) poll(1) _ r] poll r by (simp add: Let_def)
  qed
qed simp_all

definition demo_decode :: "marker_bytes \<Rightarrow> nat flow_marker df_result" where
  "demo_decode bs = (case bs of [] \<Rightarrow> Inr EndOfData | b # _ \<Rightarrow> Inr (Checkpoint (ucast b)))"

definition demo_data :: "nat \<Rightarrow> nat item" where
  "demo_data v = Inr \<lparr>rb_markers = Some [None], rb_columns = v\<rparr>"

definition demo_barrier :: "8 word \<Rightarrow> nat item" where
  "demo_barrier e = Inr \<lparr>rb_markers = Some [Some [e]], rb_columns = 0\<rparr>"

definition demo_end :: "nat item" where
  "demo_end = Inr \<lparr>rb_markers = Some [Some []], rb_columns = 0\<rparr>"

definition demo_streams :: "nat item list list" where
  "demo_streams =
     [[demo_data 1, demo_data 2, demo_barrier 0, demo_data 5, demo_barrier 1, demo_end],
      [demo_barrier 0, demo_data 6, demo_data 7, demo_end]]"

abbreviation demo_run :: "nat item list list \<Rightarrow> nat action list \<times> nat item list list \<times> nat align_state option" where
  "demo_run streams \<equiv> align_drive demo_decode 30 [] streams (Some (align_init (length streams)))"

theorem barrier_alignment_witness:
  "snd (snd (demo_run demo_streams)) = None \<and> aligned demo_decode demo_streams (fst (demo_run demo_streams)) \<and>
   seen_from 1 (fst (demo_run demo_streams)) = [Barrier, Item (demo_data 6), Item (demo_data 7), Barrier]"
proof -
  obtain log rest s where r: "demo_run demo_streams = (log, rest, s)" by (metis prod_cases3)
  have "snd (snd (demo_run demo_streams)) = None" by code_simp
  moreover have "seen_from 1 (fst (demo_run demo_streams)) = [Barrier, Item (demo_data 6), Item (demo_data 7), Barrier]" by code_simp
  moreover have "list_all (list_all (readable demo_decode)) demo_streams" by code_simp
  then have "\<forall>xs \<in> set demo_streams. \<forall>x \<in> set xs. readable demo_decode x" by (simp add: list_all_iff)
  from barrier_alignment [OF align_drive_run [OF align_run.align_start r] this]
  have "case s of Some st \<Rightarrow> True | None \<Rightarrow> aligned demo_decode demo_streams log" by (simp split: option.splits)
  ultimately show ?thesis using r by simp
qed

text \<open>
  The loop does not compare the epochs it aligns: inputs blocked at different epochs are sealed as one
  barrier, with the epoch of the first input that has not ended.
\<close>

lemma alignment_ignores_epochs:
  "epochs demo_decode (sealed_items (fst (demo_run [[demo_barrier 0, demo_end], [demo_barrier 5, demo_end]]))) = [0]"
  by code_simp

end
