(* ===== verification/Stream_Limit.thy ===== *)
theory Stream_Limit
  imports Flow_Marker
begin

text \<open>
  The limit of a streaming query, \<open>zelox-physical-plan/src/streaming/limit.rs\<close>: it skips rows and then
  passes on at most a number of rows, batch by batch, with the retraction flags. The input stream is the
  list of the items it delivers; the rows of the output are compared with skipping and taking on the
  sequence of all rows.
\<close>

type_synonym ('t, 'r) flow_item = "df_error + ('t, 'r) flow_event"

record ('t, 'r) stream_limit_state =
  sl_stream :: "('t, 'r) flow_item list option"
  sl_skip :: nat
  sl_fetch :: "nat option"

text \<open>\<open>slice(offset, length)\<close> of an Arrow array.\<close>

definition slice :: "nat \<Rightarrow> nat \<Rightarrow> 'a list \<Rightarrow> 'a list" where
  "slice offset len xs = take len (drop offset xs)"

definition skip_batch_if_needed ::
  "'r list \<Rightarrow> bool list \<Rightarrow> ('t, 'r) stream_limit_state \<Rightarrow> ('r list \<times> bool list) option \<times> ('t, 'r) stream_limit_state" where
  "skip_batch_if_needed batch retracted st =
     (if sl_skip st = 0 then (Some (batch, retracted), st)
      else let len = length batch in
        if len \<le> sl_skip st then (None, st\<lparr>sl_skip := sl_skip st - len\<rparr>)
        else (Some (slice (sl_skip st) (len - sl_skip st) batch, slice (sl_skip st) (len - sl_skip st) retracted),
              st\<lparr>sl_skip := 0\<rparr>))"

definition fetch_batch ::
  "'r list \<Rightarrow> bool list \<Rightarrow> ('t, 'r) stream_limit_state \<Rightarrow> ('r list \<times> bool list) option \<times> ('t, 'r) stream_limit_state" where
  "fetch_batch batch retracted st =
     (case sl_fetch st of
        Some fetch \<Rightarrow>
          if length batch \<le> fetch then (Some (batch, retracted), st\<lparr>sl_fetch := Some (fetch - length batch)\<rparr>)
          else if 0 < fetch then (Some (slice 0 fetch batch, slice 0 fetch retracted), st\<lparr>sl_fetch := Some 0\<rparr>)
          else (None, st)
      | None \<Rightarrow> (Some (batch, retracted), st))"

definition limit_step ::
  "('t, 'r) stream_limit_state \<Rightarrow> (('t, 'r) flow_item option \<times> ('t, 'r) stream_limit_state) option" where
  "limit_step st =
     (case sl_stream st of
        None \<Rightarrow> None
      | Some [] \<Rightarrow> None
      | Some (event # stream) \<Rightarrow>
          let this = st\<lparr>sl_stream := Some stream\<rparr> in
          case event of
            Inr (Marker_Event _) \<Rightarrow> Some (Some event, this)
          | Inr (Data_Event batch retracted) \<Rightarrow>
              (case skip_batch_if_needed batch retracted this of
                 (Some (batch, retracted), this) \<Rightarrow>
                   (case fetch_batch batch retracted this of
                      (Some (batch, retracted), this) \<Rightarrow> Some (Some (Inr (Data_Event batch retracted)), this)
                    | (None, _) \<Rightarrow> None)
               | (None, this) \<Rightarrow> Some (None, this))
          | Inl e \<Rightarrow> Some (Some event, this))"

lemma limit_step_shrinks:
  "limit_step st = Some (x, st') \<Longrightarrow> length (the (sl_stream st')) < length (the (sl_stream st))"
  by (auto simp: limit_step_def skip_batch_if_needed_def fetch_batch_def Let_def
      split: option.splits list.splits sum.splits flow_event.splits prod.splits if_splits)

text \<open>\<open>unfold(state, step).filter_map(identity)\<close>.\<close>

function limit_events :: "('t, 'r) stream_limit_state \<Rightarrow> ('t, 'r) flow_item list" where
  "limit_events st =
     (case limit_step st of
        None \<Rightarrow> []
      | Some (x, st') \<Rightarrow> (case x of None \<Rightarrow> [] | Some ev \<Rightarrow> [ev]) @ limit_events st')"
  by pat_completeness auto
termination
  by (relation "measure (\<lambda>st. length (the (sl_stream st)))") (auto dest: limit_step_shrinks)

declare limit_events.simps [simp del]

definition stream_limit :: "nat \<Rightarrow> nat option \<Rightarrow> ('t, 'r) flow_item list \<Rightarrow> ('t, 'r) flow_item list" where
  "stream_limit skip fetch stream = limit_events \<lparr>sl_stream = Some stream, sl_skip = skip, sl_fetch = fetch\<rparr>"

section \<open>Rows\<close>

definition item_rows :: "('t, 'r) flow_item \<Rightarrow> ('r \<times> bool) list" where
  "item_rows x = (case x of Inr (Data_Event batch retracted) \<Rightarrow> zip batch retracted | _ \<Rightarrow> [])"

definition flow_rows :: "('t, 'r) flow_item list \<Rightarrow> ('r \<times> bool) list" where
  "flow_rows xs = concat (map item_rows xs)"

definition take_opt :: "nat option \<Rightarrow> 'a list \<Rightarrow> 'a list" where
  "take_opt n xs = (case n of None \<Rightarrow> xs | Some n \<Rightarrow> take n xs)"

definition item_ok :: "('t, 'r) flow_item \<Rightarrow> bool" where
  "item_ok x = (case x of Inl _ \<Rightarrow> True | Inr ev \<Rightarrow> event_ok ev)"

lemma flow_rows_simps [simp]: "flow_rows [] = []" "flow_rows (x # xs) = item_rows x @ flow_rows xs"
  by (simp_all add: flow_rows_def)

lemma slice_rest: "slice k (length xs - k) xs = drop k xs"
  by (simp add: slice_def)

lemma slice_first: "slice 0 n xs = take n xs"
  by (simp add: slice_def)

text \<open>What a batch becomes after skipping: nothing, or its rest with nothing left to skip.\<close>

lemma skip_batch:
  assumes "length r = length b"
  shows "skip_batch_if_needed b r st =
    (if 0 < sl_skip st \<and> length b \<le> sl_skip st then (None, st\<lparr>sl_skip := sl_skip st - length b\<rparr>)
     else (Some (drop (sl_skip st) b, drop (sl_skip st) r), st\<lparr>sl_skip := 0\<rparr>))"
  using slice_rest [of "sl_skip st" b] slice_rest [of "sl_skip st" r] assms
  by (cases "sl_skip st") (auto simp: skip_batch_if_needed_def Let_def)

text \<open>One batch of the stream.\<close>

lemma limit_data:
  assumes len: "length r = length b"
  shows "limit_events \<lparr>sl_stream = Some (Inr (Data_Event b r) # stream), sl_skip = skip, sl_fetch = fetch\<rparr> =
    (if 0 < skip \<and> length b \<le> skip then limit_events \<lparr>sl_stream = Some stream, sl_skip = skip - length b, sl_fetch = fetch\<rparr>
     else let b = drop skip b; r = drop skip r in
       case fetch of
         None \<Rightarrow> Inr (Data_Event b r) # limit_events \<lparr>sl_stream = Some stream, sl_skip = 0, sl_fetch = None\<rparr>
       | Some f \<Rightarrow>
           if length b \<le> f then Inr (Data_Event b r) # limit_events \<lparr>sl_stream = Some stream, sl_skip = 0, sl_fetch = Some (f - length b)\<rparr>
           else if 0 < f then Inr (Data_Event (take f b) (take f r)) # limit_events \<lparr>sl_stream = Some stream, sl_skip = 0, sl_fetch = Some 0\<rparr>
           else [])"
proof -
  let ?b = "drop skip b" and ?r = "drop skip r"
  have step: "limit_step \<lparr>sl_stream = Some (Inr (Data_Event b r) # stream), sl_skip = skip, sl_fetch = fetch\<rparr> =
    (if 0 < skip \<and> length b \<le> skip then Some (None, \<lparr>sl_stream = Some stream, sl_skip = skip - length b, sl_fetch = fetch\<rparr>)
     else case fetch of
         None \<Rightarrow> Some (Some (Inr (Data_Event ?b ?r)), \<lparr>sl_stream = Some stream, sl_skip = 0, sl_fetch = None\<rparr>)
       | Some f \<Rightarrow>
           if length ?b \<le> f then Some (Some (Inr (Data_Event ?b ?r)), \<lparr>sl_stream = Some stream, sl_skip = 0, sl_fetch = Some (f - length ?b)\<rparr>)
           else if 0 < f then Some (Some (Inr (Data_Event (take f ?b) (take f ?r))), \<lparr>sl_stream = Some stream, sl_skip = 0, sl_fetch = Some 0\<rparr>)
           else None)"
    unfolding limit_step_def Let_def by (simp add: skip_batch [OF len] fetch_batch_def slice_first split: option.split)
  show ?thesis
    unfolding limit_events.simps [of "\<lparr>sl_stream = Some (Inr (Data_Event b r) # stream), sl_skip = skip, sl_fetch = fetch\<rparr>"] step Let_def
    by (simp split: option.split)
qed

lemma limit_other:
  assumes "\<And>b r. x \<noteq> Inr (Data_Event b r)"
  shows "limit_events \<lparr>sl_stream = Some (x # stream), sl_skip = skip, sl_fetch = fetch\<rparr> =
    x # limit_events \<lparr>sl_stream = Some stream, sl_skip = skip, sl_fetch = fetch\<rparr>"
  using assms by (subst limit_events.simps) (auto simp: limit_step_def Let_def split: sum.splits flow_event.splits)

lemma limit_Nil: "limit_events \<lparr>sl_stream = Some [], sl_skip = skip, sl_fetch = fetch\<rparr> = []"
  by (subst limit_events.simps) (simp add: limit_step_def)

lemma limit_rows:
  "list_all item_ok stream \<Longrightarrow>
   flow_rows (limit_events \<lparr>sl_stream = Some stream, sl_skip = skip, sl_fetch = fetch\<rparr>) =
     take_opt fetch (drop skip (flow_rows stream))"
proof (induction stream arbitrary: skip fetch)
  case Nil
  then show ?case by (simp add: limit_Nil take_opt_def split: option.split)
next
  case (Cons x stream)
  show ?case
  proof (cases "\<exists>b r. x = Inr (Data_Event b r)")
    case False
    then have "item_rows x = []" by (auto simp: item_rows_def split: sum.splits flow_event.splits)
    with False Cons show ?thesis by (simp add: limit_other)
  next
    case True
    then obtain b r where x: "x = Inr (Data_Event b r)" by blast
    with Cons.prems have len: "length r = length b" by (simp add: item_ok_def event_ok_def)
    have rows: "drop skip (flow_rows (x # stream)) = zip (drop skip b) (drop skip r) @ drop (skip - length b) (flow_rows stream)"
      using len by (simp add: x item_rows_def drop_zip)
    show ?thesis
      using Cons len unfolding rows unfolding x limit_data [OF len]
      by (cases fetch) (auto simp: Let_def item_rows_def take_opt_def take_zip)
  qed
qed

text \<open>Markers and errors: a prefix of those of the input, all of them while rows may still pass.\<close>

definition others :: "('t, 'r) flow_item list \<Rightarrow> ('t, 'r) flow_item list" where
  "others xs = filter (\<lambda>x. case x of Inr (Data_Event _ _) \<Rightarrow> False | _ \<Rightarrow> True) xs"

lemma flow_rows_append: "flow_rows (xs @ ys) = flow_rows xs @ flow_rows ys"
  by (simp add: flow_rows_def)

lemma others_append: "others (xs @ ys) = others xs @ others ys"
  by (simp add: others_def)

lemma limit_others:
  "list_all item_ok stream \<Longrightarrow>
   \<exists>rest. others stream = others (limit_events \<lparr>sl_stream = Some stream, sl_skip = skip, sl_fetch = fetch\<rparr>) @ rest \<and>
     (case fetch of None \<Rightarrow> rest = [] | Some f \<Rightarrow> length (flow_rows stream) \<le> skip + f \<longrightarrow> rest = [])"
proof (induction stream arbitrary: skip fetch)
  case Nil
  then show ?case by (simp add: limit_Nil others_def split: option.split)
next
  case (Cons x stream)
  show ?case
  proof (cases "\<exists>b r. x = Inr (Data_Event b r)")
    case False
    then have "item_rows x = []" "others (x # xs) = x # others xs" for xs
      by (auto simp: item_rows_def others_def split: sum.splits flow_event.splits)
    with False Cons.IH [of skip fetch] Cons.prems show ?thesis by (cases fetch) (simp_all add: limit_other)
  next
    case True
    then obtain b r where x: "x = Inr (Data_Event b r)" by blast
    with Cons.prems have len: "length r = length b" by (simp add: item_ok_def event_ok_def)
    have drop_data: "others (Inr (Data_Event b r) # xs) = others xs" for b r and xs :: "('t, 'r) flow_item list" by (simp add: others_def)
    have size: "length (flow_rows (x # stream)) = length b + length (flow_rows stream)" using len by (simp add: x item_rows_def)
    have IH: "\<exists>rest. others stream = others (limit_events \<lparr>sl_stream = Some stream, sl_skip = s, sl_fetch = f\<rparr>) @ rest \<and>
      (case f of None \<Rightarrow> rest = [] | Some f \<Rightarrow> length (flow_rows stream) \<le> s + f \<longrightarrow> rest = [])" for s f
      using Cons by simp
    show ?thesis
    proof (cases fetch)
      case None
      then show ?thesis using IH [of "skip - length b" None] IH [of 0 None]
        unfolding x drop_data limit_data [OF len] by (auto simp: Let_def drop_data)
    next
      case (Some f)
      consider "0 < skip" "length b \<le> skip" | "skip = 0 \<or> skip < length b" "length b - skip \<le> f"
        | "skip = 0 \<or> skip < length b" "f < length b - skip" by linarith
      then show ?thesis
      proof cases
        case 1
        then show ?thesis using IH [of "skip - length b" fetch] size unfolding x drop_data limit_data [OF len] by (auto simp: Some)
      next
        case 2
        then have "\<not> (0 < skip \<and> length b \<le> skip)" by auto
        with 2 show ?thesis using IH [of 0 "Some (f - (length b - skip))"] size
          unfolding x drop_data limit_data [OF len] Some by (auto simp: Let_def drop_data)
      next
        case 3
        then have "\<not> (0 < skip \<and> length b \<le> skip)" by auto
        with 3 show ?thesis using IH [of 0 "Some 0"] size
          unfolding x drop_data limit_data [OF len] Some by (auto simp: Let_def drop_data others_def)
      qed
    qed
  qed
qed

text \<open>C37. The limit of a stream is the limit of its rows. However the rows are cut into batches and
  interleaved with markers and errors, the rows that pass, with their retraction flags, are those of the
  input after the first \<open>skip\<close> ones, at most \<open>fetch\<close> of them if there is a bound. The markers and errors
  that pass are the first ones of the input, in order, and all of them unless rows beyond the bound arrive.\<close>

theorem stream_limit_exact:
  assumes "list_all item_ok stream"
  shows "flow_rows (stream_limit skip fetch stream) = take_opt fetch (drop skip (flow_rows stream)) \<and>
    (\<exists>rest. others stream = others (stream_limit skip fetch stream) @ rest \<and>
      (case fetch of None \<Rightarrow> rest = [] | Some f \<Rightarrow> length (flow_rows stream) \<le> skip + f \<longrightarrow> rest = []))"
  unfolding stream_limit_def using limit_rows [OF assms] limit_others [OF assms] by blast

definition demo_items :: "(nat, nat) flow_item list" where
  "demo_items = [Inr (append_only_data [1, 2]), Inr (Marker_Event (Checkpoint 0)), Inr (append_only_data [3, 4, 5]),
     Inr (append_only_data [6]), Inr (Marker_Event EndOfData)]"

theorem stream_limit_exact_witness:
  "stream_limit 1 (Some 2) demo_items =
     [Inr (append_only_data [2]), Inr (Marker_Event (Checkpoint 0)), Inr (append_only_data [3])] \<and>
   flow_rows (stream_limit 1 (Some 2) demo_items) = take_opt (Some 2) (drop 1 (flow_rows demo_items))"
proof -
  have "list_all item_ok demo_items" by (simp add: demo_items_def item_ok_def event_ok_def append_only_data_def)
  from stream_limit_exact [OF this, of 1 "Some 2"]
  have "flow_rows (stream_limit 1 (Some 2) demo_items) = take_opt (Some 2) (drop 1 (flow_rows demo_items))" by blast
  moreover have "stream_limit 1 (Some 2) demo_items =
     [Inr (append_only_data [2]), Inr (Marker_Event (Checkpoint 0)), Inr (append_only_data [3])]"
    by (simp add: stream_limit_def demo_items_def append_only_data_def limit_data limit_other numeral_2_eq_2 Let_def)
  ultimately show ?thesis by blast
qed

end
