(* ===== verification/Stream_Dedup.thy ===== *)
theory Stream_Dedup
  imports Stream_Limit
begin

text \<open>
  Deduplication of a stream, \<open>zelox-physical-plan/src/streaming/dedup.rs\<close>. The key of a row (the values
  of its key columns) and the value of its event-time column are read by the array library
  and are parameters; reading one of them can fail. The keys seen are kept with the latest event time of
  the key, and a watermark evicts those that are older.
\<close>

definition i64_min :: int where
  "i64_min = - (2 ^ 63)"

definition i64_max :: int where
  "i64_max = 2 ^ 63 - 1"

text \<open>The timestamps among the scalar values; a value may be null.\<close>

datatype scalar_value =
    TimestampMicrosecond "int option"
  | TimestampMillisecond "int option"
  | TimestampNanosecond "int option"
  | TimestampSecond "int option"
  | Other_Scalar

definition saturating_mul :: "int \<Rightarrow> int \<Rightarrow> int" where
  "saturating_mul x y = max i64_min (min i64_max (x * y))"

text \<open>The division of \<open>i64\<close> rounds towards zero.\<close>

definition div_i64 :: "int \<Rightarrow> int \<Rightarrow> int" where
  "div_i64 x y = (if 0 \<le> x then x div y else - ((- x) div y))"

fun event_time_micros :: "scalar_value \<Rightarrow> int option" where
  "event_time_micros (TimestampMicrosecond v) = v"
| "event_time_micros (TimestampMillisecond v) = map_option (\<lambda>x. saturating_mul x 1000) v"
| "event_time_micros (TimestampNanosecond v) = map_option (\<lambda>x. div_i64 x 1000) v"
| "event_time_micros (TimestampSecond v) = map_option (\<lambda>x. saturating_mul x 1000000) v"
| "event_time_micros Other_Scalar = None"

record ('r, 'k) dedup_columns =
  dc_key :: "'r \<Rightarrow> 'k df_result"
  dc_event_time :: "('r \<Rightarrow> scalar_value df_result) option"

text \<open>One row: whether it is kept, and the keys seen. The keys seen are changed row by row.\<close>

definition filter_row ::
  "('r, 'k) dedup_columns \<Rightarrow> int option \<Rightarrow> 'r \<Rightarrow> ('k \<rightharpoonup> int) \<Rightarrow> bool df_result \<times> ('k \<rightharpoonup> int)" where
  "filter_row cols watermark row seen =
     (case (case dc_event_time cols of Some et \<Rightarrow> map_sum id event_time_micros (et row) | None \<Rightarrow> Inr None) of
        Inl e \<Rightarrow> (Inl e, seen)
      | Inr event_time \<Rightarrow>
          if (case (event_time, watermark) of (Some et, Some wm) \<Rightarrow> et < wm | _ \<Rightarrow> False) then (Inr False, seen)
          else
            (case dc_key cols row of
               Inl e \<Rightarrow> (Inl e, seen)
             | Inr key \<Rightarrow>
                 let et_store = (case event_time of Some et \<Rightarrow> et | None \<Rightarrow> i64_min) in
                 (case seen key of
                    Some slot \<Rightarrow> (Inr False, seen(key \<mapsto> max slot et_store))
                  | None \<Rightarrow> (Inr True, seen(key \<mapsto> et_store)))))"

fun filter_new_rows ::
  "('r, 'k) dedup_columns \<Rightarrow> int option \<Rightarrow> 'r list \<Rightarrow> ('k \<rightharpoonup> int) \<Rightarrow> 'r list df_result \<times> ('k \<rightharpoonup> int)" where
  "filter_new_rows cols watermark [] seen = (Inr [], seen)"
| "filter_new_rows cols watermark (row # rows) seen =
     (case filter_row cols watermark row seen of
        (Inl e, seen) \<Rightarrow> (Inl e, seen)
      | (Inr keep, seen) \<Rightarrow>
          (case filter_new_rows cols watermark rows seen of
             (Inl e, seen) \<Rightarrow> (Inl e, seen)
           | (Inr kept, seen) \<Rightarrow> (Inr (if keep then row # kept else kept), seen)))"

text \<open>
  The stream: what it yields for each item of the input. A batch of which no row is kept yields
  nothing; the retraction flags of the input are not looked at. The watermark of a marker is its
  timestamp in microseconds.
\<close>

type_synonym 'k dedup_state = "('k \<rightharpoonup> int) \<times> int option"

definition dedup_item ::
  "('t \<Rightarrow> int) \<Rightarrow> ('r, 'k) dedup_columns \<Rightarrow> ('t, 'r) flow_item \<Rightarrow> 'k dedup_state \<Rightarrow> ('t, 'r) flow_item list \<times> 'k dedup_state" where
  "dedup_item micros cols item st =
     (let (seen, watermark) = st in
      case item of
        Inl e \<Rightarrow> ([Inl e], st)
      | Inr (Data_Event batch _) \<Rightarrow>
          (case filter_new_rows cols watermark batch seen of
             (Inl e, seen) \<Rightarrow> ([Inl e], (seen, watermark))
           | (Inr filtered, seen) \<Rightarrow>
               (if filtered = [] then [] else [Inr (append_only_data filtered)], (seen, watermark)))
      | Inr (Marker_Event marker) \<Rightarrow>
          (case (marker, dc_event_time cols) of
             (Watermark source timestamp, Some _) \<Rightarrow>
               let wm = micros timestamp;
                   wm = (case watermark of None \<Rightarrow> wm | Some c \<Rightarrow> max c wm);
                   kept = (\<lambda>k. case seen k of None \<Rightarrow> None | Some et \<Rightarrow> if wm \<le> et then Some et else None)
               in ([item], (kept, Some wm))
           | _ \<Rightarrow> ([item], st)))"

fun dedup_items ::
  "('t \<Rightarrow> int) \<Rightarrow> ('r, 'k) dedup_columns \<Rightarrow> ('t, 'r) flow_item list \<Rightarrow> 'k dedup_state \<Rightarrow> ('t, 'r) flow_item list \<times> 'k dedup_state" where
  "dedup_items micros cols [] st = ([], st)"
| "dedup_items micros cols (item # items) st =
     (let (out, st) = dedup_item micros cols item st; (outs, st) = dedup_items micros cols items st in (out @ outs, st))"

definition stream_dedup :: "('t \<Rightarrow> int) \<Rightarrow> ('r, 'k) dedup_columns \<Rightarrow> ('t, 'r) flow_item list \<Rightarrow> ('t, 'r) flow_item list" where
  "stream_dedup micros cols items = fst (dedup_items micros cols items (Map.empty, None))"

section \<open>What deduplication means\<close>

text \<open>
  The columns can be read: every row has a key and, if there is an event-time column, an event time in
  microseconds.
\<close>

definition readable_columns :: "('r \<Rightarrow> 'k) \<Rightarrow> ('r \<Rightarrow> int) option \<Rightarrow> ('r, 'k) dedup_columns" where
  "readable_columns key time =
     \<lparr>dc_key = (\<lambda>r. Inr (key r)), dc_event_time = map_option (\<lambda>t r. Inr (TimestampMicrosecond (Some (t r)))) time\<rparr>"

text \<open>An event time is in time for a watermark. Without an event-time column every row is in time.\<close>

definition in_time :: "int option \<Rightarrow> int \<Rightarrow> bool" where
  "in_time watermark et = (case watermark of None \<Rightarrow> True | Some wm \<Rightarrow> wm \<le> et)"

definition time_of :: "('r \<Rightarrow> int) option \<Rightarrow> 'r \<Rightarrow> int" where
  "time_of time r = (case time of None \<Rightarrow> i64_min | Some t \<Rightarrow> t r)"

text \<open>The rows of a stream with the watermark that holds when each arrives: the largest so far.\<close>

definition raise_watermark :: "('t \<Rightarrow> int) \<Rightarrow> bool \<Rightarrow> ('t, 'r) flow_item \<Rightarrow> int option \<Rightarrow> int option" where
  "raise_watermark micros timed item watermark =
     (case item of
        Inr (Marker_Event (Watermark _ t)) \<Rightarrow>
          if timed then Some (case watermark of None \<Rightarrow> micros t | Some c \<Rightarrow> max c (micros t)) else watermark
      | _ \<Rightarrow> watermark)"

fun stamped :: "('t \<Rightarrow> int) \<Rightarrow> bool \<Rightarrow> ('t, 'r) flow_item list \<Rightarrow> int option \<Rightarrow> ('r \<times> int option) list" where
  "stamped micros timed [] watermark = []"
| "stamped micros timed (item # items) watermark =
     (case item of Inr (Data_Event batch _) \<Rightarrow> map (\<lambda>r. (r, watermark)) batch | _ \<Rightarrow> []) @
     stamped micros timed items (raise_watermark micros timed item watermark)"

text \<open>
  A row is new after the rows \<open>h\<close> if it is in time and every earlier row with its key came too late or
  is older than the watermark now.
\<close>

definition is_new :: "('r \<Rightarrow> 'k) \<Rightarrow> ('r \<Rightarrow> int) option \<Rightarrow> ('r \<times> int option) list \<Rightarrow> 'r \<times> int option \<Rightarrow> bool" where
  "is_new key time h rw =
     (let (r, w) = rw in
      in_time w (time_of time r) \<and>
      \<not> list_ex (\<lambda>(r', w'). key r' = key r \<and> in_time w' (time_of time r') \<and> in_time w (time_of time r')) h)"

definition new_rows :: "('r \<Rightarrow> 'k) \<Rightarrow> ('r \<Rightarrow> int) option \<Rightarrow> ('r \<times> int option) list \<Rightarrow> 'r list" where
  "new_rows key time h = map (\<lambda>i. fst (h ! i)) (filter (\<lambda>i. is_new key time (take i h) (h ! i)) [0..<length h])"

lemma new_rows_snoc: "new_rows key time (h @ [x]) = new_rows key time h @ (if is_new key time h x then [fst x] else [])"
proof -
  have "filter (\<lambda>i. is_new key time (take i (h @ [x])) ((h @ [x]) ! i)) [0..<length h] =
      filter (\<lambda>i. is_new key time (take i h) (h ! i)) [0..<length h]"
    by (rule filter_cong) (auto simp: nth_append)
  then show ?thesis by (auto simp: new_rows_def nth_append intro!: map_cong)
qed

lemma new_rows_Nil [simp]: "new_rows key time [] = []"
  by (simp add: new_rows_def)

section \<open>The keys seen\<close>

definition live_times :: "('r \<Rightarrow> 'k) \<Rightarrow> ('r \<Rightarrow> int) option \<Rightarrow> ('r \<times> int option) list \<Rightarrow> int option \<Rightarrow> 'k \<Rightarrow> int set" where
  "live_times key time h w k =
     {time_of time r | r w'. (r, w') \<in> set h \<and> key r = k \<and> in_time w' (time_of time r) \<and> in_time w (time_of time r)}"

definition seen_inv :: "('r \<Rightarrow> 'k) \<Rightarrow> ('r \<Rightarrow> int) option \<Rightarrow> ('r \<times> int option) list \<Rightarrow> 'k dedup_state \<Rightarrow> bool" where
  "seen_inv key time h st \<longleftrightarrow>
     (\<forall>k. fst st k = (let ts = live_times key time h (snd st) k in if ts = {} then None else Some (Max ts))) \<and>
     (time = None \<longrightarrow> snd st = None)"

lemma live_times_finite [simp]: "finite (live_times key time h w k)"
proof -
  have "live_times key time h w k \<subseteq> (\<lambda>(r, _). time_of time r) ` set h" by (auto simp: live_times_def)
  then show ?thesis by (rule finite_subset) simp
qed

lemma live_times_snoc:
  "live_times key time (h @ [(r, w)]) w k =
     (if key r = k \<and> in_time w (time_of time r) then insert (time_of time r) (live_times key time h w k)
      else live_times key time h w k)"
  by (auto simp: live_times_def)

lemma is_new_live: "is_new key time h (r, w) \<longleftrightarrow> in_time w (time_of time r) \<and> live_times key time h w (key r) = {}"
  by (auto simp: is_new_def live_times_def list_ex_iff)

lemma filter_row_inv:
  assumes inv: "seen_inv key time h (seen, w)"
  shows "\<exists>seen'. filter_row (readable_columns key time) w r seen = (Inr (is_new key time h (r, w)), seen') \<and>
    seen_inv key time (h @ [(r, w)]) (seen', w)"
proof -
  let ?ts = "live_times key time h w (key r)" and ?t = "time_of time r"
  have at: "seen (key r) = (if ?ts = {} then None else Some (Max ?ts))" using inv by (simp add: seen_inv_def Let_def)
  have late: "(case (map_option (\<lambda>t. t r) time, w) of (Some et, Some wm) \<Rightarrow> et < wm | _ \<Rightarrow> False) \<longleftrightarrow> \<not> in_time w ?t"
    using inv by (cases time; cases w) (auto simp: in_time_def time_of_def seen_inv_def)
  have et: "(case dc_event_time (readable_columns key time) of Some et \<Rightarrow> map_sum id event_time_micros (et r) | None \<Rightarrow> Inr None) = Inr (map_option (\<lambda>t. t r) time)"
    by (cases time) (simp_all add: readable_columns_def)
  have store: "(case map_option (\<lambda>t. t r) time of Some et \<Rightarrow> et | None \<Rightarrow> i64_min) = ?t"
    by (cases time) (simp_all add: time_of_def)
  have key: "dc_key (readable_columns key time) r = Inr (key r)" by (simp add: readable_columns_def)
  have filter: "filter_row (readable_columns key time) w r seen =
      (if \<not> in_time w ?t then (Inr False, seen)
       else case seen (key r) of Some slot \<Rightarrow> (Inr False, seen(key r \<mapsto> max slot ?t)) | None \<Rightarrow> (Inr True, seen(key r \<mapsto> ?t)))"
    unfolding filter_row_def et sum.case late key store Let_def ..
  show ?thesis
  proof (cases "in_time w ?t")
    case False
    then have "seen_inv key time (h @ [(r, w)]) (seen, w)" using inv by (simp add: seen_inv_def live_times_snoc)
    with False show ?thesis by (simp add: filter is_new_live)
  next
    case True
    have row: "filter_row (readable_columns key time) w r seen =
        (if ?ts = {} then (Inr True, seen(key r \<mapsto> ?t)) else (Inr False, seen(key r \<mapsto> max (Max ?ts) ?t)))"
      using True by (simp add: filter at)
    have "seen_inv key time (h @ [(r, w)]) (seen(key r \<mapsto> (if ?ts = {} then ?t else max (Max ?ts) ?t)), w)"
      using inv True unfolding seen_inv_def by (simp add: live_times_snoc Let_def max.commute)
    with True row show ?thesis by (cases "?ts = {}") (simp_all add: is_new_live)
  qed
qed

lemma filter_new_rows_inv:
  assumes "seen_inv key time h (seen, w)"
  shows "\<exists>kept seen'. filter_new_rows (readable_columns key time) w rows seen = (Inr kept, seen') \<and>
    seen_inv key time (h @ map (\<lambda>r. (r, w)) rows) (seen', w) \<and>
    new_rows key time (h @ map (\<lambda>r. (r, w)) rows) = new_rows key time h @ kept"
  using assms
proof (induction rows arbitrary: h seen)
  case (Cons r rows)
  from filter_row_inv [OF Cons.prems] obtain seen1 where r:
    "filter_row (readable_columns key time) w r seen = (Inr (is_new key time h (r, w)), seen1)"
    "seen_inv key time (h @ [(r, w)]) (seen1, w)" by blast
  from Cons.IH [OF r(2)] obtain kept seen2 where
    "filter_new_rows (readable_columns key time) w rows seen1 = (Inr kept, seen2)"
    "seen_inv key time ((h @ [(r, w)]) @ map (\<lambda>r. (r, w)) rows) (seen2, w)"
    "new_rows key time ((h @ [(r, w)]) @ map (\<lambda>r. (r, w)) rows) = new_rows key time (h @ [(r, w)]) @ kept" by blast
  with r(1) show ?case by (simp add: new_rows_snoc)
qed simp

text \<open>Raising the watermark evicts the keys whose rows are all older.\<close>

lemma evict_inv:
  assumes inv: "seen_inv key (Some t) h (seen, w)" and le: "\<And>x. in_time (Some wm) x \<Longrightarrow> in_time w x"
  shows "seen_inv key (Some t) h (\<lambda>k. case seen k of None \<Rightarrow> None | Some et \<Rightarrow> if wm \<le> et then Some et else None, Some wm)"
proof -
  have live: "live_times key (Some t) h (Some wm) k = {e \<in> live_times key (Some t) h w k. wm \<le> e}" for k
    using le by (auto simp: live_times_def in_time_def)
  have "(case seen k of None \<Rightarrow> None | Some et \<Rightarrow> if wm \<le> et then Some et else None) =
      (let ts = live_times key (Some t) h (Some wm) k in if ts = {} then None else Some (Max ts))" for k
  proof -
    let ?S = "live_times key (Some t) h w k" and ?T = "{e \<in> live_times key (Some t) h w k. wm \<le> e}"
    have seen: "seen k = (if ?S = {} then None else Some (Max ?S))" using inv by (simp add: seen_inv_def Let_def)
    show ?thesis
    proof (cases "?S \<noteq> {} \<and> wm \<le> Max ?S")
      case True
      then have "Max ?S \<in> ?T" using Max_in [of ?S] by simp
      then have "Max ?T = Max ?S" "?T \<noteq> {}" by (auto intro!: Max_eqI)
      with True seen show ?thesis unfolding live by (simp add: Let_def)
    next
      case False
      have "\<not> wm \<le> e" if "e \<in> ?S" for e
      proof -
        have "e \<le> Max ?S" using Max_ge [of ?S e] that by simp
        moreover have "\<not> wm \<le> Max ?S" using False that by blast
        ultimately show ?thesis by linarith
      qed
      then have "?T = {}" by blast
      with False seen show ?thesis unfolding live by (auto simp: Let_def)
    qed
  qed
  then show ?thesis by (simp add: seen_inv_def)
qed

lemma dedup_item_inv:
  assumes inv: "seen_inv key time h (seen, w)"
  shows "\<exists>out seen'. dedup_item micros (readable_columns key time) item (seen, w) =
      (out, (seen', raise_watermark micros (time \<noteq> None) item w)) \<and>
    seen_inv key time (h @ (case item of Inr (Data_Event batch _) \<Rightarrow> map (\<lambda>r. (r, w)) batch | _ \<Rightarrow> []))
      (seen', raise_watermark micros (time \<noteq> None) item w) \<and>
    new_rows key time (h @ (case item of Inr (Data_Event batch _) \<Rightarrow> map (\<lambda>r. (r, w)) batch | _ \<Rightarrow> [])) =
      new_rows key time h @ map fst (flow_rows out) \<and> others out = others [item]"
proof (cases item)
  case (Inl e)
  with inv show ?thesis by (simp add: dedup_item_def raise_watermark_def item_rows_def others_def)
next
  case (Inr ev)
  show ?thesis
  proof (cases ev)
    case (Data_Event batch flags)
    from filter_new_rows_inv [OF inv, of batch] obtain kept seen' where f:
      "filter_new_rows (readable_columns key time) w batch seen = (Inr kept, seen')"
      "seen_inv key time (h @ map (\<lambda>r. (r, w)) batch) (seen', w)"
      "new_rows key time (h @ map (\<lambda>r. (r, w)) batch) = new_rows key time h @ kept" by blast
    then show ?thesis
      by (simp add: Inr Data_Event dedup_item_def raise_watermark_def item_rows_def append_only_data_def others_def)
  next
    case (Marker_Event m)
    show ?thesis
    proof (cases "(\<exists>source ts. m = Watermark source ts) \<and> time \<noteq> None")
      case False
      then have "dedup_item micros (readable_columns key time) item (seen, w) = ([item], (seen, w))"
        "raise_watermark micros (time \<noteq> None) item w = w"
        by (auto simp: Inr Marker_Event dedup_item_def raise_watermark_def readable_columns_def split: flow_marker.splits option.splits)
      with inv show ?thesis by (simp add: Inr Marker_Event item_rows_def)
    next
      case True
      then obtain source ts t where m: "m = Watermark source ts" "time = Some t" by blast
      let ?wm = "case w of None \<Rightarrow> micros ts | Some c \<Rightarrow> max c (micros ts)"
      have "in_time w x" if "in_time (Some ?wm) x" for x using that by (auto simp: in_time_def split: option.splits)
      then have "seen_inv key (Some t) h (\<lambda>k. case seen k of None \<Rightarrow> None | Some et \<Rightarrow> if ?wm \<le> et then Some et else None, Some ?wm)"
        by (rule evict_inv [OF inv [unfolded m(2)]])
      with m show ?thesis
        by (simp add: Inr Marker_Event dedup_item_def raise_watermark_def readable_columns_def item_rows_def Let_def)
    qed
  qed
qed

lemma dedup_items_inv:
  "seen_inv key time h (seen, w) \<Longrightarrow>
   new_rows key time (h @ stamped micros (time \<noteq> None) items w) =
     new_rows key time h @ map fst (flow_rows (fst (dedup_items micros (readable_columns key time) items (seen, w)))) \<and>
   others (fst (dedup_items micros (readable_columns key time) items (seen, w))) = others items"
proof (induction items arbitrary: h seen w)
  case Nil
  then show ?case by (simp add: others_def)
next
  case (Cons item items)
  from dedup_item_inv [OF Cons.prems, of micros item] obtain out seen' where d:
    "dedup_item micros (readable_columns key time) item (seen, w) = (out, (seen', raise_watermark micros (time \<noteq> None) item w))"
    "seen_inv key time (h @ (case item of Inr (Data_Event batch _) \<Rightarrow> map (\<lambda>r. (r, w)) batch | _ \<Rightarrow> []))
      (seen', raise_watermark micros (time \<noteq> None) item w)"
    "new_rows key time (h @ (case item of Inr (Data_Event batch _) \<Rightarrow> map (\<lambda>r. (r, w)) batch | _ \<Rightarrow> [])) =
      new_rows key time h @ map fst (flow_rows out)" "others out = others [item]" by blast
  have "others (item # items) = others [item] @ others items" by (simp add: others_def)
  with Cons.IH [OF d(2)] d(1,3,4) show ?case
    by (simp add: flow_rows_append others_append case_prod_beta Let_def)
qed

text \<open>C38. Deduplication keeps exactly the new rows. When the key and event-time columns can be read, the
  rows that pass are, in order, the rows that are not older than the watermark in force when they
  arrive and that no earlier row in time with the same key and an event time not below that watermark
  precedes. Without an event-time column these are the first rows of each key. All markers and errors pass, in order.\<close>

theorem stream_dedup_exact:
  "map fst (flow_rows (stream_dedup micros (readable_columns key time) items)) =
     new_rows key time (stamped micros (time \<noteq> None) items None) \<and>
   others (stream_dedup micros (readable_columns key time) items) = others items"
proof -
  have "seen_inv key time [] (Map.empty, None)" by (simp add: seen_inv_def live_times_def)
  from dedup_items_inv [OF this, of micros items] show ?thesis by (simp add: stream_dedup_def)
qed

end
