(* ===== verification/Watermarks.thy ===== *)
theory Watermarks
  imports Stream_Dedup
begin

text \<open>
  Watermarks of a stream, \<open>zelox-physical-plan/src/streaming/watermark.rs\<close>: the operator passes the events
  of its input on and adds watermark markers, the largest event time less a delay. With one source
  partition it follows the largest event time; with several it follows the least of the partitions
  that are not idle. The event time and the partition of a row are read by the array library and are
  parameters (a row without one of them is skipped), as is turning microseconds into a timestamp.
  Subtraction of \<open>i64\<close> wraps. The clock is an argument of each turn and stands still within it.
\<close>

definition i64_wrap :: "int \<Rightarrow> int" where
  "i64_wrap z = (z + 2 ^ 63) mod 2 ^ 64 - 2 ^ 63"

record ('t, 'r) watermark_config =
  wc_event_time :: "('r \<Rightarrow> int option) option"
  wc_partition :: "('r \<Rightarrow> int option) option"
  wc_delay :: int
  wc_interval :: time
  wc_idle_timeout :: time
  wc_from_micros :: "int \<Rightarrow> 't option"

record watermark_state =
  ws_max_ts :: "int option"
  ws_per_part :: "(int, int \<times> time) index_map"
  ws_last_wm :: "int option"
  ws_start :: time
  ws_last_emit :: "time option"

definition watermark_init :: "time \<Rightarrow> watermark_state" where
  "watermark_init now = \<lparr>ws_max_ts = None, ws_per_part = [], ws_last_wm = None, ws_start = now, ws_last_emit = None\<rparr>"

definition update_partition :: "('r \<Rightarrow> int option) \<Rightarrow> ('r \<Rightarrow> int option) \<Rightarrow> time \<Rightarrow> 'r \<Rightarrow> (int, int \<times> time) index_map \<Rightarrow> (int, int \<times> time) index_map" where
  "update_partition et part now r m =
     (case (et r, part r) of
        (Some e, Some p) \<Rightarrow> im_insert p (case im_get m p of Some (x, _) \<Rightarrow> (max x e, now) | None \<Rightarrow> (e, now)) m
      | _ \<Rightarrow> m)"

definition update_per_partition :: "('r \<Rightarrow> int option) \<Rightarrow> ('r \<Rightarrow> int option) \<Rightarrow> time \<Rightarrow> 'r list \<Rightarrow> (int, int \<times> time) index_map \<Rightarrow> (int, int \<times> time) index_map" where
  "update_per_partition et part now batch m = foldl (\<lambda>m r. update_partition et part now r m) m batch"

definition min_option :: "int list \<Rightarrow> int option" where
  "min_option xs = (case xs of [] \<Rightarrow> None | x # xs \<Rightarrow> Some (foldl min x xs))"

definition max_option :: "int list \<Rightarrow> int option" where
  "max_option xs = (case xs of [] \<Rightarrow> None | x # xs \<Rightarrow> Some (foldl max x xs))"

text \<open>\<open>duration_since\<close> saturates at zero, as does the subtraction of \<open>nat\<close>.\<close>

definition active_partition_watermark :: "(int, int \<times> time) index_map \<Rightarrow> time \<Rightarrow> time \<Rightarrow> time \<Rightarrow> int option" where
  "active_partition_watermark m start idle_timeout now =
     (if m = [] then None
      else if now - start < idle_timeout then None
      else min_option (map fst (filter (\<lambda>(_, seen). now - seen < idle_timeout) (im_values m))))"

text \<open>A candidate becomes a watermark if it is beyond the last one.\<close>

definition watermark_marker :: "('t, 'r) watermark_config \<Rightarrow> int \<Rightarrow> ('t, 'r) flow_event list" where
  "watermark_marker C wm = (case wc_from_micros C wm of Some ts \<Rightarrow> [Marker_Event (Watermark ''watermark'' ts)] | None \<Rightarrow> [])"

definition advance :: "('t, 'r) watermark_config \<Rightarrow> time option \<Rightarrow> int option \<Rightarrow> watermark_state \<Rightarrow> ('t, 'r) flow_event list \<times> watermark_state" where
  "advance C emit candidate st =
     (case candidate of
        None \<Rightarrow> ([], st)
      | Some m \<Rightarrow>
          let wm = i64_wrap (m - wc_delay C) in
          if (case ws_last_wm st of None \<Rightarrow> True | Some l \<Rightarrow> l < wm)
          then (watermark_marker C wm,
                st\<lparr>ws_last_wm := Some wm, ws_last_emit := (case emit of Some now \<Rightarrow> Some now | None \<Rightarrow> ws_last_emit st)\<rparr>)
          else ([], st))"

text \<open>Turns of the loop: the periodic tick (\<open>None\<close>), which only the partitioned operator has, and an item of the input.\<close>

definition watermark_tick :: "('t, 'r) watermark_config \<Rightarrow> time \<Rightarrow> watermark_state \<Rightarrow> ('t, 'r) flow_item list \<times> watermark_state" where
  "watermark_tick C now st =
     (if wc_partition C = None then ([], st)
      else let (out, st) = advance C None (active_partition_watermark (ws_per_part st) (ws_start st) (wc_idle_timeout C) now) st
           in (map Inr out, st))"

definition observe_batch :: "('t, 'r) watermark_config \<Rightarrow> time \<Rightarrow> 'r list \<Rightarrow> watermark_state \<Rightarrow> int option \<times> watermark_state" where
  "observe_batch C now batch st =
     (case (wc_event_time C, wc_partition C) of
        (Some et, Some part) \<Rightarrow>
          let m = update_per_partition et part now batch (ws_per_part st)
          in (active_partition_watermark m (ws_start st) (wc_idle_timeout C) now, st\<lparr>ws_per_part := m\<rparr>)
      | (Some et, None) \<Rightarrow>
          let top = (case max_option (List.map_filter et batch) of
                None \<Rightarrow> ws_max_ts st
              | Some x \<Rightarrow> Some (case ws_max_ts st of None \<Rightarrow> x | Some c \<Rightarrow> max c x))
          in (top, st\<lparr>ws_max_ts := top\<rparr>)
      | _ \<Rightarrow> (None, st))"

definition is_transition :: "'t flow_marker \<Rightarrow> bool" where
  "is_transition m = (case m of Idle _ \<Rightarrow> True | EndOfData \<Rightarrow> True | _ \<Rightarrow> False)"

definition watermark_item :: "('t, 'r) watermark_config \<Rightarrow> time \<Rightarrow> ('t, 'r) flow_item \<Rightarrow> watermark_state \<Rightarrow> ('t, 'r) flow_item list \<times> watermark_state" where
  "watermark_item C now item st =
     (case item of
        Inl e \<Rightarrow> ([Inl e], st)
      | Inr (Data_Event batch retracted) \<Rightarrow>
          let (candidate, st) = observe_batch C now batch st;
              due = (case ws_last_emit st of None \<Rightarrow> True | Some le \<Rightarrow> wc_interval C \<le> now - le);
              (out, st) = (if due then advance C (Some now) candidate st else ([], st))
          in (item # map Inr out, st)
      | Inr (Marker_Event m) \<Rightarrow>
          let flush = (if \<not> is_transition m then None
                 else if wc_partition C \<noteq> None then max_option (map fst (im_values (ws_per_part st)))
                 else ws_max_ts st);
              (out, st) = advance C (Some now) flush st
          in (map Inr out @ [item], st))"

definition watermark_turn :: "('t, 'r) watermark_config \<Rightarrow> time \<Rightarrow> ('t, 'r) flow_item option \<Rightarrow> watermark_state \<Rightarrow> ('t, 'r) flow_item list \<times> watermark_state" where
  "watermark_turn C now turn = (case turn of None \<Rightarrow> watermark_tick C now | Some item \<Rightarrow> watermark_item C now item)"

fun watermark_items :: "('t, 'r) watermark_config \<Rightarrow> (time \<times> ('t, 'r) flow_item option) list \<Rightarrow> watermark_state \<Rightarrow> ('t, 'r) flow_item list \<times> watermark_state" where
  "watermark_items C [] st = ([], st)"
| "watermark_items C ((now, turn) # turns) st =
     (let (out, st) = watermark_turn C now turn st; (outs, st) = watermark_items C turns st in (out @ outs, st))"

section \<open>One partition\<close>

text \<open>
  Without a partition column the operator has no ticks. Its rows have event times from which the
  delay can be subtracted, and the result is a time the date library has.
\<close>

definition well_timed :: "('t \<Rightarrow> int) \<Rightarrow> ('r \<Rightarrow> int option) \<Rightarrow> ('t, 'r) watermark_config \<Rightarrow> bool" where
  "well_timed micros et C \<longleftrightarrow> wc_event_time C = Some et \<and> wc_partition C = None \<and>
     (\<forall>r e. et r = Some e \<longrightarrow> i64_min \<le> e - wc_delay C \<and> e - wc_delay C \<le> i64_max \<and>
        (\<exists>t. wc_from_micros C (e - wc_delay C) = Some t \<and> micros t = e - wc_delay C))"

definition item_times :: "('r \<Rightarrow> int option) \<Rightarrow> ('t, 'r) flow_item \<Rightarrow> int list" where
  "item_times et x = (case x of Inr (Data_Event batch _) \<Rightarrow> List.map_filter et batch | _ \<Rightarrow> [])"

definition event_times :: "('r \<Rightarrow> int option) \<Rightarrow> ('t, 'r) flow_item list \<Rightarrow> int list" where
  "event_times et xs = concat (map (item_times et) xs)"

definition watermark_of :: "('t, 'r) flow_item \<Rightarrow> 't option" where
  "watermark_of x = (case x of Inr (Marker_Event (Watermark _ t)) \<Rightarrow> Some t | _ \<Rightarrow> None)"

definition last_watermark :: "('t \<Rightarrow> int) \<Rightarrow> ('t, 'r) flow_item list \<Rightarrow> int option" where
  "last_watermark micros xs = foldl (\<lambda>acc x. case watermark_of x of None \<Rightarrow> acc | Some t \<Rightarrow> Some (micros t)) None xs"

definition is_final :: "('t, 'r) flow_item \<Rightarrow> bool" where
  "is_final x = (case x of Inr (Marker_Event m) \<Rightarrow> is_transition m | _ \<Rightarrow> False)"

text \<open>
  What holds at an item after the items before it: a watermark is the largest event time so far less the
  delay, and beyond the last watermark; at an idle or end-of-data marker the last watermark is the largest
  event time so far less the delay.
\<close>

definition watermark_ok :: "('t \<Rightarrow> int) \<Rightarrow> ('r \<Rightarrow> int option) \<Rightarrow> int \<Rightarrow> ('t, 'r) flow_item list \<Rightarrow> ('t, 'r) flow_item \<Rightarrow> bool" where
  "watermark_ok micros et delay pre x \<longleftrightarrow>
     (case watermark_of x of
        None \<Rightarrow> True
      | Some t \<Rightarrow> (\<exists>m. max_option (event_times et pre) = Some m \<and> micros t = m - delay) \<and>
          (case last_watermark micros pre of None \<Rightarrow> True | Some l \<Rightarrow> l < micros t)) \<and>
     (if is_final x then last_watermark micros pre = map_option (\<lambda>m. m - delay) (max_option (event_times et pre)) else True)"

definition all_at :: "('a list \<Rightarrow> 'a \<Rightarrow> bool) \<Rightarrow> 'a list \<Rightarrow> bool" where
  "all_at P xs \<longleftrightarrow> (\<forall>i < length xs. P (take i xs) (xs ! i))"

lemma all_at_snoc [simp]: "all_at P (xs @ [x]) \<longleftrightarrow> all_at P xs \<and> P xs x"
  by (auto simp: all_at_def nth_append less_Suc_eq)

lemma all_at_Nil [simp]: "all_at P []"
  by (simp add: all_at_def)

lemma foldl_max_start: "foldl max (max a b :: int) xs = max a (foldl max b xs)"
  by (induction xs arbitrary: b) (simp_all add: max.assoc)

lemma max_option_append:
  "max_option (xs @ ys) =
     (case max_option ys of None \<Rightarrow> max_option xs
      | Some y \<Rightarrow> Some (case max_option xs of None \<Rightarrow> y | Some x \<Rightarrow> max x y))"
  by (cases xs; cases ys) (simp_all add: max_option_def foldl_max_start)

lemma max_option_in: "max_option xs = Some m \<Longrightarrow> m \<in> set xs"
proof -
  have "foldl max x xs \<in> insert x (set xs)" for x :: int and xs
  proof (induction xs arbitrary: x)
    case (Cons y ys)
    from Cons [of "max x y"] show ?case by (auto simp: max_def split: if_splits)
  qed simp
  then show "max_option xs = Some m \<Longrightarrow> m \<in> set xs" by (auto simp: max_option_def split: list.splits)
qed

lemma i64_wrap_id: "i64_min \<le> z \<Longrightarrow> z \<le> i64_max \<Longrightarrow> i64_wrap z = z"
  by (simp add: i64_wrap_def i64_min_def i64_max_def)

lemma event_times_snoc [simp]: "event_times et (xs @ [x]) = event_times et xs @ item_times et x" "event_times et [] = []"
  by (simp_all add: event_times_def)

lemma last_watermark_snoc [simp]:
  "last_watermark micros (xs @ [x]) = (case watermark_of x of None \<Rightarrow> last_watermark micros xs | Some t \<Rightarrow> Some (micros t))"
  "last_watermark micros [] = None"
  by (cases "watermark_of x"; simp add: last_watermark_def) (simp add: last_watermark_def)

definition wm_inv :: "('t \<Rightarrow> int) \<Rightarrow> ('r \<Rightarrow> int option) \<Rightarrow> int \<Rightarrow> ('t, 'r) flow_item list \<Rightarrow> watermark_state \<Rightarrow> bool" where
  "wm_inv micros et delay out st \<longleftrightarrow>
     all_at (watermark_ok micros et delay) out \<and> ws_max_ts st = max_option (event_times et out) \<and>
     ws_last_wm st = last_watermark micros out \<and>
     (\<forall>l. ws_last_wm st = Some l \<longrightarrow> (\<exists>m. ws_max_ts st = Some m \<and> l \<le> m - delay))"

text \<open>Advancing to the largest event time so far.\<close>

lemma advance_inv:
  assumes timed: "well_timed micros et C" and inv: "wm_inv micros et (wc_delay C) out st"
    and run: "advance C emit (ws_max_ts st) st = (ws, st')"
  shows "wm_inv micros et (wc_delay C) (out @ map Inr ws) st'"
    and "ws_last_wm st' = map_option (\<lambda>m. m - wc_delay C) (ws_max_ts st)"
    and "event_times et (out @ map Inr ws) = event_times et out"
    and "list_all (\<lambda>x. watermark_of (Inr x) \<noteq> None) ws"
proof -
  have "wm_inv micros et (wc_delay C) (out @ map Inr ws) st' \<and>
    ws_last_wm st' = map_option (\<lambda>m. m - wc_delay C) (ws_max_ts st) \<and>
    event_times et (out @ map Inr ws) = event_times et out \<and> list_all (\<lambda>x. watermark_of (Inr x) \<noteq> None) ws"
  proof (cases "ws_max_ts st")
    case None
    with inv have "ws_last_wm st = None" by (cases "ws_last_wm st") (auto simp: wm_inv_def)
    with None run inv show ?thesis by (simp add: advance_def)
  next
    case (Some m)
    with inv have top: "max_option (event_times et out) = Some m" by (simp add: wm_inv_def)
    then have "m \<in> set (event_times et out)" by (rule max_option_in)
    then obtain r where r: "et r = Some m"
      by (auto simp: event_times_def item_times_def List.map_filter_def split: sum.splits flow_event.splits)
    with timed obtain t where t: "wc_from_micros C (m - wc_delay C) = Some t" "micros t = m - wc_delay C"
        "i64_wrap (m - wc_delay C) = m - wc_delay C"
      unfolding well_timed_def using i64_wrap_id by blast
    show ?thesis
    proof (cases "case ws_last_wm st of None \<Rightarrow> True | Some l \<Rightarrow> l < m - wc_delay C")
      case True
      with run Some t have ws: "ws = [Marker_Event (Watermark ''watermark'' t)]" "ws_last_wm st' = Some (m - wc_delay C)" "ws_max_ts st' = Some m"
        by (auto simp: advance_def watermark_marker_def)
      have "watermark_ok micros et (wc_delay C) out (Inr (Marker_Event (Watermark ''watermark'' t)))"
        using inv True Some t(2)
        by (cases "last_watermark micros out") (simp_all add: watermark_ok_def watermark_of_def is_final_def is_transition_def wm_inv_def)
      with inv ws t(2) Some top show ?thesis by (simp add: wm_inv_def watermark_of_def item_times_def)
    next
      case False
      with run Some t have "ws = []" "st' = st" by (auto simp: advance_def Let_def split: option.splits)
      moreover from False obtain l where l: "ws_last_wm st = Some l" "m - wc_delay C \<le> l" by (auto split: option.splits)
      moreover from inv Some l(1) have "l \<le> m - wc_delay C" by (simp add: wm_inv_def)
      ultimately show ?thesis using inv Some by simp
    qed
  qed
  then show "wm_inv micros et (wc_delay C) (out @ map Inr ws) st'" "ws_last_wm st' = map_option (\<lambda>m. m - wc_delay C) (ws_max_ts st)"
    "event_times et (out @ map Inr ws) = event_times et out" "list_all (\<lambda>x. watermark_of (Inr x) \<noteq> None) ws" by blast+
qed

lemma filter_markers:
  "list_all (\<lambda>x. watermark_of (Inr x) \<noteq> None) ws \<Longrightarrow> filter (\<lambda>x. watermark_of x = None) (map Inr ws) = []"
  by (induction ws) auto

lemma wm_inv_append_marker:
  "watermark_of x = None \<Longrightarrow> item_times et x = [] \<Longrightarrow>
   wm_inv micros et delay (out @ [x]) st \<longleftrightarrow> wm_inv micros et delay out st \<and> watermark_ok micros et delay out x"
  by (auto simp: wm_inv_def)

lemma watermark_item_inv:
  assumes timed: "well_timed micros et C" and inv: "wm_inv micros et (wc_delay C) out st"
    and none: "watermark_of item = None" and run: "watermark_item C now item st = (ws, st')"
  shows "wm_inv micros et (wc_delay C) (out @ ws) st' \<and> filter (\<lambda>x. watermark_of x = None) ws = [item]"
proof (cases item)
  case (Inl e)
  with run inv show ?thesis
    by (auto simp: watermark_item_def wm_inv_def watermark_ok_def watermark_of_def is_final_def item_times_def)
next
  case (Inr ev)
  show ?thesis
  proof (cases ev)
    case (Data_Event batch flags)
    have x: "item_times et item = List.map_filter et batch" "\<not> is_final item" using Inr Data_Event by (simp_all add: item_times_def is_final_def)
    let ?st = "st\<lparr>ws_max_ts := max_option (event_times et out @ item_times et item)\<rparr>"
    have obs: "observe_batch C now batch st = (ws_max_ts ?st, ?st)"
      using timed inv by (auto simp: observe_batch_def well_timed_def wm_inv_def max_option_append x Let_def split: option.splits)
    have mid: "wm_inv micros et (wc_delay C) (out @ [item]) ?st"
      using inv none x(2) unfolding wm_inv_def watermark_ok_def
      by (auto simp: max_option_append split: option.splits)
    show ?thesis
    proof (cases "case ws_last_emit st of None \<Rightarrow> True | Some le \<Rightarrow> wc_interval C \<le> now - le")
      case True
      obtain out' st'' where adv: "advance C (Some now) (ws_max_ts ?st) ?st = (out', st'')" by fastforce
      with run obs True Inr Data_Event have "ws = item # map Inr out'" "st' = st''"
        by (simp_all add: watermark_item_def)
      with advance_inv [OF timed mid adv] none show ?thesis by (simp add: filter_markers)
    next
      case False
      with run obs Inr Data_Event have "ws = [item]" "st' = ?st" by (simp_all add: watermark_item_def)
      with mid none show ?thesis by simp
    qed
  next
    case (Marker_Event m)
    show ?thesis
    proof (cases "is_transition m")
      case True
      obtain out' st'' where adv: "advance C (Some now) (ws_max_ts st) st = (out', st'')" by fastforce
      with run True Inr Marker_Event timed have ws: "ws = map Inr out' @ [item]" "st' = st''"
        by (simp_all add: watermark_item_def well_timed_def)
      note next_inv = advance_inv [OF timed inv adv]
      have "watermark_ok micros et (wc_delay C) (out @ map Inr out') item"
        using next_inv(1,2) inv none unfolding watermark_ok_def wm_inv_def by (simp add: next_inv(3))
      with next_inv(1) none have "wm_inv micros et (wc_delay C) ((out @ map Inr out') @ [item]) st''"
        by (subst wm_inv_append_marker) (simp_all add: Inr Marker_Event item_times_def)
      with next_inv(4) none ws show ?thesis by (simp add: filter_markers)
    next
      case False
      with run Inr Marker_Event have "ws = [item]" "st' = st"
        by (simp_all add: watermark_item_def advance_def)
      moreover have "watermark_ok micros et (wc_delay C) out item"
        using none False Inr Marker_Event by (simp add: watermark_ok_def is_final_def)
      ultimately show ?thesis using inv none Inr Marker_Event by (simp add: wm_inv_append_marker item_times_def)
    qed
  qed
qed

lemma watermark_items_inv:
  assumes "well_timed micros et C"
  shows "wm_inv micros et (wc_delay C) pre st \<Longrightarrow> list_all (\<lambda>x. watermark_of x = None) (List.map_filter snd items) \<Longrightarrow>
    watermark_items C items st = (out, st') \<Longrightarrow>
    wm_inv micros et (wc_delay C) (pre @ out) st' \<and> filter (\<lambda>x. watermark_of x = None) out = List.map_filter snd items"
proof (induction items arbitrary: pre st out)
  case (Cons x items)
  obtain now turn where x: "x = (now, turn)" by (cases x)
  obtain ws st1 where one: "watermark_turn C now turn st = (ws, st1)" by fastforce
  obtain outs where rest: "watermark_items C items st1 = (outs, st')" "out = ws @ outs"
    using Cons.prems(3) x one by (auto split: prod.splits)
  have "wm_inv micros et (wc_delay C) (pre @ ws) st1 \<and> filter (\<lambda>x. watermark_of x = None) ws = List.map_filter snd [x]"
  proof (cases turn)
    case None
    with one assms Cons.prems(1) x show ?thesis
      by (simp add: watermark_turn_def watermark_tick_def well_timed_def List.map_filter_simps)
  next
    case (Some item)
    with watermark_item_inv [OF assms Cons.prems(1), of item now ws st1] one Cons.prems(2) x show ?thesis
      by (simp add: watermark_turn_def List.map_filter_simps)
  qed
  with Cons.IH [OF _ _ rest(1), of "pre @ ws"] Cons.prems(2) rest(2) x show ?case
    by (cases turn) (simp_all add: List.map_filter_simps)
qed (simp add: List.map_filter_simps)

text \<open>
  C40. A stream with one source partition gets the watermarks of its event times: the operator passes every
  item of its input on in order and adds only watermark markers. Each is the largest event time that went
  out before it less the delay, and is beyond the one before it; and when the source goes idle or ends, the
  last watermark is the largest event time of the whole stream so far less the delay, however recently the
  one before it was sent.
\<close>

theorem watermarks_follow_event_time:
  assumes "well_timed micros et C" and "list_all (\<lambda>x. watermark_of x = None) (List.map_filter snd items)"
    and "watermark_items C items (watermark_init t0) = (out, st)"
  shows "all_at (watermark_ok micros et (wc_delay C)) out \<and> filter (\<lambda>x. watermark_of x = None) out = List.map_filter snd items"
proof -
  have "wm_inv micros et (wc_delay C) [] (watermark_init t0)"
    by (simp add: wm_inv_def watermark_init_def max_option_def)
  from watermark_items_inv [OF assms(1) this assms(2,3)] show ?thesis by (simp add: wm_inv_def)
qed

definition example_watermark :: "(int, int) watermark_config" where
  "example_watermark = \<lparr>wc_event_time = Some (\<lambda>r. if 0 \<le> r \<and> r \<le> 1000 then Some r else None), wc_partition = None,
     wc_delay = 10, wc_interval = 200, wc_idle_timeout = 2000, wc_from_micros = Some\<rparr>"

text \<open>
  Three batches within one interval, then the end: the first is followed by its watermark, the gate withholds
  the watermark of the others, and the end flushes it.
\<close>

theorem watermarks_follow_event_time_witness:
  "fst (watermark_items example_watermark
      [(5, Some (Inr (Data_Event [30] [False]))), (6, Some (Inr (Data_Event [70] [False]))), (7, Some (Inr (Data_Event [50] [False]))),
       (8, Some (Inr (Marker_Event EndOfData)))] (watermark_init 0)) =
     [Inr (Data_Event [30] [False]), Inr (Marker_Event (Watermark ''watermark'' 20)), Inr (Data_Event [70] [False]),
      Inr (Data_Event [50] [False]), Inr (Marker_Event (Watermark ''watermark'' 60)), Inr (Marker_Event EndOfData)] \<and>
   all_at (watermark_ok id (\<lambda>r. if 0 \<le> r \<and> r \<le> 1000 then Some r else None) (wc_delay example_watermark))
     (fst (watermark_items example_watermark
        [(5, Some (Inr (Data_Event [30] [False]))), (6, Some (Inr (Data_Event [70] [False]))), (7, Some (Inr (Data_Event [50] [False]))),
         (8, Some (Inr (Marker_Event EndOfData)))] (watermark_init 0)))"
proof -
  let ?items = "[(5, Some (Inr (Data_Event [30] [False]))), (6, Some (Inr (Data_Event [70] [False]))), (7, Some (Inr (Data_Event [50] [False]))),
    (8, Some (Inr (Marker_Event EndOfData)))] :: (time \<times> (int, int) flow_item option) list"
  have timed: "well_timed id (\<lambda>r. if 0 \<le> r \<and> r \<le> 1000 then Some r else None) example_watermark"
    by (auto simp: well_timed_def example_watermark_def i64_min_def i64_max_def split: if_splits)
  have plain: "list_all (\<lambda>x. watermark_of x = None) (List.map_filter snd ?items)"
    by (simp add: watermark_of_def List.map_filter_simps)
  have "fst (watermark_items example_watermark ?items (watermark_init 0)) =
     [Inr (Data_Event [30] [False]), Inr (Marker_Event (Watermark ''watermark'' 20)), Inr (Data_Event [70] [False]),
      Inr (Data_Event [50] [False]), Inr (Marker_Event (Watermark ''watermark'' 60)), Inr (Marker_Event EndOfData)]"
    by code_simp
  with watermarks_follow_event_time [OF timed plain prod.collapse [symmetric], of 0] show ?thesis by blast
qed

section \<open>Several partitions\<close>

lemma foldl_min_le: "foldl min (x :: int) xs \<in> insert x (set xs) \<and> (\<forall>y \<in> insert x (set xs). foldl min x xs \<le> y)"
proof (induction xs arbitrary: x)
  case (Cons y ys)
  from Cons [of "min x y"] show ?case by (auto simp: min_def split: if_splits)
qed simp

lemma min_option_least: "min_option xs = Some m \<longleftrightarrow> m \<in> set xs \<and> (\<forall>x \<in> set xs. m \<le> x)"
proof (cases xs)
  case (Cons y ys)
  with foldl_min_le [of y ys] show ?thesis by (auto simp: min_option_def intro: order_antisym)
qed (simp add: min_option_def)

text \<open>
  After the startup grace the candidate is the least of the largest event times of the partitions that are
  not idle, so an idle partition does not hold the watermark back.
\<close>

theorem active_partition_watermark_least:
  "active_partition_watermark m start idle now = Some w \<longleftrightarrow>
     idle \<le> now - start \<and> (\<exists>p seen. (p, w, seen) \<in> set m \<and> now - seen < idle) \<and>
     (\<forall>(p, x, seen) \<in> set m. now - seen < idle \<longrightarrow> w \<le> x)"
  by (auto simp: active_partition_watermark_def min_option_least image_iff not_less split: if_splits) force+

text \<open>
  The flush at an idle or end-of-data marker takes the largest partition instead: a partition that is still
  active and behind gets a watermark beyond its own event times.
\<close>

lemma partition_flush_overtakes:
  "let C = \<lparr>wc_event_time = Some fst, wc_partition = Some snd, wc_delay = 0, wc_interval = 200, wc_idle_timeout = 2000,
             wc_from_micros = Some\<rparr> :: (int, int option \<times> int option) watermark_config;
       st = snd (watermark_items C [(2500, Some (Inr (Data_Event [(Some 100, Some 0), (Some 50, Some 1)] [False, False])))] (watermark_init 0))
   in active_partition_watermark (ws_per_part st) (ws_start st) (wc_idle_timeout C) 2600 = Some 50 \<and>
      fst (watermark_item C 2600 (Inr (Marker_Event EndOfData)) st) =
        [Inr (Marker_Event (Watermark ''watermark'' 100)), Inr (Marker_Event EndOfData)]"
  by code_simp

end
