(* ===== verification/Job_Output.thy ===== *)
theory Job_Output
  imports Task_Types
begin

text \<open>
  The output stream of a job, \<open>zelox-execution/src/driver/output.rs\<close>. The driver sends the streams of the
  final stage's tasks to it as attempts are scheduled, or the cause of the job's failure. The
  stream merges what the task streams deliver, fails when a second attempt of a task is added after an
  earlier one has delivered rows, and silences earlier attempts that have not.

  A task stream is the list of what polling it gives, ended by the end of the stream. \<open>SelectAll\<close> of the
  futures library polls the streams that were woken, in any order, and removes a stream that
  has ended; the order is left open.
\<close>

section \<open>Task streams\<close>

datatype poll = Poll_Pending | Poll_Ready stream_item

record task_stream_wrapper =
  tw_key :: task_stream_key
  tw_inner :: "poll list option"
  tw_count :: nat

definition wrapper_new :: "task_stream_key \<Rightarrow> poll list \<Rightarrow> task_stream_wrapper" where
  "wrapper_new key inner = \<lparr>tw_key = key, tw_inner = Some inner, tw_count = 0\<rparr>"

text \<open>The same channel of the same partition, whatever the attempt.\<close>

definition same_channel :: "task_stream_key \<Rightarrow> task_stream_key \<Rightarrow> bool" where
  "same_channel k1 k2 \<longleftrightarrow> sk_job_id k1 = sk_job_id k2 \<and> sk_stage k1 = sk_stage k2 \<and>
     sk_partition k1 = sk_partition k2 \<and> sk_channel k1 = sk_channel k2"

definition conflicts_with :: "task_stream_wrapper \<Rightarrow> task_stream_key \<Rightarrow> bool" where
  "conflicts_with w key \<longleftrightarrow> same_channel (tw_key w) key \<and> 0 < tw_count w"

definition mute_if_needed :: "task_stream_key \<Rightarrow> task_stream_wrapper \<Rightarrow> task_stream_wrapper" where
  "mute_if_needed key w = (if same_channel (tw_key w) key then w\<lparr>tw_inner := None\<rparr> else w)"

datatype wrapper_poll = Wrapper_Pending | Wrapper_Done | Wrapper_Item stream_item

definition poll_wrapper :: "task_stream_wrapper \<Rightarrow> wrapper_poll \<times> task_stream_wrapper" where
  "poll_wrapper w =
     (case tw_inner w of
        None \<Rightarrow> (Wrapper_Done, w)
      | Some [] \<Rightarrow> (Wrapper_Done, w)
      | Some (Poll_Pending # rest) \<Rightarrow> (Wrapper_Pending, w\<lparr>tw_inner := Some rest\<rparr>)
      | Some (Poll_Ready item # rest) \<Rightarrow>
          (Wrapper_Item item,
           w\<lparr>tw_inner := Some rest,
             tw_count := (case item of Inr batch \<Rightarrow> tw_count w + num_rows batch | Inl _ \<Rightarrow> tw_count w)\<rparr>))"

section \<open>The merged stream\<close>

text \<open>What happened, in order: streams added, items delivered, streams that ended.\<close>

datatype output_event =
    Added task_stream_key
  | Delivered task_stream_key stream_item
  | Ended task_stream_key

datatype select_result = Select_Pending | Select_None | Select_Item stream_item

inductive select_poll ::
  "task_stream_wrapper list \<Rightarrow> output_event list \<Rightarrow> select_result \<Rightarrow> task_stream_wrapper list \<Rightarrow> bool" where
  select_empty: "select_poll [] [] Select_None []"
| select_idle: "ws \<noteq> [] \<Longrightarrow> select_poll ws [] Select_Pending ws"
| select_item: "i < length ws \<Longrightarrow> poll_wrapper (ws ! i) = (Wrapper_Item x, w) \<Longrightarrow>
    select_poll ws [Delivered (tw_key w) x] (Select_Item x) (ws[i := w])"
| select_wait: "i < length ws \<Longrightarrow> poll_wrapper (ws ! i) = (Wrapper_Pending, w) \<Longrightarrow> select_poll (ws[i := w]) evs r ws' \<Longrightarrow>
    select_poll ws evs r ws'"
| select_done: "i < length ws \<Longrightarrow> poll_wrapper (ws ! i) = (Wrapper_Done, w) \<Longrightarrow> select_poll (remove_at i ws) evs r ws' \<Longrightarrow>
    select_poll ws (Ended (tw_key w) # evs) r ws'"

datatype job_output_item =
    Item_Stream task_stream_key "poll list"
  | Item_Error common_error_cause

datatype receive_poll = Receive_Pending | Receive_Item job_output_item | Receive_Closed

datatype job_output_state =
    Output_Active "task_stream_wrapper list"
  | Output_Draining "task_stream_wrapper list"
  | Output_Completed
  | Output_Failed

datatype output_poll =
    Output_Pending
  | Output_Item stream_item
  | Output_End

text \<open>The first half of a poll: an item of the driver is taken in. An error ends the poll.\<close>

definition output_receive ::
  "receive_poll \<Rightarrow> job_output_state \<Rightarrow> output_event list \<times> output_poll option \<times> job_output_state" where
  "output_receive recv st =
     (case st of
        Output_Active inner \<Rightarrow>
          (case recv of
             Receive_Pending \<Rightarrow> ([], None, st)
           | Receive_Item (Item_Error cause) \<Rightarrow> ([], Some (Output_Item (Inl (Stream_Cause cause))), Output_Failed)
           | Receive_Item (Item_Stream key stream) \<Rightarrow>
               if list_ex (\<lambda>s. conflicts_with s key) inner
               then ([], Some (Output_Item (Inl (Stream_Unknown
                      ''cannot add stream for {}: a different attempt has already produced job output''))), Output_Failed)
               else ([Added key], None, Output_Active (map (mute_if_needed key) inner @ [wrapper_new key stream]))
           | Receive_Closed \<Rightarrow> ([], None, Output_Draining inner))
      | _ \<Rightarrow> ([], None, st))"

definition of_select :: "select_result \<Rightarrow> output_poll \<Rightarrow> output_poll" where
  "of_select r otherwise = (case r of Select_Pending \<Rightarrow> Output_Pending | Select_None \<Rightarrow> otherwise | Select_Item x \<Rightarrow> Output_Item x)"

text \<open>\<open>JobOutputStream::poll_next\<close>.\<close>

inductive output_poll_next ::
  "receive_poll \<Rightarrow> job_output_state \<Rightarrow> output_event list \<Rightarrow> output_poll \<Rightarrow> job_output_state \<Rightarrow> bool" where
  poll_failed: "output_receive recv st = (evs, Some p, st') \<Longrightarrow> output_poll_next recv st evs p st'"
| poll_active: "output_receive recv st = (evs, None, Output_Active inner) \<Longrightarrow> select_poll inner evs' r inner' \<Longrightarrow>
    output_poll_next recv st (evs @ evs') (of_select r Output_Pending) (Output_Active inner')"
| poll_draining: "output_receive recv st = (evs, None, Output_Draining inner) \<Longrightarrow> select_poll inner evs' r inner' \<Longrightarrow>
    output_poll_next recv st (evs @ evs') (of_select r Output_End)
      (if r = Select_None then Output_Completed else Output_Draining inner')"
| poll_ended: "output_receive recv st = (evs, None, st') \<Longrightarrow> st' \<in> {Output_Completed, Output_Failed} \<Longrightarrow>
    output_poll_next recv st evs Output_End st'"

inductive output_run :: "output_event list \<Rightarrow> job_output_state \<Rightarrow> bool" where
  output_start: "output_run [] (Output_Active [])"
| output_step: "output_run log st \<Longrightarrow> output_poll_next recv st evs p st' \<Longrightarrow> output_run (log @ evs) st'"

section \<open>Attempts\<close>

definition streams_of :: "job_output_state \<Rightarrow> task_stream_wrapper list" where
  "streams_of st = (case st of Output_Active ws \<Rightarrow> ws | Output_Draining ws \<Rightarrow> ws | _ \<Rightarrow> [])"

text \<open>
  A stream that has delivered rows and has not ended is still there, with the number of its rows; once
  the output has failed nothing is added any more.
\<close>

definition delivered_rows :: "task_stream_key \<Rightarrow> output_event \<Rightarrow> bool" where
  "delivered_rows k ev = (case ev of Delivered k' (Inr b) \<Rightarrow> k' = k \<and> 0 < num_rows b | _ \<Rightarrow> False)"

definition counted :: "output_event list \<Rightarrow> task_stream_wrapper list \<Rightarrow> bool" where
  "counted log ws \<longleftrightarrow> (\<forall>k. list_ex (delivered_rows k) log \<longrightarrow> Ended k \<notin> set log \<longrightarrow>
     (\<exists>w \<in> set ws. tw_key w = k \<and> 0 < tw_count w))"

definition additions_ok :: "output_event list \<Rightarrow> bool" where
  "additions_ok log \<longleftrightarrow> (\<forall>i < length log. \<forall>k k'. log ! i = Added k' \<longrightarrow> same_channel k k' \<longrightarrow>
     list_ex (delivered_rows k) (take i log) \<longrightarrow> Ended k \<in> set (take i log))"

lemma counted_update:
  assumes "counted log ws" "i < length ws" "tw_key w = tw_key (ws ! i)" "tw_count (ws ! i) \<le> tw_count w"
  shows "counted log (ws[i := w])"
  unfolding counted_def
proof (intro allI impI)
  fix k assume "list_ex (delivered_rows k) log" "Ended k \<notin> set log"
  with assms(1) obtain v where "v \<in> set ws" "tw_key v = k" "0 < tw_count v" unfolding counted_def by blast
  then obtain n where n: "n < length ws" "tw_key (ws ! n) = k" "0 < tw_count (ws ! n)" by (auto simp: in_set_conv_nth)
  then have "ws[i := w] ! n \<in> set (ws[i := w])" by (intro nth_mem) simp
  moreover have "tw_key (ws[i := w] ! n) = k" "0 < tw_count (ws[i := w] ! n)"
    using n assms(2-4) by (auto simp: nth_list_update)
  ultimately show "\<exists>w' \<in> set (ws[i := w]). tw_key w' = k \<and> 0 < tw_count w'" by blast
qed

lemma poll_wrapper_keeps:
  "poll_wrapper w = (r, w') \<Longrightarrow> tw_key w' = tw_key w \<and> tw_count w \<le> tw_count w'"
  by (auto simp: poll_wrapper_def split: option.splits list.splits poll.splits sum.splits)

lemma select_counted:
  "select_poll ws evs r ws' \<Longrightarrow> counted log ws \<Longrightarrow> counted (log @ evs) ws'"
proof (induction arbitrary: log rule: select_poll.induct)
  case (select_item i ws x w)
  note keep = poll_wrapper_keeps [OF select_item.hyps(2)]
  have base: "counted log (ws[i := w])" using counted_update [OF select_item.prems select_item.hyps(1)] keep by simp
  show ?case unfolding counted_def
  proof (intro allI impI)
    fix k assume d: "list_ex (delivered_rows k) (log @ [Delivered (tw_key w) x])" "Ended k \<notin> set (log @ [Delivered (tw_key w) x])"
    show "\<exists>w' \<in> set (ws[i := w]). tw_key w' = k \<and> 0 < tw_count w'"
    proof (cases "delivered_rows k (Delivered (tw_key w) x)")
      case True
      then have "tw_key w = k" "0 < tw_count w"
        using select_item.hyps(2) by (auto simp: delivered_rows_def poll_wrapper_def split: option.splits list.splits poll.splits sum.splits)
      then show ?thesis using set_update_memI [OF select_item.hyps(1), of w] by blast
    next
      case False
      with base d show ?thesis unfolding counted_def by simp
    qed
  qed
next
  case (select_wait i ws w evs r ws')
  then show ?case using counted_update [of log ws i w] poll_wrapper_keeps [OF select_wait.hyps(2)] by simp
next
  case (select_done i ws w evs r ws')
  note keep = poll_wrapper_keeps [OF select_done.hyps(2)]
  have "counted (log @ [Ended (tw_key w)]) (remove_at i ws)" unfolding counted_def
  proof (intro allI impI)
    fix k assume "list_ex (delivered_rows k) (log @ [Ended (tw_key w)])" "Ended k \<notin> set (log @ [Ended (tw_key w)])"
    then have "list_ex (delivered_rows k) log" "Ended k \<notin> set log" "k \<noteq> tw_key w" by (auto simp: delivered_rows_def)
    with select_done.prems obtain v where v: "v \<in> set ws" "tw_key v = k" "0 < tw_count v" unfolding counted_def by blast
    have "v \<noteq> ws ! i" using v(2) keep \<open>k \<noteq> tw_key w\<close> by auto
    then have "v \<in> set (remove_at i ws)" using v(1) set_remove_at [OF select_done.hyps(1)] by blast
    with v show "\<exists>w' \<in> set (remove_at i ws). tw_key w' = k \<and> 0 < tw_count w'" by blast
  qed
  from select_done.IH [OF this] show ?case by simp
qed simp_all

lemma select_no_additions: "select_poll ws evs r ws' \<Longrightarrow> Added k \<notin> set evs"
  by (induction rule: select_poll.induct) auto

lemma additions_append:
  assumes "additions_ok log" "\<And>k. Added k \<notin> set evs"
  shows "additions_ok (log @ evs)"
  unfolding additions_ok_def
proof (intro allI impI)
  fix i k k'
  assume i: "i < length (log @ evs)" "(log @ evs) ! i = Added k'" "same_channel k k'" "list_ex (delivered_rows k) (take i (log @ evs))"
  have "i < length log"
  proof (rule ccontr)
    assume "\<not> i < length log"
    with i(1,2) have "Added k' \<in> set evs" by (auto simp: nth_append intro!: nth_mem simp flip: \<open>(log @ evs) ! i = Added k'\<close>)
    with assms(2) show False by blast
  qed
  with i assms(1) show "Ended k \<in> set (take i (log @ evs))" by (auto simp: additions_ok_def nth_append)
qed

lemma add_stream:
  assumes "counted log ws" "additions_ok log" "\<not> list_ex (\<lambda>s. conflicts_with s key) ws"
  shows "additions_ok (log @ [Added key])" "counted (log @ [Added key]) (map (mute_if_needed key) ws @ [wrapper_new key stream])"
proof -
  have ended: "Ended k \<in> set log" if "same_channel k key" "list_ex (delivered_rows k) log" for k
  proof (rule ccontr)
    assume "Ended k \<notin> set log"
    with assms(1) that(2) obtain w where "w \<in> set ws" "tw_key w = k" "0 < tw_count w" unfolding counted_def by blast
    with assms(3) that(1) show False by (auto simp: list_ex_iff conflicts_with_def)
  qed
  then show "additions_ok (log @ [Added key])" using assms(2) by (auto simp: additions_ok_def nth_append less_Suc_eq)
  show "counted (log @ [Added key]) (map (mute_if_needed key) ws @ [wrapper_new key stream])" unfolding counted_def
  proof (intro allI impI)
    fix k assume "list_ex (delivered_rows k) (log @ [Added key])" "Ended k \<notin> set (log @ [Added key])"
    then have "list_ex (delivered_rows k) log" "Ended k \<notin> set log" by (auto simp: delivered_rows_def)
    with assms(1) obtain w where w: "w \<in> set ws" "tw_key w = k" "0 < tw_count w" unfolding counted_def by blast
    then have "mute_if_needed key w \<in> set (map (mute_if_needed key) ws @ [wrapper_new key stream])"
      "tw_key (mute_if_needed key w) = k" "0 < tw_count (mute_if_needed key w)" by (auto simp: mute_if_needed_def)
    then show "\<exists>w' \<in> set (map (mute_if_needed key) ws @ [wrapper_new key stream]). tw_key w' = k \<and> 0 < tw_count w'" by blast
  qed
qed

text \<open>Whether nothing can be added any more.\<close>

definition output_inv :: "output_event list \<Rightarrow> job_output_state \<Rightarrow> bool" where
  "output_inv log st \<longleftrightarrow> additions_ok log \<and> (case st of Output_Active ws \<Rightarrow> counted log ws | _ \<Rightarrow> True)"

lemma output_receive_inv:
  assumes "output_inv log st" "output_receive recv st = (evs, p, st')"
  shows "output_inv (log @ evs) st'"
  using assms add_stream [of log]
  by (auto simp: output_inv_def output_receive_def split: job_output_state.splits receive_poll.splits job_output_item.splits if_splits)

lemma output_run_inv: "output_run log st \<Longrightarrow> output_inv log st"
proof (induction rule: output_run.induct)
  case output_start
  then show ?case by (simp add: output_inv_def additions_ok_def counted_def)
next
  case (output_step log st recv evs p st')
  from output_step.hyps(2) output_step.IH show ?case
  proof (induction rule: output_poll_next.induct)
    case (poll_failed recv st evs p st')
    then show ?case using output_receive_inv by blast
  next
    case (poll_active recv st evs inner evs' r inner')
    from output_receive_inv [OF poll_active.prems poll_active.hyps(1)]
    have "additions_ok (log @ evs)" "counted (log @ evs) inner" by (simp_all add: output_inv_def)
    then have "additions_ok ((log @ evs) @ evs')" "counted ((log @ evs) @ evs') inner'"
      using additions_append select_no_additions [OF poll_active.hyps(2)] select_counted [OF poll_active.hyps(2)] by blast+
    then show ?case by (simp add: output_inv_def)
  next
    case (poll_draining recv st evs inner evs' r inner')
    from output_receive_inv [OF poll_draining.prems poll_draining.hyps(1)]
    have "additions_ok (log @ evs)" by (simp add: output_inv_def)
    from additions_append [OF this select_no_additions [OF poll_draining.hyps(2)]] show ?case by (simp add: output_inv_def)
  next
    case (poll_ended recv st evs st')
    then show ?case using output_receive_inv by blast
  qed
qed

text \<open>C39. Job output takes a new attempt of a task only when no earlier attempt that delivered rows is still
  running: whenever the stream of an attempt is added to the output, every stream of the same channel that has
  delivered rows before has ended. Otherwise the output fails.\<close>

theorem job_output_attempts:
  assumes "output_run (l1 @ Added k' # l2) st" "same_channel k k'"
    and "Delivered k (Inr b) \<in> set l1" "0 < num_rows b"
  shows "Ended k \<in> set l1"
proof -
  have "list_ex (delivered_rows k) l1" using assms(3,4) by (force simp: list_ex_iff delivered_rows_def)
  moreover from output_run_inv [OF assms(1)] have "additions_ok (l1 @ Added k' # l2)" by (simp add: output_inv_def)
  then have "same_channel k k' \<longrightarrow> list_ex (delivered_rows k) (take (length l1) (l1 @ Added k' # l2)) \<longrightarrow>
      Ended k \<in> set (take (length l1) (l1 @ Added k' # l2))"
    unfolding additions_ok_def by (metis add.commute less_add_same_cancel2 length_append length_pos_if_in_set list.set_intros(1) nth_append_length)
  ultimately show ?thesis using assms(2) by simp
qed

section \<open>A finished attempt\<close>

text \<open>
  A stream that has ended is no longer among the streams the check looks at. When a task of a region
  finishes its output and another task of the region fails, the region is run again, and the second
  attempt of the finished task delivers its rows once more.
\<close>

definition attempt_key :: "nat \<Rightarrow> task_stream_key" where
  "attempt_key a = \<lparr>sk_job_id = 1, sk_stage = 0, sk_partition = 0, sk_attempt = a, sk_channel = 0\<rparr>"

definition some_rows :: stream_item where
  "some_rows = Inr \<lparr>rb_rows = [7]\<rparr>"

lemma job_output_repeats_rows:
  "\<exists>st. output_run ([Added (attempt_key 0), Delivered (attempt_key 0) some_rows, Ended (attempt_key 0)] @
     Added (attempt_key 1) # [Delivered (attempt_key 1) some_rows]) st"
proof -
  let ?w = "\<lambda>a rest n. \<lparr>tw_key = attempt_key a, tw_inner = Some rest, tw_count = n\<rparr>"
  have deliver: "select_poll [?w a [Poll_Ready some_rows] 0] [Delivered (attempt_key a) some_rows] (Select_Item some_rows) [?w a [] 1]" for a
    using select_item [of 0 "[?w a [Poll_Ready some_rows] 0]" some_rows "?w a [] 1"]
    by (simp add: poll_wrapper_def some_rows_def num_rows_def)
  have add: "output_receive (Receive_Item (Item_Stream (attempt_key a) [Poll_Ready some_rows])) (Output_Active []) =
      ([Added (attempt_key a)], None, Output_Active [?w a [Poll_Ready some_rows] 0])" for a
    by (simp add: output_receive_def wrapper_new_def)
  have "output_run ([] @ [Added (attempt_key 0)] @ [Delivered (attempt_key 0) some_rows]) (Output_Active [?w 0 [] 1])"
    by (rule output_step [OF output_start poll_active [OF add deliver]])
  moreover have "select_poll [?w 0 [] 1] [Ended (attempt_key 0)] Select_None []"
    using select_done [of 0 "[?w 0 [] 1]" "?w 0 [] 1" "[]" Select_None "[]"] select_empty by (simp add: poll_wrapper_def remove_at_def)
  then have "output_poll_next Receive_Pending (Output_Active [?w 0 [] 1]) ([] @ [Ended (attempt_key 0)]) (of_select Select_None Output_Pending) (Output_Active [])"
    by (intro poll_active) (simp_all add: output_receive_def)
  ultimately have "output_run (([] @ [Added (attempt_key 0)] @ [Delivered (attempt_key 0) some_rows]) @ [] @ [Ended (attempt_key 0)]) (Output_Active [])"
    by (rule output_step)
  from output_step [OF this poll_active [OF add deliver]] show ?thesis by auto
qed

theorem job_output_attempts_witness:
  "\<exists>l1 l2 st. output_run (l1 @ Added (attempt_key 1) # l2) st \<and> Delivered (attempt_key 0) some_rows \<in> set l1 \<and>
     Ended (attempt_key 0) \<in> set l1"
proof -
  let ?l1 = "[Added (attempt_key 0), Delivered (attempt_key 0) some_rows, Ended (attempt_key 0)]"
  obtain st where run: "output_run (?l1 @ Added (attempt_key 1) # [Delivered (attempt_key 1) some_rows]) st"
    using job_output_repeats_rows by blast
  have "Delivered (attempt_key 0) (Inr \<lparr>rb_rows = [7]\<rparr>) \<in> set ?l1" by (simp add: some_rows_def)
  from job_output_attempts [OF run _ this] have "Ended (attempt_key 0) \<in> set ?l1"
    by (simp add: same_channel_def attempt_key_def num_rows_def)
  with run show ?thesis by (intro exI [of _ ?l1] exI [of _ "[Delivered (attempt_key 1) some_rows]"] exI [of _ st]) simp
qed

end
