(* ===== verification/Worker_Actor.thy ===== *)
theory Worker_Actor
  imports Driver
begin

text \<open>
  The worker actor (\<open>worker/actor\<close>) with its peer tracker (\<open>worker/peer_tracker\<close>). It runs tasks with the
  same task runner and keeps the local streams with the same stream manager as the driver, reports
  the status of its tasks with increasing sequence numbers, and knows its peers by what the driver tells it. The
  calls it makes to the driver and to its peers are effects; whether the start of a plan succeeds and the file
  system are parameters.
\<close>

section \<open>Peers\<close>

record peer =
  pe_host :: string
  pe_port :: u16
  pe_client_set :: "worker_client_set option"

record peer_tracker =
  pt_worker_id :: worker_id
  pt_enable_tls :: bool
  pt_peers :: "(worker_id, peer) index_map"

definition peer_tracker_new :: "worker_id \<Rightarrow> bool \<Rightarrow> peer_tracker" where
  "peer_tracker_new w tls = \<lparr>pt_worker_id = w, pt_enable_tls = tls, pt_peers = []\<rparr>"

definition insert_peer :: "worker_location \<Rightarrow> peer_tracker \<Rightarrow> peer_tracker" where
  "insert_peer l pt =
     (case im_get (pt_peers pt) (wl_worker_id l) of
        Some _ \<Rightarrow> pt
      | None \<Rightarrow> pt\<lparr>pt_peers := im_insert (wl_worker_id l)
                  \<lparr>pe_host = wl_host l, pe_port = wl_port l, pe_client_set = None\<rparr> (pt_peers pt)\<rparr>)"

datatype worker_stream_owner = Owner_This | Owner_Worker worker_id schema

datatype worker_event =
    WE_ServerReady u16
  | WE_StartHeartbeat
  | WE_ReportKnownPeers "worker_id list"
  | WE_RunTask task_key task_definition "worker_location list"
  | WE_StopTask task_key
  | WE_ReportTaskStatus task_key task_status "string option" "common_error_cause option"
  | WE_ProbePendingLocalStream task_stream_key
  | WE_CreateLocalStream task_stream_key local_stream_storage schema
  | WE_CreateRemoteStream string task_stream_key schema
  | WE_FetchDriverStream task_stream_key schema
  | WE_FetchWorkerStream worker_stream_owner task_stream_key
  | WE_FetchRemoteStream string task_stream_key schema
  | WE_CleanUpJob job_id "nat option"
  | WE_Shutdown

text \<open>The calls that run beside the actor. Those that are retried send \<open>Shutdown\<close> when all retries fail.\<close>

datatype worker_call =
    Call_RegisterWorker worker_id string u16
  | Call_HeartbeatLoop worker_id time
  | Call_ReportKnownPeers worker_id "worker_id list"
  | Call_ReportStatus task_key task_status "string option" "common_error_cause option" u64
  | Call_FetchFromDriver task_stream_key schema
  | Call_FetchFromWorker worker_client_set task_stream_key schema
  | Call_Monitor task_key
  | Call_Signal task_key

datatype worker_effect =
    W_Send worker_event
  | W_SendWithDelay worker_event time
  | W_Spawn worker_call
  | W_TrySend channel task_stream_error
  | W_Reply reply

definition track :: "worker_location list \<Rightarrow> peer_tracker \<Rightarrow> peer_tracker \<times> worker_effect list" where
  "track peers pt =
     (if peers = [] then (pt, [])
      else (foldl (\<lambda>pt l. insert_peer l pt) pt peers, [W_Send (WE_ReportKnownPeers (map wl_worker_id peers))]))"

definition peer_client_set :: "worker_id \<Rightarrow> peer_tracker \<Rightarrow> worker_client_set execution_result \<times> peer_tracker" where
  "peer_client_set w pt =
     (if w = pt_worker_id pt
      then (Inl (InvalidArgument ''getting client for the worker itself is not allowed''), pt)
      else case im_get (pt_peers pt) w of
             None \<Rightarrow> (Inl (InvalidArgument ''unknown peer worker: {worker_id}''), pt)
           | Some p \<Rightarrow>
               (case pe_client_set p of
                  Some c \<Rightarrow> (Inr c, pt)
                | None \<Rightarrow>
                    let c = Client_Set \<lparr>co_enable_tls = pt_enable_tls pt, co_host = pe_host p, co_port = pe_port p\<rparr>
                    in (Inr c, pt\<lparr>pt_peers := im_insert w (p\<lparr>pe_client_set := Some c\<rparr>) (pt_peers pt)\<rparr>)))"

section \<open>The actor\<close>

record worker_options =
  wo_worker_id :: worker_id
  wo_enable_tls :: bool
  wo_worker_external_host :: string
  wo_worker_external_port :: u16
  wo_worker_heartbeat_interval :: time
  wo_task_stream_buffer :: nat
  wo_task_stream_creation_timeout :: time
  wo_shuffle_spill_dir :: string

record worker_actor =
  wk_options :: worker_options
  wk_server :: server_monitor
  wk_peer_tracker :: peer_tracker
  wk_task_runner :: task_runner
  wk_stream_manager :: stream_manager
  wk_sequence :: u64

record worker_env =
  we_execute_plan :: "task_key \<Rightarrow> task_definition \<Rightarrow> unit execution_result"
  we_disk :: disk_io

definition worker_new :: "worker_options \<Rightarrow> worker_actor" where
  "worker_new opts =
     \<lparr>wk_options = opts, wk_server = Server_Stopped,
      wk_peer_tracker = peer_tracker_new (wo_worker_id opts) (wo_enable_tls opts), wk_task_runner = task_runner_new,
      wk_stream_manager = stream_manager_new
        \<lparr>mo_task_stream_buffer = wo_task_stream_buffer opts,
         mo_task_stream_creation_timeout = wo_task_stream_creation_timeout opts,
         mo_shuffle_spill_dir = wo_shuffle_spill_dir opts\<rparr>,
      wk_sequence = 42\<rparr>"

definition worker_start :: "worker_actor \<Rightarrow> worker_actor" where
  "worker_start w = w\<lparr>wk_server := Server_Pending\<rparr>"

text \<open>The task runner and the stream manager in the context of the worker.\<close>

fun runner_to_worker :: "runner_effect \<Rightarrow> worker_effect" where
  "runner_to_worker (Runner_Report k st m c) = W_Send (WE_ReportTaskStatus k st m c)"
| "runner_to_worker (Runner_Monitor k) = W_Spawn (Call_Monitor k)"
| "runner_to_worker (Runner_Signal k) = W_Spawn (Call_Signal k)"

fun stream_to_worker :: "effect \<Rightarrow> worker_effect list" where
  "stream_to_worker (SendWithDelay (ProbePendingLocalStream k) t) = [W_SendWithDelay (WE_ProbePendingLocalStream k) t]"
| "stream_to_worker (TrySend tx e) = [W_TrySend tx e]"
| "stream_to_worker _ = []"

type_synonym worker_result = "actor_action \<times> worker_actor \<times> worker_effect list"

definition worker_server_ready :: "u16 \<Rightarrow> worker_actor \<Rightarrow> worker_result" where
  "worker_server_ready port w =
     (case server_ready (wk_server w) of
        Inl e \<Rightarrow> (Stop, w\<lparr>wk_server := Server_Stopped\<rparr>, [])
      | Inr server \<Rightarrow>
          let opts = wk_options w;
              port = (if 0 < wo_worker_external_port opts then wo_worker_external_port opts else port)
          in (Continue, w\<lparr>wk_server := server\<rparr>,
              [W_Spawn (Call_RegisterWorker (wo_worker_id opts) (wo_worker_external_host opts) port)]))"

text \<open>What the worker sends itself once the registration has been tried.\<close>

definition registered :: "unit execution_result \<Rightarrow> worker_event list" where
  "registered r = (case r of Inl _ \<Rightarrow> [WE_Shutdown] | Inr _ \<Rightarrow> []) @ [WE_StartHeartbeat]"

definition worker_run_task :: "worker_env \<Rightarrow> task_key \<Rightarrow> task_definition \<Rightarrow> worker_location list \<Rightarrow> worker_actor \<Rightarrow> worker_result" where
  "worker_run_task env k def peers w =
     (let (pt, es) = track peers (wk_peer_tracker w);
          (tn, es') = runner_run_task (we_execute_plan env k def) k (wk_task_runner w)
      in (Continue, w\<lparr>wk_peer_tracker := pt, wk_task_runner := tn\<rparr>, es @ map runner_to_worker es'))"

definition worker_stop_task :: "task_key \<Rightarrow> worker_actor \<Rightarrow> worker_result" where
  "worker_stop_task k w =
     (let (tn, es) = runner_stop_task k (wk_task_runner w)
      in (Continue, w\<lparr>wk_task_runner := tn\<rparr>, map runner_to_worker es))"

definition worker_report_task_status ::
  "task_key \<Rightarrow> task_status \<Rightarrow> string option \<Rightarrow> common_error_cause option \<Rightarrow> worker_actor \<Rightarrow> worker_result" where
  "worker_report_task_status k status message cause w =
     (let sequence = wk_sequence w in
      if sequence = - 1 then (Stop, w, [])
      else (Continue, w\<lparr>wk_sequence := sequence + 1\<rparr>, [W_Spawn (Call_ReportStatus k status message cause sequence)]))"

definition worker_probe_pending_local_stream :: "task_stream_key \<Rightarrow> worker_actor \<Rightarrow> worker_result" where
  "worker_probe_pending_local_stream k w =
     (let (sm, es) = fail_local_stream_if_pending k (wk_stream_manager w)
      in (Continue, w\<lparr>wk_stream_manager := sm\<rparr>, concat (map stream_to_worker es)))"

definition worker_create_local_stream ::
  "worker_env \<Rightarrow> task_stream_key \<Rightarrow> local_stream_storage \<Rightarrow> schema \<Rightarrow> worker_actor \<Rightarrow> worker_result" where
  "worker_create_local_stream env k storage sch w =
     (let (r, sm, es) = create_local_stream (we_disk env) k storage sch (wk_stream_manager w)
      in (Continue, w\<lparr>wk_stream_manager := sm\<rparr>, concat (map stream_to_worker es) @ [W_Reply (Reply_Sink r)]))"

definition worker_fetch_local :: "task_stream_key \<Rightarrow> worker_actor \<Rightarrow> worker_result" where
  "worker_fetch_local k w =
     (let (r, sm, es) = fetch_local_stream k (wk_stream_manager w)
      in (Continue, w\<lparr>wk_stream_manager := sm\<rparr>, concat (map stream_to_worker es) @ [W_Reply (Reply_Source r)]))"

definition worker_fetch_worker_stream :: "worker_stream_owner \<Rightarrow> task_stream_key \<Rightarrow> worker_actor \<Rightarrow> worker_result" where
  "worker_fetch_worker_stream owner k w =
     (case owner of
        Owner_This \<Rightarrow> worker_fetch_local k w
      | Owner_Worker i sch \<Rightarrow>
          if i = wo_worker_id (wk_options w) then worker_fetch_local k w
          else
            (case peer_client_set i (wk_peer_tracker w) of
               (Inl e, pt) \<Rightarrow> (Continue, w\<lparr>wk_peer_tracker := pt\<rparr>, [W_Reply (Reply_Source (Inl e))])
             | (Inr c, pt) \<Rightarrow> (Continue, w\<lparr>wk_peer_tracker := pt\<rparr>, [W_Spawn (Call_FetchFromWorker c k sch)])))"

definition worker_clean_up_job :: "job_id \<Rightarrow> nat option \<Rightarrow> worker_actor \<Rightarrow> worker_result" where
  "worker_clean_up_job j stage w =
     (Continue, w\<lparr>wk_stream_manager := remove_local_streams j stage (wk_stream_manager w)\<rparr>, [])"

definition worker_receive :: "worker_env \<Rightarrow> worker_event \<Rightarrow> worker_actor \<Rightarrow> worker_result" where
  "worker_receive env ev w =
     (let me = wo_worker_id (wk_options w) in
      case ev of
        WE_ServerReady port \<Rightarrow> worker_server_ready port w
      | WE_StartHeartbeat \<Rightarrow> (Continue, w, [W_Spawn (Call_HeartbeatLoop me (wo_worker_heartbeat_interval (wk_options w)))])
      | WE_ReportKnownPeers ids \<Rightarrow> (Continue, w, [W_Spawn (Call_ReportKnownPeers me ids)])
      | WE_RunTask k def peers \<Rightarrow> worker_run_task env k def peers w
      | WE_StopTask k \<Rightarrow> worker_stop_task k w
      | WE_ReportTaskStatus k status message cause \<Rightarrow> worker_report_task_status k status message cause w
      | WE_ProbePendingLocalStream k \<Rightarrow> worker_probe_pending_local_stream k w
      | WE_CreateLocalStream k storage sch \<Rightarrow> worker_create_local_stream env k storage sch w
      | WE_CreateRemoteStream uri k sch \<Rightarrow> (Continue, w, [W_Reply (Reply_Sink (create_remote_stream uri k sch))])
      | WE_FetchDriverStream k sch \<Rightarrow> (Continue, w, [W_Spawn (Call_FetchFromDriver k sch)])
      | WE_FetchWorkerStream owner k \<Rightarrow> worker_fetch_worker_stream owner k w
      | WE_FetchRemoteStream uri k sch \<Rightarrow> (Continue, w, [W_Reply (Reply_Source (fetch_remote_stream uri k sch))])
      | WE_CleanUpJob j stage \<Rightarrow> worker_clean_up_job j stage w
      | WE_Shutdown \<Rightarrow> (Stop, w, []))"

text \<open>The actor handles its events one after the other until one of them stops it.\<close>

fun worker_run :: "(worker_env \<times> worker_event) list \<Rightarrow> worker_actor \<Rightarrow> worker_result" where
  "worker_run [] w = (Continue, w, [])"
| "worker_run ((env, ev) # evs) w =
     (case worker_receive env ev w of
        (Stop, w, es) \<Rightarrow> (Stop, w, es)
      | (Continue, w, es) \<Rightarrow> let (a, w, es') = worker_run evs w in (a, w, es @ es'))"

section \<open>Status reports\<close>

definition reports :: "worker_effect list \<Rightarrow> u64 list" where
  "reports es = concat (map (\<lambda>e. case e of W_Spawn (Call_ReportStatus _ _ _ _ s) \<Rightarrow> [s] | _ \<Rightarrow> []) es)"

lemma reports_simps [simp]:
  "reports [] = []" "reports (es @ es') = reports es @ reports es'"
  "reports (e # es) = (case e of W_Spawn (Call_ReportStatus _ _ _ _ s) \<Rightarrow> [s] | _ \<Rightarrow> []) @ reports es"
  by (simp_all add: reports_def)

lemma reports_runner [simp]: "reports (map runner_to_worker es) = []"
proof (induction es)
  case (Cons e es)
  then show ?case by (cases e) auto
qed simp

lemma reports_stream [simp]: "reports (concat (map stream_to_worker es)) = []"
proof (induction es)
  case (Cons e es)
  have "reports (stream_to_worker e) = []" by (cases e rule: stream_to_worker.cases) auto
  with Cons show ?case by simp
qed simp

lemmas worker_handlers = worker_server_ready_def worker_run_task_def worker_stop_task_def worker_report_task_status_def
  worker_probe_pending_local_stream_def worker_create_local_stream_def worker_fetch_local_def
  worker_fetch_worker_stream_def worker_clean_up_job_def

text \<open>An event takes at most one number, and takes it for a report.\<close>

lemma worker_receive_sequence:
  assumes "worker_receive env ev w = (a, w', es)"
  shows "wk_sequence w' = wk_sequence w \<and> reports es = [] \<or>
    wk_sequence w < wk_sequence w' \<and> wk_sequence w' = wk_sequence w + 1 \<and> reports es = [wk_sequence w]"
proof (cases "\<exists>k st m c. ev = WE_ReportTaskStatus k st m c")
  case True
  then show ?thesis
    using assms word_less_succ [of "wk_sequence w"]
    by (auto simp: worker_receive_def worker_report_task_status_def Let_def split: if_splits)
next
  case False
  then show ?thesis
    using assms
    by (cases ev) (auto simp: worker_receive_def worker_handlers track_def Let_def
        split: sum.splits prod.splits if_splits worker_stream_owner.splits)
qed

lemma worker_run_sequence:
  "worker_run evs w = (a, w', es) \<Longrightarrow>
   sorted_wrt (<) (reports es) \<and> wk_sequence w \<le> wk_sequence w' \<and>
   (\<forall>s \<in> set (reports es). wk_sequence w \<le> s \<and> s < wk_sequence w')"
proof (induction evs arbitrary: w a w' es)
  case (Cons ev evs)
  obtain env e where ev: "ev = (env, e)" by (cases ev)
  obtain a1 w1 es1 where r: "worker_receive env e w = (a1, w1, es1)" by (cases "worker_receive env e w")
  note step = worker_receive_sequence [OF r]
  show ?case
  proof (cases a1)
    case Stop
    with Cons.prems r step show ?thesis by (auto simp: ev)
  next
    case Continue
    obtain a2 w2 es2 where rest: "worker_run evs w1 = (a2, w2, es2)" by (cases "worker_run evs w1")
    from Cons.prems r Continue rest have "w' = w2" "es = es1 @ es2" by (auto simp: ev)
    with Cons.IH [OF rest] step show ?thesis by (auto simp: sorted_wrt_append)
  qed
qed simp

text \<open>
  Whatever happens to a worker, the status reports it sends carry strictly increasing numbers, so two
  reports never share one and a later report of a task is never older for the driver than an earlier one.
\<close>

theorem worker_reports_numbered:
  assumes "worker_run evs (worker_start (worker_new opts)) = (a, w, es)"
  shows "sorted_wrt (<) (reports es)" "\<And>s. s \<in> set (reports es) \<Longrightarrow> 42 \<le> s"
  using worker_run_sequence [OF assms] by (auto simp: worker_start_def worker_new_def)

section \<open>Known peers\<close>

definition client_of :: "bool \<Rightarrow> worker_location \<Rightarrow> worker_client_set" where
  "client_of tls l = Client_Set \<lparr>co_enable_tls = tls, co_host = wl_host l, co_port = wl_port l\<rparr>"

definition first_location :: "worker_id \<Rightarrow> worker_location list \<Rightarrow> worker_location option" where
  "first_location i locs = find (\<lambda>l. wl_worker_id l = i) locs"

text \<open>The tracker knows each peer by the first location it was told.\<close>

definition peer_ok :: "bool \<Rightarrow> worker_location option \<Rightarrow> peer option \<Rightarrow> bool" where
  "peer_ok tls loc p =
     (case loc of
        None \<Rightarrow> p = None
      | Some l \<Rightarrow> \<exists>c. p = Some \<lparr>pe_host = wl_host l, pe_port = wl_port l, pe_client_set = c\<rparr> \<and> c \<in> {None, Some (client_of tls l)})"

definition knows :: "worker_location list \<Rightarrow> peer_tracker \<Rightarrow> bool" where
  "knows locs pt \<longleftrightarrow> (\<forall>i. peer_ok (pt_enable_tls pt) (first_location i locs) (im_get (pt_peers pt) i))"

lemma first_location_snoc:
  "first_location i (locs @ [l]) = (case first_location i locs of None \<Rightarrow> if wl_worker_id l = i then Some l else None | Some x \<Rightarrow> Some x)"
  unfolding first_location_def by (induction locs) auto

lemma insert_peer_knows:
  assumes "knows locs pt"
  shows "knows (locs @ [l]) (insert_peer l pt)"
  unfolding knows_def
proof
  fix i
  have old: "peer_ok (pt_enable_tls pt) (first_location i locs) (im_get (pt_peers pt) i)" using assms by (simp add: knows_def)
  show "peer_ok (pt_enable_tls (insert_peer l pt)) (first_location i (locs @ [l])) (im_get (pt_peers (insert_peer l pt)) i)"
    using old by (cases "i = wl_worker_id l"; cases "first_location i locs")
      (auto simp: insert_peer_def peer_ok_def first_location_snoc split: option.splits)
qed

lemma track_knows: "knows locs pt \<Longrightarrow> knows (locs @ peers) (fst (track peers pt))"
proof -
  have "knows locs pt \<Longrightarrow> knows (locs @ peers) (foldl (\<lambda>pt l. insert_peer l pt) pt peers)" for locs pt
  proof (induction peers arbitrary: locs pt)
    case (Cons l peers)
    from Cons.IH [OF insert_peer_knows [OF Cons.prems]] show ?case by simp
  qed simp
  then show "knows locs pt \<Longrightarrow> knows (locs @ peers) (fst (track peers pt))" by (simp add: track_def)
qed

lemma peer_client_set_knows:
  assumes "knows locs pt"
  shows "i \<noteq> pt_worker_id pt \<Longrightarrow> fst (peer_client_set i pt) =
      (case first_location i locs of
         None \<Rightarrow> Inl (InvalidArgument ''unknown peer worker: {worker_id}'')
       | Some l \<Rightarrow> Inr (client_of (pt_enable_tls pt) l))"
    and "knows locs (snd (peer_client_set i pt))"
proof -
  have old: "peer_ok (pt_enable_tls pt) (first_location k locs) (im_get (pt_peers pt) k)" for k using assms by (simp add: knows_def)
  show "fst (peer_client_set i pt) = (case first_location i locs of
         None \<Rightarrow> Inl (InvalidArgument ''unknown peer worker: {worker_id}'')
       | Some l \<Rightarrow> Inr (client_of (pt_enable_tls pt) l))" if "i \<noteq> pt_worker_id pt"
    using old [of i] that by (cases "first_location i locs") (auto simp: peer_ok_def peer_client_set_def client_of_def Let_def)
  show "knows locs (snd (peer_client_set i pt))" unfolding knows_def
  proof
    fix k
    have tls: "pt_enable_tls (snd (peer_client_set i pt)) = pt_enable_tls pt"
      by (simp add: peer_client_set_def Let_def split: option.split)
    show "peer_ok (pt_enable_tls (snd (peer_client_set i pt))) (first_location k locs) (im_get (pt_peers (snd (peer_client_set i pt))) k)"
    proof (cases "k = i")
      case False
      then have "im_get (pt_peers (snd (peer_client_set i pt))) k = im_get (pt_peers pt) k"
        by (simp add: peer_client_set_def Let_def split: option.split)
      with old tls show ?thesis by simp
    next
      case True
      with old [of i] tls show ?thesis
        by (cases "first_location i locs") (auto simp: peer_ok_def peer_client_set_def client_of_def Let_def)
    qed
  qed
qed

text \<open>What a worker has been told, and that it keeps to it.\<close>

definition told :: "(worker_env \<times> worker_event) list \<Rightarrow> worker_location list" where
  "told evs = concat (map (\<lambda>(_, ev). case ev of WE_RunTask _ _ peers \<Rightarrow> peers | _ \<Rightarrow> []) evs)"

definition tracker_of :: "worker_actor \<Rightarrow> worker_id \<times> bool" where
  "tracker_of w = (pt_worker_id (wk_peer_tracker w), pt_enable_tls (wk_peer_tracker w))"

lemma track_frame: "pt_worker_id (fst (track peers pt)) = pt_worker_id pt" "pt_enable_tls (fst (track peers pt)) = pt_enable_tls pt"
proof -
  have "pt_worker_id (foldl (\<lambda>pt l. insert_peer l pt) pt peers) = pt_worker_id pt \<and>
      pt_enable_tls (foldl (\<lambda>pt l. insert_peer l pt) pt peers) = pt_enable_tls pt" for pt
    by (induction peers arbitrary: pt) (auto simp: insert_peer_def split: option.splits)
  then show "pt_worker_id (fst (track peers pt)) = pt_worker_id pt" "pt_enable_tls (fst (track peers pt)) = pt_enable_tls pt"
    by (simp_all add: track_def)
qed

lemma peer_client_set_frame:
  "pt_worker_id (snd (peer_client_set i pt)) = pt_worker_id pt" "pt_enable_tls (snd (peer_client_set i pt)) = pt_enable_tls pt"
  by (simp_all add: peer_client_set_def Let_def split: option.split)

lemma worker_receive_peers:
  assumes "worker_receive env ev w = (a, w', es)" "knows locs (wk_peer_tracker w)"
  shows "knows (locs @ told [(env, ev)]) (wk_peer_tracker w')" "tracker_of w' = tracker_of w" "wk_options w' = wk_options w"
proof -
  have "(\<exists>peers. told [(env, ev)] = peers \<and> wk_peer_tracker w' = fst (track peers (wk_peer_tracker w))) \<or>
      told [(env, ev)] = [] \<and> (wk_peer_tracker w' = wk_peer_tracker w \<or> (\<exists>i. wk_peer_tracker w' = snd (peer_client_set i (wk_peer_tracker w))))"
    using assms(1)
    by (cases ev) (auto simp: worker_receive_def worker_handlers told_def Let_def
        split: sum.splits prod.splits if_splits worker_stream_owner.splits; metis snd_conv)+
  then show "knows (locs @ told [(env, ev)]) (wk_peer_tracker w')" "tracker_of w' = tracker_of w"
    using assms(2) track_knows peer_client_set_knows(2) by (auto simp: tracker_of_def track_frame peer_client_set_frame)
  show "wk_options w' = wk_options w"
    using assms(1)
    by (cases ev) (auto simp: worker_receive_def worker_handlers Let_def
        split: sum.splits prod.splits if_splits worker_stream_owner.splits)
qed

lemma worker_run_peers:
  "worker_run evs w = (Continue, w', es) \<Longrightarrow> knows locs (wk_peer_tracker w) \<Longrightarrow>
   knows (locs @ told evs) (wk_peer_tracker w') \<and> tracker_of w' = tracker_of w \<and> wk_options w' = wk_options w"
proof (induction evs arbitrary: w w' es locs)
  case (Cons ev evs)
  obtain env e where ev: "ev = (env, e)" by (cases ev)
  obtain a1 w1 es1 where r: "worker_receive env e w = (a1, w1, es1)" by (cases "worker_receive env e w")
  obtain a2 w2 es2 where rest: "worker_run evs w1 = (a2, w2, es2)" by (cases "worker_run evs w1")
  have "a1 = Continue" "w2 = w'" "a2 = Continue" using Cons.prems(1) r rest by (cases a1; auto simp: ev)+
  note step = worker_receive_peers [OF r Cons.prems(2)]
  have "told ((env, e) # evs) = told [(env, e)] @ told evs" by (simp add: told_def)
  with Cons.IH [OF rest [unfolded \<open>a2 = Continue\<close>] step(1)] step(2,3) \<open>w2 = w'\<close> show ?case by (simp add: ev)
qed (simp add: told_def)

text \<open>
  A worker that fetches a stream from another worker contacts it at the first address the driver has
  told it with a task, and answers with an error if it was never told one.
\<close>

theorem worker_fetches_from_peer:
  assumes "worker_run evs (worker_start (worker_new opts)) = (Continue, w, es)" "i \<noteq> wo_worker_id opts"
    and "worker_receive env (WE_FetchWorkerStream (Owner_Worker i sch) k) w = (a, w', es')"
  shows "es' = (case first_location i (told evs) of
      None \<Rightarrow> [W_Reply (Reply_Source (Inl (InvalidArgument ''unknown peer worker: {worker_id}'')))]
    | Some l \<Rightarrow> [W_Spawn (Call_FetchFromWorker (client_of (wo_enable_tls opts) l) k sch)])"
proof -
  have "knows [] (wk_peer_tracker (worker_start (worker_new opts)))"
    by (simp add: knows_def peer_ok_def first_location_def worker_start_def worker_new_def peer_tracker_new_def)
  from worker_run_peers [OF assms(1) this]
  have w: "knows (told evs) (wk_peer_tracker w)" "pt_worker_id (wk_peer_tracker w) = wo_worker_id opts"
      "pt_enable_tls (wk_peer_tracker w) = wo_enable_tls opts" "wk_options w = opts"
    by (simp_all add: tracker_of_def worker_start_def worker_new_def peer_tracker_new_def)
  obtain r pt where c: "peer_client_set i (wk_peer_tracker w) = (r, pt)" by fastforce
  with peer_client_set_knows(1) [OF w(1), of i, unfolded w(2,3), OF assms(2)]
  have "r = (case first_location i (told evs) of
       None \<Rightarrow> Inl (InvalidArgument ''unknown peer worker: {worker_id}'')
     | Some l \<Rightarrow> Inr (client_of (wo_enable_tls opts) l))" by simp
  with assms(2,3) c w(4) show ?thesis
    by (auto simp: worker_receive_def worker_fetch_worker_stream_def Let_def split: option.splits sum.splits)
qed

end
