(* ===== verification/Spec2Isabelle.thy ===== *)
theory Spec2Isabelle
  imports Job_Task_Inputs Task_Assigner_Correct Worker_Pool_Correct Local_Streams_Correct Stream_Manager_Correct Driver_Examples Column_Names Column_Classes Plan_Coverage
    Epoch_Coordinator Barrier_Align Watermarks Job_Output Worker_Actor
begin

text \<open>
  Zelox is a distributed query engine in Rust. This development models the part of it that decides: the
  control plane of distributed execution (crate \<open>zelox-execution\<close>), the join reordering of the physical
  optimizer (\<open>zelox-physical-optimizer/src/join_reorder\<close>), and the streaming operators and the checkpoint
  coordinator whose behaviour does not depend on array kernels (\<open>zelox-physical-plan/src/streaming\<close>,
  \<open>zelox-common-datafusion/src/streaming\<close>). Paths below are relative to the crates under \<open>src/crates\<close>.

  \<^bold>\<open>The parts and how they interact.\<close> A job graph of stages is given to the driver actor. Its job scheduler
  cuts the graph into regions, creates task attempts, and answers every change of a task state with actions.
  The driver carries the actions out: it puts regions into the queue of the task assigner, which places task
  sets on slots of the driver and of the workers; it sends the assigned tasks to workers through the worker
  pool, or runs them itself by the task runner; it extends the output stream of the job. A worker runs tasks
  by its own task runner, keeps their output in a stream manager, and reports task states with sequence
  numbers. The pool probes each worker for registration, idleness and lost heartbeats. Independently of
  this, the optimizer builds a query graph of the joins of a plan and enumerates join orders over it by
  dynamic programming; and streaming queries exchange data and markers between operators.

  \<^bold>\<open>Conventions.\<close> \<open>usize\<close> is \<open>nat\<close> where it counts or indexes, ids and bit sets are 64-bit words, \<open>i64\<close> is \<open>int\<close>
  with the wrap-around written out, \<open>f64\<close> is an abstract number type with the operations the code uses. An
  \<open>IndexMap\<close> is an association list in insertion order, a set a list without duplicates. Results are sums with
  the error on the left; a panic is \<open>None\<close>. Calls to other processes, timers and channels are effects, listed
  in the order the code makes them; clocks are arguments. Code outside the repository (DataFusion plans and
  expressions, the plan codec, protobuf, the date and array libraries, the asynchronous runtime, files)
  enters as parameters of the definitions.

  \<^bold>\<open>Theories.\<close>
  \<^item> \<open>Zelox_Prelude\<close>: machine types, errors, containers, generic lemmas, and the locales \<open>step_invariant\<close> and
    \<open>step_monotone\<close>, which give the invariant and the order of a run from those of a step. They are interpreted
    for the job scheduler, the assigner, the pool, the stream manager, the query graph and the driver.
  \<^item> \<open>Ids\<close> (\<open>id.rs\<close>, locale \<open>id_source\<close>), \<open>Job_Graph\<close> (\<open>job_graph/mod.rs\<close>), \<open>Task_Types\<close> (\<open>task/scheduling.rs\<close>,
    \<open>task/definition.rs\<close>, \<open>driver/event.rs\<close>): the data the components share.
  \<^item> \<open>Topology\<close> (\<open>driver/job_scheduler/topology.rs\<close>): the regions of a job partition its tasks, and depend on
    each other exactly through blocking outputs.
  \<^item> \<open>Job_Scheduler\<close> (\<open>driver/job_scheduler/core.rs\<close>, \<open>state.rs\<close>); \<open>Job_Scheduler_Correct\<close>, \<open>Job_Refresh\<close>,
    \<open>Job_Region_Build\<close>, \<open>Job_Task_Inputs\<close>: over every sequence of operations task states only move forward,
    attempts are bounded and only the latest is active; a refresh fails, drains or continues a job by
    the states of its tasks, cancels and schedules exactly the right attempts, and leaves no region stuck;
    a task input names each producer channel once.
  \<^item> \<open>Task_Assigner\<close>, \<open>Task_Assigner_Correct\<close> (\<open>driver/task_assigner\<close>, locale \<open>slot_source\<close> for the two placement
    policies): whole regions are assigned in the order of the queue to distinct vacant slots; assignments and
    slots agree; worker requests are within their bounds.
  \<^item> \<open>Worker_Pool\<close>, \<open>Worker_Pool_Correct\<close> (\<open>driver/worker_pool\<close>): the life cycle of workers and their probes.
  \<^item> \<open>Local_Streams\<close>, \<open>Local_Streams_Correct\<close>, \<open>Stream_Manager\<close>, \<open>Stream_Manager_Correct\<close> (\<open>stream_manager\<close>): memory
    streams lose nothing and buffer within their credit; every subscriber is served or told of an error,
    except late subscribers of disk streams.
  \<^item> \<open>Task_Runner\<close> (\<open>task_runner\<close>) and \<open>Worker_Actor\<close> (\<open>worker/actor\<close>, \<open>worker/peer_tracker\<close>): running tasks and every
    handler of a worker.
  \<^item> \<open>Driver\<close> (\<open>driver/actor\<close>): every handler, composed of the operations above. \<open>Driver_Correct\<close> has the
    locale \<open>op_logic\<close>, which carries pre- and postconditions over the handlers' sequences and loops;
    \<open>Driver_Regions\<close>, \<open>Driver_Invariant\<close>, \<open>Driver_Run\<close> and \<open>Driver_Properties\<close> prove that the scheduler, the
    assigner and the pool agree in every reachable state, that lost workers are handled, that stale updates
    have no effect, that assigned tasks are dispatched and that no handler panics. \<open>Driver_Examples\<close> holds
    concrete runs. The properties that span components are in these theories.
  \<^item> \<open>Job_Output\<close> (\<open>driver/output.rs\<close>): which attempts reach the consumer of a job.
  \<^item> \<open>Join_Set\<close> (\<open>join_set.rs\<close>, locale \<open>small_sets\<close>), \<open>Query_Graph\<close> and \<open>Column_Names\<close> (\<open>graph.rs\<close>),
    \<open>Cardinality_Estimator\<close> and \<open>Column_Classes\<close> (\<open>cardinality_estimator.rs\<close>), \<open>Plan_Enumerator\<close> (\<open>enumerator.rs\<close>,
    \<open>dp_plan.rs\<close>, \<open>cost_model.rs\<close>), \<open>Plan_Coverage\<close> (\<open>mod.rs\<close>): bit sets refine finite sets, the trie search equals
    a scan, equivalence sets are the classes of the join columns, and every plan joins each relation once.
  \<^item> \<open>Enumeration_Order\<close>, \<open>Enumerator_Refinement\<close>, \<open>Enumerator_Completes\<close>, \<open>Plan_Optimality\<close> (locale \<open>plan_order\<close>),
    \<open>Plan_Solve\<close>, \<open>Exact_Costs\<close>: the recursive enumeration refines a walk over lists of sets, stays below its
    limit, finds a plan without cross products whenever there is one, and in exact arithmetic the cheapest.
  \<^item> \<open>Flow_Marker\<close> (\<open>streaming/event\<close>), \<open>Epoch_Coordinator\<close> (\<open>coordinator.rs\<close>), \<open>Barrier_Align\<close>, \<open>Stream_Limit\<close>,
    \<open>Stream_Dedup\<close>, \<open>Watermarks\<close> (files of the same names): checkpoints are committed exactly when all tasks
    acknowledged, in order; merged streams stay aligned at barriers; limits and deduplication equal their
    definitions on the row sequence; watermarks follow event time.

  \<^bold>\<open>Bounds.\<close> No definition of the model uses fuel (only \<open>align_drive\<close>, which builds a concrete run of the alignment for a
  witness, counts its steps); recursion that is not structural has a termination proof (the
  breadth-first search by unvisited stages, the enumeration by relations outside the current set, the
  greedy loop by the sets left). The results on the enumeration are for fewer than ten relations, where the
  limit of 10000 pairs cannot be reached; with more the enumeration may give up by design, and
  \<open>Plan_Coverage\<close> holds for fewer than 64 relations, beyond the builder's maximum of 12. Optimality is in exact
  arithmetic, as rounding of floating-point costs may reorder plans of nearly equal cost. That refreshes do
  not get stuck is shown for pipelined jobs, and that the driver does not panic for job graphs that refer to
  their own stages and workers with at least one slot. The watermark property is for the operator without
  a partition column; for the other one only the candidate of a turn is characterised.

  \<^bold>\<open>Not modelled.\<close> Code that mainly takes apart or builds DataFusion plans and Arrow arrays: the planner and the
  codec of job graphs, shuffle plans, the graph builder and the plan reconstruction of the join reordering,
  the other optimizer rules and plan nodes, functions, the SQL front end, and the streaming exchange, window
  aggregation, join and state files. Pure I/O and wrappers of services: RPC servers and clients, worker
  managers, leader election, catalogs, table formats, object stores, the checkpoint store, sessions,
  telemetry, Python bindings, the command line. The rows of the system catalog that the driver's observers
  compute. Wakers and fairness of the asynchronous runtime, so that liveness is about what a handler leaves
  behind, not about time. Display implementations are modelled only where another part reads the text.
\<close>

end
